(* ===== verification/Prelude.thy ===== *)
theory Prelude
  imports "HOL-Library.Word"
begin

text \<open>
  Material shared by every component theory.

  \<^item> Machine integers: C's \<^verbatim>\<open>uchar\<close>, \<^verbatim>\<open>ushort\<close>, \<^verbatim>\<open>uint\<close> and \<^verbatim>\<open>uint64\<close>
    (\<^verbatim>\<open>kernel/types.h\<close>) are words of 8, 16, 32 and 64 bits.
  \<^item> Byte stores: physical memory and disk blocks are functions from byte offsets to bytes.
    \<open>ld\<close> and \<open>st\<close> read and write little-endian numbers of any width; the load-after-store
    laws are proved once, by induction on the width.
  \<^item> Byte ranges: \<open>fill\<close> and \<open>copy\<close> are what a \<^verbatim>\<open>memset\<close> or a \<^verbatim>\<open>memmove\<close> leaves behind.
  \<^item> The theorem collections \<open>km_simps\<close> (running kernel code) and \<open>bytes_simps\<close>
    (reading a byte store after a write), which the component proofs pass to the simplifier.
\<close>

unbundle bit_operations_syntax

named_theorems km_simps "execution of kernel code on a concrete or symbolic state"
named_theorems bytes_simps "reads of a byte store after a write"

subsection \<open>Machine integers\<close>

type_synonym byte = "8 word"
type_synonym u16 = "16 word"
type_synonym u32 = "32 word"
type_synonym i32 = "32 word"
type_synonym u64 = "64 word"

type_synonym bytes = "nat \<Rightarrow> byte"

subsection \<open>Little-endian numbers in a byte store\<close>

fun ld :: "nat \<Rightarrow> bytes \<Rightarrow> nat \<Rightarrow> nat" where
  "ld 0 m a = 0"
| "ld (Suc k) m a = unat (m a) + 256 * ld k m (Suc a)"

fun st :: "nat \<Rightarrow> nat \<Rightarrow> nat \<Rightarrow> bytes \<Rightarrow> bytes" where
  "st 0 v a m = m"
| "st (Suc k) v a m = st k (v div 256) (Suc a) (m(a := word_of_nat v))"

definition ld16 :: "bytes \<Rightarrow> nat \<Rightarrow> u16" where
  "ld16 m a = word_of_nat (ld 2 m a)"

definition ld32 :: "bytes \<Rightarrow> nat \<Rightarrow> u32" where
  "ld32 m a = word_of_nat (ld 4 m a)"

definition ld64 :: "bytes \<Rightarrow> nat \<Rightarrow> u64" where
  "ld64 m a = word_of_nat (ld 8 m a)"

definition st16 :: "nat \<Rightarrow> u16 \<Rightarrow> bytes \<Rightarrow> bytes" where
  "st16 a w m = st 2 (unat w) a m"

definition st32 :: "nat \<Rightarrow> u32 \<Rightarrow> bytes \<Rightarrow> bytes" where
  "st32 a w m = st 4 (unat w) a m"

definition st64 :: "nat \<Rightarrow> u64 \<Rightarrow> bytes \<Rightarrow> bytes" where
  "st64 a w m = st 8 (unat w) a m"

subsection \<open>Byte ranges\<close>

definition fill :: "nat \<Rightarrow> byte \<Rightarrow> nat \<Rightarrow> bytes \<Rightarrow> bytes" where
  "fill a c n m = (\<lambda>i. if a \<le> i \<and> i < a + n then c else m i)"

definition copy :: "nat \<Rightarrow> bytes \<Rightarrow> nat \<Rightarrow> nat \<Rightarrow> bytes \<Rightarrow> bytes" where
  "copy d src a n m = (\<lambda>i. if d \<le> i \<and> i < d + n then src (a + (i - d)) else m i)"

definition agree_on :: "nat set \<Rightarrow> bytes \<Rightarrow> bytes \<Rightarrow> bool" where
  "agree_on A m m' \<longleftrightarrow> (\<forall>i\<in>A. m' i = m i)"

lemma st_outside: "i < a \<or> a + k \<le> i \<Longrightarrow> st k v a m i = m i"
  by (induction k v a m rule: st.induct) auto

lemma ld_cong: "(\<And>i. a \<le> i \<Longrightarrow> i < a + k \<Longrightarrow> m' i = m i) \<Longrightarrow> ld k m' a = ld k m a"
  by (induction k m a rule: ld.induct) auto

lemma ld_st_disjoint: "a + k \<le> b \<or> b + j \<le> a \<Longrightarrow> ld k (st j v b m) a = ld k m a"
  by (rule ld_cong) (auto intro: st_outside)

lemma unat_byte_of_nat: "unat (word_of_nat v :: byte) = v mod 256"
  by (simp add: unat_of_nat)

lemma ld_st_same: "ld k (st k v a m) a = v mod 256 ^ k"
proof (induction k v a m rule: st.induct)
  case (1 v a m)
  show ?case by simp
next
  case (2 k v a m)
  have "ld (Suc k) (st (Suc k) v a m) a = v mod 256 + 256 * (v div 256 mod 256 ^ k)"
    using "2.IH" by (simp add: st_outside unat_byte_of_nat fun_upd_def)
  also have "\<dots> = v mod 256 ^ Suc k"
    by (simp add: mod_mult2_eq)
  finally show ?case .
qed

lemma ld_bound: "ld k m a < 256 ^ k"
proof (induction k m a rule: ld.induct)
  case (1 m a)
  show ?case by simp
next
  case (2 k m a)
  have "unat (m a) < 256"
    using unsigned_less [of "m a"] by simp
  then show ?case using 2 by simp
qed

lemma ld_fill_inside: "a \<le> b \<Longrightarrow> b + k \<le> a + n \<Longrightarrow> ld k (fill a 0 n m) b = 0"
  by (induction k m b rule: ld.induct) (auto simp: fill_def)

lemma ld_fill_disjoint: "b + k \<le> a \<or> a + n \<le> b \<Longrightarrow> ld k (fill a c n m) b = ld k m b"
  by (rule ld_cong) (auto simp: fill_def)

lemma ld_copy_disjoint: "b + k \<le> d \<or> d + n \<le> b \<Longrightarrow> ld k (copy d src a n m) b = ld k m b"
  by (rule ld_cong) (auto simp: copy_def)

lemma ld_copy_inside: "d \<le> b \<Longrightarrow> b + k \<le> d + n \<Longrightarrow>
   ld k (copy d src a n m) b = ld k src (a + (b - d))"
  by (induction k m b rule: ld.induct) (auto simp: copy_def Suc_diff_le)

text \<open>The width-specific loads and stores.\<close>

lemma ld16_st16 [bytes_simps]: "ld16 (st16 a w m) a = w"
proof -
  have "unat w < 256 ^ 2" using unsigned_less [of w, where 'a = nat] by simp
  then show ?thesis by (simp only: ld16_def st16_def ld_st_same mod_less) simp
qed

lemma ld32_st32 [bytes_simps]: "ld32 (st32 a w m) a = w"
proof -
  have "unat w < 256 ^ 4" using unsigned_less [of w, where 'a = nat] by simp
  then show ?thesis by (simp only: ld32_def st32_def ld_st_same mod_less) simp
qed

lemma ld64_st64 [bytes_simps]: "ld64 (st64 a w m) a = w"
proof -
  have "unat w < 256 ^ 8" using unsigned_less [of w, where 'a = nat] by simp
  then show ?thesis by (simp only: ld64_def st64_def ld_st_same mod_less) simp
qed

lemma ld64_st64_disjoint [bytes_simps]:
  "a + 8 \<le> b \<or> b + 8 \<le> a \<Longrightarrow> ld64 (st64 b w m) a = ld64 m a"
  by (simp add: ld64_def st64_def ld_st_disjoint)

lemma ld32_st32_disjoint [bytes_simps]:
  "a + 4 \<le> b \<or> b + 4 \<le> a \<Longrightarrow> ld32 (st32 b w m) a = ld32 m a"
  by (simp add: ld32_def st32_def ld_st_disjoint)

lemma ld64_fill_zero [bytes_simps]:
  "a \<le> b \<Longrightarrow> b + 8 \<le> a + n \<Longrightarrow> ld64 (fill a 0 n m) b = 0"
  by (simp add: ld64_def ld_fill_inside)

lemma ld64_fill_disjoint [bytes_simps]:
  "b + 8 \<le> a \<or> a + n \<le> b \<Longrightarrow> ld64 (fill a c n m) b = ld64 m b"
  by (simp add: ld64_def ld_fill_disjoint)

lemma ld64_copy_disjoint [bytes_simps]:
  "b + 8 \<le> d \<or> d + n \<le> b \<Longrightarrow> ld64 (copy d src a n m) b = ld64 m b"
  by (simp add: ld64_def ld_copy_disjoint)

lemma ld64_cong: "(\<And>i. a \<le> i \<Longrightarrow> i < a + 8 \<Longrightarrow> m' i = m i) \<Longrightarrow> ld64 m' a = ld64 m a"
  using ld_cong [of a 8 m' m] by (simp add: ld64_def)

lemma st64_outside [bytes_simps]: "i < a \<or> a + 8 \<le> i \<Longrightarrow> st64 a w m i = m i"
  by (simp add: st64_def st_outside)

lemma fill_outside [bytes_simps]: "i < a \<or> a + n \<le> i \<Longrightarrow> fill a c n m i = m i"
  by (auto simp: fill_def)

lemma fill_inside [bytes_simps]: "a \<le> i \<Longrightarrow> i < a + n \<Longrightarrow> fill a c n m i = c"
  by (auto simp: fill_def)

lemma copy_outside [bytes_simps]: "i < d \<or> d + n \<le> i \<Longrightarrow> copy d src a n m i = m i"
  by (auto simp: copy_def)

lemma copy_inside [bytes_simps]: "i < n \<Longrightarrow> copy d src a n m (d + i) = src (a + i)"
  by (auto simp: copy_def)

lemma copy_zero [simp]: "copy d src a 0 m = m"
  by (rule ext) (auto simp: copy_def)

lemma fill_zero [simp]: "fill a c 0 m = m"
  by (rule ext) (auto simp: fill_def)

subsection \<open>Bit masks as arithmetic\<close>

lemma unat_u64: "unat w < 18446744073709551616" for w :: u64
  using unsigned_less [of w, where 'a = nat] by simp

lemma unat_u32: "unat w < 4294967296" for w :: u32
  using unsigned_less [of w, where 'a = nat] by simp

lemma unat_take_bit: "unat (take_bit n w) = unat w mod 2 ^ n" for w :: "'a::len word"
  unfolding unsigned_take_bit_eq by (rule take_bit_eq_mod)

lemma unat_drop_bit: "unat (drop_bit n w) = unat w div 2 ^ n" for w :: "'a::len word"
  unfolding unat_drop_bit_eq by (rule drop_bit_eq_div)

lemma and_low_mask: "w AND mask n = take_bit n w" for w :: "'a::len word"
  by (simp add: take_bit_eq_mask)

lemma and_not_low_mask: "w AND NOT (mask n) = w - take_bit n w" for w :: "'a::len word"
proof -
  have "w AND NOT (mask n) = push_bit n (drop_bit n w)"
    by (rule bit_word_eqI) (auto simp: bit_simps)
  moreover have "push_bit n (drop_bit n w) + take_bit n w = w"
    by (rule bits_ident)
  ultimately show ?thesis by (metis add_diff_cancel_right')
qed

lemma unat_round_down: "unat (w AND NOT (mask n)) = unat w - unat w mod 2 ^ n" for w :: "'a::len word"
proof -
  have "take_bit n w \<le> w" 
    by (simp add: word_le_nat_alt unat_take_bit)
  then show ?thesis by (simp add: and_not_low_mask unat_sub unat_take_bit)
qed

lemma bit_above: "unat w < 2 ^ n \<Longrightarrow> n \<le> k \<Longrightarrow> \<not> bit w k" for w :: "'a::len word"
proof -
  assume "unat w < 2 ^ n" "n \<le> k"
  then have "take_bit n w = w"
    by (simp add: word_unat_eq_iff unat_take_bit)
  with \<open>n \<le> k\<close> show ?thesis
    by (metis bit_take_bit_iff not_le)
qed

lemma bit_below: "unat w mod 2 ^ n = 0 \<Longrightarrow> k < n \<Longrightarrow> \<not> bit w k" for w :: "'a::len word"
proof -
  assume "unat w mod 2 ^ n = 0" "k < n"
  then have "take_bit n w = 0"
    by (simp add: word_unat_eq_iff unat_take_bit)
  with \<open>k < n\<close> show ?thesis
    by (metis bit_0_eq bit_take_bit_iff bot_apply bot_bool_def)
qed

end
