(* ===== verification/Kmonad.thy ===== *)
theory Kmonad
  imports Prelude
begin

text \<open>
  How kernel code is represented.

  A kernel routine is a function from a schedule and a state to an outcome. It returns a value
  (\<open>Ret\<close>), stops the machine with \<^verbatim>\<open>panic\<close> (\<open>Panic\<close>, with the message), spins on a lock no
  one releases (\<open>Spin\<close>), has been switched away and is not resumed (\<open>Off\<close>), or runs a loop
  that never leaves the CPU and never ends (\<open>Diverge\<close>).

  The schedule stands for the rest of the system. A thread that gives up the CPU
  (\<^verbatim>\<open>swtch\<close> in \<^verbatim>\<open>kernel/proc.c\<close>) or spins on a lock consumes the next entry: the state
  transformation that all other threads, CPUs and interrupt handlers perform until the thread
  runs again. When the schedule is exhausted the thread stays where it is. A statement for every
  schedule is a statement for every interleaving at those points; loops around \<^verbatim>\<open>sleep\<close>
  consume one entry per iteration, so they are total functions without a bound on the number of
  wake-ups.

  Kernel objects that C identifies by address (locks, sleep channels) are named by
  constructors: distinct objects have distinct names.
\<close>

subsection \<open>Names of locks and sleep channels\<close>

datatype slid = SL_buf nat | SL_inode nat

datatype lockid =
    L_kmem | L_pid | L_proc nat | L_ticks | L_bcache | L_log | L_icache | L_ftable
  | L_pipe u64 | L_cons | L_uart_tx | L_vdisk | L_pr | L_sleep slid

datatype chan =
    Ch_proc nat | Ch_ticks | Ch_log | Ch_sleeplock slid | Ch_nread u64 | Ch_nwrite u64
  | Ch_cons_r | Ch_uart_tx_r | Ch_buf nat | Ch_disk_free

subsection \<open>Outcomes and the monad\<close>

type_synonym 's sched = "('s \<Rightarrow> 's) list"

datatype ('s, 'a) res =
    Ret 'a "('s \<Rightarrow> 's) list" 's
  | Panic string
  | Spin lockid
  | Off 's
  | Diverge

type_synonym ('s, 'a) km = "'s sched \<Rightarrow> 's \<Rightarrow> ('s, 'a) res"

definition ret :: "'a \<Rightarrow> ('s, 'a) km" where
  "ret a es s = Ret a es s"

definition panic :: "string \<Rightarrow> ('s, 'a) km" where
  "panic msg es s = Panic msg"

definition bnd :: "('s, 'a) km \<Rightarrow> ('a \<Rightarrow> ('s, 'b) km) \<Rightarrow> ('s, 'b) km" where
  "bnd m f es s =
     (case m es s of
        Ret a es' s' \<Rightarrow> f a es' s'
      | Panic msg \<Rightarrow> Panic msg
      | Spin lk \<Rightarrow> Spin lk
      | Off s' \<Rightarrow> Off s'
      | Diverge \<Rightarrow> Diverge)"

definition sq :: "('s, unit) km \<Rightarrow> ('s, 'b) km \<Rightarrow> ('s, 'b) km" where
  "sq m n = bnd m (\<lambda>_. n)"

definition gets :: "('s \<Rightarrow> 'a) \<Rightarrow> ('s, 'a) km" where
  "gets f es s = Ret (f s) es s"

definition modify :: "('s \<Rightarrow> 's) \<Rightarrow> ('s, unit) km" where
  "modify f es s = Ret () es (f s)"

definition guard :: "bool \<Rightarrow> string \<Rightarrow> ('s, unit) km" where
  "guard b msg = (if b then ret () else panic msg)"

definition whenk :: "bool \<Rightarrow> ('s, unit) km \<Rightarrow> ('s, unit) km" where
  "whenk b m = (if b then m else ret ())"

fun seqs :: "('s, unit) km list \<Rightarrow> ('s, unit) km" where
  "seqs [] = ret ()"
| "seqs (m # ms) = sq m (seqs ms)"

text \<open>The rest of the system runs until this thread is resumed.\<close>

definition others_run :: "('s, unit) km" where
  "others_run es s = (case es of [] \<Rightarrow> Off s | e # es' \<Rightarrow> Ret () es' (e s))"

subsection \<open>Loops\<close>

text \<open>
  \<open>each xs f\<close> is a counted \<^verbatim>\<open>for\<close> loop over \<open>xs\<close> whose body may leave the enclosing
  function early (\<open>Some r\<close>) or go on (\<open>None\<close>).
\<close>

fun each :: "'i list \<Rightarrow> ('i \<Rightarrow> ('s, 'r option) km) \<Rightarrow> ('s, 'r option) km" where
  "each [] f = ret None"
| "each (x # xs) f =
     bnd (f x) (\<lambda>r. case r of Some v \<Rightarrow> ret (Some v) | None \<Rightarrow> each xs f)"

definition each_do :: "'i list \<Rightarrow> ('i \<Rightarrow> ('s, unit) km) \<Rightarrow> ('s, unit) km" where
  "each_do xs f = bnd (each xs (\<lambda>x. sq (f x) (ret (None :: unit option)))) (\<lambda>_. ret ())"

text \<open>
  \<open>for_while c a d f\<close> is \<^verbatim>\<open>for (; c(a); a += d) f(a)\<close> on 64-bit addresses. A loop variable
  that wraps around starts again from the bottom of the address space: \<open>Diverge\<close>.
\<close>

function for_while ::
    "(u64 \<Rightarrow> bool) \<Rightarrow> u64 \<Rightarrow> u64 \<Rightarrow> (u64 \<Rightarrow> ('s, 'r option) km) \<Rightarrow> ('s, 'r option) km" where
  "for_while c a d f es s =
     (if c a then
        (case f a es s of
           Ret (Some r) es' s' \<Rightarrow> Ret (Some r) es' s'
         | Ret None es' s' \<Rightarrow> if a < a + d then for_while c (a + d) d f es' s' else Diverge
         | Panic msg \<Rightarrow> Panic msg
         | Spin lk \<Rightarrow> Spin lk
         | Off s' \<Rightarrow> Off s'
         | Diverge \<Rightarrow> Diverge)
      else Ret None es s)"
  by pat_completeness auto
termination
  by (relation "measure (\<lambda>(c, a, d, f, es, s). 2 ^ 64 - unat a)")
     (auto simp: word_less_nat_alt intro!: diff_less_mono2 unat_u64)

declare for_while.simps [simp del]

abbreviation for_up :: "u64 \<Rightarrow> u64 \<Rightarrow> u64 \<Rightarrow> (u64 \<Rightarrow> ('s, 'r option) km) \<Rightarrow> ('s, 'r option) km" where
  "for_up a b \<equiv> for_while (\<lambda>i. i < b) a"

text \<open>
  \<open>wait_loop body\<close> repeats \<open>body\<close> until it yields \<open>Some r\<close>. Every iteration that yields
  \<open>None\<close> has slept (consumed a schedule entry); one that has not would be a busy loop.
\<close>

function wait_loop :: "('s, 'r option) km \<Rightarrow> ('s, 'r) km" where
  "wait_loop body es s =
     (case body es s of
        Ret (Some r) es' s' \<Rightarrow> Ret r es' s'
      | Ret None es' s' \<Rightarrow> if length es' < length es then wait_loop body es' s' else Diverge
      | Panic msg \<Rightarrow> Panic msg
      | Spin lk \<Rightarrow> Spin lk
      | Off s' \<Rightarrow> Off s'
      | Diverge \<Rightarrow> Diverge)"
  by pat_completeness auto
termination
  by (relation "measure (\<lambda>(body, es, s). length es)") auto

declare wait_loop.simps [simp del]

subsection \<open>Running code symbolically\<close>

lemma ret_run [km_simps]: "ret a es s = Ret a es s"
  by (simp add: ret_def)

lemma panic_run [km_simps]: "panic msg es s = Panic msg"
  by (simp add: panic_def)

lemma gets_run [km_simps]: "gets f es s = Ret (f s) es s"
  by (simp add: gets_def)

lemma modify_run [km_simps]: "modify f es s = Ret () es (f s)"
  by (simp add: modify_def)

lemma sq_run [km_simps]: "sq m n es s = bnd m (\<lambda>_. n) es s"
  by (simp add: sq_def)

lemma guard_run [km_simps]: "guard b msg es s = (if b then Ret () es s else Panic msg)"
  by (simp add: guard_def km_simps)

lemma whenk_run [km_simps]: "whenk b m es s = (if b then m es s else Ret () es s)"
  by (simp add: whenk_def km_simps)

text \<open>A routine may call itself in what follows a \<open>bnd\<close>.\<close>

lemma bnd_cong [fundef_cong]:
  "m = m' \<Longrightarrow> es = es' \<Longrightarrow> s = s' \<Longrightarrow>
     (\<And>a fs t. m' es' s' = Ret a fs t \<Longrightarrow> f a fs t = f' a fs t) \<Longrightarrow> bnd m f es s = bnd m' f' es' s'"
  by (simp add: bnd_def split: res.splits)

lemma bnd_Ret: "m es s = Ret a es' s' \<Longrightarrow> bnd m f es s = f a es' s'"
  by (simp add: bnd_def)

lemma bnd_Panic: "m es s = Panic msg \<Longrightarrow> bnd m f es s = Panic msg"
  by (simp add: bnd_def)

declare bnd_def [km_simps]

lemma bnd_eq_Ret:
  "bnd m f es s = Ret b es' s' \<longleftrightarrow>
     (\<exists>a es1 s1. m es s = Ret a es1 s1 \<and> f a es1 s1 = Ret b es' s')"
  by (auto simp: bnd_def split: res.splits)

lemma bnd_eq_Panic:
  "bnd m f es s = Panic msg \<longleftrightarrow>
     m es s = Panic msg \<or> (\<exists>a es1 s1. m es s = Ret a es1 s1 \<and> f a es1 s1 = Panic msg)"
  by (auto simp: bnd_def split: res.splits)

lemma bnd_assoc: "bnd (bnd m f) g = bnd m (\<lambda>a. bnd (f a) g)"
  by (intro ext) (simp add: bnd_def split: res.splits)

lemma bnd_ret [simp]: "bnd (ret a) f = f a"
  by (intro ext) (simp add: bnd_def ret_def)

lemma for_while_done: "\<not> c a \<Longrightarrow> for_while c a d f es s = Ret None es s"
  by (subst for_while.simps) simp

lemma for_while_step:
  "c a \<Longrightarrow> f a es s = Ret None es' s' \<Longrightarrow> a < a + d \<Longrightarrow>
     for_while c a d f es s = for_while c (a + d) d f es' s'"
  by (subst for_while.simps) simp

lemma for_while_exit:
  "c a \<Longrightarrow> f a es s = Ret (Some r) es' s' \<Longrightarrow> for_while c a d f es s = Ret (Some r) es' s'"
  by (subst for_while.simps) simp

lemma for_while_Panic: "c a \<Longrightarrow> f a es s = Panic msg \<Longrightarrow> for_while c a d f es s = Panic msg"
  by (subst for_while.simps) simp

lemma wait_loop_done: "body es s = Ret (Some r) es' s' \<Longrightarrow> wait_loop body es s = Ret r es' s'"
  by (subst wait_loop.simps) simp

lemma wait_loop_again:
  "body es s = Ret None es' s' \<Longrightarrow> length es' < length es \<Longrightarrow>
     wait_loop body es s = wait_loop body es' s'"
  by (subst wait_loop.simps) simp

lemma wait_loop_Panic: "body es s = Panic msg \<Longrightarrow> wait_loop body es s = Panic msg"
  by (subst wait_loop.simps) simp

text \<open>
  The rule for loops around \<^verbatim>\<open>sleep\<close>: whatever the schedule, an invariant of the
  iterations holds when the loop is left.
\<close>

lemma wait_loop_rule:
  assumes "wait_loop body es s = Ret r es' s'"
    and "P s"
    and again: "\<And>es s es' s'. P s \<Longrightarrow> body es s = Ret None es' s' \<Longrightarrow> P s'"
    and finish: "\<And>es s r es' s'. P s \<Longrightarrow> body es s = Ret (Some r) es' s' \<Longrightarrow> Q r s'"
  shows "Q r s'"
  using assms(1,2)
proof (induction es arbitrary: s rule: measure_induct_rule [where f = length])
  case (less es)
  note unfolded = less.prems(1) [unfolded wait_loop.simps [of body es s]]
  show ?case
  proof (cases "body es s")
    case (Ret a es1 s1)
    show ?thesis
    proof (cases a)
      case None
      with Ret unfolded have "length es1 < length es" "wait_loop body es1 s1 = Ret r es' s'"
        by (auto split: if_splits)
      moreover have "P s1"
        using again less.prems(2) Ret None by blast
      ultimately show ?thesis
        using less.IH by blast
    next
      case (Some v)
      with Ret unfolded have "body es s = Ret (Some r) es' s'" by simp
      then show ?thesis using finish less.prems(2) by blast
    qed
  qed (use unfolded in auto)
qed

lemma seqs_append: "seqs (ms @ ns) = sq (seqs ms) (seqs ns)"
  by (induction ms) (simp_all add: sq_def bnd_assoc)

end
