(* ===== verification/Riscv.thy ===== *)
theory Riscv
  imports Kmonad
begin

text \<open>
  The RISC-V machine as \<^verbatim>\<open>kernel/riscv.h\<close> and \<^verbatim>\<open>kernel/memlayout.h\<close> present it: the
  control and status registers of one hart with their accessors, the interrupt-enable bit, the
  arithmetic of pages, page-table entries and Sv39 virtual addresses, and the physical and
  virtual memory layout. The registers are independent fields: the hardware's read-only views
  (\<^verbatim>\<open>sstatus\<close> of \<^verbatim>\<open>mstatus\<close>, \<^verbatim>\<open>sie\<close> of \<^verbatim>\<open>mie\<close>) are not related.

  The lemmas turn the bit masks into arithmetic on natural numbers: rounding to pages, the
  split of an address into three table indices and an offset, and the packing of a physical
  page and its permissions into an entry.
\<close>

subsection \<open>Control and status registers of a hart\<close>

record csr =
  c_mhartid :: u64
  c_mstatus :: u64
  c_mepc :: u64
  c_sstatus :: u64
  c_sip :: u64
  c_sie :: u64
  c_mie :: u64
  c_sepc :: u64
  c_medeleg :: u64
  c_mideleg :: u64
  c_stvec :: u64
  c_mtvec :: u64
  c_pmpcfg0 :: u64
  c_pmpaddr0 :: u64
  c_satp :: u64
  c_sscratch :: u64
  c_mscratch :: u64
  c_scause :: u64
  c_stval :: u64
  c_mcounteren :: u64
  c_time :: u64
  c_sp :: u64
  c_tp :: u64
  c_ra :: u64

definition r_mhartid :: "csr \<Rightarrow> u64" where
  "r_mhartid h = c_mhartid h"

abbreviation (input) MSTATUS_MPP_MASK :: u64 where "MSTATUS_MPP_MASK \<equiv> push_bit 11 3"
abbreviation (input) MSTATUS_MPP_M :: u64 where "MSTATUS_MPP_M \<equiv> push_bit 11 3"
abbreviation (input) MSTATUS_MPP_S :: u64 where "MSTATUS_MPP_S \<equiv> push_bit 11 1"
abbreviation (input) MSTATUS_MPP_U :: u64 where "MSTATUS_MPP_U \<equiv> push_bit 11 0"
abbreviation (input) MSTATUS_MIE :: u64 where "MSTATUS_MIE \<equiv> push_bit 3 1"

definition r_mstatus :: "csr \<Rightarrow> u64" where
  "r_mstatus h = c_mstatus h"

definition w_mstatus :: "u64 \<Rightarrow> csr \<Rightarrow> csr" where
  "w_mstatus x h = h\<lparr>c_mstatus := x\<rparr>"

definition w_mepc :: "u64 \<Rightarrow> csr \<Rightarrow> csr" where
  "w_mepc x h = h\<lparr>c_mepc := x\<rparr>"

abbreviation (input) SSTATUS_SPP :: u64 where "SSTATUS_SPP \<equiv> push_bit 8 1"
abbreviation (input) SSTATUS_SPIE :: u64 where "SSTATUS_SPIE \<equiv> push_bit 5 1"
abbreviation (input) SSTATUS_UPIE :: u64 where "SSTATUS_UPIE \<equiv> push_bit 4 1"
abbreviation (input) SSTATUS_SIE :: u64 where "SSTATUS_SIE \<equiv> push_bit 1 1"
abbreviation (input) SSTATUS_UIE :: u64 where "SSTATUS_UIE \<equiv> push_bit 0 1"

definition r_sstatus :: "csr \<Rightarrow> u64" where
  "r_sstatus h = c_sstatus h"

definition w_sstatus :: "u64 \<Rightarrow> csr \<Rightarrow> csr" where
  "w_sstatus x h = h\<lparr>c_sstatus := x\<rparr>"

definition r_sip :: "csr \<Rightarrow> u64" where
  "r_sip h = c_sip h"

definition w_sip :: "u64 \<Rightarrow> csr \<Rightarrow> csr" where
  "w_sip x h = h\<lparr>c_sip := x\<rparr>"

abbreviation (input) SIE_SEIE :: u64 where "SIE_SEIE \<equiv> push_bit 9 1"
abbreviation (input) SIE_STIE :: u64 where "SIE_STIE \<equiv> push_bit 5 1"
abbreviation (input) SIE_SSIE :: u64 where "SIE_SSIE \<equiv> push_bit 1 1"

definition r_sie :: "csr \<Rightarrow> u64" where
  "r_sie h = c_sie h"

definition w_sie :: "u64 \<Rightarrow> csr \<Rightarrow> csr" where
  "w_sie x h = h\<lparr>c_sie := x\<rparr>"

abbreviation (input) MIE_MEIE :: u64 where "MIE_MEIE \<equiv> push_bit 11 1"
abbreviation (input) MIE_MTIE :: u64 where "MIE_MTIE \<equiv> push_bit 7 1"
abbreviation (input) MIE_MSIE :: u64 where "MIE_MSIE \<equiv> push_bit 3 1"

definition r_mie :: "csr \<Rightarrow> u64" where
  "r_mie h = c_mie h"

definition w_mie :: "u64 \<Rightarrow> csr \<Rightarrow> csr" where
  "w_mie x h = h\<lparr>c_mie := x\<rparr>"

definition w_sepc :: "u64 \<Rightarrow> csr \<Rightarrow> csr" where
  "w_sepc x h = h\<lparr>c_sepc := x\<rparr>"

definition r_sepc :: "csr \<Rightarrow> u64" where
  "r_sepc h = c_sepc h"

definition r_medeleg :: "csr \<Rightarrow> u64" where
  "r_medeleg h = c_medeleg h"

definition w_medeleg :: "u64 \<Rightarrow> csr \<Rightarrow> csr" where
  "w_medeleg x h = h\<lparr>c_medeleg := x\<rparr>"

definition r_mideleg :: "csr \<Rightarrow> u64" where
  "r_mideleg h = c_mideleg h"

definition w_mideleg :: "u64 \<Rightarrow> csr \<Rightarrow> csr" where
  "w_mideleg x h = h\<lparr>c_mideleg := x\<rparr>"

definition w_stvec :: "u64 \<Rightarrow> csr \<Rightarrow> csr" where
  "w_stvec x h = h\<lparr>c_stvec := x\<rparr>"

definition r_stvec :: "csr \<Rightarrow> u64" where
  "r_stvec h = c_stvec h"

definition w_mtvec :: "u64 \<Rightarrow> csr \<Rightarrow> csr" where
  "w_mtvec x h = h\<lparr>c_mtvec := x\<rparr>"

definition w_pmpcfg0 :: "u64 \<Rightarrow> csr \<Rightarrow> csr" where
  "w_pmpcfg0 x h = h\<lparr>c_pmpcfg0 := x\<rparr>"

definition w_pmpaddr0 :: "u64 \<Rightarrow> csr \<Rightarrow> csr" where
  "w_pmpaddr0 x h = h\<lparr>c_pmpaddr0 := x\<rparr>"

definition w_satp :: "u64 \<Rightarrow> csr \<Rightarrow> csr" where
  "w_satp x h = h\<lparr>c_satp := x\<rparr>"

definition r_satp :: "csr \<Rightarrow> u64" where
  "r_satp h = c_satp h"

definition w_sscratch :: "u64 \<Rightarrow> csr \<Rightarrow> csr" where
  "w_sscratch x h = h\<lparr>c_sscratch := x\<rparr>"

definition w_mscratch :: "u64 \<Rightarrow> csr \<Rightarrow> csr" where
  "w_mscratch x h = h\<lparr>c_mscratch := x\<rparr>"

definition r_scause :: "csr \<Rightarrow> u64" where
  "r_scause h = c_scause h"

definition r_stval :: "csr \<Rightarrow> u64" where
  "r_stval h = c_stval h"

definition w_mcounteren :: "u64 \<Rightarrow> csr \<Rightarrow> csr" where
  "w_mcounteren x h = h\<lparr>c_mcounteren := x\<rparr>"

definition r_mcounteren :: "csr \<Rightarrow> u64" where
  "r_mcounteren h = c_mcounteren h"

definition r_time :: "csr \<Rightarrow> u64" where
  "r_time h = c_time h"

definition r_sp :: "csr \<Rightarrow> u64" where
  "r_sp h = c_sp h"

definition r_tp :: "csr \<Rightarrow> u64" where
  "r_tp h = c_tp h"

definition w_tp :: "u64 \<Rightarrow> csr \<Rightarrow> csr" where
  "w_tp x h = h\<lparr>c_tp := x\<rparr>"

definition r_ra :: "csr \<Rightarrow> u64" where
  "r_ra h = c_ra h"

text \<open>Device interrupts: the \<^verbatim>\<open>SIE\<close> bit of \<^verbatim>\<open>sstatus\<close>.\<close>

definition intr_on :: "csr \<Rightarrow> csr" where
  "intr_on h = w_sstatus (r_sstatus h OR SSTATUS_SIE) h"

definition intr_off :: "csr \<Rightarrow> csr" where
  "intr_off h = w_sstatus (r_sstatus h AND NOT SSTATUS_SIE) h"

definition intr_get :: "csr \<Rightarrow> bool" where
  "intr_get h \<longleftrightarrow> r_sstatus h AND SSTATUS_SIE \<noteq> 0"

subsection \<open>Pages, page-table entries, virtual addresses\<close>

abbreviation (input) PGSIZE :: u64 where "PGSIZE \<equiv> 4096"
abbreviation (input) PGSHIFT :: nat where "PGSHIFT \<equiv> 12"

definition PGROUNDUP :: "u64 \<Rightarrow> u64" where
  "PGROUNDUP sz = (sz + PGSIZE - 1) AND NOT (PGSIZE - 1)"

definition PGROUNDDOWN :: "u64 \<Rightarrow> u64" where
  "PGROUNDDOWN a = a AND NOT (PGSIZE - 1)"

abbreviation (input) PTE_V :: u64 where "PTE_V \<equiv> 1"
abbreviation (input) PTE_R :: u64 where "PTE_R \<equiv> 2"
abbreviation (input) PTE_W :: u64 where "PTE_W \<equiv> 4"
abbreviation (input) PTE_X :: u64 where "PTE_X \<equiv> 8"
abbreviation (input) PTE_U :: u64 where "PTE_U \<equiv> 16"

definition PA2PTE :: "u64 \<Rightarrow> u64" where
  "PA2PTE pa = push_bit 10 (drop_bit 12 pa)"

definition PTE2PA :: "u64 \<Rightarrow> u64" where
  "PTE2PA pte = push_bit 12 (drop_bit 10 pte)"

definition PTE_FLAGS :: "u64 \<Rightarrow> u64" where
  "PTE_FLAGS pte = pte AND 0x3FF"

abbreviation (input) PXMASK :: u64 where "PXMASK \<equiv> 0x1FF"

definition PXSHIFT :: "nat \<Rightarrow> nat" where
  "PXSHIFT level = PGSHIFT + 9 * level"

definition PX :: "nat \<Rightarrow> u64 \<Rightarrow> u64" where
  "PX level va = drop_bit (PXSHIFT level) va AND PXMASK"

abbreviation (input) MAXVA :: u64 where "MAXVA \<equiv> 0x4000000000"

definition MAKE_SATP :: "u64 \<Rightarrow> u64" where
  "MAKE_SATP pagetable = push_bit 60 8 OR drop_bit 12 pagetable"

subsection \<open>Physical and virtual memory layout\<close>

abbreviation (input) UART0 :: u64 where "UART0 \<equiv> 0x10000000"
abbreviation (input) UART0_IRQ :: u32 where "UART0_IRQ \<equiv> 10"
abbreviation (input) VIRTIO0 :: u64 where "VIRTIO0 \<equiv> 0x10001000"
abbreviation (input) VIRTIO0_IRQ :: u32 where "VIRTIO0_IRQ \<equiv> 1"
abbreviation (input) CLINT :: u64 where "CLINT \<equiv> 0x2000000"
abbreviation (input) PLIC :: u64 where "PLIC \<equiv> 0x0c000000"
abbreviation (input) KERNBASE :: u64 where "KERNBASE \<equiv> 0x80000000"
abbreviation (input) PHYSTOP :: u64 where "PHYSTOP \<equiv> 0x88000000"
abbreviation (input) TRAMPOLINE :: u64 where "TRAMPOLINE \<equiv> 0x3ffffff000"
abbreviation (input) TRAPFRAME :: u64 where "TRAPFRAME \<equiv> 0x3fffffe000"

definition CLINT_MTIMECMP :: "u64 \<Rightarrow> u64" where
  "CLINT_MTIMECMP hartid = CLINT + 0x4000 + 8 * hartid"

abbreviation (input) CLINT_MTIME :: u64 where "CLINT_MTIME \<equiv> 0x200BFF8"

definition PLIC_SENABLE :: "u64 \<Rightarrow> u64" where
  "PLIC_SENABLE hart = PLIC + 0x2080 + hart * 0x100"

definition PLIC_SPRIORITY :: "u64 \<Rightarrow> u64" where
  "PLIC_SPRIORITY hart = PLIC + 0x201000 + hart * 0x2000"

definition PLIC_SCLAIM :: "u64 \<Rightarrow> u64" where
  "PLIC_SCLAIM hart = PLIC + 0x201004 + hart * 0x2000"

definition KSTACK :: "nat \<Rightarrow> u64" where
  "KSTACK p = TRAMPOLINE - (word_of_nat p + 1) * 2 * PGSIZE"

subsection \<open>Limits (\<^verbatim>\<open>kernel/param.h\<close>)\<close>

abbreviation (input) NPROC :: nat where "NPROC \<equiv> 64"
abbreviation (input) NCPU :: nat where "NCPU \<equiv> 8"
abbreviation (input) NOFILE :: nat where "NOFILE \<equiv> 16"
abbreviation (input) NFILE :: nat where "NFILE \<equiv> 100"
abbreviation (input) NINODE :: nat where "NINODE \<equiv> 50"
abbreviation (input) NDEV :: nat where "NDEV \<equiv> 10"
abbreviation (input) ROOTDEV :: u32 where "ROOTDEV \<equiv> 1"
abbreviation (input) MAXARG :: nat where "MAXARG \<equiv> 32"
abbreviation (input) MAXOPBLOCKS :: nat where "MAXOPBLOCKS \<equiv> 10"
abbreviation (input) LOGSIZE :: nat where "LOGSIZE \<equiv> 30"
abbreviation (input) NBUF :: nat where "NBUF \<equiv> 30"
abbreviation (input) FSSIZE :: nat where "FSSIZE \<equiv> 1000"
abbreviation (input) MAXPATH :: nat where "MAXPATH \<equiv> 128"

subsection \<open>Masks, indices and entries as arithmetic\<close>

lemma page_mask: "(4095 :: u64) = mask 12" and px_mask: "(511 :: u64) = mask 9" and flags_mask: "(1023 :: u64) = mask 10"
  by (simp_all add: mask_eq_exp_minus_1)

lemma unat_PX: "unat (PX l va) = unat va div 2 ^ (12 + 9 * l) mod 512"
  by (simp add: PX_def PXSHIFT_def px_mask and_low_mask unat_take_bit unat_drop_bit)

lemma unat_PGROUNDDOWN: "unat (PGROUNDDOWN a) = unat a - unat a mod 4096"
  by (simp add: PGROUNDDOWN_def page_mask unat_round_down)

lemma unat_PGROUNDUP: 
  assumes "unat sz + 4095 < 2 ^ 64"
  shows "unat (PGROUNDUP sz) = (unat sz + 4095) div 4096 * 4096"
proof -
  have *: "sz + PGSIZE - 1 = sz + 4095" by simp
  have "unat (sz + 4095) = unat sz + 4095"
    using assms by (simp add: unat_add_lem [THEN iffD1])
  then show ?thesis
    unfolding PGROUNDUP_def * 
    by (simp add: page_mask unat_round_down minus_mod_eq_div_mult)
qed

lemma PX_inj:
  assumes "va < MAXVA" "vb < MAXVA" "unat va mod 4096 = 0" "unat vb mod 4096 = 0"
    and "PX 2 va = PX 2 vb" "PX 1 va = PX 1 vb" "PX 0 va = PX 0 vb"
  shows "va = vb"
proof -
  have b: "unat va < 2 ^ 38" "unat vb < 2 ^ 38"
    using assms(1,2) by (simp_all add: word_less_nat_alt)
  have split: "x = (x div 2 ^ 30 mod 512 * 512 + x div 2 ^ 21 mod 512) * 512 * 4096
      + x div 2 ^ 12 mod 512 * 4096" if "x < 2 ^ 38" "x mod 4096 = 0" for x :: nat
  proof -
    have "x = x div 2 ^ 12 * 4096" using that(2) div_mult_mod_eq [of x 4096] by simp
    moreover have "x div 2 ^ 12 = x div 2 ^ 21 * 512 + x div 2 ^ 12 mod 512"
      using div_mult_mod_eq [of "x div 2 ^ 12" 512] by (simp flip: div_mult2_eq)
    moreover have "x div 2 ^ 21 = x div 2 ^ 30 * 512 + x div 2 ^ 21 mod 512"
      using div_mult_mod_eq [of "x div 2 ^ 21" 512] by (simp flip: div_mult2_eq)
    moreover have "x div 2 ^ 30 mod 512 = x div 2 ^ 30"
      using that(1) by (simp add: div_less_iff_less_mult)
    ultimately show ?thesis by (simp only: algebra_simps)
  qed
  have "unat va = unat vb"
    using split [OF b(1) assms(3)] split [OF b(2) assms(4)]
      arg_cong [OF assms(5), of unat] arg_cong [OF assms(6), of unat] arg_cong [OF assms(7), of unat]
    by (simp add: unat_PX)
  then show ?thesis by (simp add: word_unat_eq_iff)
qed

lemma PTE2PA_PA2PTE:
  assumes "unat pa mod 4096 = 0" "unat pa < 2 ^ 54" "unat f < 1024"
  shows "PTE2PA (PA2PTE pa OR f) = pa"
proof (rule bit_word_eqI)
  fix n assume n: "n < LENGTH(64)"
  have f: "\<not> bit f k" if "10 \<le> k" for k 
    using bit_above [of f 10 k] assms(3) that by simp
  have low: "\<not> bit pa k" if "k < 12" for k
    using bit_below [of pa 12 k] assms(1) that by simp
  have hi: "\<not> bit pa k" if "54 \<le> k" for k
    using bit_above [of pa 54 k] assms(2) that by simp
  show "bit (PTE2PA (PA2PTE pa OR f)) n = bit pa n"
    using n f [of "n - 2"] low [of n] hi [of n] 
    by (cases "n < 12") (auto simp: PTE2PA_def PA2PTE_def bit_simps)
qed

lemma PTE_FLAGS_PA2PTE:
  assumes "unat f < 1024"
  shows "PTE_FLAGS (PA2PTE pa OR f) = f"
proof (rule bit_word_eqI)
  fix n assume n: "n < LENGTH(64)"
  have f: "\<not> bit f k" if "10 \<le> k" for k 
    using bit_above [of f 10 k] assms that by simp
  show "bit (PTE_FLAGS (PA2PTE pa OR f)) n = bit f n"
    using n f [of n] unfolding PTE_FLAGS_def flags_mask
    by (cases "n < 10") (auto simp: PA2PTE_def bit_simps)
qed

lemma PTE_bits_PA2PTE:
  assumes "unat b < 1024"
  shows "(PA2PTE pa OR f) AND b = f AND b"
proof (rule bit_word_eqI)
  fix n assume n: "n < LENGTH(64)"
  show "bit ((PA2PTE pa OR f) AND b) n = bit (f AND b) n"
    using n bit_above [of b 10 n] assms
    by (cases "n < 10") (auto simp: PA2PTE_def bit_simps)
qed

lemma unat_PTE2PA_aligned: "unat (PTE2PA pte) mod 4096 = 0"
proof -
  have "take_bit 12 (PTE2PA pte) = 0"
    by (rule bit_word_eqI) (auto simp: PTE2PA_def bit_simps)
  then show ?thesis using unat_take_bit [of 12 "PTE2PA pte"] by simp
qed

lemma intr_get_off [simp]: "\<not> intr_get (intr_off h)"
  by (simp add: intr_get_def intr_off_def r_sstatus_def w_sstatus_def and.assoc)

lemma intr_get_on [simp]: "intr_get (intr_on h)"
  by (simp add: intr_get_def intr_on_def r_sstatus_def w_sstatus_def)

lemma intr_on_off: "intr_get h \<Longrightarrow> intr_on (intr_off h) = h"
proof -
  assume "intr_get h"
  then have b: "bit (c_sstatus h) 1"
    using and_exp_eq_0_iff_not_bit [of "c_sstatus h" 1] by (simp add: intr_get_def r_sstatus_def)
  have "(c_sstatus h AND NOT SSTATUS_SIE) OR SSTATUS_SIE = c_sstatus h"
    by (rule bit_word_eqI) (use b in \<open>auto simp: bit_simps simp flip: One_nat_def\<close>)
  then show ?thesis
    by (simp add: intr_on_def intr_off_def r_sstatus_def w_sstatus_def)
qed

lemma intr_off_id: "\<not> intr_get h \<Longrightarrow> intr_off h = h"
proof -
  assume "\<not> intr_get h"
  then have b: "\<not> bit (c_sstatus h) 1"
    using and_exp_eq_0_iff_not_bit [of "c_sstatus h" 1] by (simp add: intr_get_def r_sstatus_def)
  have "c_sstatus h AND NOT SSTATUS_SIE = c_sstatus h"
    by (rule bit_word_eqI) (use b in \<open>auto simp: bit_simps simp flip: One_nat_def\<close>)
  then show ?thesis
    by (simp add: intr_off_def r_sstatus_def w_sstatus_def)
qed

end
