(* ===== verification/Spinlock.thy ===== *)
theory Spinlock
  imports Riscv
begin

text \<open>
  Spin locks (\<^verbatim>\<open>kernel/spinlock.c\<close>, \<^verbatim>\<open>kernel/spinlock.h\<close>) and the per-CPU state they use
  (\<^verbatim>\<open>struct cpu\<close> and \<^verbatim>\<open>struct context\<close> of \<^verbatim>\<open>kernel/proc.h\<close>, \<^verbatim>\<open>cpuid\<close> and \<^verbatim>\<open>mycpu\<close> of
  \<^verbatim>\<open>kernel/proc.c\<close>).

  The record \<open>machine\<close> is the bottom of the kernel state: the executing hart, the registers of
  every hart, \<^verbatim>\<open>cpus[]\<close>, and every spin lock of the kernel by name. The component theories
  extend it with their own fields; their routines stay polymorphic in later extensions.

  First group of lemmas: running \<open>acquire\<close> and \<open>release\<close> on a free lock, and what a critical
  section leaves behind (\<open>touch\<close>). Second group: an interleaving machine in which any number
  of harts execute \<open>acquire\<close> and \<open>release\<close> one memory access at a time; mutual exclusion and
  the accuracy of \<open>holding\<close> are invariants of it.
\<close>

subsection \<open>State\<close>

record spinlock =
  sl_locked :: u32
  sl_name :: string
  sl_cpu :: "nat option"

record kcontext =
  ctx_ra :: u64
  ctx_sp :: u64
  ctx_s0 :: u64
  ctx_s1 :: u64
  ctx_s2 :: u64
  ctx_s3 :: u64
  ctx_s4 :: u64
  ctx_s5 :: u64
  ctx_s6 :: u64
  ctx_s7 :: u64
  ctx_s8 :: u64
  ctx_s9 :: u64
  ctx_s10 :: u64
  ctx_s11 :: u64

record cpu =
  cpu_proc :: "nat option"
  cpu_context :: kcontext
  cpu_noff :: int
  cpu_intena :: bool

record machine =
  hart :: nat
  csrs :: "nat \<Rightarrow> csr"
  cpus :: "nat \<Rightarrow> cpu"
  locks :: "lockid \<Rightarrow> spinlock"

definition this_csr :: "'z machine_scheme \<Rightarrow> csr" where
  "this_csr s = csrs s (hart s)"

definition upd_csr :: "(csr \<Rightarrow> csr) \<Rightarrow> 'z machine_scheme \<Rightarrow> 'z machine_scheme" where
  "upd_csr f s = s\<lparr>csrs := (csrs s)(hart s := f (this_csr s))\<rparr>"

definition cpuid :: "'z machine_scheme \<Rightarrow> nat" where
  "cpuid s = unat (ucast (r_tp (this_csr s)) :: u32)"

definition mycpu :: "'z machine_scheme \<Rightarrow> cpu" where
  "mycpu s = cpus s (cpuid s)"

definition upd_mycpu :: "(cpu \<Rightarrow> cpu) \<Rightarrow> 'z machine_scheme \<Rightarrow> 'z machine_scheme" where
  "upd_mycpu f s = s\<lparr>cpus := (cpus s)(cpuid s := f (mycpu s))\<rparr>"

definition upd_lock :: "lockid \<Rightarrow> (spinlock \<Rightarrow> spinlock) \<Rightarrow> 'z machine_scheme \<Rightarrow> 'z machine_scheme"
  where "upd_lock lk f s = s\<lparr>locks := (locks s)(lk := f (locks s lk))\<rparr>"

text \<open>
  A machine as it comes out of reset: registers zero, and the statically allocated
  \<^verbatim>\<open>cpus[]\<close> and locks zero as C initialises them. Concrete states are built from it.
\<close>

definition reset_csr :: csr where
  "reset_csr = \<lparr>c_mhartid = 0, c_mstatus = 0, c_mepc = 0, c_sstatus = 0, c_sip = 0, c_sie = 0,
     c_mie = 0, c_sepc = 0, c_medeleg = 0, c_mideleg = 0, c_stvec = 0, c_mtvec = 0,
     c_pmpcfg0 = 0, c_pmpaddr0 = 0, c_satp = 0, c_sscratch = 0, c_mscratch = 0, c_scause = 0,
     c_stval = 0, c_mcounteren = 0, c_time = 0, c_sp = 0, c_tp = 0, c_ra = 0\<rparr>"

definition zero_context :: kcontext where
  "zero_context = \<lparr>ctx_ra = 0, ctx_sp = 0, ctx_s0 = 0, ctx_s1 = 0, ctx_s2 = 0, ctx_s3 = 0,
     ctx_s4 = 0, ctx_s5 = 0, ctx_s6 = 0, ctx_s7 = 0, ctx_s8 = 0, ctx_s9 = 0, ctx_s10 = 0,
     ctx_s11 = 0\<rparr>"

definition reset_machine :: machine where
  "reset_machine = \<lparr>hart = 0, csrs = (\<lambda>_. reset_csr),
     cpus = (\<lambda>_. \<lparr>cpu_proc = None, cpu_context = zero_context, cpu_noff = 0, cpu_intena = False\<rparr>),
     locks = (\<lambda>_. \<lparr>sl_locked = 0, sl_name = [], sl_cpu = None\<rparr>)\<rparr>"

subsection \<open>Operations\<close>

definition initlock :: "lockid \<Rightarrow> string \<Rightarrow> ('z machine_scheme, unit) km" where
  "initlock lk name =
     modify (upd_lock lk (\<lambda>_. \<lparr>sl_locked = 0, sl_name = name, sl_cpu = None\<rparr>))"

definition holding :: "lockid \<Rightarrow> 'z machine_scheme \<Rightarrow> bool" where
  "holding lk s \<longleftrightarrow> sl_locked (locks s lk) \<noteq> 0 \<and> sl_cpu (locks s lk) = Some (cpuid s)"

definition push_off :: "('z machine_scheme, unit) km" where
  "push_off = modify (\<lambda>s.
     let old = intr_get (this_csr s);
         s1 = upd_csr intr_off s;
         s2 = (if cpu_noff (mycpu s1) = 0 then upd_mycpu (\<lambda>c. c\<lparr>cpu_intena := old\<rparr>) s1 else s1)
     in upd_mycpu (\<lambda>c. c\<lparr>cpu_noff := cpu_noff c + 1\<rparr>) s2)"

definition pop_off :: "('z machine_scheme, unit) km" where
  "pop_off =
     bnd (gets (\<lambda>s. intr_get (this_csr s))) (\<lambda>on.
     if on then panic ''pop_off - interruptible'' else
     bnd (gets (\<lambda>s. cpu_noff (mycpu s))) (\<lambda>noff.
     if noff < 1 then panic ''pop_off'' else
     sq (modify (upd_mycpu (\<lambda>c. c\<lparr>cpu_noff := cpu_noff c - 1\<rparr>)))
        (modify (\<lambda>s. if cpu_noff (mycpu s) = 0 \<and> cpu_intena (mycpu s) then upd_csr intr_on s else s))))"

text \<open>
  \<^verbatim>\<open>while (__sync_lock_test_and_set(&lk->locked, 1) != 0) ;\<close>: each failed swap leaves the word
  at 1 and lets the other CPUs go on.
\<close>

fun test_and_set_loop :: "lockid \<Rightarrow> ('z machine_scheme, unit) km" where
  "test_and_set_loop lk [] s =
     (if sl_locked (locks s lk) = 0 then Ret () [] (upd_lock lk (\<lambda>l. l\<lparr>sl_locked := 1\<rparr>) s)
      else Spin lk)"
| "test_and_set_loop lk (e # es) s =
     (if sl_locked (locks s lk) = 0
      then Ret () (e # es) (upd_lock lk (\<lambda>l. l\<lparr>sl_locked := 1\<rparr>) s)
      else test_and_set_loop lk es (e (upd_lock lk (\<lambda>l. l\<lparr>sl_locked := 1\<rparr>) s)))"

definition acquire :: "lockid \<Rightarrow> ('z machine_scheme, unit) km" where
  "acquire lk =
     sq push_off
     (bnd (gets (holding lk)) (\<lambda>h.
      if h then panic ''acquire'' else
      sq (test_and_set_loop lk)
         (modify (\<lambda>s. upd_lock lk (\<lambda>l. l\<lparr>sl_cpu := Some (cpuid s)\<rparr>) s))))"

definition release :: "lockid \<Rightarrow> ('z machine_scheme, unit) km" where
  "release lk =
     bnd (gets (holding lk)) (\<lambda>h.
     if \<not> h then panic ''release'' else
     seqs [modify (upd_lock lk (\<lambda>l. l\<lparr>sl_cpu := None\<rparr>)),
           modify (upd_lock lk (\<lambda>l. l\<lparr>sl_locked := 0\<rparr>)),
           pop_off])"

subsection \<open>Accessing the bottom of the state\<close>

lemma machine_field_simps [simp]:
  "hart (upd_csr f s) = hart s" "cpus (upd_csr f s) = cpus s" "locks (upd_csr f s) = locks s"
  "hart (upd_mycpu g s) = hart s" "csrs (upd_mycpu g s) = csrs s" "locks (upd_mycpu g s) = locks s"
  "hart (upd_lock lk k s) = hart s" "csrs (upd_lock lk k s) = csrs s" "cpus (upd_lock lk k s) = cpus s"
  "locks (upd_lock lk k s) = (locks s)(lk := k (locks s lk))"
  by (simp_all add: upd_csr_def upd_mycpu_def upd_lock_def)

lemma this_csr_simps [simp]:
  "this_csr (upd_csr f s) = f (this_csr s)"
  "this_csr (upd_mycpu g s) = this_csr s"
  "this_csr (upd_lock lk k s) = this_csr s"
  by (simp_all add: this_csr_def upd_csr_def)

lemma r_tp_intr [simp]: "r_tp (intr_on h) = r_tp h" "r_tp (intr_off h) = r_tp h"
  by (simp_all add: r_tp_def intr_on_def intr_off_def w_sstatus_def)

lemma cpuid_simps [simp]:
  "cpuid (upd_csr intr_off s) = cpuid s" "cpuid (upd_csr intr_on s) = cpuid s"
  "cpuid (upd_mycpu g s) = cpuid s" "cpuid (upd_lock lk k s) = cpuid s"
  by (simp_all add: cpuid_def)

lemma mycpu_simps [simp]:
  "mycpu (upd_mycpu g s) = g (mycpu s)"
  "mycpu (upd_csr intr_off s) = mycpu s" "mycpu (upd_csr intr_on s) = mycpu s"
  "mycpu (upd_lock lk k s) = mycpu s"
  by (simp_all add: mycpu_def upd_mycpu_def, simp_all add: cpuid_def this_csr_def)

text \<open>
  The bookkeeping every CPU keeps between critical sections: \<^verbatim>\<open>noff\<close> counts the nested
  \<open>push_off\<close>s, and interrupts are off while it is positive.
\<close>

definition hart_ok :: "'z machine_scheme \<Rightarrow> bool" where
  "hart_ok s \<longleftrightarrow> 0 \<le> cpu_noff (mycpu s) \<and> (0 < cpu_noff (mycpu s) \<longrightarrow> \<not> intr_get (this_csr s))"

definition lock_ready :: "lockid \<Rightarrow> 'z machine_scheme \<Rightarrow> bool" where
  "lock_ready lk s \<longleftrightarrow> sl_locked (locks s lk) = 0 \<and> sl_cpu (locks s lk) = None \<and> hart_ok s"

text \<open>
  A critical section restores everything except \<^verbatim>\<open>intena\<close>, which records the interrupt state
  it was entered with.
\<close>

definition touch :: "'z machine_scheme \<Rightarrow> 'z machine_scheme" where
  "touch s = (if cpu_noff (mycpu s) = 0
              then upd_mycpu (\<lambda>c. c\<lparr>cpu_intena := intr_get (this_csr s)\<rparr>) s else s)"

definition pushed :: "'z machine_scheme \<Rightarrow> 'z machine_scheme" where
  "pushed s = upd_mycpu (\<lambda>c. c\<lparr>cpu_noff := cpu_noff c + 1\<rparr>) (upd_csr intr_off (touch s))"

definition acquired :: "lockid \<Rightarrow> 'z machine_scheme \<Rightarrow> 'z machine_scheme" where
  "acquired lk s =
     upd_lock lk (\<lambda>l. l\<lparr>sl_locked := 1, sl_cpu := Some (cpuid s)\<rparr>) (pushed s)"

definition released :: "lockid \<Rightarrow> 'z machine_scheme \<Rightarrow> 'z machine_scheme \<Rightarrow> 'z machine_scheme" where
  "released lk s t = t\<lparr>csrs := csrs s, cpus := cpus (touch s), locks := (locks t)(lk := locks s lk)\<rparr>"

subsection \<open>Running the operations on a free lock\<close>

lemma touch_simps [simp]:
  "hart (touch s) = hart s" "csrs (touch s) = csrs s" "locks (touch s) = locks s"
  "this_csr (touch s) = this_csr s" "cpuid (touch s) = cpuid s"
  "cpu_noff (mycpu (touch s)) = cpu_noff (mycpu s)"
  "cpu_proc (mycpu (touch s)) = cpu_proc (mycpu s)"
  by (simp_all add: touch_def)

lemma touch_idem [simp]: "touch (touch s) = touch s"
  by (simp add: touch_def upd_mycpu_def mycpu_def, simp add: cpuid_def this_csr_def)

lemma touch_nested: "0 < cpu_noff (mycpu s) \<Longrightarrow> touch s = s"
  by (simp add: touch_def)

lemma hart_ok_touch [simp]: "hart_ok (touch s) = hart_ok s"
  by (simp add: hart_ok_def)

lemma pushed_simps [simp]:
  "hart (pushed s) = hart s" "locks (pushed s) = locks s" "cpuid (pushed s) = cpuid s"
  "this_csr (pushed s) = intr_off (this_csr s)"
  "mycpu (pushed s) = (mycpu (touch s))\<lparr>cpu_noff := cpu_noff (mycpu s) + 1\<rparr>"
  "csrs (pushed s) = (csrs s)(hart s := intr_off (this_csr s))"
  by (simp_all add: pushed_def, simp add: upd_csr_def)

lemma hart_ok_pushed [simp]: "hart_ok s \<Longrightarrow> hart_ok (pushed s)"
  by (simp add: hart_ok_def)

lemma push_off_run: "push_off es s = Ret () es (pushed s)"
proof -
  have "upd_mycpu g (upd_csr intr_off s) = upd_csr intr_off (upd_mycpu g s)" for g
    by (simp add: upd_mycpu_def upd_csr_def cpuid_def this_csr_def mycpu_def)
  then show ?thesis by (simp add: push_off_def modify_def touch_def Let_def pushed_def)
qed

lemma pop_off_pushed:
  assumes ok: "hart_ok s"
    and t: "hart t = hart s" "csrs t = csrs (pushed s)" "cpus t = cpus (pushed s)"
  shows "pop_off es t = Ret () es (t\<lparr>csrs := csrs s, cpus := cpus (touch s)\<rparr>)"
proof -
  have reg: "this_csr t = intr_off (this_csr s)"
    using t(1,2) by (simp add: this_csr_def)
  then have id: "cpuid t = cpuid s" by (simp add: cpuid_def)
  have cpu: "mycpu t = (mycpu (touch s))\<lparr>cpu_noff := cpu_noff (mycpu s) + 1\<rparr>"
    using t(3) id pushed_simps(5) [of s] by (simp add: mycpu_def)
  have cpus': "(cpus t)(cpuid s := mycpu (touch s)) = cpus (touch s)"
    using t(3) by (simp add: pushed_def upd_mycpu_def) (simp add: mycpu_def)
  have csrs': "(csrs t)(hart s := this_csr s) = csrs s"
    using t(2) by (simp add: this_csr_def)
  define t1 where "t1 = upd_mycpu (\<lambda>c. c\<lparr>cpu_noff := cpu_noff c - 1\<rparr>) t"
  have bk: "(mycpu (touch s))\<lparr>cpu_noff := cpu_noff (mycpu s)\<rparr> = mycpu (touch s)"
    using touch_simps(6) [of s] by (cases "mycpu (touch s)") simp
  have t1: "t1 = t\<lparr>cpus := cpus (touch s)\<rparr>"
    by (simp add: t1_def upd_mycpu_def id cpu bk cpus')
  have run: "pop_off es t = Ret () es
      (if cpu_noff (mycpu s) = 0 \<and> cpu_intena (mycpu t1) then upd_csr intr_on t1 else t1)"
    using ok by (simp add: pop_off_def km_simps reg cpu t1_def hart_ok_def)
  have intena: "cpu_intena (mycpu t1) = intr_get (this_csr s)" if "cpu_noff (mycpu s) = 0"
    using that cpu by (simp add: t1_def) (simp add: touch_def)
  have on: "upd_csr intr_on t1 = t\<lparr>csrs := csrs s, cpus := cpus (touch s)\<rparr>"
    if "intr_get (this_csr s)"
    using reg t(1) csrs' that by (simp add: upd_csr_def t1 this_csr_def intr_on_off)
  have off: "t1 = t\<lparr>csrs := csrs s, cpus := cpus (touch s)\<rparr>" if "\<not> intr_get (this_csr s)"
  proof -
    have "csrs s = csrs t"
      using t(2) that by (simp add: intr_off_id) (simp add: this_csr_def)
    then show ?thesis by (simp add: t1)
  qed
  show ?thesis
    using run intena on off ok by (auto simp: hart_ok_def)
qed

lemma acquired_simps [simp]:
  "hart (acquired lk s) = hart s"
  "cpuid (acquired lk s) = cpuid s"
  "csrs (acquired lk s) = csrs (pushed s)"
  "cpus (acquired lk s) = cpus (pushed s)"
  "locks (acquired lk s) = (locks s)(lk := (locks s lk)\<lparr>sl_locked := 1, sl_cpu := Some (cpuid s)\<rparr>)"
  by (simp_all add: acquired_def)

lemma acquire_ready:
  assumes "lock_ready lk s"
  shows "acquire lk es s = Ret () es (acquired lk s)"
proof -
  have "test_and_set_loop lk es t = Ret () es (upd_lock lk (\<lambda>l. l\<lparr>sl_locked := 1\<rparr>) t)"
    if "sl_locked (locks t lk) = 0" for t :: "'a machine_scheme"
    using that by (cases es) auto
  with assms show ?thesis
    by (simp add: acquire_def km_simps push_off_run holding_def lock_ready_def acquired_def)
       (simp add: upd_lock_def)
qed

lemma acquire_holding: "holding lk s \<Longrightarrow> acquire lk es s = Panic ''acquire''"
  by (simp add: acquire_def km_simps push_off_run holding_def)

lemma release_not_holding: "\<not> holding lk s \<Longrightarrow> release lk es s = Panic ''release''"
  by (simp add: release_def km_simps)

text \<open>Leaving a critical section that did not touch this lock and the per-CPU state.\<close>

lemma release_acquired:
  assumes rdy: "lock_ready lk s"
    and t: "hart t = hart s" "csrs t = csrs (acquired lk s)" "cpus t = cpus (acquired lk s)"
       "locks t lk = locks (acquired lk s) lk"
  shows "release lk es t = Ret () es (released lk s t)"
proof -
  have "cpuid t = cpuid s"
    using t(1,2) by (simp add: cpuid_def this_csr_def)
  then have "holding lk t"
    using t(4) by (simp add: holding_def)
  moreover have "(locks t lk)\<lparr>sl_cpu := None, sl_locked := 0\<rparr> = locks s lk"
    using rdy t by (cases "locks s lk") (simp add: lock_ready_def)
  moreover have "hart_ok s"
    using rdy by (simp add: lock_ready_def)
  ultimately show ?thesis
    using t(1-3)
    by (simp add: release_def km_simps pop_off_pushed [of s])
       (simp add: upd_lock_def released_def)
qed

lemma released_acquired: "released lk s (acquired lk s) = touch s"
proof (rule machine.equality)
  show "locks (released lk s (acquired lk s)) = locks (touch s)"
    by (simp add: released_def)
qed (simp_all add: released_def, simp add: acquired_def upd_lock_def pushed_def upd_mycpu_def upd_csr_def)

lemma lock_ready_touch [simp]: "lock_ready lk (touch s) = lock_ready lk s"
  by (simp add: lock_ready_def)

text \<open>
  Components change only their own fields inside a critical section. \<open>graft t u\<close> has the
  machine of \<open>u\<close> and everything above it from \<open>t\<close>; the components prove that their updates
  commute with it, with \<open>touch\<close> and with \<open>acquired\<close> by unfolding \<open>machine_defs\<close>.
\<close>

definition graft :: "'z machine_scheme \<Rightarrow> 'z machine_scheme \<Rightarrow> 'z machine_scheme" where
  "graft t u = \<lparr>hart = hart u, csrs = csrs u, cpus = cpus u, locks = locks u, \<dots> = machine.more t\<rparr>"

lemma graft_simps [simp]:
  "hart (graft t u) = hart u" "csrs (graft t u) = csrs u" "cpus (graft t u) = cpus u"
  "locks (graft t u) = locks u"
  "graft u u = u" "graft (touch t) u = graft t u" "graft (acquired lk t) u = graft t u"
  "graft t (touch t) = touch t"
  by (simp_all add: graft_def touch_def acquired_def upd_lock_def pushed_def upd_mycpu_def upd_csr_def)

lemma release_section:
  assumes "lock_ready lk s"
    and "hart t = hart s" "csrs t = csrs (acquired lk s)" "cpus t = cpus (acquired lk s)"
      "locks t = locks (acquired lk s)"
  shows "release lk es t = Ret () es (graft t (touch s))"
proof -
  have "released lk s t = graft t (touch s)"
    using assms by (intro machine.equality) (simp_all add: released_def, simp add: graft_def)
  then show ?thesis
    using release_acquired [of lk s t] assms by simp
qed

lemmas machine_defs =
  graft_def touch_def acquired_def upd_lock_def pushed_def upd_mycpu_def upd_csr_def
  mycpu_def cpuid_def this_csr_def hart_ok_def lock_ready_def

lemma hart_ok_reset: "hart_ok reset_machine"
  by (simp add: hart_ok_def mycpu_def reset_machine_def)

lemma lock_ready_reset: "lock_ready lk reset_machine"
  by (simp add: lock_ready_def hart_ok_reset) (simp add: reset_machine_def)

text \<open>
  C1: on a free lock, \<^verbatim>\<open>acquire(lk); release(lk)\<close> returns and leaves the whole machine as it
  was, interrupt enable bit and nesting depth included, except that an outermost pair leaves
  the interrupt state it found in \<^verbatim>\<open>intena\<close>.
\<close>

theorem acquire_release:
  assumes "lock_ready lk s"
  shows "seqs [acquire lk, release lk] es s = Ret () es (touch s)"
  using assms release_acquired [OF assms, of "acquired lk s" es]
  by (simp add: km_simps acquire_ready released_acquired)

theorem acquire_release_witness:
  "lock_ready L_kmem reset_machine \<and>
   seqs [acquire L_kmem, release L_kmem] [] reset_machine = Ret () [] (touch reset_machine)"
proof -
  have "lock_ready L_kmem reset_machine" by (rule lock_ready_reset)
  with acquire_release [of L_kmem reset_machine "[]"] show ?thesis by simp
qed

lemma pop_off_after_push: "hart_ok s \<Longrightarrow> pop_off es (pushed s) = Ret () es (touch s)"
proof -
  assume "hart_ok s"
  then have "pop_off es (pushed s) = Ret () es ((pushed s)\<lparr>csrs := csrs s, cpus := cpus (touch s)\<rparr>)"
    by (simp add: pop_off_pushed)
  also have "(pushed s)\<lparr>csrs := csrs s, cpus := cpus (touch s)\<rparr> = touch s"
    by (rule machine.equality) (simp_all, simp add: pushed_def upd_mycpu_def upd_csr_def)
  finally show ?thesis .
qed

lemma touch_pushed [simp]: "hart_ok s \<Longrightarrow> touch (pushed s) = pushed s"
  by (simp add: touch_nested hart_ok_def)



subsection \<open>Interleaving\<close>

text \<open>
  Any number of harts use one lock. A step is one access of one hart to the lock: the two reads
  of \<open>holding\<close> in \<open>acquire\<close> (\<open>Hold1\<close>, \<open>Hold2\<close>), the atomic swap (\<open>Swap\<close>), the store of
  \<^verbatim>\<open>lk->cpu\<close> (\<open>Mark\<close>), the critical section (\<open>Crit\<close>), the two reads of \<open>holding\<close> in
  \<open>release\<close> (\<open>Rel1\<close>, \<open>Rel2\<close>), the store of 0 to \<^verbatim>\<open>lk->cpu\<close> (\<open>Clear\<close>) and the releasing
  swap (\<open>Unlock\<close>). Interrupts are off on the hart from the first of these steps to the last,
  so that no interrupt handler of the same hart comes between.
\<close>

datatype lock_pc = Idle | Hold1 | Hold2 | Swap | Mark | Crit | Rel1 | Rel2 | Clear | Unlock | Panicked

record lock_sys =
  the_lock :: spinlock
  at :: "nat \<Rightarrow> lock_pc"

definition lock_init :: lock_sys where
  "lock_init = \<lparr>the_lock = \<lparr>sl_locked = 0, sl_name = [], sl_cpu = None\<rparr>, at = (\<lambda>_. Idle)\<rparr>"

inductive lock_step :: "lock_sys \<Rightarrow> lock_sys \<Rightarrow> bool" where
  enter: "at s h = Idle \<Longrightarrow> lock_step s (s\<lparr>at := (at s)(h := Hold1)\<rparr>)"
| hold1: "at s h = Hold1 \<Longrightarrow>
    lock_step s (s\<lparr>at := (at s)(h := if sl_locked (the_lock s) = 0 then Swap else Hold2)\<rparr>)"
| hold2: "at s h = Hold2 \<Longrightarrow>
    lock_step s (s\<lparr>at := (at s)(h := if sl_cpu (the_lock s) = Some h then Panicked else Swap)\<rparr>)"
| swap: "at s h = Swap \<Longrightarrow>
    lock_step s (s\<lparr>the_lock := (the_lock s)\<lparr>sl_locked := 1\<rparr>,
                   at := (at s)(h := if sl_locked (the_lock s) = 0 then Mark else Swap)\<rparr>)"
| mark: "at s h = Mark \<Longrightarrow>
    lock_step s (s\<lparr>the_lock := (the_lock s)\<lparr>sl_cpu := Some h\<rparr>, at := (at s)(h := Crit)\<rparr>)"
| leave: "at s h = Crit \<Longrightarrow> lock_step s (s\<lparr>at := (at s)(h := Rel1)\<rparr>)"
| rel1: "at s h = Rel1 \<Longrightarrow>
    lock_step s (s\<lparr>at := (at s)(h := if sl_locked (the_lock s) = 0 then Panicked else Rel2)\<rparr>)"
| rel2: "at s h = Rel2 \<Longrightarrow>
    lock_step s (s\<lparr>at := (at s)(h := if sl_cpu (the_lock s) = Some h then Clear else Panicked)\<rparr>)"
| clear: "at s h = Clear \<Longrightarrow>
    lock_step s (s\<lparr>the_lock := (the_lock s)\<lparr>sl_cpu := None\<rparr>, at := (at s)(h := Unlock)\<rparr>)"
| unlock: "at s h = Unlock \<Longrightarrow>
    lock_step s (s\<lparr>the_lock := (the_lock s)\<lparr>sl_locked := 0\<rparr>, at := (at s)(h := Idle)\<rparr>)"

inductive lock_reach :: "lock_sys \<Rightarrow> bool" where
  init: "lock_reach lock_init"
| step: "lock_reach s \<Longrightarrow> lock_step s t \<Longrightarrow> lock_reach t"

fun owns :: "lock_pc \<Rightarrow> bool" where
  "owns Mark = True"
| "owns Crit = True"
| "owns Rel1 = True"
| "owns Rel2 = True"
| "owns Clear = True"
| "owns Unlock = True"
| "owns _ = False"

fun marked :: "lock_pc \<Rightarrow> bool" where
  "marked Crit = True"
| "marked Rel1 = True"
| "marked Rel2 = True"
| "marked Clear = True"
| "marked _ = False"

definition lock_inv :: "lock_sys \<Rightarrow> bool" where
  "lock_inv s \<longleftrightarrow>
     (\<forall>h k. owns (at s h) \<longrightarrow> owns (at s k) \<longrightarrow> h = k) \<and>
     (sl_locked (the_lock s) = 0 \<longleftrightarrow> (\<forall>h. \<not> owns (at s h))) \<and>
     (\<forall>h. sl_cpu (the_lock s) = Some h \<longleftrightarrow> marked (at s h)) \<and>
     (\<forall>h. at s h \<noteq> Panicked)"

lemma marked_owns: "marked p \<Longrightarrow> owns p"
  by (cases p) auto

lemma lock_step_inv: "lock_step s t \<Longrightarrow> lock_inv s \<Longrightarrow> lock_inv t"
  by (induction rule: lock_step.induct)
     (auto simp: lock_inv_def split: if_splits; metis marked_owns marked.simps owns.simps)+

lemma lock_init_inv: "lock_inv lock_init"
  by (simp add: lock_init_def lock_inv_def)

lemma lock_reach_inv: "lock_reach s \<Longrightarrow> lock_inv s"
  by (induction rule: lock_reach.induct) (rule lock_init_inv, erule (1) lock_step_inv)

lemma lock_reach_steps: "lock_step\<^sup>*\<^sup>* s t \<Longrightarrow> lock_reach s \<Longrightarrow> lock_reach t"
  by (induction rule: rtranclp_induct) (auto intro: lock_reach.step)

text \<open>
  A hart that is left alone walks through the steps of \<open>acquire\<close> to the same lock state as the
  sequential model of the routine (\<open>acquired\<close>), and through those of \<open>release\<close> back.
\<close>

lemma lock_steps_acquire:
  assumes "at s h = Idle" and "sl_locked (the_lock s) = 0"
  shows "lock_step\<^sup>*\<^sup>* s (s\<lparr>the_lock := (the_lock s)\<lparr>sl_locked := 1, sl_cpu := Some h\<rparr>,
                          at := (at s)(h := Crit)\<rparr>)"
proof -
  have "lock_step s (s\<lparr>at := (at s)(h := Hold1)\<rparr>)"
    using assms by (intro enter)
  moreover have "lock_step (s\<lparr>at := (at s)(h := Hold1)\<rparr>) (s\<lparr>at := (at s)(h := Swap)\<rparr>)"
    using hold1 [of "s\<lparr>at := (at s)(h := Hold1)\<rparr>" h] assms by simp
  moreover have "lock_step (s\<lparr>at := (at s)(h := Swap)\<rparr>)
      (s\<lparr>the_lock := (the_lock s)\<lparr>sl_locked := 1\<rparr>, at := (at s)(h := Mark)\<rparr>)"
    using swap [of "s\<lparr>at := (at s)(h := Swap)\<rparr>" h] assms by simp
  moreover have "lock_step (s\<lparr>the_lock := (the_lock s)\<lparr>sl_locked := 1\<rparr>, at := (at s)(h := Mark)\<rparr>)
      (s\<lparr>the_lock := (the_lock s)\<lparr>sl_locked := 1, sl_cpu := Some h\<rparr>, at := (at s)(h := Crit)\<rparr>)"
    using mark [of "s\<lparr>the_lock := (the_lock s)\<lparr>sl_locked := 1\<rparr>, at := (at s)(h := Mark)\<rparr>" h] by simp
  ultimately show ?thesis
    by (meson converse_rtranclp_into_rtranclp rtranclp.rtrancl_refl)
qed

text \<open>
  C3: under every interleaving of the memory accesses of any number of harts, at most one hart
  is in the critical section of a lock, \<open>holding\<close> is true exactly for the hart that is between
  its store to \<^verbatim>\<open>lk->cpu\<close> and the store that clears it, and neither \<^verbatim>\<open>panic("acquire")\<close> nor
  \<^verbatim>\<open>panic("release")\<close> happens.
\<close>

theorem spinlock_mutual_exclusion:
  assumes "lock_reach s"
  shows "(at s h = Crit \<and> at s k = Crit \<longrightarrow> h = k) \<and>
         (sl_locked (the_lock s) \<noteq> 0 \<and> sl_cpu (the_lock s) = Some h \<longleftrightarrow> marked (at s h)) \<and>
         at s h \<noteq> Panicked"
proof -
  have inv: "lock_inv s" using lock_reach_inv [OF assms] .
  then have "sl_locked (the_lock s) \<noteq> 0" if "marked (at s h)"
    using that marked_owns unfolding lock_inv_def by metis
  with inv show ?thesis
    unfolding lock_inv_def by (metis owns.simps(2))
qed

theorem spinlock_mutual_exclusion_witness:
  "\<exists>s. lock_reach s \<and> at s 2 = Crit \<and> at s 1 \<noteq> Crit \<and> sl_cpu (the_lock s) = Some 2"
proof -
  let ?s = "lock_init\<lparr>the_lock := (the_lock lock_init)\<lparr>sl_locked := 1, sl_cpu := Some 2\<rparr>,
      at := (at lock_init)(2 := Crit)\<rparr>"
  have "lock_reach ?s"
    by (rule lock_reach_steps [OF lock_steps_acquire lock_reach.init])
       (simp_all add: lock_init_def)
  with spinlock_mutual_exclusion [of ?s 2 1] show ?thesis
    by (intro exI [of _ ?s]) (simp add: lock_init_def)
qed

end
