(* ===== verification/KString.thy ===== *)
theory KString
  imports Spinlock
begin

text \<open>
  The byte and string routines of \<^verbatim>\<open>kernel/string.c\<close>, as the loops the code runs over a byte
  store. A \<^verbatim>\<open>uint\<close> count is a natural number, an \<^verbatim>\<open>int\<close> count an integer. The routines that
  read one buffer and write or compare another take the two stores separately, because the
  kernel applies them across memory and disk blocks; \<open>memmove\<close> works inside one store, where
  its operands may overlap.

  The lemmas replace every loop by what it leaves behind: \<open>fill\<close>, \<open>copy\<close>, and for the
  NUL-terminated routines the string \<open>cstr n m a\<close> that starts at \<open>a\<close> and has at most \<open>n\<close>
  bytes.
\<close>

subsection \<open>The routines\<close>

fun memset :: "nat \<Rightarrow> byte \<Rightarrow> nat \<Rightarrow> bytes \<Rightarrow> bytes" where
  "memset cdst c 0 m = m"
| "memset cdst c (Suc n) m = memset (Suc cdst) c n (m(cdst := c))"

fun memcmp :: "bytes \<Rightarrow> nat \<Rightarrow> bytes \<Rightarrow> nat \<Rightarrow> nat \<Rightarrow> int" where
  "memcmp m1 s1 m2 s2 0 = 0"
| "memcmp m1 s1 m2 s2 (Suc n) =
     (if m1 s1 \<noteq> m2 s2 then uint (m1 s1) - uint (m2 s2)
      else memcmp m1 (Suc s1) m2 (Suc s2) n)"

fun move_up :: "nat \<Rightarrow> nat \<Rightarrow> nat \<Rightarrow> bytes \<Rightarrow> bytes" where
  "move_up d s 0 m = m"
| "move_up d s (Suc n) m = move_up (Suc d) (Suc s) n (m(d := m s))"

fun move_down :: "nat \<Rightarrow> nat \<Rightarrow> nat \<Rightarrow> bytes \<Rightarrow> bytes" where
  "move_down d s 0 m = m"
| "move_down d s (Suc n) m = move_down (d - 1) (s - 1) n (m(d - 1 := m (s - 1)))"

definition memmove :: "nat \<Rightarrow> nat \<Rightarrow> nat \<Rightarrow> bytes \<Rightarrow> bytes" where
  "memmove dst src n m =
     (if src < dst \<and> src + n > dst then move_down (dst + n) (src + n) n m
      else move_up dst src n m)"

definition memcpy :: "nat \<Rightarrow> nat \<Rightarrow> nat \<Rightarrow> bytes \<Rightarrow> bytes" where
  "memcpy dst src n m = memmove dst src n m"

fun strncmp :: "bytes \<Rightarrow> nat \<Rightarrow> bytes \<Rightarrow> nat \<Rightarrow> nat \<Rightarrow> int" where
  "strncmp m1 p m2 q 0 = 0"
| "strncmp m1 p m2 q (Suc n) =
     (if m1 p \<noteq> 0 \<and> m1 p = m2 q then strncmp m1 (Suc p) m2 (Suc q) n
      else uint (m1 p) - uint (m2 q))"

text \<open>
  The first loop of \<^verbatim>\<open>strncpy\<close> and \<^verbatim>\<open>safestrcpy\<close> copies up to a NUL or up to \<open>n\<close> bytes. It
  returns the store, the next destination and the number of bytes it did not copy.
\<close>

fun copy_str :: "nat \<Rightarrow> bytes \<Rightarrow> nat \<Rightarrow> nat \<Rightarrow> bytes \<Rightarrow> bytes \<times> nat \<times> nat" where
  "copy_str s src t 0 m = (m, s, 0)"
| "copy_str s src t (Suc n) m =
     (let m' = m(s := src t)
      in if src t \<noteq> 0 then copy_str (Suc s) src (Suc t) n m' else (m', Suc s, n))"

definition strncpy :: "nat \<Rightarrow> bytes \<Rightarrow> nat \<Rightarrow> int \<Rightarrow> bytes \<Rightarrow> bytes" where
  "strncpy s src t n m =
     (let (m1, s1, left_over) = copy_str s src t (nat n) m
      in memset s1 0 left_over m1)"

definition safestrcpy :: "nat \<Rightarrow> bytes \<Rightarrow> nat \<Rightarrow> int \<Rightarrow> bytes \<Rightarrow> bytes" where
  "safestrcpy s src t n m =
     (if n \<le> 0 then m
      else let (m1, s1, _) = copy_str s src t (nat n - 1) m in m1(s1 := 0))"

partial_function (option) strlen_from :: "bytes \<Rightarrow> nat \<Rightarrow> nat \<Rightarrow> nat option" where
  "strlen_from m s n = (if m (s + n) = 0 then Some n else strlen_from m s (Suc n))"

definition strlen :: "bytes \<Rightarrow> nat \<Rightarrow> nat option" where
  "strlen m s = strlen_from m s 0"

subsection \<open>What the loops leave behind\<close>

definition cstr :: "nat \<Rightarrow> bytes \<Rightarrow> nat \<Rightarrow> byte list" where
  "cstr n m a = takeWhile (\<lambda>c. c \<noteq> 0) (map m [a..<a + n])"

lemma cstr_0 [simp]: "cstr 0 m a = []"
  by (simp add: cstr_def)

lemma cstr_Suc: "cstr (Suc n) m a = (if m a = 0 then [] else m a # cstr n m (Suc a))"
  by (simp add: cstr_def upt_conv_Cons del: upt_Suc)

lemma cstr_cong: "(\<And>i. a \<le> i \<Longrightarrow> i < a + n \<Longrightarrow> m' i = m i) \<Longrightarrow> cstr n m' a = cstr n m a"
  unfolding cstr_def by (metis (mono_tags, lifting) atLeastLessThan_iff map_eq_conv set_upt)

lemma memset_fill [simp]: "memset a c n m = fill a c n m"
  by (induction n arbitrary: a m) (auto simp: fill_def fun_eq_iff)

lemma memcmp_eq_0: "memcmp m1 a m2 b n = 0 \<longleftrightarrow> (\<forall>i<n. m1 (a + i) = m2 (b + i))"
proof (induction n arbitrary: a b)
  case (Suc n)
  have "(\<forall>i<Suc n. m1 (a + i) = m2 (b + i)) \<longleftrightarrow>
        m1 a = m2 b \<and> (\<forall>i<n. m1 (Suc a + i) = m2 (Suc b + i))"
    by (auto simp: less_Suc_eq_0_disj)
  then show ?case
    using Suc.IH [of "Suc a" "Suc b"] by (simp add: word_uint_eq_iff)
qed simp

lemma copy_Suc: "copy (Suc s) src (Suc t) k (m(s := src t)) = copy s src t (Suc k) m"
proof
  fix i
  show "copy (Suc s) src (Suc t) k (m(s := src t)) i = copy s src t (Suc k) m i"
  proof (cases "Suc s \<le> i")
    case True
    then obtain j where "i = Suc s + j" by (metis le_Suc_ex)
    then show ?thesis by (simp add: copy_def)
  qed (auto simp: copy_def)
qed

lemma copy_cong: "(\<And>i. a \<le> i \<Longrightarrow> i < a + n \<Longrightarrow> src i = src' i) \<Longrightarrow> copy d src a n m = copy d src' a n m"
  by (auto simp: copy_def fun_eq_iff)

lemma move_up_copy: "\<not> (s < d \<and> d < s + n) \<Longrightarrow> move_up d s n m = copy d m s n m"
proof (induction n arbitrary: d s m)
  case (Suc n)
  then have "move_up (Suc d) (Suc s) n (m(d := m s)) = copy (Suc d) (m(d := m s)) (Suc s) n (m(d := m s))"
    by (intro Suc.IH) auto
  also have "\<dots> = copy (Suc d) m (Suc s) n (m(d := m s))"
    using Suc.prems by (intro copy_cong) auto
  also have "\<dots> = copy d m s (Suc n) m"
    by (rule copy_Suc)
  finally show ?case by simp
qed simp

lemma move_down_copy: "s \<le> d \<Longrightarrow> move_down (d + n) (s + n) n m = copy d m s n m"
proof (induction n arbitrary: m)
  case (Suc n)
  then have "move_down (d + n) (s + n) n (m(d + n := m (s + n)))
      = copy d (m(d + n := m (s + n))) s n (m(d + n := m (s + n)))"
    by simp
  also have "\<dots> = copy d m s (Suc n) m"
    using Suc.prems by (auto simp: copy_def fun_eq_iff less_Suc_eq)
  finally show ?case by simp
qed simp

lemma memmove_copy: "memmove d s n m = copy d m s n m"
  by (simp add: memmove_def move_up_copy move_down_copy)

lemma strncmp_eq_0: "strncmp m1 a m2 b n = 0 \<longleftrightarrow> cstr n m1 a = cstr n m2 b"
proof (induction n arbitrary: a b)
  case (Suc n)
  have "uint (m1 a) = uint (m2 b) \<longleftrightarrow> m1 a = m2 b" by (simp add: word_uint_eq_iff)
  then show ?case
    using Suc.IH [of "Suc a" "Suc b"] by (simp add: cstr_Suc) (metis unsigned_0)
qed simp

lemma copy_str_run:
  "copy_str s src t n m =
     (let k = min n (Suc (length (cstr n src t))) in (copy s src t k m, s + k, n - k))"
proof (induction n arbitrary: s t m)
  case (Suc n)
  then show ?case
    by (simp add: Let_def cstr_Suc copy_Suc) (simp add: copy_def fun_eq_iff)
qed simp

lemma cstr_length: "length (cstr n m a) \<le> n"
  unfolding cstr_def by (metis diff_add_inverse length_map length_takeWhile_le length_upt)

lemma cstr_stops: "length (cstr n m a) < n \<Longrightarrow> m (a + length (cstr n m a)) = 0"
proof (induction n arbitrary: a)
  case (Suc n)
  then show ?case using Suc.IH [of "Suc a"] by (simp add: cstr_Suc split: if_splits)
qed simp

text \<open>
  The contents of a field of \<open>n\<close> bytes after \<open>strncpy\<close>: the string, then NULs; and after
  \<open>safestrcpy\<close>: the string cut to \<open>n - 1\<close> bytes, then a NUL.
\<close>

lemma cstr_eqI:
  assumes "length xs \<le> n" "\<And>i. i < length xs \<Longrightarrow> m (a + i) = xs ! i \<and> xs ! i \<noteq> 0"
    and "length xs < n \<Longrightarrow> m (a + length xs) = 0"
  shows "cstr n m a = xs"
  using assms
proof (induction n arbitrary: a xs)
  case (Suc n)
  show ?case
  proof (cases xs)
    case Nil
    with Suc.prems show ?thesis by (simp add: cstr_Suc)
  next
    case (Cons x ys)
    have "cstr n m (Suc a) = ys"
    proof (rule Suc.IH)
      show "m (Suc a + i) = ys ! i \<and> ys ! i \<noteq> 0" if "i < length ys" for i
        using Suc.prems(2) [of "Suc i"] that by (simp add: Cons)
    qed (use Suc.prems(1,3) in \<open>simp_all add: Cons\<close>)
    with Suc.prems(2) [of 0] Cons show ?thesis by (simp add: cstr_Suc)
  qed
qed simp

lemma cstr_nth: "i < length (cstr n m a) \<Longrightarrow> cstr n m a ! i = m (a + i) \<and> m (a + i) \<noteq> 0"
proof (induction n arbitrary: a i)
  case (Suc n)
  then show ?case
    using Suc.IH [of "i - 1" "Suc a"] by (cases i) (simp_all add: cstr_Suc split: if_splits)
qed simp

lemma strncpy_result:
  assumes "0 \<le> n"
  shows "strncpy s src t n m = (let k = min (nat n) (Suc (length (cstr (nat n) src t)))
     in fill (s + k) 0 (nat n - k) (copy s src t k m))"
  by (simp add: strncpy_def copy_str_run Let_def)

lemma cstr_strncpy: "0 \<le> n \<Longrightarrow> cstr (nat n) (strncpy s src t n m) s = cstr (nat n) src t"
  using cstr_length [of "nat n" src t] cstr_stops [of "nat n" src t]
  by (intro cstr_eqI) (auto simp: strncpy_result Let_def fill_def copy_def cstr_nth)

lemma strncpy_padded:
  "0 \<le> n \<Longrightarrow> length (cstr (nat n) src t) \<le> i \<Longrightarrow> i < nat n \<Longrightarrow> strncpy s src t n m (s + i) = 0"
  using cstr_stops [of "nat n" src t] cstr_length [of "nat n" src t]
  by (cases "i = length (cstr (nat n) src t)") (auto simp: strncpy_result Let_def fill_def copy_def)

lemma strncpy_outside: "i < s \<or> s + nat n \<le> i \<Longrightarrow> strncpy s src t n m i = m i"
  by (auto simp: strncpy_def copy_str_run Let_def fill_def copy_def)

lemma cstr_safestrcpy:
  assumes "0 < n"
  shows "cstr (nat n) (safestrcpy s src t n m) s = cstr (nat n - 1) src t"
  using assms cstr_length [of "nat n - 1" src t] cstr_stops [of "nat n - 1" src t]
  by (intro cstr_eqI) (auto simp: safestrcpy_def copy_str_run Let_def copy_def cstr_nth min_def)

lemma safestrcpy_outside: "i < s \<or> s + nat n \<le> i \<Longrightarrow> safestrcpy s src t n m i = m i"
  by (auto simp: safestrcpy_def copy_str_run Let_def copy_def)

lemma strlen_from_cstr:
  "m (s + n + k) = 0 \<Longrightarrow> \<forall>i<k. m (s + n + i) \<noteq> 0 \<Longrightarrow> strlen_from m s n = Some (n + k)"
proof (induction k arbitrary: n)
  case 0
  then show ?case by (subst strlen_from.simps) simp
next
  case (Suc k)
  then have "strlen_from m s (Suc n) = Some (Suc n + k)"
    by (intro Suc.IH) auto
  with Suc.prems show ?case by (subst strlen_from.simps) (auto dest: spec [of _ 0])
qed

lemma strlen_cstr: "length (cstr n m s) < n \<Longrightarrow> strlen m s = Some (length (cstr n m s))"
  using cstr_stops [of n m s] cstr_nth [of _ n m s]
  by (simp add: strlen_def strlen_from_cstr [where n = 0])

end
