(* ===== verification/Kalloc.thy ===== *)
theory Kalloc
  imports KString
begin

text \<open>
  The physical page allocator (\<^verbatim>\<open>kernel/kalloc.c\<close>). The free pages form a list linked through
  their own first eight bytes: \<^verbatim>\<open>struct run\<close> is the 64-bit little-endian number at the start of
  the page, NULL is 0. The address of the end of the kernel image, which the linker defines
  (\<^verbatim>\<open>end\<close>), is the constant field \<open>kend\<close> of the state.

  \<open>flist m p xs\<close> says that the list from \<open>p\<close> in memory \<open>m\<close> is \<open>xs\<close>; \<open>kmem_ok xs s\<close> that the
  allocator of state \<open>s\<close> is well formed with free pages \<open>xs\<close>. Against this abstraction
  \<open>kalloc\<close> pops and \<open>kfree\<close> pushes. The contract is the locale \<open>page_pool\<close>.
\<close>

subsection \<open>State and operations\<close>

record kmem = machine +
  pmem :: bytes
  freelist :: u64
  kend :: u64

definition kfree :: "u64 \<Rightarrow> ('z kmem_scheme, unit) km" where
  "kfree pa =
     bnd (gets kend) (\<lambda>e.
     if pa mod PGSIZE \<noteq> 0 \<or> pa < e \<or> PHYSTOP \<le> pa then panic ''kfree''
     else seqs
       [modify (\<lambda>s. s\<lparr>pmem := memset (unat pa) 1 4096 (pmem s)\<rparr>),
        acquire L_kmem,
        modify (\<lambda>s. s\<lparr>pmem := st64 (unat pa) (freelist s) (pmem s)\<rparr>),
        modify (\<lambda>s. s\<lparr>freelist := pa\<rparr>),
        release L_kmem])"

definition freerange :: "u64 \<Rightarrow> u64 \<Rightarrow> ('z kmem_scheme, unit) km" where
  "freerange pa_start pa_end =
     bnd (for_while (\<lambda>p. p + PGSIZE \<le> pa_end) (PGROUNDUP pa_start) PGSIZE
            (\<lambda>p. sq (kfree p) (ret (None :: unit option))))
         (\<lambda>_. ret ())"

definition kinit :: "('z kmem_scheme, unit) km" where
  "kinit =
     sq (initlock L_kmem ''kmem'')
        (bnd (gets kend) (\<lambda>e. freerange e PHYSTOP))"

definition kalloc :: "('z kmem_scheme, u64) km" where
  "kalloc =
     sq (acquire L_kmem)
     (bnd (gets freelist) (\<lambda>r.
      sq (whenk (r \<noteq> 0) (modify (\<lambda>s. s\<lparr>freelist := ld64 (pmem s) (unat r)\<rparr>)))
      (sq (release L_kmem)
      (sq (whenk (r \<noteq> 0) (modify (\<lambda>s. s\<lparr>pmem := memset (unat r) 5 4096 (pmem s)\<rparr>)))
          (ret r)))))"

subsection \<open>Running the operations\<close>

lemma kmem_upd_simps [simp]:
  "this_csr (s\<lparr>pmem := m\<rparr>) = this_csr s" "this_csr (s\<lparr>freelist := p\<rparr>) = this_csr s"
  "cpuid (s\<lparr>pmem := m\<rparr>) = cpuid s" "cpuid (s\<lparr>freelist := p\<rparr>) = cpuid s"
  "mycpu (s\<lparr>pmem := m\<rparr>) = mycpu s" "mycpu (s\<lparr>freelist := p\<rparr>) = mycpu s"
  "hart_ok (s\<lparr>pmem := m\<rparr>) = hart_ok s" "hart_ok (s\<lparr>freelist := p\<rparr>) = hart_ok s"
  "lock_ready lk (s\<lparr>pmem := m\<rparr>) = lock_ready lk s"
  "lock_ready lk (s\<lparr>freelist := p\<rparr>) = lock_ready lk s"
  by (simp_all add: machine_defs)

lemma kmem_section_simps [simp]:
  "touch (s\<lparr>pmem := m\<rparr>) = (touch s)\<lparr>pmem := m\<rparr>"
  "touch (s\<lparr>freelist := p\<rparr>) = (touch s)\<lparr>freelist := p\<rparr>"
  "acquired lk (s\<lparr>pmem := m\<rparr>) = (acquired lk s)\<lparr>pmem := m\<rparr>"
  "acquired lk (s\<lparr>freelist := p\<rparr>) = (acquired lk s)\<lparr>freelist := p\<rparr>"
  by (simp_all add: machine_defs)

lemma kmem_read_simps [simp]:
  "pmem (touch s) = pmem s" "freelist (touch s) = freelist s" "kend (touch s) = kend s"
  "pmem (acquired lk s) = pmem s" "freelist (acquired lk s) = freelist s"
  "kend (acquired lk s) = kend s"
  by (simp_all add: machine_defs)

definition pop_page :: "'z kmem_scheme \<Rightarrow> 'z kmem_scheme" where
  "pop_page s = (touch s)\<lparr>freelist := ld64 (pmem s) (unat (freelist s)),
                        pmem := fill (unat (freelist s)) 5 4096 (pmem s)\<rparr>"

definition push_page :: "u64 \<Rightarrow> 'z kmem_scheme \<Rightarrow> 'z kmem_scheme" where
  "push_page pa s = (touch s)\<lparr>freelist := pa,
                          pmem := st64 (unat pa) (freelist s) (fill (unat pa) 1 4096 (pmem s))\<rparr>"

lemma graft_kmem [simp]:
  "graft (t\<lparr>pmem := m\<rparr>) u = (graft t u)\<lparr>pmem := m\<rparr>"
  "graft (t\<lparr>freelist := p\<rparr>) u = (graft t u)\<lparr>freelist := p\<rparr>"
  by (cases t, cases u, simp add: graft_def)+

lemma kalloc_run:
  assumes "lock_ready L_kmem s"
  shows "kalloc es s = (if freelist s = 0 then Ret 0 es (touch s) else Ret (freelist s) es (pop_page s))"
  using assms
  by (simp add: kalloc_def km_simps acquire_ready release_section pop_page_def)

lemma kfree_run:
  assumes "lock_ready L_kmem s"
  shows "kfree pa es s = (if pa mod PGSIZE \<noteq> 0 \<or> pa < kend s \<or> PHYSTOP \<le> pa then Panic ''kfree''
                          else Ret () es (push_page pa s))"
  using assms
  by (simp add: kfree_def km_simps acquire_ready release_section push_page_def)

subsection \<open>The free list as a stack of pages\<close>

fun flist :: "bytes \<Rightarrow> u64 \<Rightarrow> u64 list \<Rightarrow> bool" where
  "flist m p [] \<longleftrightarrow> p = 0"
| "flist m p (x # xs) \<longleftrightarrow> p = x \<and> x \<noteq> 0 \<and> flist m (ld64 m (unat x)) xs"

definition page_ok :: "u64 \<Rightarrow> u64 \<Rightarrow> bool" where
  "page_ok e pa \<longleftrightarrow> pa mod PGSIZE = 0 \<and> e \<le> pa \<and> pa < PHYSTOP"

definition kmem_ok :: "u64 list \<Rightarrow> 'z kmem_scheme \<Rightarrow> bool" where
  "kmem_ok xs s \<longleftrightarrow> lock_ready L_kmem s \<and> flist (pmem s) (freelist s) xs \<and> distinct xs \<and>
     (\<forall>x\<in>set xs. page_ok (kend s) x) \<and> 0 < kend s"

lemma page_aligned: "p mod 4096 = 0 \<longleftrightarrow> unat p mod 4096 = 0" for p :: u64
  by (simp add: word_unat_eq_iff unat_mod)

lemma page_ok_unat:
  assumes "page_ok e p"
  shows "unat p mod 4096 = 0" "unat p < 2281701376"
  using assms by (simp_all add: page_ok_def page_aligned word_less_nat_alt)

lemma aligned_disjoint:
  fixes a b :: nat
  assumes "a mod k = 0" "b mod k = 0" "a \<noteq> b"
  shows "a + k \<le> b \<or> b + k \<le> a"
proof -
  obtain i j where ij: "a = k * i" "b = k * j"
    using assms by (metis mod_0_imp_dvd dvd_def)
  then have "i < j \<or> j < i" using assms(3) by auto
  then have "k * Suc i \<le> k * j \<or> k * Suc j \<le> k * i"
    by (metis Suc_leI mult_le_mono2)
  then show ?thesis by (simp add: ij add.commute)
qed

lemma pages_disjoint:
  "page_ok e p \<Longrightarrow> page_ok e q \<Longrightarrow> p \<noteq> q \<Longrightarrow>
     unat p + 4096 \<le> unat q \<or> unat q + 4096 \<le> unat p"
  by (intro aligned_disjoint) (simp_all add: page_ok_unat word_unat_eq_iff)

lemma flist_cong:
  "(\<And>x i. x \<in> set xs \<Longrightarrow> unat x \<le> i \<Longrightarrow> i < unat x + 8 \<Longrightarrow> m' i = m i) \<Longrightarrow>
     flist m' p xs = flist m p xs"
proof (induction xs arbitrary: p)
  case (Cons x xs)
  have "ld64 m' (unat x) = ld64 m (unat x)"
    by (rule ld64_cong, rule Cons.prems [of x]) auto
  moreover have "flist m' q xs = flist m q xs" for q
    by (rule Cons.IH, rule Cons.prems) auto
  ultimately show ?case by simp
qed simp

lemma flist_unique: "flist m p xs \<Longrightarrow> flist m p ys \<Longrightarrow> xs = ys"
proof (induction xs arbitrary: p ys)
  case Nil
  then show ?case by (cases ys) auto
next
  case (Cons x xs)
  then show ?case by (cases ys) auto
qed

lemma kmem_ok_pop:
  assumes ok: "kmem_ok (x # ys) s"
  shows "kmem_ok ys (pop_page s)"
proof -
  have "flist (fill (unat x) 5 4096 (pmem s)) q ys = flist (pmem s) q ys" for q
  proof (rule flist_cong)
    fix y i
    assume "y \<in> set ys" and i: "unat y \<le> i" "i < unat y + 8"
    with ok have "unat x + 4096 \<le> unat y \<or> unat y + 4096 \<le> unat x"
      by (intro pages_disjoint [of "kend s"]) (auto simp: kmem_ok_def)
    with i show "fill (unat x) 5 4096 (pmem s) i = pmem s i"
      by (auto simp: fill_def)
  qed
  with ok show ?thesis
    by (auto simp: kmem_ok_def pop_page_def)
qed

lemma kmem_ok_push:
  assumes ok: "kmem_ok xs s" and p: "page_ok (kend s) p" "p \<notin> set xs"
  shows "kmem_ok (p # xs) (push_page p s)"
proof -
  let ?m = "st64 (unat p) (freelist s) (fill (unat p) 1 4096 (pmem s))"
  have "flist ?m q xs = flist (pmem s) q xs" for q
  proof (rule flist_cong)
    fix y i
    assume "y \<in> set xs" and i: "unat y \<le> i" "i < unat y + 8"
    with ok p have "unat p + 4096 \<le> unat y \<or> unat y + 4096 \<le> unat p"
      by (intro pages_disjoint [of "kend s"]) (auto simp: kmem_ok_def)
    with i show "?m i = pmem s i"
      by (auto simp: bytes_simps fill_def)
  qed
  moreover have "p \<noteq> 0"
    using ok p by (auto simp: kmem_ok_def page_ok_def)
  ultimately show ?thesis
    using ok p by (auto simp: kmem_ok_def push_page_def bytes_simps)
qed

lemma page_kend [simp]: "kend (push_page p s) = kend s" "kend (pop_page s) = kend s"
  by (simp_all add: push_page_def pop_page_def)

lemma push_page_frame: "i < unat p \<or> unat p + 4096 \<le> i \<Longrightarrow> pmem (push_page p s) i = pmem s i"
  by (auto simp: push_page_def bytes_simps)

lemma kmem_ok_empty: "kmem_ok [] s \<Longrightarrow> freelist s = 0"
  by (simp add: kmem_ok_def)

lemma kmem_ok_head: "kmem_ok (x # xs) s \<Longrightarrow> freelist s = x \<and> x \<noteq> 0 \<and> page_ok (kend s) x"
  by (auto simp: kmem_ok_def)

lemma kmem_ok_touch [simp]: "kmem_ok xs (touch s) = kmem_ok xs s"
  by (simp add: kmem_ok_def)

lemma kmem_ok_ready: "kmem_ok xs s \<Longrightarrow> lock_ready L_kmem s"
  by (simp add: kmem_ok_def)

lemma kmem_ok_kalloc:
  assumes "kmem_ok xs s"
  shows "kalloc es s = (case xs of [] \<Rightarrow> Ret 0 es (touch s) | x # ys \<Rightarrow> Ret x es (pop_page s))"
  using assms
  by (cases xs) (auto simp: kalloc_run kmem_ok_ready dest: kmem_ok_empty kmem_ok_head)

lemma kmem_ok_kfree:
  assumes "kmem_ok xs s"
  shows "kfree p es s = (if page_ok (kend s) p then Ret () es (push_page p s) else Panic ''kfree'')"
  using assms by (auto simp: kfree_run kmem_ok_ready page_ok_def)

subsection \<open>The contract of the allocator\<close>

text \<open>
  What the rest of the kernel relies on: pages come from a pool and go back to it, no page is
  handed out twice, and running out is reported by a null pointer.
\<close>

locale page_pool =
  fixes alloc :: "('s, u64) km"
    and free :: "u64 \<Rightarrow> ('s, unit) km"
    and pool :: "u64 list \<Rightarrow> 's \<Rightarrow> bool"
    and usable :: "'s \<Rightarrow> u64 \<Rightarrow> bool"
  assumes alloc_page: "pool (p # ps) s \<Longrightarrow> \<exists>t. alloc es s = Ret p es t \<and> pool ps t \<and> usable t = usable s"
    and alloc_empty: "pool [] s \<Longrightarrow> \<exists>t. alloc es s = Ret 0 es t \<and> pool [] t \<and> usable t = usable s"
    and free_page: "pool ps s \<Longrightarrow> usable s p \<Longrightarrow> p \<notin> set ps \<Longrightarrow>
        \<exists>t. free p es s = Ret () es t \<and> pool (p # ps) t \<and> usable t = usable s"
    and pool_pages: "pool ps s \<Longrightarrow> distinct ps \<and> (\<forall>p\<in>set ps. usable s p \<and> p \<noteq> 0)"
begin

fun alloc_many :: "nat \<Rightarrow> ('s, u64 list) km" where
  "alloc_many 0 = ret []"
| "alloc_many (Suc n) = bnd alloc (\<lambda>p. bnd (alloc_many n) (\<lambda>ps. ret (p # ps)))"

lemma alloc_many_run:
  "pool ps s \<Longrightarrow> n \<le> length ps \<Longrightarrow>
     \<exists>t. alloc_many n es s = Ret (take n ps) es t \<and> pool (drop n ps) t \<and> usable t = usable s"
proof (induction n arbitrary: ps s)
  case 0
  then show ?case by (simp add: km_simps)
next
  case (Suc n)
  then obtain p qs where ps: "ps = p # qs" by (cases ps) auto
  obtain t where t: "alloc es s = Ret p es t" "pool qs t" "usable t = usable s"
    using alloc_page [of p qs s es] Suc.prems ps by auto
  then obtain u where "alloc_many n es t = Ret (take n qs) es u" "pool (drop n qs) u" "usable u = usable t"
    using Suc.IH [of qs t] Suc.prems ps by auto
  with t ps show ?case by (simp add: km_simps)
qed

lemma alloc_many_exhausts:
  "pool ps s \<Longrightarrow> \<exists>t. alloc_many (length ps + k) es s = Ret (ps @ replicate k 0) es t \<and> pool [] t"
proof (induction ps arbitrary: s)
  case Nil
  then show ?case
  proof (induction k arbitrary: s)
    case (Suc k)
    obtain t where "alloc es s = Ret 0 es t" "pool [] t"
      using alloc_empty [OF Suc.prems, of es] by auto
    with Suc.IH [of t] show ?case by (auto simp: km_simps)
  qed (simp add: km_simps)
next
  case (Cons p ps)
  obtain t where "alloc es s = Ret p es t" "pool ps t"
    using alloc_page [OF Cons.prems, of es] by auto
  with Cons.IH [of t] show ?case by (auto simp: km_simps)
qed

lemma free_alloc:
  "pool ps s \<Longrightarrow> usable s p \<Longrightarrow> p \<notin> set ps \<Longrightarrow>
     \<exists>t. bnd (free p) (\<lambda>_. alloc) es s = Ret p es t \<and> pool ps t"
  using free_page [of ps s p es] alloc_page by (fastforce simp: km_simps)

end

interpretation kpool: page_pool kalloc kfree kmem_ok "\<lambda>s. page_ok (kend s)"
proof
  fix p ps and s :: "'a kmem_scheme" and es
  show "kmem_ok (p # ps) s \<Longrightarrow> \<exists>t. kalloc es s = Ret p es t \<and> kmem_ok ps t \<and> page_ok (kend t) = page_ok (kend s)"
    by (auto simp: kmem_ok_kalloc kmem_ok_pop)
  show "kmem_ok [] s \<Longrightarrow> \<exists>t. kalloc es s = Ret 0 es t \<and> kmem_ok [] t \<and> page_ok (kend t) = page_ok (kend s)"
    by (auto simp: kmem_ok_kalloc)
  show "kmem_ok ps s \<Longrightarrow> page_ok (kend s) p \<Longrightarrow> p \<notin> set ps \<Longrightarrow>
      \<exists>t. kfree p es s = Ret () es t \<and> kmem_ok (p # ps) t \<and> page_ok (kend t) = page_ok (kend s)"
    by (auto simp: kmem_ok_kfree kmem_ok_push)
  show "kmem_ok ps s \<Longrightarrow> distinct ps \<and> (\<forall>p\<in>set ps. page_ok (kend s) p \<and> p \<noteq> 0)"
    by (auto simp: kmem_ok_def page_ok_def)
qed

subsection \<open>Building the free list\<close>

lemma unat_next_page: "unat p < 2 ^ 63 \<Longrightarrow> unat (p + 4096) = unat p + 4096" for p :: u64
  by (simp add: unat_word_ariths(1))

lemma page_set_step:
  assumes "unat p mod 4096 = 0" "unat p + 4096 \<le> 2281701376"
  shows "{q :: u64. q mod PGSIZE = 0 \<and> p \<le> q \<and> q < PHYSTOP}
       = insert p {q. q mod PGSIZE = 0 \<and> p + 4096 \<le> q \<and> q < PHYSTOP}" (is "?A = ?B")
proof -
  have n: "unat (p + 4096) = unat p + 4096"
    using assms by (intro unat_next_page) simp
  have "q \<in> ?A \<longleftrightarrow> q \<in> ?B" for q
  proof (cases "q = p")
    case True
    then show ?thesis using assms by (simp add: page_aligned word_less_nat_alt)
  next
    case False
    then have "unat q \<noteq> unat p" by (simp add: word_unat_eq_iff)
    moreover have "unat q mod 4096 = 0 \<Longrightarrow> unat p + 4096 \<le> unat q \<or> unat q + 4096 \<le> unat p"
      using aligned_disjoint [OF assms(1), of "unat q"] calculation by metis
    ultimately have "unat q mod 4096 = 0 \<Longrightarrow> unat p \<le> unat q \<longleftrightarrow> unat p + 4096 \<le> unat q"
      by linarith
    with False show ?thesis
      by (simp add: page_aligned word_le_nat_alt n cong: conj_cong)
  qed
  then show ?thesis by (rule set_eqI)
qed

lemma freerange_loop:
  assumes "kmem_ok xs s" "unat p mod 4096 = 0" "kend s \<le> p" "p \<le> PHYSTOP" "\<forall>x\<in>set xs. x < p"
  shows "\<exists>t ys. for_while (\<lambda>p. p + PGSIZE \<le> PHYSTOP) p PGSIZE
                  (\<lambda>p. sq (kfree p) (ret (None :: unit option))) es s = Ret None es t \<and>
           kmem_ok ys t \<and> kend t = kend s \<and>
           set ys = set xs \<union> {q. q mod PGSIZE = 0 \<and> p \<le> q \<and> q < PHYSTOP}"
  using assms
proof (induction "2281701376 - unat p" arbitrary: p xs s rule: less_induct)
  case less
  have p: "unat p \<le> 2281701376"
    using less.prems by (simp add: word_le_nat_alt)
  then have n: "unat (p + 4096) = unat p + 4096"
    by (intro unat_next_page) simp
  show ?case
  proof (cases "unat p = 2281701376")
    case True
    then have "\<not> p + 4096 \<le> PHYSTOP" "\<not> (p \<le> q \<and> q < PHYSTOP)" for q :: u64
      using n by (auto simp: word_le_nat_alt word_less_nat_alt)
    then show ?thesis
      using less.prems(1) by (simp add: for_while_done) blast
  next
    case False
    then have room: "unat p + 4096 \<le> 2281701376"
      using aligned_disjoint [of "unat p" 4096 2281701376] p less.prems(2) by simp
    have ok: "page_ok (kend s) p" "p \<notin> set xs"
      using less.prems room by (auto simp: page_ok_def page_aligned word_less_nat_alt)
    have push: "kmem_ok (p # xs) (push_page p s)" "kend (push_page p s) = kend s"
      using kmem_ok_push [OF less.prems(1) ok] by (simp_all add: push_page_def)
    have lt: "p < p + 4096"
      by (simp add: word_less_nat_alt n)
    have "\<exists>t ys. for_while (\<lambda>p. p + PGSIZE \<le> PHYSTOP) (p + 4096) PGSIZE
               (\<lambda>p. sq (kfree p) (ret (None :: unit option))) es (push_page p s) = Ret None es t \<and>
           kmem_ok ys t \<and> kend t = kend (push_page p s) \<and>
           set ys = set (p # xs) \<union> {q. q mod PGSIZE = 0 \<and> p + 4096 \<le> q \<and> q < PHYSTOP}"
      using less.prems push room n lt
      by (intro less.hyps) (auto simp: word_le_nat_alt word_less_nat_alt mod_add_eq)
    moreover have "for_while (\<lambda>p. p + PGSIZE \<le> PHYSTOP) p PGSIZE
               (\<lambda>p. sq (kfree p) (ret (None :: unit option))) es s
        = for_while (\<lambda>p. p + PGSIZE \<le> PHYSTOP) (p + 4096) PGSIZE
               (\<lambda>p. sq (kfree p) (ret (None :: unit option))) es (push_page p s)"
      using room n lt ok less.prems(1)
      by (intro for_while_step) (simp_all add: km_simps kmem_ok_kfree word_le_nat_alt)
    ultimately show ?thesis
      using push(2) page_set_step [OF less.prems(2) room] by auto
  qed
qed

subsection \<open>Properties\<close>

text \<open>The state of the allocator before \<^verbatim>\<open>kinit\<close>: zeroed memory, the given end of the kernel.\<close>

definition reset_kmem :: "u64 \<Rightarrow> kmem" where
  "reset_kmem e = machine.extend reset_machine (kmem.fields (\<lambda>_. 0) 0 e)"

lemma reset_kmem_ready: "lock_ready lk (reset_kmem e)"
  using lock_ready_reset [of lk]
  by (simp add: reset_kmem_def machine_defs machine.defs kmem.defs)

lemma reset_kmem_simps [simp]:
  "pmem (reset_kmem e) = (\<lambda>_. 0)" "freelist (reset_kmem e) = 0" "kend (reset_kmem e) = e"
  by (simp_all add: reset_kmem_def machine.defs kmem.defs)

lemma reset_kmem_ok: "0 < e \<Longrightarrow> kmem_ok [] (reset_kmem e)"
  by (simp add: kmem_ok_def reset_kmem_ready)

text \<open>
  C4: \<^verbatim>\<open>kalloc\<close> takes the page at the head of the free list, or returns 0 and changes nothing
  when the list is empty; the page is filled with the byte 5, the rest of memory is untouched
  and the remaining list is well formed.
\<close>

theorem kalloc_correct:
  assumes "kmem_ok xs s"
  shows "\<exists>r t. kalloc es s = Ret r es t \<and>
           (case xs of
              [] \<Rightarrow> r = 0 \<and> t = touch s
            | x # ys \<Rightarrow> r = x \<and> r \<noteq> 0 \<and> page_ok (kend s) r \<and> kmem_ok ys t \<and> kend t = kend s \<and>
                (\<forall>i. pmem t i = (if unat r \<le> i \<and> i < unat r + 4096 then 5 else pmem s i)))"
proof (cases xs)
  case (Cons x ys)
  with assms kmem_ok_head [of x ys s] kmem_ok_pop [of x ys s] show ?thesis
    by (simp add: kmem_ok_kalloc) (simp add: pop_page_def fill_def)
qed (use assms in \<open>simp add: kmem_ok_kalloc\<close>)

theorem kalloc_correct_witness:
  "\<exists>t. kalloc [] (push_page 0x80005000 (reset_kmem 0x80001000)) = Ret 0x80005000 [] t \<and> kmem_ok [] t"
proof -
  have "kmem_ok [0x80005000] (push_page 0x80005000 (reset_kmem 0x80001000))"
    by (rule kmem_ok_push) (simp_all add: reset_kmem_ok page_ok_def)
  from kalloc_correct [OF this, of "[]"] show ?thesis by auto
qed



lemma kinit_run:
  assumes "hart_ok s" "freelist s = 0" "0 < kend s" "kend s \<le> PHYSTOP"
  shows "\<exists>t xs. kinit es s = Ret () es t \<and> kmem_ok xs t \<and> distinct xs \<and>
           set xs = {p. p mod PGSIZE = 0 \<and> kend s \<le> p \<and> p < PHYSTOP}"
proof -
  let ?s = "upd_lock L_kmem (\<lambda>_. \<lparr>sl_locked = 0, sl_name = ''kmem'', sl_cpu = None\<rparr>) s"
  let ?p = "PGROUNDUP (kend s)"
  have k: "unat (kend s) \<le> 2281701376"
    using assms(4) by (simp add: word_le_nat_alt)
  then have up: "unat ?p = (unat (kend s) + 4095) div 4096 * 4096"
    by (intro unat_PGROUNDUP) simp
  then have al: "unat ?p mod 4096 = 0" by simp
  have ge: "kend s \<le> ?p" and le: "?p \<le> PHYSTOP"
    using k by (simp_all add: word_le_nat_alt up)
  have ok: "kmem_ok [] ?s" and same: "kend ?s = kend s"
    using assms by (auto simp: kmem_ok_def lock_ready_def hart_ok_def) (simp_all add: upd_lock_def)
  have pages: "{p. p mod PGSIZE = 0 \<and> kend s \<le> p \<and> p < PHYSTOP}
      = {p. p mod PGSIZE = 0 \<and> ?p \<le> p \<and> p < PHYSTOP}"
  proof -
    have "kend s \<le> q \<longleftrightarrow> ?p \<le> q" if "q mod PGSIZE = 0" for q
      using that ge by (auto simp: word_le_nat_alt up page_aligned)
    then show ?thesis by (simp cong: conj_cong)
  qed
  obtain t xs where "for_while (\<lambda>p. p + PGSIZE \<le> PHYSTOP) ?p PGSIZE
        (\<lambda>p. sq (kfree p) (ret (None :: unit option))) es ?s = Ret None es t" "kmem_ok xs t"
      "set xs = {p. p mod PGSIZE = 0 \<and> kend s \<le> p \<and> p < PHYSTOP}"
    using freerange_loop [OF ok al, of es] ge le by (auto simp: same pages)
  then show ?thesis
    by (auto simp: kinit_def freerange_def initlock_def km_simps same kmem_ok_def)
qed

text \<open>An allocator with \<open>n\<close> free pages, for concrete examples.\<close>

lemma example_pool:
  "n \<le> 1000 \<Longrightarrow> \<exists>s :: kmem. kend s = 0x80001000 \<and> hart_ok s \<and>
     kmem_ok (rev (map (\<lambda>i. 0x80001000 + 4096 * word_of_nat i) [0..<n])) s"
proof (induction n)
  case 0
  show ?case
    by (intro exI [of _ "reset_kmem 0x80001000"])
       (use reset_kmem_ready reset_kmem_ok in \<open>auto simp: lock_ready_def\<close>)
next
  case (Suc n)
  then obtain s :: kmem where s: "kend s = 0x80001000" "hart_ok s"
      "kmem_ok (rev (map (\<lambda>i. 0x80001000 + 4096 * word_of_nat i) [0..<n])) s" by auto
  let ?p = "0x80001000 + 4096 * word_of_nat n :: u64"
  have u: "unat (0x80001000 + 4096 * word_of_nat i :: u64) = 2147487744 + 4096 * i" if "i \<le> 1000" for i
    using that by (simp add: unat_word_ariths unat_of_nat)
  have "page_ok (kend s) ?p"
    using u [of n] Suc.prems by (simp add: page_ok_def page_aligned word_le_nat_alt word_less_nat_alt s(1))
  moreover have "?p \<notin> set (rev (map (\<lambda>i. 0x80001000 + 4096 * word_of_nat i) [0..<n]))"
  proof
    assume "?p \<in> set (rev (map (\<lambda>i. 0x80001000 + 4096 * word_of_nat i) [0..<n]))"
    then obtain i where "i < n" "?p = 0x80001000 + 4096 * word_of_nat i" by auto
    with u [of n] u [of i] Suc.prems show False by simp
  qed
  ultimately have "kmem_ok (?p # rev (map (\<lambda>i. 0x80001000 + 4096 * word_of_nat i) [0..<n])) (push_page ?p s)"
    using s(3) by (intro kmem_ok_push)
  with s show ?case
    by (intro exI [of _ "push_page ?p s"]) (simp add: push_page_def)
qed

text \<open>
  C6: \<^verbatim>\<open>kinit\<close> returns for every end of the kernel image in physical memory, and the free list
  it builds holds every page between that end and \<^verbatim>\<open>PHYSTOP\<close> exactly once.
\<close>

theorem kinit_all_pages:
  assumes "hart_ok s" "freelist s = 0" "0 < kend s" "kend s \<le> PHYSTOP"
  shows "\<exists>t xs. kinit es s = Ret () es t \<and> kmem_ok xs t \<and> distinct xs \<and>
           set xs = {p. p mod PGSIZE = 0 \<and> kend s \<le> p \<and> p < PHYSTOP}"
  using assms by (rule kinit_run)

theorem kinit_all_pages_witness:
  "\<exists>t xs. kinit [] (reset_kmem 0x80021d60) = Ret () [] t \<and> kmem_ok xs t \<and>
     0x80022000 \<in> set xs \<and> 0x87fff000 \<in> set xs \<and> 0x80021000 \<notin> set xs"
proof -
  have "hart_ok (reset_kmem 0x80021d60)"
    using reset_kmem_ready by (auto simp: lock_ready_def)
  from kinit_all_pages [OF this, of "[]"] obtain t xs
    where "kinit [] (reset_kmem 0x80021d60) = Ret () [] t" "kmem_ok xs t"
      "set xs = {p. p mod PGSIZE = 0 \<and> 0x80021d60 \<le> p \<and> p < PHYSTOP}" by auto
  then show ?thesis by (intro exI [of _ t] exI [of _ xs]) simp
qed

text \<open>
  C7: \<open>n\<close> calls of \<^verbatim>\<open>kalloc\<close> in a row on an allocator with at least \<open>n\<close> free pages return \<open>n\<close>
  different usable pages, and those pages are no longer free.
\<close>

theorem kalloc_distinct:
  assumes "kmem_ok xs s" "n \<le> length xs"
  shows "\<exists>ps t. kpool.alloc_many n es s = Ret ps es t \<and> length ps = n \<and> distinct ps \<and>
           (\<forall>p\<in>set ps. page_ok (kend s) p \<and> p \<noteq> 0) \<and>
           (\<exists>ys. kmem_ok ys t \<and> set ps \<inter> set ys = {} \<and> set ps \<union> set ys = set xs)"
proof -
  obtain t where t: "kpool.alloc_many n es s = Ret (take n xs) es t" "kmem_ok (drop n xs) t"
    using kpool.alloc_many_run [OF assms, of es] by auto
  have d: "distinct xs" "\<forall>p\<in>set xs. page_ok (kend s) p \<and> p \<noteq> 0"
    using kpool.pool_pages [OF assms(1)] by auto
  have "set (take n xs) \<union> set (drop n xs) = set xs"
    by (metis append_take_drop_id set_append)
  moreover have "set (take n xs) \<inter> set (drop n xs) = {}"
    using d(1) by (rule set_take_disj_set_drop_if_distinct) simp
  ultimately show ?thesis
    using t d assms(2) by (intro exI [of _ "take n xs"] exI [of _ t]) (auto dest: in_set_takeD)
qed

theorem kalloc_distinct_witness:
  "\<exists>ps t. kpool.alloc_many 1 [] (push_page 0x80005000 (reset_kmem 0x80001000)) = Ret ps [] t \<and> length ps = 1"
proof -
  have "kmem_ok [0x80005000] (push_page 0x80005000 (reset_kmem 0x80001000))"
    by (rule kmem_ok_push) (simp_all add: reset_kmem_ok page_ok_def)
  from kalloc_distinct [OF this, of 1 "[]"] show ?thesis by auto
qed

end
