(* ===== verification/PageTable.thy ===== *)
theory PageTable
  imports Kalloc
begin

text \<open>
  The structure of a page table in memory, as the proofs about \<^verbatim>\<open>kernel/vm.c\<close> see it.

  A table page is identified by the path of indices that leads to it from the root: \<open>[]\<close> is the
  root, \<open>[i]\<close> the level-1 page below its entry \<open>i\<close>, \<open>[i, j]\<close> a level-0 page. \<open>node m pt p\<close> is its
  address, if the entries on the way are valid. A table is well formed (\<open>pt_wf\<close>) when its pages
  are usable pages and different paths lead to different pages: it is a tree. \<open>pte_of m pt va\<close>
  is the leaf entry for a virtual address, 0 where a level is missing.

  The lemmas give the effect of the three kinds of memory writes: outside the table
  (\<open>node_frame\<close>), to a leaf entry (\<open>leaf_store\<close>), and the linking of a zeroed page under an
  invalid entry (\<open>link_mem\<close>).
\<close>

subsection \<open>Paths and entries\<close>

definition pte_at :: "bytes \<Rightarrow> u64 \<Rightarrow> nat \<Rightarrow> u64" where
  "pte_at m p i = ld64 m (unat p + 8 * i)"

fun node :: "bytes \<Rightarrow> u64 \<Rightarrow> nat list \<Rightarrow> u64 option" where
  "node m p [] = Some p"
| "node m p (i # is) =
     (if pte_at m p i AND PTE_V \<noteq> 0 then node m (PTE2PA (pte_at m p i)) is else None)"

definition tpath :: "nat list \<Rightarrow> bool" where
  "tpath p \<longleftrightarrow> length p \<le> 2 \<and> (\<forall>i\<in>set p. i < 512)"

definition pt_pages :: "bytes \<Rightarrow> u64 \<Rightarrow> u64 set" where
  "pt_pages m pt = {a. \<exists>p. tpath p \<and> node m pt p = Some a}"

definition pt_wf :: "u64 \<Rightarrow> bytes \<Rightarrow> u64 \<Rightarrow> bool" where
  "pt_wf e m pt \<longleftrightarrow> (\<forall>a\<in>pt_pages m pt. page_ok e a) \<and>
     (\<forall>p q a. tpath p \<longrightarrow> tpath q \<longrightarrow> node m pt p = Some a \<longrightarrow> node m pt q = Some a \<longrightarrow> p = q)"

definition path_of :: "u64 \<Rightarrow> nat list" where
  "path_of va = [unat (PX 2 va), unat (PX 1 va)]"

definition idx_of :: "u64 \<Rightarrow> nat" where
  "idx_of va = unat (PX 0 va)"

definition pte_of :: "bytes \<Rightarrow> u64 \<Rightarrow> u64 \<Rightarrow> u64" where
  "pte_of m pt va = (case node m pt (path_of va) of None \<Rightarrow> 0 | Some a \<Rightarrow> pte_at m a (idx_of va))"

definition in_page :: "u64 \<Rightarrow> nat \<Rightarrow> bool" where
  "in_page p i \<longleftrightarrow> unat p \<le> i \<and> i < unat p + 4096"

definition same_pages :: "u64 set \<Rightarrow> bytes \<Rightarrow> bytes \<Rightarrow> bool" where
  "same_pages A m m' \<longleftrightarrow> (\<forall>a\<in>A. \<forall>k. in_page a k \<longrightarrow> m' k = m k)"

lemma same_pagesI [intro]: "(\<And>a k. a \<in> A \<Longrightarrow> in_page a k \<Longrightarrow> m' k = m k) \<Longrightarrow> same_pages A m m'"
  by (simp add: same_pages_def)

lemma same_pagesD: "same_pages A m m' \<Longrightarrow> a \<in> A \<Longrightarrow> in_page a k \<Longrightarrow> m' k = m k"
  by (simp add: same_pages_def)

lemma same_pages_Un [simp]: "same_pages (A \<union> B) m m' \<longleftrightarrow> same_pages A m m' \<and> same_pages B m m'"
  by (auto simp: same_pages_def)

lemma PX_bound: "unat (PX l va) < 512"
  by (simp add: unat_PX)

lemma tpath_simps [simp]:
  "tpath []" "tpath (path_of va)"
  by (simp_all add: tpath_def path_of_def PX_bound)

lemma idx_bound [simp]: "idx_of va < 512"
  by (simp add: idx_of_def PX_bound)

lemma tpath_prefix: "tpath (p @ q) \<Longrightarrow> tpath p"
  by (auto simp: tpath_def)

lemma tpath_snoc: "length p \<le> 1 \<Longrightarrow> tpath p \<Longrightarrow> i < 512 \<Longrightarrow> tpath (p @ [i])"
  by (auto simp: tpath_def)

lemma root_page [simp]: "pt \<in> pt_pages m pt"
  unfolding pt_pages_def by (intro CollectI exI [of _ "[]"]) simp

lemma node_append:
  "node m p (xs @ ys) = (case node m p xs of None \<Rightarrow> None | Some a \<Rightarrow> node m a ys)"
  by (induction xs arbitrary: p) auto

lemma node_page: "tpath p \<Longrightarrow> node m pt p = Some a \<Longrightarrow> a \<in> pt_pages m pt"
  by (auto simp: pt_pages_def)

lemma pt_wf_page: "pt_wf e m pt \<Longrightarrow> tpath p \<Longrightarrow> node m pt p = Some a \<Longrightarrow> page_ok e a"
  by (auto simp: pt_wf_def pt_pages_def)

lemma pt_wf_inj:
  "pt_wf e m pt \<Longrightarrow> tpath p \<Longrightarrow> tpath q \<Longrightarrow> node m pt p = Some a \<Longrightarrow> node m pt q = Some a \<Longrightarrow> p = q"
  unfolding pt_wf_def by blast

text \<open>A path is followed to the same page when the entries on the way are the same.\<close>

lemma node_cong:
  assumes "\<And>xs i ys a. path = xs @ i # ys \<Longrightarrow> node m p xs = Some a \<Longrightarrow> pte_at m' a i = pte_at m a i"
  shows "node m' p path = node m p path"
  using assms
proof (induction path arbitrary: p)
  case (Cons i path)
  have e: "pte_at m' p i = pte_at m p i"
    using Cons.prems [of "[]" i path p] by simp
  show ?case
  proof (cases "pte_at m p i AND PTE_V \<noteq> 0")
    case True
    have "node m' (PTE2PA (pte_at m p i)) path = node m (PTE2PA (pte_at m p i)) path"
    proof (rule Cons.IH)
      fix xs j ys a
      assume "path = xs @ j # ys" "node m (PTE2PA (pte_at m p i)) xs = Some a"
      with True show "pte_at m' a j = pte_at m a j"
        by (intro Cons.prems [of "i # xs" j ys]) simp_all
    qed
    with e show ?thesis by simp
  qed (use e in simp)
qed simp

lemma in_page_entry: "i < 512 \<Longrightarrow> unat p + 8 * i \<le> k \<Longrightarrow> k < unat p + 8 * i + 8 \<Longrightarrow> in_page p k"
  by (auto simp: in_page_def)

lemma pte_at_cong:
  "i < 512 \<Longrightarrow> (\<And>k. in_page a k \<Longrightarrow> m' k = m k) \<Longrightarrow> pte_at m' a i = pte_at m a i"
  unfolding pte_at_def by (rule ld64_cong) (auto intro: in_page_entry)

lemma tpath_split: "tpath (xs @ i # ys) \<Longrightarrow> tpath xs \<and> i < 512 \<and> length xs \<le> 1"
  by (auto simp: tpath_def)

subsection \<open>Writes outside the table\<close>

lemma node_frame:
  assumes same: "same_pages (pt_pages m pt) m m'"
  shows "tpath p \<Longrightarrow> node m' pt p = node m pt p"
    and "pt_pages m' pt = pt_pages m pt" and "pte_of m' pt va = pte_of m pt va"
    and "pt_wf e m' pt = pt_wf e m pt"
proof -
  show n: "node m' pt p = node m pt p" if "tpath p" for p
  proof (rule node_cong)
    fix xs i ys a
    assume p: "p = xs @ i # ys" and a: "node m pt xs = Some a"
    with that have x: "tpath xs" "i < 512"
      using tpath_split by blast+
    then show "pte_at m' a i = pte_at m a i"
      using node_page [OF x(1) a] by (intro pte_at_cong same_pagesD [OF same])
  qed
  show p: "pt_pages m' pt = pt_pages m pt"
    by (simp add: pt_pages_def n cong: conj_cong)
  show "pte_of m' pt va = pte_of m pt va"
  proof (cases "node m pt (path_of va)")
    case (Some a)
    then have "pte_at m' a (idx_of va) = pte_at m a (idx_of va)"
      using node_page [OF _ Some] by (intro pte_at_cong same_pagesD [OF same]) auto
    with Some show ?thesis by (simp add: pte_of_def n)
  qed (simp add: pte_of_def n)
  show "pt_wf e m' pt = pt_wf e m pt"
    by (simp add: pt_wf_def p n cong: imp_cong)
qed

subsection \<open>Writes to entries\<close>

lemma pte_at_store_other:
  assumes wf: "pt_wf e m pt" and q: "tpath q" "node m pt q = Some b" "j < 512"
    and r: "tpath r" "node m pt r = Some a" "i < 512" and ne: "(r, i) \<noteq> (q, j)"
  shows "pte_at (st64 (unat b + 8 * j) v m) a i = pte_at m a i"
proof -
  have "unat a + 8 * i + 8 \<le> unat b + 8 * j \<or> unat b + 8 * j + 8 \<le> unat a + 8 * i"
  proof (cases "r = q")
    case True
    with q r ne have "a = b" "i \<noteq> j" by auto
    then show ?thesis by auto
  next
    case False
    then have "a \<noteq> b" using pt_wf_inj [OF wf q(1) r(1) q(2)] r(2) by auto
    then have "unat a + 4096 \<le> unat b \<or> unat b + 4096 \<le> unat a"
      using pt_wf_page [OF wf] q r by (intro pages_disjoint) auto
    with q(3) r(3) show ?thesis by linarith
  qed
  then show ?thesis unfolding pte_at_def by (rule ld64_st64_disjoint)
qed

lemma leaf_store:
  fixes v :: u64
  assumes wf: "pt_wf e m pt" and b: "node m pt (path_of va) = Some b"
  defines "m' \<equiv> st64 (unat b + 8 * idx_of va) v m"
  shows "tpath p \<Longrightarrow> node m' pt p = node m pt p"
    and "pt_pages m' pt = pt_pages m pt" and "pt_wf e m' pt"
    and "pte_of m' pt vb = (if path_of vb = path_of va \<and> idx_of vb = idx_of va then v else pte_of m pt vb)"
proof -
  have other: "pte_at m' a i = pte_at m a i"
    if "tpath r" "node m pt r = Some a" "i < 512" "(r, i) \<noteq> (path_of va, idx_of va)" for r a i
    unfolding m'_def by (rule pte_at_store_other [OF wf _ b]) (use that in simp_all)
  show n: "node m' pt p = node m pt p" if "tpath p" for p
  proof (rule node_cong)
    fix xs i ys a
    assume p: "p = xs @ i # ys" and a: "node m pt xs = Some a"
    with that have x: "tpath xs" "i < 512" "length xs \<le> 1"
      using tpath_split by blast+
    moreover have "xs \<noteq> path_of va"
      using x(3) by (auto simp: path_of_def)
    ultimately show "pte_at m' a i = pte_at m a i"
      using a by (intro other) auto
  qed
  show p: "pt_pages m' pt = pt_pages m pt"
    by (simp add: pt_pages_def n cong: conj_cong)
  show "pt_wf e m' pt"
    using wf by (simp add: pt_wf_def p n cong: imp_cong)
  show "pte_of m' pt vb = (if path_of vb = path_of va \<and> idx_of vb = idx_of va then v else pte_of m pt vb)"
  proof (cases "node m pt (path_of vb)")
    case None
    with b show ?thesis by (auto simp: pte_of_def n)
  next
    case (Some a)
    show ?thesis
    proof (cases "path_of vb = path_of va \<and> idx_of vb = idx_of va")
      case True
      with Some b have "pte_at m' a (idx_of vb) = v"
        by (simp add: m'_def pte_at_def ld64_st64)
      with True Some show ?thesis by (simp add: pte_of_def n)
    next
      case False
      with Some have "pte_at m' a (idx_of vb) = pte_at m a (idx_of vb)"
        by (intro other) auto
      with False Some show ?thesis by (auto simp: pte_of_def n)
    qed
  qed
qed

lemma zero_page_entry: "i < 512 \<Longrightarrow> pte_at (fill (unat n) 0 4096 m) n i = 0"
  unfolding pte_at_def by (rule ld64_fill_zero) auto

lemma V_not_0: "PA2PTE p OR PTE_V \<noteq> 0" "(PA2PTE p OR PTE_V) AND PTE_V \<noteq> 0"
proof -
  have b: "(PA2PTE p OR 1) AND 1 = 1" and z: "(0 :: u64) AND 1 \<noteq> 1"
    using PTE_bits_PA2PTE [of 1 p 1] by simp_all
  show "PA2PTE p OR PTE_V \<noteq> 0" "(PA2PTE p OR PTE_V) AND PTE_V \<noteq> 0"
    by (metis b z one_neq_zero)+
qed

lemma page_roundtrip: "page_ok e p \<Longrightarrow> PTE2PA (PA2PTE p OR f) = p" if "unat f < 1024"
  using that page_ok_unat [of e p] by (intro PTE2PA_PA2PTE) auto

definition link_mem :: "u64 \<Rightarrow> nat \<Rightarrow> u64 \<Rightarrow> bytes \<Rightarrow> bytes" where
  "link_mem b j n m = st64 (unat b + 8 * j) (PA2PTE n OR PTE_V) (fill (unat n) 0 4096 m)"

definition linkable :: "u64 \<Rightarrow> bytes \<Rightarrow> u64 \<Rightarrow> nat list \<Rightarrow> u64 \<Rightarrow> nat \<Rightarrow> u64 \<Rightarrow> bool" where
  "linkable e m pt q b j n \<longleftrightarrow> pt_wf e m pt \<and> tpath q \<and> length q \<le> 1 \<and> node m pt q = Some b \<and> j < 512 \<and>
     pte_at m b j AND PTE_V = 0 \<and> page_ok e n \<and> n \<notin> pt_pages m pt"

lemma linkable_separate:
  assumes "linkable e m pt q b j n" "a \<in> pt_pages m pt"
  shows "unat a + 4096 \<le> unat n \<or> unat n + 4096 \<le> unat a"
  using assms by (intro pages_disjoint) (auto simp: linkable_def pt_wf_def)

lemma linkable_zeroed:
  assumes "linkable e m pt q b j n"
  shows "same_pages (pt_pages m pt) m (fill (unat n) 0 4096 m)"
  using linkable_separate [OF assms] by (fastforce simp: in_page_def fill_def)

lemma link_new_entry:
  assumes l: "linkable e m pt q b j n" and i: "i < 512"
  shows "pte_at (link_mem b j n m) n i = 0"
proof -
  have "b \<in> pt_pages m pt" "j < 512"
    using l node_page [of q m pt b] by (auto simp: linkable_def)
  then have "pte_at (link_mem b j n m) n i = pte_at (fill (unat n) 0 4096 m) n i"
    unfolding link_mem_def pte_at_def using i linkable_separate [OF l, of b]
    by (intro ld64_st64_disjoint) linarith
  with i show ?thesis by (simp add: zero_page_entry)
qed

lemma link_old_entry:
  assumes l: "linkable e m pt q b j n"
    and r: "tpath r" "node m pt r = Some a" "i < 512" "(r, i) \<noteq> (q, j)"
  shows "pte_at (link_mem b j n m) a i = pte_at m a i"
proof -
  note fr = node_frame [of m pt "fill (unat n) 0 4096 m", OF linkable_zeroed [OF l]]
  have "pte_at (link_mem b j n m) a i = pte_at (fill (unat n) 0 4096 m) a i"
    unfolding link_mem_def
    by (rule pte_at_store_other [of e _ pt q b j r]) (use l r fr in \<open>simp_all add: linkable_def\<close>)
  also have "\<dots> = pte_at m a i"
    using r node_page [of r m pt a] by (intro pte_at_cong same_pagesD [OF linkable_zeroed [OF l]]) auto
  finally show ?thesis .
qed

lemma link_other_node:
  assumes l: "linkable e m pt q b j n" and p: "tpath p" "\<not> (\<exists>ys. p = q @ j # ys)"
  shows "node (link_mem b j n m) pt p = node m pt p"
proof (rule node_cong)
  fix xs i ys a
  assume "p = xs @ i # ys" "node m pt xs = Some a"
  then show "pte_at (link_mem b j n m) a i = pte_at m a i"
    using tpath_split [of xs i ys] p by (intro link_old_entry [OF l]) auto
qed

lemma link_edge:
  assumes l: "linkable e m pt q b j n"
  shows "node (link_mem b j n m) pt (q @ [j]) = Some n" "node m pt (q @ [j]) = None" "tpath (q @ [j])"
proof -
  have "node (link_mem b j n m) pt q = node m pt q"
    using l by (intro link_other_node [OF l]) (auto simp: linkable_def)
  moreover have "pte_at (link_mem b j n m) b j = PA2PTE n OR PTE_V"
    by (simp add: link_mem_def pte_at_def ld64_st64)
  ultimately show "node (link_mem b j n m) pt (q @ [j]) = Some n"
    using l V_not_0 [of n] page_roundtrip [of 1 e n] by (simp add: node_append linkable_def)
qed (use l in \<open>auto simp: linkable_def node_append intro: tpath_snoc\<close>)

lemma link_node:
  assumes l: "linkable e m pt q b j n" and p: "tpath p"
  shows "node (link_mem b j n m) pt p = (if p = q @ [j] then Some n else node m pt p)"
proof (cases "\<exists>ys. p = q @ j # ys")
  case True
  then obtain ys where ys: "p = (q @ [j]) @ ys" by auto
  have old: "node m pt p = None"
    using link_edge(2) [OF l] unfolding ys node_append by simp
  show ?thesis
  proof (cases ys)
    case Nil
    then show ?thesis using link_edge(1) [OF l] ys by simp
  next
    case (Cons i zs)
    then have "i < 512" using p ys by (auto simp: tpath_def)
    then have "node (link_mem b j n m) pt p = None"
      using link_edge(1) [OF l] link_new_entry [OF l, of i] unfolding ys node_append by (simp add: Cons)
    with old ys Cons show ?thesis by simp
  qed
qed (use link_other_node [OF l p] in auto)

lemma link_pages:
  assumes l: "linkable e m pt q b j n"
  shows "pt_pages (link_mem b j n m) pt = insert n (pt_pages m pt)"
proof (intro set_eqI iffI)
  fix a assume "a \<in> pt_pages (link_mem b j n m) pt"
  then show "a \<in> insert n (pt_pages m pt)"
    by (auto simp: pt_pages_def link_node [OF l] split: if_splits)
next
  fix a assume "a \<in> insert n (pt_pages m pt)"
  then consider "a = n" | p where "tpath p" "node m pt p = Some a"
    by (auto simp: pt_pages_def)
  then show "a \<in> pt_pages (link_mem b j n m) pt"
  proof cases
    case 1
    then show ?thesis using link_edge [OF l] by (auto simp: pt_pages_def)
  next
    case 2
    then have "node (link_mem b j n m) pt p = Some a"
      using link_node [OF l] link_edge(2) [OF l] by auto
    with 2 show ?thesis by (auto simp: pt_pages_def)
  qed
qed

lemma link_wf:
  assumes l: "linkable e m pt q b j n"
  shows "pt_wf e (link_mem b j n m) pt"
proof -
  have "p = r" if "tpath p" "tpath r" "node (link_mem b j n m) pt p = Some a"
      "node (link_mem b j n m) pt r = Some a" for p r a
    using that l node_page [of p m pt a] node_page [of r m pt a] pt_wf_inj [of e m pt p r a]
    by (auto simp: link_node [OF l] linkable_def split: if_splits)
  then show ?thesis
    using l by (auto simp: pt_wf_def link_pages linkable_def)
qed

lemma link_pte_of:
  assumes l: "linkable e m pt q b j n"
  shows "pte_of (link_mem b j n m) pt va = pte_of m pt va"
proof (cases "path_of va = q @ [j]")
  case True
  then show ?thesis
    using link_edge [OF l] link_new_entry [OF l, of "idx_of va"] by (simp add: pte_of_def)
next
  case False
  have "path_of va \<noteq> q" using l by (auto simp: path_of_def linkable_def)
  then have "node m pt (path_of va) = Some a \<Longrightarrow>
      pte_at (link_mem b j n m) a (idx_of va) = pte_at m a (idx_of va)" for a
    by (intro link_old_entry [OF l]) auto
  with False show ?thesis by (auto simp: pte_of_def link_node [OF l] split: option.splits)
qed

lemma link_frame: "\<not> in_page b k \<Longrightarrow> \<not> in_page n k \<Longrightarrow> j < 512 \<Longrightarrow> link_mem b j n m k = m k"
  by (auto simp: link_mem_def in_page_def bytes_simps fill_def)

lemma pte_valid: "pte_of m pt va \<noteq> 0 \<Longrightarrow> node m pt (path_of va) \<noteq> None"
  by (cases "node m pt (path_of va)") (auto simp: pte_of_def)

end
