(* ===== verification/Vm.thy ===== *)
theory Vm
  imports PageTable
begin

text \<open>
  Virtual memory (\<^verbatim>\<open>kernel/vm.c\<close>): Sv39 page tables in physical memory, and the copies
  between the kernel and user space. A page table is the address of its root page, a
  \<^verbatim>\<open>pte_t *\<close> an address, and entries are 64-bit loads and stores in \<open>pmem\<close>. The symbols the
  linker defines (\<^verbatim>\<open>etext\<close>, \<^verbatim>\<open>trampoline\<close>) are constant fields of the state. The kernel side of
  a copy is a byte store and an offset; \<open>copyin\<close> and \<open>copyinstr\<close> return the store they wrote.
\<close>

record vm = kmem +
  kernel_pagetable :: u64
  etext :: u64
  trampoline :: u64

subsection \<open>Page tables\<close>

fun walk_levels :: "nat \<Rightarrow> u64 \<Rightarrow> u64 \<Rightarrow> bool \<Rightarrow> ('z kmem_scheme, u64) km" where
  "walk_levels 0 pagetable va alloc = ret (pagetable + 8 * PX 0 va)"
| "walk_levels (Suc l) pagetable va alloc =
     (let pte = pagetable + 8 * PX (Suc l) va in
      bnd (gets (\<lambda>s. ld64 (pmem s) (unat pte))) (\<lambda>e.
      if e AND PTE_V \<noteq> 0 then walk_levels l (PTE2PA e) va alloc
      else if \<not> alloc then ret 0
      else bnd kalloc (\<lambda>page.
        if page = 0 then ret 0
        else sq (modify (\<lambda>s. s\<lparr>pmem := memset (unat page) 0 4096 (pmem s)\<rparr>))
            (sq (modify (\<lambda>s. s\<lparr>pmem := st64 (unat pte) (PA2PTE page OR PTE_V) (pmem s)\<rparr>))
                (walk_levels l page va alloc)))))"

definition walk :: "u64 \<Rightarrow> u64 \<Rightarrow> bool \<Rightarrow> ('z kmem_scheme, u64) km" where
  "walk pagetable va alloc =
     (if MAXVA \<le> va then panic ''walk'' else walk_levels 2 pagetable va alloc)"

definition walkaddr :: "u64 \<Rightarrow> u64 \<Rightarrow> ('z kmem_scheme, u64) km" where
  "walkaddr pagetable va =
     (if MAXVA \<le> va then ret 0
      else bnd (walk pagetable va False) (\<lambda>pte.
        if pte = 0 then ret 0
        else bnd (gets (\<lambda>s. ld64 (pmem s) (unat pte))) (\<lambda>e.
          if e AND PTE_V = 0 then ret 0
          else if e AND PTE_U = 0 then ret 0
          else ret (PTE2PA e))))"

text \<open>
  The loop of \<^verbatim>\<open>mappages\<close> ends at \<^verbatim>\<open>last\<close>, with an error, or, when it never meets \<^verbatim>\<open>last\<close>,
  with the panic of \<open>walk\<close> at \<^verbatim>\<open>MAXVA\<close>.
\<close>

function mappages_loop :: "u64 \<Rightarrow> u64 \<Rightarrow> u64 \<Rightarrow> u64 \<Rightarrow> u64 \<Rightarrow> ('z kmem_scheme, int) km" where
  "mappages_loop pagetable a final pa perm es s =
     bnd (walk pagetable a True) (\<lambda>pte fs t.
       if pte = 0 then Ret (-1) fs t
       else if ld64 (pmem t) (unat pte) AND PTE_V \<noteq> 0 then Panic ''remap''
       else let u = t\<lparr>pmem := st64 (unat pte) (PA2PTE pa OR perm OR PTE_V) (pmem t)\<rparr>
            in if a = final then Ret 0 fs u
               else mappages_loop pagetable (a + PGSIZE) final (pa + PGSIZE) perm fs u) es s"
  by pat_completeness auto
termination
proof (relation "measure (\<lambda>(pagetable, a, final, pa, perm, es, s). 2 ^ 39 - unat a)")
  fix pagetable a final pa perm :: u64 and es and s :: "'z kmem_scheme" and pte fs t u
  assume "walk pagetable a True es s = Ret pte fs t"
  then have "\<not> MAXVA \<le> a"
    by (auto simp: walk_def km_simps)
  then have "unat a < 2 ^ 38"
    by (simp add: word_le_nat_alt)
  then show "((pagetable, a + PGSIZE, final, pa + PGSIZE, perm, fs, u), pagetable, a, final, pa, perm, es, s)
      \<in> measure (\<lambda>(pagetable, a, final, pa, perm, es, s). 2 ^ 39 - unat a)"
    by (simp add: unat_next_page)
qed simp

declare mappages_loop.simps [simp del]

definition mappages :: "u64 \<Rightarrow> u64 \<Rightarrow> u64 \<Rightarrow> u64 \<Rightarrow> u64 \<Rightarrow> ('z kmem_scheme, int) km" where
  "mappages pagetable va sz pa perm =
     mappages_loop pagetable (PGROUNDDOWN va) (PGROUNDDOWN (va + sz - 1)) pa perm"

definition kvmmap :: "u64 \<Rightarrow> u64 \<Rightarrow> u64 \<Rightarrow> u64 \<Rightarrow> ('z vm_scheme, unit) km" where
  "kvmmap va pa sz perm =
     bnd (gets kernel_pagetable) (\<lambda>pagetable.
     bnd (mappages pagetable va sz pa perm) (\<lambda>r.
     if r \<noteq> 0 then panic ''kvmmap'' else ret ()))"

definition kvminit :: "('z vm_scheme, unit) km" where
  "kvminit =
     bnd kalloc (\<lambda>page.
     sq (modify (\<lambda>s. s\<lparr>kernel_pagetable := page\<rparr>))
     (sq (modify (\<lambda>s. s\<lparr>pmem := memset (unat page) 0 4096 (pmem s)\<rparr>))
     (bnd (gets etext) (\<lambda>text.
      bnd (gets trampoline) (\<lambda>tramp.
      seqs
       [kvmmap UART0 UART0 PGSIZE (PTE_R OR PTE_W),
        kvmmap VIRTIO0 VIRTIO0 PGSIZE (PTE_R OR PTE_W),
        kvmmap CLINT CLINT 0x10000 (PTE_R OR PTE_W),
        kvmmap PLIC PLIC 0x400000 (PTE_R OR PTE_W),
        kvmmap KERNBASE KERNBASE (text - KERNBASE) (PTE_R OR PTE_X),
        kvmmap text text (PHYSTOP - text) (PTE_R OR PTE_W),
        kvmmap TRAMPOLINE tramp PGSIZE (PTE_R OR PTE_X)])))))"

definition kvminithart :: "('z vm_scheme, unit) km" where
  "kvminithart = modify (\<lambda>s. upd_csr (w_satp (MAKE_SATP (kernel_pagetable s))) s)"

definition kvmpa :: "u64 \<Rightarrow> ('z vm_scheme, u64) km" where
  "kvmpa va =
     bnd (gets kernel_pagetable) (\<lambda>pagetable.
     bnd (walk pagetable va False) (\<lambda>pte.
     if pte = 0 then panic ''kvmpa''
     else bnd (gets (\<lambda>s. ld64 (pmem s) (unat pte))) (\<lambda>e.
       if e AND PTE_V = 0 then panic ''kvmpa''
       else ret (PTE2PA e + va mod PGSIZE))))"

definition unmap_page :: "u64 \<Rightarrow> bool \<Rightarrow> u64 \<Rightarrow> ('z kmem_scheme, unit option) km" where
  "unmap_page pagetable do_free a =
     bnd (walk pagetable a False) (\<lambda>pte.
     if pte = 0 then panic ''uvmunmap: walk''
     else bnd (gets (\<lambda>s. ld64 (pmem s) (unat pte))) (\<lambda>e.
       if e AND PTE_V = 0 then panic ''uvmunmap: not mapped''
       else if PTE_FLAGS e = PTE_V then panic ''uvmunmap: not a leaf''
       else sq (whenk do_free (kfree (PTE2PA e)))
           (sq (modify (\<lambda>s. s\<lparr>pmem := st64 (unat pte) 0 (pmem s)\<rparr>)) (ret None))))"

definition uvmunmap :: "u64 \<Rightarrow> u64 \<Rightarrow> u64 \<Rightarrow> bool \<Rightarrow> ('z kmem_scheme, unit) km" where
  "uvmunmap pagetable va npages do_free =
     (if va mod PGSIZE \<noteq> 0 then panic ''uvmunmap: not aligned''
      else bnd (for_up va (va + npages * PGSIZE) PGSIZE (unmap_page pagetable do_free)) (\<lambda>_. ret ()))"

definition uvmcreate :: "('z kmem_scheme, u64) km" where
  "uvmcreate =
     bnd kalloc (\<lambda>pagetable.
     if pagetable = 0 then ret 0
     else sq (modify (\<lambda>s. s\<lparr>pmem := memset (unat pagetable) 0 4096 (pmem s)\<rparr>))
             (ret pagetable))"

definition uvminit :: "u64 \<Rightarrow> bytes \<Rightarrow> u32 \<Rightarrow> ('z kmem_scheme, unit) km" where
  "uvminit pagetable src sz =
     (if 4096 \<le> sz then panic ''inituvm: more than a page''
      else bnd kalloc (\<lambda>mem.
        sq (modify (\<lambda>s. s\<lparr>pmem := memset (unat mem) 0 4096 (pmem s)\<rparr>))
        (bnd (mappages pagetable 0 PGSIZE mem (PTE_W OR PTE_R OR PTE_X OR PTE_U)) (\<lambda>_.
         modify (\<lambda>s. s\<lparr>pmem := copy (unat mem) src 0 (unat sz) (pmem s)\<rparr>)))))"

text \<open>
  \<^verbatim>\<open>int npages\<close> in \<^verbatim>\<open>uvmdealloc\<close>: the page count passes through a signed 32-bit integer.
\<close>

definition uvmdealloc :: "u64 \<Rightarrow> u64 \<Rightarrow> u64 \<Rightarrow> ('z kmem_scheme, u64) km" where
  "uvmdealloc pagetable oldsz newsz =
     (if oldsz \<le> newsz then ret oldsz
      else sq (whenk (PGROUNDUP newsz < PGROUNDUP oldsz)
                 (let npages = (ucast ((PGROUNDUP oldsz - PGROUNDUP newsz) div PGSIZE) :: u32)
                  in uvmunmap pagetable (PGROUNDUP newsz) (scast npages) True))
              (ret newsz))"

definition uvmalloc_page :: "u64 \<Rightarrow> u64 \<Rightarrow> u64 \<Rightarrow> ('z kmem_scheme, u64 option) km" where
  "uvmalloc_page pagetable oldsz a =
     bnd kalloc (\<lambda>mem.
     if mem = 0
     then bnd (uvmdealloc pagetable a oldsz) (\<lambda>_. ret (Some 0))
     else sq (modify (\<lambda>s. s\<lparr>pmem := memset (unat mem) 0 4096 (pmem s)\<rparr>))
          (bnd (mappages pagetable a PGSIZE mem (PTE_W OR PTE_X OR PTE_R OR PTE_U)) (\<lambda>r.
           if r \<noteq> 0
           then sq (kfree mem) (bnd (uvmdealloc pagetable a oldsz) (\<lambda>_. ret (Some 0)))
           else ret None)))"

definition uvmalloc :: "u64 \<Rightarrow> u64 \<Rightarrow> u64 \<Rightarrow> ('z kmem_scheme, u64) km" where
  "uvmalloc pagetable oldsz0 newsz =
     (if newsz < oldsz0 then ret oldsz0
      else let oldsz = PGROUNDUP oldsz0 in
      bnd (for_up oldsz newsz PGSIZE (uvmalloc_page pagetable oldsz))
          (\<lambda>r. case r of Some v \<Rightarrow> ret v | None \<Rightarrow> ret newsz))"

text \<open>
  \<^verbatim>\<open>freewalk\<close> calls itself once per level. The first argument bounds the depth: \<^verbatim>\<open>vm.c\<close> builds
  tables of three levels, for which \<open>freewalk 3\<close> never reaches the bound (a level-0 entry that
  looks like a pointer to another level would).
\<close>

fun freewalk :: "nat \<Rightarrow> u64 \<Rightarrow> ('z kmem_scheme, unit) km" where
  "freewalk 0 pagetable = (\<lambda>es s. Diverge)"
| "freewalk (Suc n) pagetable =
     sq (each_do [0..<512] (\<lambda>i.
       bnd (gets (\<lambda>s. ld64 (pmem s) (unat pagetable + 8 * i))) (\<lambda>pte.
       if pte AND PTE_V \<noteq> 0 \<and> pte AND (PTE_R OR PTE_W OR PTE_X) = 0
       then sq (freewalk n (PTE2PA pte))
               (modify (\<lambda>s. s\<lparr>pmem := st64 (unat pagetable + 8 * i) 0 (pmem s)\<rparr>))
       else if pte AND PTE_V \<noteq> 0 then panic ''freewalk: leaf''
       else ret ())))
     (kfree pagetable)"

definition uvmfree :: "u64 \<Rightarrow> u64 \<Rightarrow> ('z kmem_scheme, unit) km" where
  "uvmfree pagetable sz =
     sq (whenk (sz > 0) (uvmunmap pagetable 0 (PGROUNDUP sz div PGSIZE) True))
        (freewalk 3 pagetable)"

definition uvmcopy :: "u64 \<Rightarrow> u64 \<Rightarrow> u64 \<Rightarrow> ('z kmem_scheme, int) km" where
  "uvmcopy old new sz =
     bnd (for_up 0 sz PGSIZE (\<lambda>i.
       bnd (walk old i False) (\<lambda>pte.
       if pte = 0 then panic ''uvmcopy: pte should exist''
       else bnd (gets (\<lambda>s. ld64 (pmem s) (unat pte))) (\<lambda>e.
         if e AND PTE_V = 0 then panic ''uvmcopy: page not present''
         else let pa = PTE2PA e; flags = PTE_FLAGS e in
           bnd kalloc (\<lambda>mem.
           if mem = 0 then ret (Some i)
           else sq (modify (\<lambda>s. s\<lparr>pmem := memmove (unat mem) (unat pa) 4096 (pmem s)\<rparr>))
                (bnd (mappages new i PGSIZE mem flags) (\<lambda>r.
                 if r \<noteq> 0 then sq (kfree mem) (ret (Some i)) else ret None)))))))
     (\<lambda>failed. case failed of
        None \<Rightarrow> ret 0
      | Some i \<Rightarrow> sq (uvmunmap new 0 (i div PGSIZE) True) (ret (-1)))"

definition uvmclear :: "u64 \<Rightarrow> u64 \<Rightarrow> ('z kmem_scheme, unit) km" where
  "uvmclear pagetable va =
     bnd (walk pagetable va False) (\<lambda>pte.
     if pte = 0 then panic ''uvmclear''
     else modify (\<lambda>s. s\<lparr>pmem := st64 (unat pte) (ld64 (pmem s) (unat pte) AND NOT PTE_U) (pmem s)\<rparr>))"

subsection \<open>Copies between kernel and user space\<close>

text \<open>
  The number of bytes of one iteration: up to the end of the page of \<open>va\<close>, at most \<open>len\<close>.
\<close>

definition chunk :: "u64 \<Rightarrow> u64 \<Rightarrow> u64" where
  "chunk va len = (let n = PGSIZE - (va - PGROUNDDOWN va) in if n > len then len else n)"

lemma unat_page_offset: "unat (va - PGROUNDDOWN va) = unat va mod 4096"
proof -
  have "PGROUNDDOWN va \<le> va"
    by (simp add: word_le_nat_alt unat_PGROUNDDOWN)
  then show ?thesis
    by (simp add: unat_sub unat_PGROUNDDOWN)
qed

lemma unat_chunk: "unat (chunk va len) = min (4096 - unat va mod 4096) (unat len)"
proof -
  have "va - PGROUNDDOWN va \<le> 4096"
    using mod_less_divisor [of 4096 "unat va"]
    by (simp add: word_le_nat_alt unat_page_offset less_imp_le)
  then have "unat (PGSIZE - (va - PGROUNDDOWN va)) = 4096 - unat va mod 4096"
    by (simp add: unat_sub unat_page_offset)
  then show ?thesis
    by (simp add: chunk_def Let_def word_less_nat_alt min_def)
qed

lemma chunk_decreases: "len \<noteq> 0 \<Longrightarrow> unat (len - chunk va len) < unat len"
proof -
  assume "len \<noteq> 0"
  then have "0 < unat len" by (simp add: unat_gt_0)
  moreover have "chunk va len \<le> len"
    by (simp add: word_le_nat_alt unat_chunk)
  moreover have "0 < unat (chunk va len)"
    using \<open>0 < unat len\<close> mod_less_divisor [of 4096 "unat va"] by (simp add: unat_chunk)
  ultimately show ?thesis by (simp add: unat_sub)
qed

function copyout :: "u64 \<Rightarrow> u64 \<Rightarrow> bytes \<Rightarrow> nat \<Rightarrow> u64 \<Rightarrow> ('z kmem_scheme, int) km" where
  "copyout pagetable dstva src so len es s =
     (if len = 0 then Ret 0 es s
      else let va0 = PGROUNDDOWN dstva; n = chunk dstva len in
        bnd (walkaddr pagetable va0) (\<lambda>pa0 fs t.
          if pa0 = 0 then Ret (-1) fs t
          else copyout pagetable (va0 + PGSIZE) src (so + unat n) (len - n) fs
                 (t\<lparr>pmem := copy (unat (pa0 + (dstva - va0))) src so (unat n) (pmem t)\<rparr>)) es s)"
  by pat_completeness auto
termination
  by (relation "measure (\<lambda>(pagetable, dstva, src, so, len, es, s). unat len)")
     (simp_all add: chunk_decreases)

function copyin :: "u64 \<Rightarrow> bytes \<Rightarrow> nat \<Rightarrow> u64 \<Rightarrow> u64 \<Rightarrow> ('z kmem_scheme, int \<times> bytes) km" where
  "copyin pagetable dst d srcva len es s =
     (if len = 0 then Ret (0, dst) es s
      else let va0 = PGROUNDDOWN srcva; n = chunk srcva len in
        bnd (walkaddr pagetable va0) (\<lambda>pa0 fs t.
          if pa0 = 0 then Ret (-1, dst) fs t
          else copyin pagetable (copy d (pmem t) (unat (pa0 + (srcva - va0))) (unat n) dst)
                 (d + unat n) (va0 + PGSIZE) (len - n) fs t) es s)"
  by pat_completeness auto
termination
  by (relation "measure (\<lambda>(pagetable, dst, d, srcva, len, es, s). unat len)")
     (simp_all add: chunk_decreases)

text \<open>
  The inner loop of \<^verbatim>\<open>copyinstr\<close>: at most \<open>n\<close> bytes from \<open>p\<close>, up to and with a NUL. It returns
  \<^verbatim>\<open>got_null\<close>, the destination and where the next byte goes.
\<close>

fun copy_until_nul :: "nat \<Rightarrow> bytes \<Rightarrow> nat \<Rightarrow> bytes \<Rightarrow> nat \<Rightarrow> bool \<times> bytes \<times> nat" where
  "copy_until_nul 0 m p dst d = (False, dst, d)"
| "copy_until_nul (Suc n) m p dst d =
     (if m p = 0 then (True, dst(d := 0), d)
      else copy_until_nul n m (Suc p) (dst(d := m p)) (Suc d))"

function copyinstr :: "u64 \<Rightarrow> bytes \<Rightarrow> nat \<Rightarrow> u64 \<Rightarrow> u64 \<Rightarrow> ('z kmem_scheme, int \<times> bytes) km" where
  "copyinstr pagetable dst d srcva maxn es s =
     (if maxn = 0 then Ret (-1, dst) es s
      else let va0 = PGROUNDDOWN srcva; n = chunk srcva maxn in
        bnd (walkaddr pagetable va0) (\<lambda>pa0 fs t.
          if pa0 = 0 then Ret (-1, dst) fs t
          else case copy_until_nul (unat n) (pmem t) (unat (pa0 + (srcva - va0))) dst d of
            (got_null, dst', d') \<Rightarrow>
              if got_null then Ret (0, dst') fs t
              else copyinstr pagetable dst' d' (va0 + PGSIZE) (maxn - n) fs t) es s)"
  by pat_completeness auto
termination
  by (relation "measure (\<lambda>(pagetable, dst, d, srcva, maxn, es, s). unat maxn)")
     (simp_all add: chunk_decreases)

declare copyout.simps [simp del] copyin.simps [simp del] copyinstr.simps [simp del]

end
