(* ===== verification/VmWalk.thy ===== *)
theory VmWalk
  imports Vm
begin

text \<open>
  \<^verbatim>\<open>walk\<close> and \<^verbatim>\<open>walkaddr\<close> of \<^verbatim>\<open>kernel/vm.c\<close> against the view of \<open>PageTable\<close>. A walk without
  allocation returns the address of the leaf entry (\<open>slot\<close>). A walk with allocation turns free
  pages into table pages and changes no mapping (\<open>walk_alloc\<close>). \<open>pt_ok xs pt s\<close> is the invariant:
  a well formed allocator with free pages \<open>xs\<close> and a well formed table \<open>pt\<close> that shares no page
  with it; \<open>pt_step\<close> is the relation every operation on a table establishes. Virtual addresses
  are compared by page number (\<open>vpn\<close>).
\<close>

subsection \<open>States with a page table\<close>

definition pt_ok :: "u64 list \<Rightarrow> u64 \<Rightarrow> 'z kmem_scheme \<Rightarrow> bool" where
  "pt_ok xs pt s \<longleftrightarrow> kmem_ok xs s \<and> pt_wf (kend s) (pmem s) pt \<and> pt_pages (pmem s) pt \<inter> set xs = {}"

text \<open>Only memory, the free list and \<^verbatim>\<open>intena\<close> differ.\<close>

definition mem_step :: "'z kmem_scheme \<Rightarrow> 'z kmem_scheme \<Rightarrow> bool" where
  "mem_step s t \<longleftrightarrow> touch t = (touch s)\<lparr>pmem := pmem t, freelist := freelist t\<rparr>"

lemma mem_step_refl [simp]: "mem_step s s"
proof -
  have "u\<lparr>pmem := pmem u, freelist := freelist u\<rparr> = u" for u :: "'a kmem_scheme" by simp
  from this [of "touch s"] show ?thesis
    unfolding mem_step_def kmem_read_simps by (rule sym)
qed

lemma mem_step_upd [simp]:
  "mem_step s t \<Longrightarrow> mem_step s (t\<lparr>pmem := m\<rparr>)" "mem_step s t \<Longrightarrow> mem_step s (t\<lparr>freelist := f\<rparr>)"
  "mem_step s t \<Longrightarrow> mem_step s (touch t)"
  by (simp_all add: mem_step_def)

lemma mem_step_page [simp]:
  "mem_step s t \<Longrightarrow> mem_step s (pop_page t)" "mem_step s t \<Longrightarrow> mem_step s (push_page p t)"
  by (simp_all add: pop_page_def push_page_def)

lemma mem_step_trans: "mem_step s t \<Longrightarrow> mem_step t u \<Longrightarrow> mem_step s u"
  by (simp add: mem_step_def)

lemma kmem_ok_frame:
  assumes "kmem_ok xs s" "same_pages (set xs) (pmem s) m"
  shows "kmem_ok xs (s\<lparr>pmem := m\<rparr>)"
proof -
  have "flist m p xs = flist (pmem s) p xs" for p
    by (rule flist_cong) (rule same_pagesD [OF assms(2)], auto simp: in_page_def)
  with assms(1) show ?thesis by (simp add: kmem_ok_def)
qed

lemma pt_ok_touch [simp]: "pt_ok xs pt (touch s) = pt_ok xs pt s"
  by (simp add: pt_ok_def)

lemma pt_ok_kend: "pt_ok xs pt s \<Longrightarrow> 0 < kend s"
  by (simp add: pt_ok_def kmem_ok_def)

lemma pages_separate: "page_ok e p \<Longrightarrow> page_ok e q \<Longrightarrow> p \<noteq> q \<Longrightarrow> in_page p k \<Longrightarrow> \<not> in_page q k"
  using pages_disjoint [of e p q] by (auto simp: in_page_def)

lemma pt_ok_sep:
  assumes "pt_ok xs pt s" "a \<in> pt_pages (pmem s) pt" "x \<in> set xs" "in_page x k"
  shows "\<not> in_page a k"
proof -
  have "page_ok (kend s) a" "page_ok (kend s) x" "a \<noteq> x"
    using assms by (auto simp: pt_ok_def pt_wf_def kmem_ok_def)
  with assms(4) show ?thesis using pages_separate by blast
qed

text \<open>A write that avoids both the table and the free pages.\<close>

lemma pt_ok_frame:
  assumes "pt_ok xs pt s" "same_pages (pt_pages (pmem s) pt \<union> set xs) (pmem s) m"
  shows "pt_ok xs pt (s\<lparr>pmem := m\<rparr>)" "pt_pages m pt = pt_pages (pmem s) pt"
    "pte_of m pt = pte_of (pmem s) pt" "tpath p \<Longrightarrow> node m pt p = node (pmem s) pt p"
proof -
  have "same_pages (pt_pages (pmem s) pt) (pmem s) m" using assms(2) by simp
  note fr = node_frame [OF this]
  show "pt_pages m pt = pt_pages (pmem s) pt" "pte_of m pt = pte_of (pmem s) pt"
      "tpath p \<Longrightarrow> node m pt p = node (pmem s) pt p"
    using fr by auto
  show "pt_ok xs pt (s\<lparr>pmem := m\<rparr>)"
    using assms fr by (auto simp: pt_ok_def intro!: kmem_ok_frame)
qed

subsection \<open>The address of an entry\<close>

definition slot :: "bytes \<Rightarrow> u64 \<Rightarrow> u64 \<Rightarrow> u64" where
  "slot m pt va = (case node m pt (path_of va) of None \<Rightarrow> 0 | Some a \<Rightarrow> a + 8 * PX 0 va)"

lemma unat_entry: "page_ok e a \<Longrightarrow> unat (a + 8 * PX l va) = unat a + 8 * unat (PX l va)"
proof -
  assume "page_ok e a"
  then have "unat a < 2281701376" by (rule page_ok_unat)
  with PX_bound [of l va] have "unat (8 * PX l va) = 8 * unat (PX l va)"
    "unat a + 8 * unat (PX l va) < 2 ^ 64"
    by (simp_all add: unat_word_ariths(2))
  then show ?thesis by (simp add: unat_word_ariths(1))
qed

lemma slot_entry:
  assumes "pt_wf e m pt" "0 < e" "node m pt (path_of va) = Some a"
  shows "slot m pt va \<noteq> 0" "unat (slot m pt va) = unat a + 8 * idx_of va"
    "ld64 m (unat (slot m pt va)) = pte_of m pt va"
proof -
  have a: "page_ok e a"
    using pt_wf_page [OF assms(1) _ assms(3)] by simp
  then have "a \<noteq> 0" using assms(2) by (auto simp: page_ok_def)
  then have "unat a \<noteq> 0" by (simp add: unat_eq_zero)
  with unat_entry [OF a, of 0 va] show u: "unat (slot m pt va) = unat a + 8 * idx_of va"
    and "slot m pt va \<noteq> 0"
    using assms(3) by (auto simp: slot_def idx_of_def)
  show "ld64 m (unat (slot m pt va)) = pte_of m pt va"
    using assms(3) unfolding u by (simp add: pte_of_def pte_at_def)
qed

lemma slot_0: "pt_wf e m pt \<Longrightarrow> 0 < e \<Longrightarrow> slot m pt va = 0 \<longleftrightarrow> node m pt (path_of va) = None"
  using slot_entry by (cases "node m pt (path_of va)") (auto simp: slot_def)

fun pxs :: "nat \<Rightarrow> u64 \<Rightarrow> nat list" where
  "pxs 0 va = []"
| "pxs (Suc l) va = unat (PX (Suc l) va) # pxs l va"

lemma pxs_path: "pxs 2 va = path_of va"
  by (simp add: numeral_2_eq_2 path_of_def)

lemma walk_levels_lookup:
  assumes "pt_wf e (pmem s) pt" "node (pmem s) pt p = Some b" "p @ pxs l va = path_of va"
  shows "walk_levels l b va False es s = Ret (slot (pmem s) pt va) es s"
  using assms(2,3)
proof (induction l arbitrary: p b)
  case 0
  then show ?case by (simp add: km_simps slot_def)
next
  case (Suc l)
  let ?i = "unat (PX (Suc l) va)"
  have "tpath p" using Suc.prems(2) by (metis tpath_prefix tpath_simps(2))
  then have "page_ok e b" using assms(1) Suc.prems(1) by (intro pt_wf_page)
  then have e: "ld64 (pmem s) (unat (b + 8 * PX (Suc l) va)) = pte_at (pmem s) b ?i"
    by (simp add: unat_entry pte_at_def)
  show ?case
  proof (cases "pte_at (pmem s) b ?i AND 1 = 0")
    case True
    then have "node (pmem s) pt (path_of va) = None"
      using Suc.prems by (simp add: node_append flip: Suc.prems(2))
    with True show ?thesis by (simp add: km_simps e slot_def Let_def)
  next
    case False
    then have "node (pmem s) pt (p @ [?i]) = Some (PTE2PA (pte_at (pmem s) b ?i))"
      using Suc.prems(1) by (simp add: node_append)
    with Suc.IH [OF this] Suc.prems(2) False show ?thesis
      by (simp add: km_simps e Let_def)
  qed
qed

lemma walk_run:
  assumes "pt_wf e (pmem s) pt" "va < MAXVA"
  shows "walk pt va False es s = Ret (slot (pmem s) pt va) es s"
proof -
  have "walk_levels 2 pt va False es s = Ret (slot (pmem s) pt va) es s"
    using assms(1) by (rule walk_levels_lookup [where p = "[]"]) (simp_all add: pxs_path)
  with assms(2) show ?thesis by (simp add: walk_def km_simps)
qed

lemma walk_panic: "MAXVA \<le> va \<Longrightarrow> walk pt va alloc es s = Panic ''walk''"
  by (simp add: walk_def km_simps)

text \<open>The physical page behind a user address, 0 when there is none.\<close>

definition uaddr :: "bytes \<Rightarrow> u64 \<Rightarrow> u64 \<Rightarrow> u64" where
  "uaddr m pt va =
     (let e = pte_of m pt va
      in if va < MAXVA \<and> e AND PTE_V \<noteq> 0 \<and> e AND PTE_U \<noteq> 0 then PTE2PA e else 0)"

lemma walkaddr_run:
  assumes "pt_wf e (pmem s) pt" "0 < e"
  shows "walkaddr pt va es s = Ret (uaddr (pmem s) pt va) es s"
proof (cases "va < MAXVA")
  case True
  show ?thesis
  proof (cases "node (pmem s) pt (path_of va)")
    case None
    then show ?thesis
      using True walk_run [OF assms(1) True] by (simp add: walkaddr_def km_simps uaddr_def slot_def pte_of_def)
  next
    case (Some a)
    then show ?thesis
      using True walk_run [OF assms(1) True] slot_entry [OF assms Some]
      by (auto simp: walkaddr_def km_simps uaddr_def)
  qed
qed (simp add: walkaddr_def km_simps uaddr_def Let_def not_less leD)

subsection \<open>Walking with allocation\<close>

text \<open>
  \<open>pt_step pt F xs s ys t\<close>: between \<open>s\<close> and \<open>t\<close> the table took pages from the front of the free
  list \<open>xs\<close>, leaving \<open>ys\<close>, and used them as table pages. The leaf entries are now \<open>F\<close>, and no
  memory outside the table changed. \<open>grows\<close> is the case in which no leaf entry changed.
\<close>

definition pt_step ::
    "u64 \<Rightarrow> (u64 \<Rightarrow> u64) \<Rightarrow> u64 list \<Rightarrow> 'z kmem_scheme \<Rightarrow> u64 list \<Rightarrow> 'z kmem_scheme \<Rightarrow> bool" where
  "pt_step pt F xs s ys t \<longleftrightarrow> (\<exists>zs. xs = zs @ ys \<and> pt_ok ys pt t \<and>
     pt_pages (pmem t) pt = pt_pages (pmem s) pt \<union> set zs \<and>
     pte_of (pmem t) pt = F \<and>
     (\<forall>k. (\<forall>a\<in>pt_pages (pmem s) pt \<union> set zs. \<not> in_page a k) \<longrightarrow> pmem t k = pmem s k) \<and>
     kend t = kend s \<and> mem_step s t)"

abbreviation grows :: "u64 \<Rightarrow> u64 list \<Rightarrow> 'z kmem_scheme \<Rightarrow> u64 list \<Rightarrow> 'z kmem_scheme \<Rightarrow> bool" where
  "grows pt xs s ys t \<equiv> pt_step pt (pte_of (pmem s) pt) xs s ys t"

lemma grows_refl: "pt_ok xs pt s \<Longrightarrow> grows pt xs s xs s" "pt_ok xs pt s \<Longrightarrow> grows pt xs s xs (touch s)"
  by (auto simp: pt_step_def)

lemma pt_step_ok: "pt_step pt F xs s ys t \<Longrightarrow> pt_ok ys pt t"
  by (auto simp: pt_step_def)

lemma pt_step_pte: "pt_step pt F xs s ys t \<Longrightarrow> pte_of (pmem t) pt = F"
  by (auto simp: pt_step_def)

lemma pt_step_trans:
  assumes "pt_step pt F xs s ys t" "pt_step pt G ys t zs u"
  shows "pt_step pt G xs s zs u"
proof -
  obtain as where as: "xs = as @ ys" "pt_pages (pmem t) pt = pt_pages (pmem s) pt \<union> set as"
      "\<forall>k. (\<forall>a\<in>pt_pages (pmem s) pt \<union> set as. \<not> in_page a k) \<longrightarrow> pmem t k = pmem s k"
      "kend t = kend s" "mem_step s t"
    using assms(1) unfolding pt_step_def by blast
  obtain bs where bs: "ys = bs @ zs" "pt_ok zs pt u" "pt_pages (pmem u) pt = pt_pages (pmem t) pt \<union> set bs"
      "pte_of (pmem u) pt = G"
      "\<forall>k. (\<forall>a\<in>pt_pages (pmem t) pt \<union> set bs. \<not> in_page a k) \<longrightarrow> pmem u k = pmem t k"
      "kend u = kend t" "mem_step t u"
    using assms(2) unfolding pt_step_def by blast
  show ?thesis
    unfolding pt_step_def using as bs mem_step_trans [OF as(5) bs(7)]
    by (intro exI [of _ "as @ bs"]) auto
qed

lemma fill_fill: "fill a c n (fill a d n m) = fill a c n m"
  by (auto simp: fill_def fun_eq_iff)

lemma pop_frame: "\<not> in_page (freelist s) k \<Longrightarrow> pmem (pop_page s) k = pmem s k"
  by (auto simp: pop_page_def fill_def in_page_def)

lemma grows_link:
  assumes ok: "pt_ok (n # ys) pt s" and l: "linkable (kend s) (pmem s) pt q b j n"
  shows "grows pt (n # ys) s ys ((pop_page s)\<lparr>pmem := link_mem b j n (pmem s)\<rparr>)" (is "grows _ _ _ _ ?t")
proof -
  have b: "b \<in> pt_pages (pmem s) pt" and j: "j < 512" and n: "page_ok (kend s) n"
    using l by (auto simp: linkable_def dest: node_page)
  have ok1: "kmem_ok (n # ys) s" using ok by (simp add: pt_ok_def)
  have head: "freelist s = n" using kmem_ok_head [OF ok1] by simp
  have fr: "distinct (n # ys)" "\<forall>y\<in>set ys. page_ok (kend s) y"
    using kpool.pool_pages [OF ok1] by auto
  have "kmem_ok ys ?t"
  proof (rule kmem_ok_frame [OF kmem_ok_pop [OF ok1] same_pagesI])
    fix x k assume x: "x \<in> set ys" "in_page x k"
    then have "\<not> in_page b k" "\<not> in_page n k"
      using pt_ok_sep [OF ok b, of x k] pages_separate [OF _ n, of x k] fr by auto
    with j show "link_mem b j n (pmem s) k = pmem (pop_page s) k"
      by (simp add: link_frame pop_frame head)
  qed
  moreover have "pt_pages (pmem s) pt \<inter> set (n # ys) = {}"
    using ok by (simp add: pt_ok_def)
  ultimately have "pt_ok ys pt ?t"
    using link_pages [OF l] link_wf [OF l] fr(1) by (auto simp: pt_ok_def)
  moreover have "\<forall>k. (\<forall>a\<in>pt_pages (pmem s) pt \<union> {n}. \<not> in_page a k) \<longrightarrow> link_mem b j n (pmem s) k = pmem s k"
    using b j by (auto simp: link_frame)
  ultimately show ?thesis
    unfolding pt_step_def
    by (intro exI [of _ "[n]"]) (auto simp: link_pages [OF l] link_pte_of [OF l])
qed

lemma walk_levels_alloc:
  assumes "pt_ok xs pt s" "node (pmem s) pt p = Some b" "p @ pxs l va = path_of va"
  shows "\<exists>a t ys. walk_levels l b va True es s = Ret a es t \<and> grows pt xs s ys t \<and>
           a = slot (pmem t) pt va \<and> (a = 0 \<longrightarrow> ys = []) \<and> length xs \<le> length ys + l"
  using assms
proof (induction l arbitrary: p b s xs)
  case 0
  then have "grows pt xs s xs s" "slot (pmem s) pt va \<noteq> 0"
    using slot_entry [of "kend s" "pmem s" pt va b] pt_ok_kend
    by (auto simp: grows_refl pt_ok_def)
  moreover have "walk_levels 0 b va True es s = Ret (slot (pmem s) pt va) es s"
    using 0 by (simp add: km_simps slot_def)
  ultimately show ?case
    by (intro exI [of _ "slot (pmem s) pt va"] exI [of _ s] exI [of _ xs]) simp
next
  case (Suc l)
  let ?i = "unat (PX (Suc l) va)"
  have "tpath (p @ ?i # pxs l va)"
    using Suc.prems(3) tpath_simps(2) [of va] by simp
  then have p: "tpath p" and len: "length p \<le> 1"
    by (auto dest: tpath_split)
  have b: "page_ok (kend s) b"
    using Suc.prems(1,2) p by (auto simp: pt_ok_def intro: pt_wf_page)
  then have e: "ld64 (pmem s) (unat (b + 8 * PX (Suc l) va)) = pte_at (pmem s) b ?i"
    by (simp add: unat_entry pte_at_def)
  have st: "(p @ [?i]) @ pxs l va = path_of va"
    using Suc.prems(3) by simp
  show ?case
  proof (cases "pte_at (pmem s) b ?i AND 1 = 0")
    case False
    then have "node (pmem s) pt (p @ [?i]) = Some (PTE2PA (pte_at (pmem s) b ?i))"
      using Suc.prems(2) by (simp add: node_append)
    from Suc.IH [OF Suc.prems(1) this st] obtain a t ys where
      "walk_levels l (PTE2PA (pte_at (pmem s) b ?i)) va True es s = Ret a es t" "grows pt xs s ys t"
      "a = slot (pmem t) pt va" "a = 0 \<longrightarrow> ys = []" "length xs \<le> length ys + l" by blast
    with False show ?thesis
      by (auto simp: km_simps e Let_def)
  next
    case True
    have alloc: "kalloc es s = (case xs of [] \<Rightarrow> Ret 0 es (touch s) | x # ys \<Rightarrow> Ret x es (pop_page s))"
      using Suc.prems(1) by (simp add: pt_ok_def kmem_ok_kalloc)
    show ?thesis
    proof (cases xs)
      case Nil
      have "node (pmem s) pt (path_of va) = None"
        using True Suc.prems(2) by (simp add: node_append flip: Suc.prems(3))
      then have "slot (pmem (touch s)) pt va = 0" by (simp add: slot_def)
      with Nil alloc True grows_refl(2) [OF Suc.prems(1)] show ?thesis
        by (auto simp: km_simps e Let_def)
    next
      case (Cons n ys)
      then have l: "linkable (kend s) (pmem s) pt p b ?i n" and n: "n \<noteq> 0" "n = freelist s"
        using True Suc.prems(1,2) p len kmem_ok_head [of n ys s]
        by (auto simp: linkable_def pt_ok_def PX_bound)
      let ?t = "(pop_page s)\<lparr>pmem := link_mem b ?i n (pmem s)\<rparr>"
      have g: "grows pt xs s ys ?t"
        using grows_link Suc.prems(1) l Cons by blast
      then have "pt_ok ys pt ?t" by (rule pt_step_ok)
      moreover have "node (pmem ?t) pt (p @ [?i]) = Some n"
        using link_edge [OF l] by simp
      ultimately obtain a u zs where "walk_levels l n va True es ?t = Ret a es u" "grows pt ys ?t zs u"
          "a = slot (pmem u) pt va" "a = 0 \<longrightarrow> zs = []" "length ys \<le> length zs + l"
        using Suc.IH st by blast
      moreover have "walk_levels (Suc l) b va True es s = walk_levels l n va True es ?t"
        using alloc Cons n True b
        by (simp add: km_simps Let_def pop_page_def fill_fill link_mem_def unat_entry pte_at_def)
      ultimately show ?thesis
        using pt_step_trans [OF g] pt_step_pte [OF g] Cons by auto
    qed
  qed
qed

lemma walk_alloc:
  assumes "pt_ok xs pt s" "va < MAXVA"
  shows "\<exists>a t ys. walk pt va True es s = Ret a es t \<and> grows pt xs s ys t \<and>
           a = slot (pmem t) pt va \<and> (a = 0 \<longrightarrow> ys = []) \<and> length xs \<le> length ys + 2"
proof -
  have "\<not> MAXVA \<le> va" using assms(2) by simp
  then have "walk pt va True es s = walk_levels 2 pt va True es s" by (simp add: walk_def)
  with walk_levels_alloc [of xs pt s "[]" pt 2 va es] assms show ?thesis
    by (simp add: pxs_path)
qed

subsection \<open>Virtual page numbers\<close>

definition vpn :: "u64 \<Rightarrow> nat" where
  "vpn va = unat va div 4096 mod 2 ^ 27"

lemma vpn_split: "vpn va = unat (PX 0 va) + 512 * (unat (PX 1 va) + 512 * unat (PX 2 va))"
proof -
  let ?n = "unat va div 4096"
  have "?n mod (512 * (512 * 512)) = 512 * (?n div 512 mod (512 * 512)) + ?n mod 512"
    by (rule mod_mult2_eq)
  also have "?n div 512 mod (512 * 512) = 512 * (?n div 512 div 512 mod 512) + ?n div 512 mod 512"
    by (rule mod_mult2_eq)
  finally show ?thesis
    by (simp add: vpn_def unat_PX div_mult2_eq [symmetric])
qed

lemma same_page: "path_of va = path_of vb \<and> idx_of va = idx_of vb \<longleftrightarrow> vpn va = vpn vb"
proof
  assume "vpn va = vpn vb"
  then have e: "unat (PX 0 va) + 512 * (unat (PX 1 va) + 512 * unat (PX 2 va))
           = unat (PX 0 vb) + 512 * (unat (PX 1 vb) + 512 * unat (PX 2 vb))"
    by (simp only: vpn_split)
  have b: "unat (PX l v) < 512" for l v by (rule PX_bound)
  have digits: "x = x' \<and> y = y'" if "x + 512 * y = x' + 512 * y'" "x < 512" "x' < 512" for x y x' y' :: nat
  proof -
    have "(x + 512 * y) mod 512 = (x' + 512 * y') mod 512" using that(1) by simp
    then have "x = x'" using that(2,3) by simp
    with that(1) show ?thesis by simp
  qed
  from digits [OF e b b] have "unat (PX 0 va) = unat (PX 0 vb)"
      "unat (PX 1 va) + 512 * unat (PX 2 va) = unat (PX 1 vb) + 512 * unat (PX 2 vb)" by auto
  with digits [OF this(2) b b] show "path_of va = path_of vb \<and> idx_of va = idx_of vb"
    by (simp add: path_of_def idx_of_def)
qed (simp add: vpn_split path_of_def idx_of_def)

lemma pte_of_vpn: "vpn va = vpn vb \<Longrightarrow> pte_of m pt va = pte_of m pt vb"
  using same_page [of va vb] by (simp add: pte_of_def cong: option.case_cong)

lemma vpn_unat: "va < MAXVA \<Longrightarrow> vpn va = unat va div 4096"
  by (simp add: vpn_def word_less_nat_alt less_mult_imp_div_less)

lemma vpn_PGROUNDDOWN [simp]: "vpn (PGROUNDDOWN va) = vpn va"
  by (simp add: vpn_def unat_PGROUNDDOWN minus_mod_eq_mult_div)

lemma vpn_next: "unat a + 4096 < 2 ^ 38 \<Longrightarrow> vpn (a + 4096) = Suc (vpn a)"
  by (simp add: vpn_def unat_next_page)

subsection \<open>Storing a leaf entry\<close>

lemma pt_step_store:
  assumes ok: "pt_ok xs pt s" and b: "node (pmem s) pt (path_of va) = Some b"
  shows "pt_step pt (\<lambda>vb. if vpn vb = vpn va then v else pte_of (pmem s) pt vb) xs s xs
           (s\<lparr>pmem := st64 (unat (slot (pmem s) pt va)) v (pmem s)\<rparr>)"
proof -
  have wf: "pt_wf (kend s) (pmem s) pt" using ok by (simp add: pt_ok_def)
  have sl: "unat (slot (pmem s) pt va) = unat b + 8 * idx_of va"
    by (rule slot_entry(2) [OF wf pt_ok_kend [OF ok] b])
  have bp: "b \<in> pt_pages (pmem s) pt" using node_page [OF _ b] by simp
  have out: "st64 (unat b + 8 * idx_of va) v (pmem s) k = pmem s k" if "\<not> in_page b k" for k
    using that in_page_entry [of "idx_of va" b k] by (intro st64_outside) fastforce
  have "kmem_ok xs (s\<lparr>pmem := st64 (unat b + 8 * idx_of va) v (pmem s)\<rparr>)"
    using ok by (intro kmem_ok_frame same_pagesI out) (auto simp: pt_ok_def dest: pt_ok_sep [OF ok bp])
  with leaf_store [OF wf b, where v = v] ok out bp show ?thesis
    unfolding pt_step_def sl
    by (intro exI [of _ "[]"]) (auto simp: pt_ok_def same_page fun_eq_iff)
qed

end
