(* ===== verification/VmMap.thy ===== *)
theory VmMap
  imports VmWalk
begin

text \<open>
  \<^verbatim>\<open>mappages\<close>, \<^verbatim>\<open>uvmunmap\<close>, \<^verbatim>\<open>uvmdealloc\<close> and \<^verbatim>\<open>uvmalloc\<close> of \<^verbatim>\<open>kernel/vm.c\<close>.
\<close>

lemma unat_small: "k < 18446744073709551616 \<Longrightarrow> unat (word_of_nat k :: u64) = k"
  by (simp add: unat_of_nat)

subsection \<open>Mapping a range of pages\<close>

definition map_range :: "u64 \<Rightarrow> u64 \<Rightarrow> u64 \<Rightarrow> nat \<Rightarrow> (u64 \<Rightarrow> u64) \<Rightarrow> u64 \<Rightarrow> u64" where
  "map_range a pa perm n F vb =
     (if vpn a \<le> vpn vb \<and> vpn vb < vpn a + n
      then PA2PTE (pa + 4096 * word_of_nat (vpn vb - vpn a)) OR perm OR PTE_V else F vb)"

lemma map_range_0 [simp]: "map_range a pa perm 0 F = F"
  by (auto simp: map_range_def fun_eq_iff)

lemma map_range_Suc:
  assumes "vpn (a + 4096) = Suc (vpn a)"
  shows "map_range (a + 4096) (pa + 4096) perm n
           (\<lambda>vb. if vpn vb = vpn a then PA2PTE pa OR perm OR PTE_V else F vb)
         = map_range a pa perm (Suc n) F"
proof
  fix vb
  have "4096 + 4096 * (word_of_nat (vpn vb - Suc (vpn a)) :: u64) = 4096 * word_of_nat (vpn vb - vpn a)"
    if "Suc (vpn a) \<le> vpn vb"
  proof -
    have "vpn vb - vpn a = Suc (vpn vb - Suc (vpn a))" using that by simp
    then show ?thesis by (simp add: distrib_left)
  qed
  then show "map_range (a + 4096) (pa + 4096) perm n
           (\<lambda>vb. if vpn vb = vpn a then PA2PTE pa OR perm OR PTE_V else F vb) vb
         = map_range a pa perm (Suc n) F vb"
    by (auto simp: map_range_def assms add.assoc)
qed

lemma mappages_loop_first:
  assumes ok: "pt_ok xs pt s" and a: "a < MAXVA" and free: "pte_of (pmem s) pt a AND PTE_V = 0"
  shows "\<exists>t ys. length xs \<le> length ys + 2 \<and> ((mappages_loop pt a final pa perm es s = Ret (-1) es t \<and> grows pt xs s ys t \<and> ys = []) \<or>
     (pt_step pt (\<lambda>vb. if vpn vb = vpn a then PA2PTE pa OR perm OR PTE_V else pte_of (pmem s) pt vb) xs s ys t \<and>
      mappages_loop pt a final pa perm es s =
        (if a = final then Ret 0 es t else mappages_loop pt (a + PGSIZE) final (pa + PGSIZE) perm es t)))"
proof -
  obtain t ys where w: "walk pt a True es s = Ret (slot (pmem t) pt a) es t" "grows pt xs s ys t"
      "slot (pmem t) pt a = 0 \<longrightarrow> ys = []" "length xs \<le> length ys + 2"
    using walk_alloc [OF ok a] by blast
  have okt: "pt_ok ys pt t" and same: "pte_of (pmem t) pt = pte_of (pmem s) pt"
    using w(2) by (rule pt_step_ok, rule pt_step_pte)
  show ?thesis
  proof (cases "node (pmem t) pt (path_of a)")
    case None
    then show ?thesis
      using w by (subst mappages_loop.simps) (auto simp: km_simps slot_def)
  next
    case (Some b)
    let ?u = "t\<lparr>pmem := st64 (unat (slot (pmem t) pt a)) (PA2PTE pa OR perm OR PTE_V) (pmem t)\<rparr>"
    have "pt_step pt (\<lambda>vb. if vpn vb = vpn a then PA2PTE pa OR perm OR PTE_V else pte_of (pmem s) pt vb) xs s ys ?u"
      using pt_step_trans [OF w(2) pt_step_store [OF okt Some, of "PA2PTE pa OR perm OR PTE_V"]] by (simp only: same)
    moreover have "slot (pmem t) pt a \<noteq> 0" "ld64 (pmem t) (unat (slot (pmem t) pt a)) AND PTE_V = 0"
      using slot_entry [OF _ pt_ok_kend [OF okt] Some] okt free same by (simp_all add: pt_ok_def)
    ultimately show ?thesis
      using w(1,4) by (subst (1 2) mappages_loop.simps) (auto simp: km_simps Let_def)
  qed
qed

lemma mappages_loop_run:
  assumes "pt_ok xs pt s" "unat a + 4096 * n < 2 ^ 38" "final = a + 4096 * word_of_nat n"
    and "\<And>vb. vpn a \<le> vpn vb \<Longrightarrow> vpn vb \<le> vpn a + n \<Longrightarrow> pte_of (pmem s) pt vb AND PTE_V = 0"
  shows "\<exists>r t ys j. mappages_loop pt a final pa perm es s = Ret r es t \<and>
           pt_step pt (map_range a pa perm j (pte_of (pmem s) pt)) xs s ys t \<and>
           (r = 0 \<and> j = Suc n \<or> r = -1 \<and> j \<le> n \<and> ys = [])"
  using assms
proof (induction n arbitrary: a pa s xs)
  case 0
  have a: "a < MAXVA" using 0(2) by (simp add: word_less_nat_alt)
  have f: "final = a" "pte_of (pmem s) pt a AND PTE_V = 0" using 0(3) 0(4) [of a] by simp_all
  have one: "map_range a pa perm (Suc 0) F = (\<lambda>vb. if vpn vb = vpn a then PA2PTE pa OR perm OR PTE_V else F vb)" for F
    by (auto simp: map_range_def fun_eq_iff)
  from mappages_loop_first [OF 0(1) a f(2), of final pa perm es]
  consider t where "mappages_loop pt a final pa perm es s = Ret (-1) es t" "grows pt xs s [] t"
    | t ys where "pt_step pt (map_range a pa perm (Suc 0) (pte_of (pmem s) pt)) xs s ys t"
      "mappages_loop pt a final pa perm es s = Ret 0 es t"
    unfolding one f(1) by auto
  then show ?case
  proof cases
    case 1
    then show ?thesis by (intro exI [of _ "-1"] exI [of _ t] exI [of _ "[]"] exI [of _ 0]) simp
  next
    case 2
    then show ?thesis by (intro exI [of _ 0] exI [of _ t] exI [of _ ys] exI [of _ "Suc 0"]) simp
  qed
next
  case (Suc n)
  have a: "a < MAXVA" using Suc.prems(2) by (simp add: word_less_nat_alt)
  have nx: "unat (a + 4096) = unat a + 4096" "vpn (a + 4096) = Suc (vpn a)"
    using Suc.prems(2) by (auto intro: unat_next_page vpn_next)
  have fin: "final = (a + 4096) + 4096 * word_of_nat n"
    using Suc.prems(3) by (simp add: distrib_left)
  have "unat (4096 * word_of_nat (Suc n) :: u64) = 4096 * Suc n"
    using Suc.prems(2) by (subst unat_word_ariths(2)) (simp add: unat_small del: of_nat_Suc)
  then have ne: "a \<noteq> final"
    unfolding Suc.prems(3) by (auto simp del: of_nat_Suc)
  have free: "pte_of (pmem s) pt a AND PTE_V = 0"
    using Suc.prems(4) [of a] by simp
  let ?G = "\<lambda>vb. if vpn vb = vpn a then PA2PTE pa OR perm OR PTE_V else pte_of (pmem s) pt vb"
  consider t where "mappages_loop pt a final pa perm es s = Ret (-1) es t" "grows pt xs s [] t"
    | t ys where "pt_step pt ?G xs s ys t"
      "mappages_loop pt a final pa perm es s = mappages_loop pt (a + PGSIZE) final (pa + PGSIZE) perm es t"
    using mappages_loop_first [OF Suc.prems(1) a free, of final pa perm es] ne by auto
  then show ?case
  proof cases
    case 1
    then show ?thesis by (intro exI [of _ "-1"] exI [of _ t] exI [of _ "[]"] exI [of _ 0]) simp
  next
    case 2
    have ok: "pt_ok ys pt t" and G: "pte_of (pmem t) pt = ?G"
      using 2(1) by (rule pt_step_ok, rule pt_step_pte)
    have "pte_of (pmem t) pt vb AND PTE_V = 0" if "vpn (a + 4096) \<le> vpn vb" "vpn vb \<le> vpn (a + 4096) + n" for vb
      using that Suc.prems(4) [of vb] by (simp add: nx(2) G)
    moreover have "unat (a + 4096) + 4096 * n < 2 ^ 38"
      using Suc.prems(2) by (simp add: nx(1))
    ultimately obtain r u zs j where "mappages_loop pt (a + 4096) final (pa + 4096) perm es t = Ret r es u"
        "pt_step pt (map_range (a + 4096) (pa + 4096) perm j ?G) ys t zs u"
        "r = 0 \<and> j = Suc n \<or> r = -1 \<and> j \<le> n \<and> zs = []"
      using Suc.IH [OF ok _ fin, of "pa + 4096"] unfolding G by blast
    then show ?thesis
      using 2 pt_step_trans [OF 2(1)] map_range_Suc [OF nx(2)]
      by (intro exI [of _ r] exI [of _ u] exI [of _ zs] exI [of _ "Suc j"]) auto
  qed
qed

end
