(* ===== verification/AddrSpace.thy ===== *)
theory AddrSpace
  imports VmMap
begin

text \<open>
  Address spaces: a page table together with the data pages its first \<open>lim\<close> virtual pages own.
  \<open>as_ok xs pt lim s\<close> says that the free pages, the table pages and the owned data pages are
  pairwise different usable pages; \<open>foot\<close> is their union. The operations of \<^verbatim>\<open>kernel/vm.c\<close> move
  pages between the three parts and never lose one: \<open>as_step\<close> states that the footprint is
  conserved, that no memory outside of it changes, and \<open>keeps P\<close> that the virtual pages in \<open>P\<close>
  keep their entry and their contents.
\<close>

abbreviation mapped :: "bytes \<Rightarrow> u64 \<Rightarrow> u64 \<Rightarrow> bool" where
  "mapped m pt va \<equiv> pte_of m pt va AND PTE_V \<noteq> 0"

definition data_page :: "bytes \<Rightarrow> u64 \<Rightarrow> u64 \<Rightarrow> u64" where
  "data_page m pt va = PTE2PA (pte_of m pt va)"

definition data_pages :: "bytes \<Rightarrow> u64 \<Rightarrow> nat \<Rightarrow> u64 set" where
  "data_pages m pt lim = {data_page m pt va | va. vpn va < lim \<and> mapped m pt va}"

definition foot :: "u64 list \<Rightarrow> u64 \<Rightarrow> nat \<Rightarrow> bytes \<Rightarrow> u64 set" where
  "foot xs pt lim m = set xs \<union> pt_pages m pt \<union> data_pages m pt lim"

definition as_ok :: "u64 list \<Rightarrow> u64 \<Rightarrow> nat \<Rightarrow> 'z kmem_scheme \<Rightarrow> bool" where
  "as_ok xs pt lim s \<longleftrightarrow> pt_ok xs pt s \<and>
     (\<forall>a\<in>data_pages (pmem s) pt lim. page_ok (kend s) a) \<and>
     data_pages (pmem s) pt lim \<inter> (set xs \<union> pt_pages (pmem s) pt) = {} \<and>
     (\<forall>va vb. vpn va < lim \<longrightarrow> vpn vb < lim \<longrightarrow> mapped (pmem s) pt va \<longrightarrow> mapped (pmem s) pt vb \<longrightarrow>
        data_page (pmem s) pt va = data_page (pmem s) pt vb \<longrightarrow> vpn va = vpn vb) \<and>
     (\<forall>va. vpn va < lim \<longrightarrow> mapped (pmem s) pt va \<longrightarrow> PTE_FLAGS (pte_of (pmem s) pt va) \<noteq> PTE_V)"

definition keeps :: "(u64 \<Rightarrow> bool) \<Rightarrow> u64 \<Rightarrow> 'z kmem_scheme \<Rightarrow> 'z kmem_scheme \<Rightarrow> bool" where
  "keeps P pt s t \<longleftrightarrow> (\<forall>va. P va \<longrightarrow> pte_of (pmem t) pt va = pte_of (pmem s) pt va \<and>
     (\<forall>k. in_page (data_page (pmem s) pt va) k \<longrightarrow> pmem t k = pmem s k))"

definition as_step :: "u64 \<Rightarrow> nat \<Rightarrow> u64 list \<Rightarrow> 'z kmem_scheme \<Rightarrow> u64 list \<Rightarrow> 'z kmem_scheme \<Rightarrow> bool" where
  "as_step pt lim xs s ys t \<longleftrightarrow> as_ok ys pt lim t \<and> foot ys pt lim (pmem t) = foot xs pt lim (pmem s) \<and>
     (\<forall>k. (\<forall>a\<in>foot xs pt lim (pmem s). \<not> in_page a k) \<longrightarrow> pmem t k = pmem s k) \<and>
     kend t = kend s \<and> mem_step s t"

lemma as_step_refl: "as_ok xs pt lim s \<Longrightarrow> as_step pt lim xs s xs s"
  by (simp add: as_step_def)

lemma as_step_trans: "as_step pt lim xs s ys t \<Longrightarrow> as_step pt lim ys t zs u \<Longrightarrow> as_step pt lim xs s zs u"
  unfolding as_step_def by (simp add: mem_step_trans [of s t u])

lemma as_step_ok: "as_step pt lim xs s ys t \<Longrightarrow> as_ok ys pt lim t"
  by (simp add: as_step_def)

lemma keeps_refl: "keeps P pt s s"
  by (simp add: keeps_def)

lemma keeps_trans: "keeps P pt s t \<Longrightarrow> keeps P pt t u \<Longrightarrow> keeps P pt s u"
  by (simp add: keeps_def data_page_def)

lemma keeps_mono: "keeps P pt s t \<Longrightarrow> (\<And>va. Q va \<Longrightarrow> P va) \<Longrightarrow> keeps Q pt s t"
  unfolding keeps_def by blast

lemma as_ok_pt: "as_ok xs pt lim s \<Longrightarrow> pt_ok xs pt s"
  by (simp add: as_ok_def)

lemma as_ok_data:
  assumes "as_ok xs pt lim s" "vpn va < lim" "mapped (pmem s) pt va"
  shows "page_ok (kend s) (data_page (pmem s) pt va)" "data_page (pmem s) pt va \<notin> set xs"
    "data_page (pmem s) pt va \<notin> pt_pages (pmem s) pt" "PTE_FLAGS (pte_of (pmem s) pt va) \<noteq> PTE_V"
proof -
  have "data_page (pmem s) pt va \<in> data_pages (pmem s) pt lim"
    using assms by (auto simp: data_pages_def)
  with assms show "page_ok (kend s) (data_page (pmem s) pt va)" "data_page (pmem s) pt va \<notin> set xs"
    "data_page (pmem s) pt va \<notin> pt_pages (pmem s) pt" "PTE_FLAGS (pte_of (pmem s) pt va) \<noteq> PTE_V"
    by (auto simp: as_ok_def)
qed

lemma as_ok_inj:
  assumes "as_ok xs pt lim s" "vpn va < lim" "vpn vb < lim" "mapped (pmem s) pt va" "mapped (pmem s) pt vb"
    "data_page (pmem s) pt va = data_page (pmem s) pt vb"
  shows "vpn va = vpn vb"
  using assms unfolding as_ok_def by metis

lemma data_pagesI: "vpn va < lim \<Longrightarrow> mapped m pt va \<Longrightarrow> data_page m pt va \<in> data_pages m pt lim"
  by (auto simp: data_pages_def)

lemma data_pagesE:
  assumes "a \<in> data_pages m pt lim"
  obtains va where "a = data_page m pt va" "vpn va < lim" "mapped m pt va"
  using assms by (auto simp: data_pages_def)

lemma as_ok_foot: "as_ok xs pt lim s \<Longrightarrow> a \<in> foot xs pt lim (pmem s) \<Longrightarrow> page_ok (kend s) a"
  by (auto simp: as_ok_def foot_def pt_ok_def pt_wf_def kmem_ok_def)

lemma as_ok_separate:
  assumes "as_ok xs pt lim s" "a \<in> foot xs pt lim (pmem s)" "b \<in> foot xs pt lim (pmem s)" "a \<noteq> b" "in_page a k"
  shows "\<not> in_page b k"
  using pages_separate [OF as_ok_foot [OF assms(1,2)] as_ok_foot [OF assms(1,3)]] assms(4,5) .

subsection \<open>Unmapping and freeing\<close>

lemma push_frame: "\<not> in_page p k \<Longrightarrow> pmem (push_page p s) k = pmem s k"
  by (rule push_page_frame) (auto simp: in_page_def)

lemma data_pages_unmap:
  assumes ok: "as_ok xs pt lim s" and va: "vpn va < lim" "mapped (pmem s) pt va"
    and F: "pte_of m pt = (\<lambda>vb. if vpn vb = vpn va then 0 else pte_of (pmem s) pt vb)"
  shows "data_pages m pt lim = data_pages (pmem s) pt lim - {data_page (pmem s) pt va}"
proof (intro set_eqI iffI)
  fix a assume "a \<in> data_pages m pt lim"
  then obtain vb where vb: "a = data_page m pt vb" "vpn vb < lim" "mapped m pt vb"
    by (rule data_pagesE)
  then have ne: "vpn vb \<noteq> vpn va" and a: "a = data_page (pmem s) pt vb" and m: "mapped (pmem s) pt vb"
    by (auto simp: F data_page_def split: if_splits)
  have "a \<noteq> data_page (pmem s) pt va"
    using as_ok_inj [OF ok vb(2) va(1) m va(2)] ne a by metis
  with a data_pagesI [OF vb(2) m] show "a \<in> data_pages (pmem s) pt lim - {data_page (pmem s) pt va}"
    by simp
next
  fix a assume a: "a \<in> data_pages (pmem s) pt lim - {data_page (pmem s) pt va}"
  then obtain vb where vb: "a = data_page (pmem s) pt vb" "vpn vb < lim" "mapped (pmem s) pt vb"
    by (auto elim: data_pagesE)
  then have "vpn vb \<noteq> vpn va"
    using a pte_of_vpn [of vb va "pmem s" pt] by (auto simp: data_page_def)
  with vb have "a = data_page m pt vb" "mapped m pt vb"
    by (simp_all add: data_page_def F)
  with data_pagesI [OF vb(2)] show "a \<in> data_pages m pt lim" by simp
qed

lemma unmap_step:
  assumes ok: "as_ok xs pt lim s" and va: "vpn va < lim" "mapped (pmem s) pt va"
  defines "pa \<equiv> data_page (pmem s) pt va"
  defines "t \<equiv> (push_page pa s)\<lparr>pmem := st64 (unat (slot (pmem s) pt va)) 0 (pmem (push_page pa s))\<rparr>"
  shows "as_step pt lim xs s (pa # xs) t"
    and "pte_of (pmem t) pt = (\<lambda>vb. if vpn vb = vpn va then 0 else pte_of (pmem s) pt vb)"
    and "keeps (\<lambda>vb. vpn vb < lim \<and> mapped (pmem s) pt vb \<and> vpn vb \<noteq> vpn va) pt s t"
proof -
  let ?s1 = "push_page pa s"
  have pa: "page_ok (kend s) pa" "pa \<notin> set xs" "pa \<notin> pt_pages (pmem s) pt"
    using as_ok_data [OF ok va] by (simp_all add: pa_def)
  have in1: "in_page pa k \<or> pmem ?s1 k = pmem s k" for k
    using push_frame by blast
  have "same_pages (pt_pages (pmem s) pt) (pmem s) (pmem ?s1)"
  proof
    fix a k assume a: "a \<in> pt_pages (pmem s) pt" "in_page a k"
    then have "page_ok (kend s) a" using ok by (auto simp: as_ok_def pt_ok_def pt_wf_def)
    then have "\<not> in_page pa k" using pages_separate [of "kend s" a pa k] pa a by auto
    with in1 show "pmem ?s1 k = pmem s k" by blast
  qed
  note fr = node_frame [OF this]
  have fr3: "pte_of (pmem ?s1) pt = pte_of (pmem s) pt" by (rule ext, rule fr(3))
  have ok1: "pt_ok (pa # xs) pt ?s1"
    using ok pa fr kmem_ok_push [of xs s pa] by (auto simp: as_ok_def pt_ok_def)
  obtain b where b: "node (pmem s) pt (path_of va) = Some b"
    using pte_valid [of "pmem s" pt va] va(2) by fastforce
  have slot1: "slot (pmem ?s1) pt va = slot (pmem s) pt va"
    using fr(1) by (simp add: slot_def)
  have st: "pt_step pt (\<lambda>vb. if vpn vb = vpn va then 0 else pte_of (pmem ?s1) pt vb) (pa # xs) ?s1 (pa # xs) t"
    using pt_step_store [OF ok1, of va b 0] b fr(1) by (simp add: t_def slot1)
  show F: "pte_of (pmem t) pt = (\<lambda>vb. if vpn vb = vpn va then 0 else pte_of (pmem s) pt vb)"
    using pt_step_pte [OF st] unfolding fr3 .
  have pages: "pt_pages (pmem t) pt = pt_pages (pmem s) pt"
    using st fr(2) by (auto simp: pt_step_def)
  have data: "data_pages (pmem t) pt lim = data_pages (pmem s) pt lim - {pa}"
    unfolding pa_def by (rule data_pages_unmap [OF ok va F])
  have pa_in: "pa \<in> data_pages (pmem s) pt lim"
    using va by (auto simp: data_pages_def pa_def)
  have ks: "kend t = kend s" "mem_step s t"
    by (simp_all add: t_def)
  have okt: "as_ok (pa # xs) pt lim t"
    using ok pt_step_ok [OF st] data pages ks
    by (auto simp: as_ok_def F data_page_def split: if_splits)
  have out: "pmem t k = pmem s k" if "\<not> in_page pa k" "\<forall>a\<in>pt_pages (pmem s) pt. \<not> in_page a k" for k
  proof -
    have "pmem t k = pmem ?s1 k"
      using st that(2) fr(2) by (auto simp: pt_step_def)
    with in1 that(1) show ?thesis by metis
  qed
  show "as_step pt lim xs s (pa # xs) t"
    unfolding as_step_def
    using okt ks pa_in out by (auto simp: foot_def data pages)
  show "keeps (\<lambda>vb. vpn vb < lim \<and> mapped (pmem s) pt vb \<and> vpn vb \<noteq> vpn va) pt s t"
    unfolding keeps_def
  proof (intro allI impI conjI)
    fix vb k
    assume vb: "vpn vb < lim \<and> mapped (pmem s) pt vb \<and> vpn vb \<noteq> vpn va"
    then show "pte_of (pmem t) pt vb = pte_of (pmem s) pt vb" by (simp add: F)
    assume k: "in_page (data_page (pmem s) pt vb) k"
    have d: "data_page (pmem s) pt vb \<in> foot xs pt lim (pmem s)" "data_page (pmem s) pt vb \<noteq> pa"
      using vb va ok by (auto simp: foot_def data_pages_def as_ok_def pa_def)
    have "\<not> in_page pa k"
      using as_ok_separate [OF ok d(1) _ d(2) k] pa_in by (simp add: foot_def)
    moreover have "\<not> in_page a k" if "a \<in> pt_pages (pmem s) pt" for a
      using as_ok_separate [OF ok d(1) _ _ k, of a] as_ok_data(3) [OF ok] vb that by (auto simp: foot_def)
    ultimately show "pmem t k = pmem s k" by (rule out [OF _ ballI])
  qed
qed

lemma unmap_page_run:
  assumes ok: "as_ok xs pt lim s" and va: "vpn va < lim" "mapped (pmem s) pt va" "va < MAXVA"
  shows "unmap_page pt True va es s = Ret None es ((push_page (data_page (pmem s) pt va) s)
     \<lparr>pmem := st64 (unat (slot (pmem s) pt va)) 0 (pmem (push_page (data_page (pmem s) pt va) s))\<rparr>)"
proof -
  have pt: "pt_wf (kend s) (pmem s) pt" "0 < kend s" "kmem_ok xs s"
    using ok pt_ok_kend [of xs pt s] by (auto simp: as_ok_def pt_ok_def)
  obtain b where b: "node (pmem s) pt (path_of va) = Some b"
    using pte_valid [of "pmem s" pt va] va(2) by fastforce
  note sl = slot_entry [OF pt(1,2) b]
  have "kfree (data_page (pmem s) pt va) es s = Ret () es (push_page (data_page (pmem s) pt va) s)"
    using kmem_ok_kfree [OF pt(3)] as_ok_data(1) [OF ok va(1,2)] by simp
  then show ?thesis
    using walk_run [OF pt(1) va(3)] sl va(2) as_ok_data(4) [OF ok va(1,2)]
    by (simp add: unmap_page_def km_simps data_page_def)
qed

definition in_range :: "u64 \<Rightarrow> nat \<Rightarrow> u64 \<Rightarrow> bool" where
  "in_range a n vb \<longleftrightarrow> vpn a \<le> vpn vb \<and> vpn vb < vpn a + n"

lemma in_range_0 [simp]: "\<not> in_range a 0 vb"
  by (simp add: in_range_def)

lemma in_range_Suc: "vpn (a + 4096) = Suc (vpn a) \<Longrightarrow> in_range a (Suc n) vb \<longleftrightarrow> vpn vb = vpn a \<or> in_range (a + 4096) n vb"
  by (auto simp: in_range_def)

lemma unmap_loop:
  assumes "as_ok xs pt lim s" "unat stop = unat a + 4096 * n" "unat stop \<le> 2 ^ 38" "vpn a + n \<le> lim"
    and "\<forall>vb. in_range a n vb \<longrightarrow> mapped (pmem s) pt vb"
  shows "\<exists>t ys. for_up a stop PGSIZE (unmap_page pt True) es s = Ret None es t \<and> as_step pt lim xs s ys t \<and>
           pte_of (pmem t) pt = (\<lambda>vb. if in_range a n vb then 0 else pte_of (pmem s) pt vb) \<and>
           keeps (\<lambda>vb. vpn vb < lim \<and> mapped (pmem s) pt vb \<and> \<not> in_range a n vb) pt s t"
  using assms
proof (induction n arbitrary: a s xs)
  case 0
  then have "\<not> a < stop" by (simp add: word_less_nat_alt)
  with 0(1) show ?case by (auto simp: for_while_done keeps_refl intro: as_step_refl)
next
  case (Suc n)
  have a: "a < MAXVA" "a < stop" using Suc.prems(2,3) by (simp_all add: word_less_nat_alt)
  have nx: "unat (a + 4096) = unat a + 4096" using Suc.prems(2,3) by (intro unat_next_page) simp
  then have lt: "a < a + 4096" by (simp add: word_less_nat_alt)
  have va: "vpn a < lim" "mapped (pmem s) pt a"
    using Suc.prems(4,5) by (auto simp: in_range_def)
  define t where "t = (push_page (data_page (pmem s) pt a) s)
     \<lparr>pmem := st64 (unat (slot (pmem s) pt a)) 0 (pmem (push_page (data_page (pmem s) pt a) s))\<rparr>"
  note st = unmap_step [OF Suc.prems(1) va, folded t_def]
  have run: "for_up a stop PGSIZE (unmap_page pt True) es s = for_up (a + PGSIZE) stop PGSIZE (unmap_page pt True) es t"
    using a lt unmap_page_run [OF Suc.prems(1) va a(1), of es] by (intro for_while_step) (simp_all add: t_def)
  show ?case
  proof (cases n)
    case 0
    then have "\<not> a + 4096 < stop" using Suc.prems(2) nx by (simp add: word_less_nat_alt)
    moreover have "in_range a 1 vb \<longleftrightarrow> vpn vb = vpn a" for vb by (auto simp: in_range_def)
    ultimately show ?thesis
      using 0 run st by (auto simp: for_while_done)
  next
    case (Suc k)
    then have vn: "vpn (a + 4096) = Suc (vpn a)"
      using Suc.prems(2,3) by (intro vpn_next) simp
    note r = in_range_Suc [OF vn, of n]
    have "\<forall>vb. in_range (a + 4096) n vb \<longrightarrow> mapped (pmem t) pt vb"
      using Suc.prems(5) by (auto simp: r st(2)) (auto simp: in_range_def vn)
    then obtain u ys where u: "for_up (a + 4096) stop PGSIZE (unmap_page pt True) es t = Ret None es u"
        "as_step pt lim (data_page (pmem s) pt a # xs) t ys u"
        "pte_of (pmem u) pt = (\<lambda>vb. if in_range (a + 4096) n vb then 0 else pte_of (pmem t) pt vb)"
        "keeps (\<lambda>vb. vpn vb < lim \<and> mapped (pmem t) pt vb \<and> \<not> in_range (a + 4096) n vb) pt t u"
      using Suc.IH [OF as_step_ok [OF st(1)], of "a + 4096"] Suc.prems(2-4) nx vn by auto
    have "keeps (\<lambda>vb. vpn vb < lim \<and> mapped (pmem s) pt vb \<and> \<not> in_range a (Suc n) vb) pt s u"
    proof (rule keeps_trans)
      show "keeps (\<lambda>vb. vpn vb < lim \<and> mapped (pmem s) pt vb \<and> \<not> in_range a (Suc n) vb) pt s t"
        by (rule keeps_mono [OF st(3)]) (simp add: r)
      show "keeps (\<lambda>vb. vpn vb < lim \<and> mapped (pmem s) pt vb \<and> \<not> in_range a (Suc n) vb) pt t u"
        by (rule keeps_mono [OF u(4)]) (simp add: r st(2))
    qed
    then show ?thesis
      using run u(1,3) as_step_trans [OF st(1) u(2)] by (intro exI [of _ u] exI [of _ ys]) (auto simp: r st(2))
  qed
qed

end
