(* ===== verification/UserMem.thy ===== *)
theory UserMem
  imports AddrSpace
begin

text \<open>
  Growing and shrinking a process's memory: \<^verbatim>\<open>uvmcreate\<close>, \<^verbatim>\<open>uvmalloc\<close>, \<^verbatim>\<open>uvmdealloc\<close> and
  \<^verbatim>\<open>uvmunmap\<close> of \<^verbatim>\<open>kernel/vm.c\<close>. \<open>uvm_ok xs pt sz lim s\<close> is the invariant of a process of size \<open>sz\<close>:
  of its first \<open>lim\<close> virtual pages exactly those below the size are mapped. The lemmas follow one
  page through the operations: taken from the free list (\<open>as_ok_pop\<close>), entered into the table
  (\<open>as_map\<close>), or given back (\<open>as_ok_push\<close>).
\<close>

subsection \<open>Taking a page out of the free list\<close>

lemma as_ok_pop:
  assumes ok: "as_ok (n # ys) pt lim s" and m: "\<forall>k. \<not> in_page n k \<longrightarrow> m k = pmem s k"
  defines "t \<equiv> (pop_page s)\<lparr>pmem := m\<rparr>"
  shows "as_ok ys pt lim t" "pte_of m pt = pte_of (pmem s) pt" "pt_pages m pt = pt_pages (pmem s) pt"
    "n \<notin> foot ys pt lim m" "page_ok (kend s) n"
    "foot (n # ys) pt lim (pmem s) = insert n (foot ys pt lim m)"
proof -
  have pool: "kmem_ok (n # ys) s" and wf: "pt_wf (kend s) (pmem s) pt"
    using ok by (auto simp: as_ok_def pt_ok_def)
  have pg: "page_ok (kend s) n" "n \<notin> set ys"
    using kpool.pool_pages [OF pool] by auto
  then show "page_ok (kend s) n" by simp
  have out: "\<not> in_page n k" if "a \<in> foot (n # ys) pt lim (pmem s)" "a \<noteq> n" "in_page a k" for a k
    using as_ok_separate [OF ok that(1) _ that(2,3)] by (simp add: foot_def)
  have tab: "same_pages (pt_pages (pmem s) pt) (pmem s) m"
    using ok by (intro same_pagesI m [rule_format] out) (auto simp: foot_def as_ok_def pt_ok_def)
  note fr = node_frame [OF tab]
  show F: "pte_of m pt = pte_of (pmem s) pt" by (rule ext, rule fr(3))
  show P: "pt_pages m pt = pt_pages (pmem s) pt" by (rule fr(2))
  have D: "data_pages m pt lim = data_pages (pmem s) pt lim"
    by (simp add: data_pages_def data_page_def F)
  have "kmem_ok ys t"
    unfolding t_def
  proof (rule kmem_ok_frame [OF kmem_ok_pop [OF pool] same_pagesI])
    fix a k assume a: "a \<in> set ys" "in_page a k"
    then have "\<not> in_page n k" using out [of a k] pg by (auto simp: foot_def)
    moreover have "freelist s = n" using kmem_ok_head [OF pool] by simp
    ultimately show "m k = pmem (pop_page s) k" using m pop_frame [of s k] by simp
  qed
  then show "as_ok ys pt lim t"
    using ok fr(4) by (auto simp: as_ok_def pt_ok_def F P D data_page_def t_def)
  show "n \<notin> foot ys pt lim m"
    using ok pg by (auto simp: foot_def P D as_ok_def pt_ok_def)
  show "foot (n # ys) pt lim (pmem s) = insert n (foot ys pt lim m)"
    by (auto simp: foot_def P D)
qed

subsection \<open>Entering a page into the table\<close>

lemma pt_step_frame:
  assumes ok: "as_ok ys pt lim s" and st: "pt_step pt F ys s zs t"
  shows "same_pages (data_pages (pmem s) pt lim) (pmem s) (pmem t)"
    "page_ok (kend s) a \<Longrightarrow> a \<notin> foot ys pt lim (pmem s) \<Longrightarrow> same_pages {a} (pmem s) (pmem t)"
    "(\<forall>a\<in>foot ys pt lim (pmem s). \<not> in_page a k) \<Longrightarrow> pmem t k = pmem s k"
proof -
  obtain ws where ws: "ys = ws @ zs"
      "\<forall>k. (\<forall>a\<in>pt_pages (pmem s) pt \<union> set ws. \<not> in_page a k) \<longrightarrow> pmem t k = pmem s k"
    using st unfolding pt_step_def by blast
  have sub: "pt_pages (pmem s) pt \<union> set ws \<subseteq> foot ys pt lim (pmem s)"
    by (auto simp: foot_def ws(1))
  have other: "same_pages {a} (pmem s) (pmem t)"
    if pa: "page_ok (kend s) a" "a \<notin> pt_pages (pmem s) pt \<union> set ws" for a
  proof
    fix b k assume "b \<in> {a}" "in_page b k"
    then have k: "in_page a k" by simp
    have "\<not> in_page c k" if c: "c \<in> pt_pages (pmem s) pt \<union> set ws" for c
    proof -
      have "page_ok (kend s) c" using as_ok_foot [OF ok, of c] sub c by blast
      moreover have "a \<noteq> c" using c pa(2) by blast
      ultimately show ?thesis using pages_separate [OF pa(1) _ _ k] by simp
    qed
    with ws(2) show "pmem t k = pmem s k" by blast
  qed
  show "same_pages (data_pages (pmem s) pt lim) (pmem s) (pmem t)"
  proof
    fix a k assume a: "a \<in> data_pages (pmem s) pt lim" "in_page a k"
    then have "page_ok (kend s) a" "a \<notin> pt_pages (pmem s) pt \<union> set ws"
      using ok by (auto simp: as_ok_def ws(1))
    from same_pagesD [OF other [OF this]] a(2) show "pmem t k = pmem s k" by simp
  qed
  show "same_pages {a} (pmem s) (pmem t)" if "page_ok (kend s) a" "a \<notin> foot ys pt lim (pmem s)"
    using that sub by (intro other) auto
  show "pmem t k = pmem s k" if "\<forall>a\<in>foot ys pt lim (pmem s). \<not> in_page a k"
    using ws(2) that sub by blast
qed

lemma keepsI:
  assumes "same_pages (data_pages (pmem s) pt lim) (pmem s) (pmem t)"
    and "\<And>vb. vpn vb < lim \<Longrightarrow> mapped (pmem s) pt vb \<Longrightarrow> P vb \<Longrightarrow> pte_of (pmem t) pt vb = pte_of (pmem s) pt vb"
  shows "keeps (\<lambda>vb. vpn vb < lim \<and> mapped (pmem s) pt vb \<and> P vb) pt s t"
  unfolding keeps_def using assms same_pagesD [OF assms(1) data_pagesI] by blast

lemma as_grow:
  assumes ok: "as_ok ys pt lim s" and st: "grows pt ys s zs t"
  shows "as_step pt lim ys s zs t" "keeps (\<lambda>vb. vpn vb < lim \<and> mapped (pmem s) pt vb) pt s t"
proof -
  obtain ws where ws: "ys = ws @ zs" "pt_ok zs pt t" "pt_pages (pmem t) pt = pt_pages (pmem s) pt \<union> set ws"
      "pte_of (pmem t) pt = pte_of (pmem s) pt" "kend t = kend s" "mem_step s t"
    using st unfolding pt_step_def by blast
  have D: "data_pages (pmem t) pt lim = data_pages (pmem s) pt lim"
    by (simp add: data_pages_def data_page_def ws(4))
  have "as_ok zs pt lim t"
    using ok ws by (auto simp: as_ok_def D data_page_def)
  then show "as_step pt lim ys s zs t"
    using pt_step_frame(3) [OF ok st] ws unfolding as_step_def by (auto simp: foot_def D)
  show "keeps (\<lambda>vb. vpn vb < lim \<and> mapped (pmem s) pt vb) pt s t"
    using keepsI [OF pt_step_frame(1) [OF ok st], of "\<lambda>_. True"] ws(4) by simp
qed

lemma or_and_absorb: "(a OR b) AND b = b" for a b :: "'a::len word"
  by (rule bit_eqI) (auto simp: bit_simps)

lemma unat_or_less:
  fixes a b :: "'a::len word"
  assumes "unat a < 2 ^ n" "unat b < 2 ^ n"
  shows "unat (a OR b) < 2 ^ n"
proof -
  have "take_bit n a = a" "take_bit n b = b"
    using assms by (simp_all add: word_unat_eq_iff unat_take_bit)
  then have "take_bit n (a OR b) = a OR b" by simp
  then have "unat (a OR b) = unat (a OR b) mod 2 ^ n" by (metis unat_take_bit)
  then show ?thesis by (metis mod_less_divisor zero_less_power zero_less_numeral)
qed

lemma leaf_entry:
  assumes n: "page_ok e n" and perm: "unat perm < 1024" "perm OR PTE_V \<noteq> PTE_V"
  shows "(PA2PTE n OR perm OR PTE_V) AND PTE_V \<noteq> 0" "PTE2PA (PA2PTE n OR perm OR PTE_V) = n"
     "PTE_FLAGS (PA2PTE n OR perm OR PTE_V) = perm OR PTE_V"
proof -
  have f: "unat (perm OR PTE_V) < 1024"
    using unat_or_less [of perm 10 1] perm(1) by simp
  show "PTE_FLAGS (PA2PTE n OR perm OR PTE_V) = perm OR PTE_V"
    using f by (simp add: PTE_FLAGS_PA2PTE or.assoc)
  show "PTE2PA (PA2PTE n OR perm OR PTE_V) = n"
    using page_roundtrip [OF f n] by (simp add: or.assoc)
  have "(PA2PTE n OR (perm OR PTE_V)) AND PTE_V = (perm OR PTE_V) AND PTE_V"
    by (rule PTE_bits_PA2PTE) simp
  also have "\<dots> = PTE_V" by (rule or_and_absorb)
  finally show "(PA2PTE n OR perm OR PTE_V) AND PTE_V \<noteq> 0" by (simp add: or.assoc)
qed

lemma data_pages_map:
  assumes F: "pte_of m' pt = (\<lambda>vb. if vpn vb = vpn va then e else pte_of m pt vb)"
    and va: "vpn va < lim" "\<not> mapped m pt va" and e: "e AND PTE_V \<noteq> 0" "PTE2PA e = n"
  shows "data_pages m' pt lim = insert n (data_pages m pt lim)"
proof (intro set_eqI iffI)
  fix a assume "a \<in> data_pages m' pt lim"
  then obtain vb where "a = data_page m' pt vb" "vpn vb < lim" "mapped m' pt vb"
    by (rule data_pagesE)
  then show "a \<in> insert n (data_pages m pt lim)"
    using data_pagesI [of vb lim m pt] e by (auto simp: F data_page_def split: if_splits)
next
  fix a assume "a \<in> insert n (data_pages m pt lim)"
  then consider "a = n" | vb where "a = data_page m pt vb" "vpn vb < lim" "mapped m pt vb"
    by (auto elim: data_pagesE)
  then show "a \<in> data_pages m' pt lim"
  proof cases
    case 1
    then show ?thesis using data_pagesI [of va lim m' pt] va e by (simp add: F data_page_def)
  next
    case 2
    then have "vpn vb \<noteq> vpn va" using va(2) pte_of_vpn [of vb va m pt] by auto
    with 2 show ?thesis using data_pagesI [of vb lim m' pt] by (simp add: F data_page_def)
  qed
qed

lemma as_map:
  assumes ok: "as_ok ys pt lim s" and n: "page_ok (kend s) n" "n \<notin> foot ys pt lim (pmem s)"
    and va: "vpn va < lim" "\<not> mapped (pmem s) pt va"
    and perm: "unat perm < 1024" "perm OR PTE_V \<noteq> PTE_V"
    and st: "pt_step pt (\<lambda>vb. if vpn vb = vpn va then PA2PTE n OR perm OR PTE_V else pte_of (pmem s) pt vb) ys s zs t"
  shows "as_ok zs pt lim t" "foot zs pt lim (pmem t) = insert n (foot ys pt lim (pmem s))"
    "keeps (\<lambda>vb. vpn vb < lim \<and> mapped (pmem s) pt vb) pt s t"
proof -
  obtain ws where ws: "ys = ws @ zs" "pt_ok zs pt t" "pt_pages (pmem t) pt = pt_pages (pmem s) pt \<union> set ws"
      "pte_of (pmem t) pt = (\<lambda>vb. if vpn vb = vpn va then PA2PTE n OR perm OR PTE_V else pte_of (pmem s) pt vb)"
      "kend t = kend s"
    using st unfolding pt_step_def by blast
  note e = leaf_entry [OF n(1) perm]
  have D: "data_pages (pmem t) pt lim = insert n (data_pages (pmem s) pt lim)"
    by (rule data_pages_map [OF ws(4) va e(1,2)])
  have not_n: "data_page (pmem s) pt vb \<noteq> n" if "vpn vb < lim" "mapped (pmem s) pt vb" for vb
    using data_pagesI [OF that] n(2) by (auto simp: foot_def)
  show "foot zs pt lim (pmem t) = insert n (foot ys pt lim (pmem s))"
    by (auto simp: foot_def D ws(1,3))
  have inj: "vpn vb = vpn vc" if "vpn vb < lim" "vpn vc < lim" "mapped (pmem t) pt vb" "mapped (pmem t) pt vc"
      "data_page (pmem t) pt vb = data_page (pmem t) pt vc" for vb vc
    using that as_ok_inj [OF ok that(1,2)] not_n [of vb] not_n [of vc] e(2)
    by (auto simp: ws(4) data_page_def split: if_splits)
  show "as_ok zs pt lim t"
    unfolding as_ok_def
  proof (intro conjI allI impI ballI)
    show "data_pages (pmem t) pt lim \<inter> (set zs \<union> pt_pages (pmem t) pt) = {}"
      using ok n(2) by (auto simp: as_ok_def D foot_def ws(1,3))
    show "PTE_FLAGS (pte_of (pmem t) pt vb) \<noteq> PTE_V" if "vpn vb < lim" "mapped (pmem t) pt vb" for vb
      using that as_ok_data(4) [OF ok that(1)] e(3) perm(2) by (auto simp: ws(4) split: if_splits)
    show "page_ok (kend t) a" if "a \<in> data_pages (pmem t) pt lim" for a
      using that ok n(1) by (auto simp: D ws(5) as_ok_def)
  qed (use ws(2) inj in auto)
  have "pte_of (pmem t) pt vb = pte_of (pmem s) pt vb" if "mapped (pmem s) pt vb" for vb
    using that va(2) pte_of_vpn [of vb va "pmem s" pt] by (auto simp: ws(4))
  then show "keeps (\<lambda>vb. vpn vb < lim \<and> mapped (pmem s) pt vb) pt s t"
    using keepsI [OF pt_step_frame(1) [OF ok st], of "\<lambda>_. True"] by simp
qed

subsection \<open>A process of a given size\<close>

definition npages :: "u64 \<Rightarrow> nat" where
  "npages sz = (unat sz + 4095) div 4096"

definition uvm_ok :: "u64 list \<Rightarrow> u64 \<Rightarrow> u64 \<Rightarrow> nat \<Rightarrow> 'z kmem_scheme \<Rightarrow> bool" where
  "uvm_ok xs pt sz lim s \<longleftrightarrow> as_ok xs pt lim s \<and> npages sz \<le> lim \<and> lim < 2 ^ 26 \<and>
     (\<forall>vb. vpn vb < lim \<longrightarrow> (mapped (pmem s) pt vb \<longleftrightarrow> vpn vb < npages sz))"

lemma npages_bound: "npages sz < 2 ^ 26 \<Longrightarrow> unat sz < 2 ^ 38"
  by (simp add: npages_def)

lemma unat_PGROUNDUP_npages: "npages sz < 2 ^ 26 \<Longrightarrow> unat (PGROUNDUP sz) = 4096 * npages sz"
  using npages_bound [of sz] by (simp add: unat_PGROUNDUP npages_def)

lemma npages_PGROUNDUP [simp]: "npages sz < 2 ^ 26 \<Longrightarrow> npages (PGROUNDUP sz) = npages sz"
  using unat_PGROUNDUP_npages [of sz] by (simp add: npages_def [of "PGROUNDUP sz"])

lemma vpn_PGROUNDUP: "npages sz < 2 ^ 26 \<Longrightarrow> vpn (PGROUNDUP sz) = npages sz"
  using unat_PGROUNDUP_npages [of sz] by (simp add: vpn_def)

lemma npages_mono: "a \<le> b \<Longrightarrow> npages a \<le> npages b"
  by (simp add: npages_def word_le_nat_alt div_le_mono)

lemma npages_next: "unat a mod 4096 = 0 \<Longrightarrow> unat a < 2 ^ 38 \<Longrightarrow> npages (a + 4096) = Suc (npages a)"
  by (simp add: npages_def unat_next_page)

lemma npages_aligned: "unat a mod 4096 = 0 \<Longrightarrow> npages a = unat a div 4096"
proof -
  assume "unat a mod 4096 = 0"
  then obtain q where "unat a = 4096 * q" by auto
  then show ?thesis by (simp add: npages_def)
qed

lemma uvm_ok_as: "uvm_ok xs pt sz lim s \<Longrightarrow> as_ok xs pt lim s"
  by (simp add: uvm_ok_def)

lemma scast_small: 
  fixes x :: u64
  assumes "unat x < 2 ^ 31" shows "scast (ucast x :: u32) = x"
proof -
  have "int (unat x) < int 2147483648" unfolding of_nat_less_iff using assms by simp
  then have X: "uint x < 2147483648" "0 \<le> uint x" by simp_all
  have "uint (ucast x :: u32) = take_bit 32 (uint x)"
    by (simp add: unsigned_ucast_eq unsigned_take_bit_eq)
  also have "\<dots> = uint x"
    using X by (simp add: take_bit_int_eq_self_iff)
  finally have "uint (ucast x :: u32) = uint x" .
  moreover have "signed_take_bit 31 (uint x) = uint x"
    unfolding signed_take_bit_int_eq_self_iff using X(1) by (auto intro: order_trans [OF _ X(2)])
  ultimately have "sint (ucast x :: u32) = uint x"
    by (simp add: sint_uint)
  then show ?thesis
    by (simp add: scast_eq)
qed
definition unmap_range :: "nat \<Rightarrow> nat \<Rightarrow> (u64 \<Rightarrow> u64) \<Rightarrow> u64 \<Rightarrow> u64" where
  "unmap_range l h F vb = (if l \<le> vpn vb \<and> vpn vb < h then 0 else F vb)"

lemma unmap_range_empty [simp]: "h \<le> l \<Longrightarrow> unmap_range l h F = F"
  by (auto simp: unmap_range_def fun_eq_iff)

lemma uvmunmap_run:
  assumes as: "as_ok xs pt lim s" and a: "unat a = 4096 * l" "unat np = h - l" "l \<le> h" "h \<le> lim" "lim < 2 ^ 26"
    and mp: "\<And>vb. l \<le> vpn vb \<Longrightarrow> vpn vb < h \<Longrightarrow> mapped (pmem s) pt vb"
  shows "\<exists>t ys. uvmunmap pt a np True es s = Ret () es t \<and> as_step pt lim xs s ys t \<and>
           pte_of (pmem t) pt = unmap_range l h (pte_of (pmem s) pt) \<and>
           keeps (\<lambda>vb. vpn vb < lim \<and> mapped (pmem s) pt vb \<and> \<not> (l \<le> vpn vb \<and> vpn vb < h)) pt s t"
proof -
  have va: "vpn a = l" "a mod PGSIZE = 0"
    using a by (simp_all add: vpn_def page_aligned)
  have "unat (np * 4096) = 4096 * (h - l)"
    using a by (subst unat_word_ariths(2)) simp
  then have stop: "unat (a + np * 4096) = unat a + 4096 * (h - l)" "unat (a + np * 4096) \<le> 2 ^ 38"
    using a by (simp_all add: unat_word_ariths(1))
  have r: "in_range a (h - l) vb \<longleftrightarrow> l \<le> vpn vb \<and> vpn vb < h" for vb
    using a(3) by (auto simp: in_range_def va)
  obtain t ys where "for_up a (a + np * 4096) PGSIZE (unmap_page pt True) es s = Ret None es t" "as_step pt lim xs s ys t"
      "pte_of (pmem t) pt = (\<lambda>vb. if in_range a (h - l) vb then 0 else pte_of (pmem s) pt vb)"
      "keeps (\<lambda>vb. vpn vb < lim \<and> mapped (pmem s) pt vb \<and> \<not> in_range a (h - l) vb) pt s t"
    using unmap_loop [OF as stop, of es] a mp by (auto simp: va r)
  then show ?thesis
    by (intro exI [of _ t] exI [of _ ys])
       (auto simp: uvmunmap_def va km_simps r unmap_range_def fun_eq_iff)
qed

lemma uvmdealloc_run:
  fixes newsz :: u64
  assumes ok: "uvm_ok xs pt oldsz lim s"
  defines "sz \<equiv> (if oldsz \<le> newsz then oldsz else newsz)"
  shows "\<exists>t ys. uvmdealloc pt oldsz newsz es s = Ret sz es t \<and> as_step pt lim xs s ys t \<and> uvm_ok ys pt sz lim t \<and>
           pte_of (pmem t) pt = unmap_range (npages newsz) (npages oldsz) (pte_of (pmem s) pt) \<and>
           keeps (\<lambda>vb. vpn vb < npages sz) pt s t"
proof -
  have as: "as_ok xs pt lim s" and lim: "npages oldsz \<le> lim" "lim < 2 ^ 26"
      and mp: "vpn vb < lim \<Longrightarrow> mapped (pmem s) pt vb \<longleftrightarrow> vpn vb < npages oldsz" for vb
    using ok by (auto simp: uvm_ok_def)
  show ?thesis
  proof (cases "oldsz \<le> newsz \<or> npages newsz = npages oldsz")
    case True
    have same: "npages sz = npages oldsz" "npages oldsz \<le> npages newsz"
      using True npages_mono [of oldsz newsz] by (auto simp: sz_def)
    have "uvmdealloc pt oldsz newsz es s = Ret sz es s"
    proof (cases "oldsz \<le> newsz")
      case False
      then have "PGROUNDUP newsz = PGROUNDUP oldsz"
        using True lim unat_PGROUNDUP_npages [of newsz] unat_PGROUNDUP_npages [of oldsz]
        by (simp add: word_unat_eq_iff)
      with False show ?thesis by (simp add: uvmdealloc_def km_simps sz_def)
    qed (simp add: uvmdealloc_def km_simps sz_def)
    moreover have "uvm_ok xs pt sz lim s"
      using ok same(1) by (simp add: uvm_ok_def)
    ultimately show ?thesis
      using as_step_refl [OF as] same by (intro exI [of _ s] exI [of _ xs]) (simp add: keeps_refl)
  next
    case False
    then have "newsz \<le> oldsz" "npages newsz \<noteq> npages oldsz" and sz: "sz = newsz"
      by (auto simp: sz_def)
    then have le: "npages newsz < npages oldsz"
      using npages_mono [of newsz oldsz] by simp
    let ?a = "PGROUNDUP newsz" and ?np = "(PGROUNDUP oldsz - PGROUNDUP newsz) div PGSIZE"
    have o: "unat (PGROUNDUP oldsz) = 4096 * npages oldsz" "unat ?a = 4096 * npages newsz"
      using le lim by (auto intro: unat_PGROUNDUP_npages)
    then have lt: "?a < PGROUNDUP oldsz" using le by (simp add: word_less_nat_alt)
    then have "unat (PGROUNDUP oldsz - PGROUNDUP newsz) = 4096 * (npages oldsz - npages newsz)"
      using o by (simp add: unat_sub diff_mult_distrib2)
    then have np: "unat ?np = npages oldsz - npages newsz" by (simp add: unat_div)
    have sc: "scast (ucast ?np :: u32) = ?np"
      using np lim by (intro scast_small) simp
    have in_old: "mapped (pmem s) pt vb" if "npages newsz \<le> vpn vb" "vpn vb < npages oldsz" for vb
      using that mp [of vb] lim(1) by simp
    obtain t ys where t: "uvmunmap pt ?a ?np True es s = Ret () es t" "as_step pt lim xs s ys t"
        "pte_of (pmem t) pt = unmap_range (npages newsz) (npages oldsz) (pte_of (pmem s) pt)"
        "keeps (\<lambda>vb. vpn vb < lim \<and> mapped (pmem s) pt vb \<and> \<not> (npages newsz \<le> vpn vb \<and> vpn vb < npages oldsz)) pt s t"
      using uvmunmap_run [OF as o(2) np less_imp_le [OF le] lim in_old, where es = es] by blast
    have "uvmdealloc pt oldsz newsz es s = Ret sz es t"
      using False lt t(1) sc by (simp add: uvmdealloc_def km_simps sz Let_def)
    moreover have "uvm_ok ys pt sz lim t"
      using as_step_ok [OF t(2)] le lim mp by (auto simp: uvm_ok_def t(3) sz unmap_range_def)
    moreover have "keeps (\<lambda>vb. vpn vb < npages sz) pt s t"
      using le lim mp by (intro keeps_mono [OF t(4)]) (auto simp: sz)
    ultimately show ?thesis using t by blast
  qed
qed

subsection \<open>Growing\<close>

text \<open>One page more at \<open>a\<close>, the end of the process: the three outcomes of an iteration of \<^verbatim>\<open>uvmalloc\<close>.\<close>

lemma mappages_one:
  assumes "pt_ok xs pt s" "unat a mod 4096 = 0" "unat a < 2 ^ 38" "pte_of (pmem s) pt a AND PTE_V = 0"
  shows "\<exists>t. mappages pt a PGSIZE pa perm es s = Ret (-1) es t \<and> grows pt xs s [] t \<and> length xs \<le> 2 \<or>
     (\<exists>ys. length xs \<le> length ys + 2 \<and> mappages pt a PGSIZE pa perm es s = Ret 0 es t \<and>
       pt_step pt (\<lambda>vb. if vpn vb = vpn a then PA2PTE pa OR perm OR PTE_V else pte_of (pmem s) pt vb) xs s ys t)"
proof -
  have a: "PGROUNDDOWN a = a" "PGROUNDDOWN (a + PGSIZE - 1) = a"
  proof -
    show "PGROUNDDOWN a = a"
      using assms(2) by (simp add: word_unat_eq_iff unat_PGROUNDDOWN)
    have "unat (a + 4095) = unat a + 4095"
      using assms(3) by (simp add: unat_word_ariths(1))
    moreover have "(unat a + 4095) mod 4096 = 4095"
    proof -
      obtain q where "unat a = 4096 * q" using assms(2) by auto
      then show ?thesis by simp
    qed
    ultimately have "unat (PGROUNDDOWN (a + 4095)) = unat a"
      by (simp add: unat_PGROUNDDOWN)
    then show "PGROUNDDOWN (a + PGSIZE - 1) = a"
      by (simp add: word_unat_eq_iff add.commute)
  qed
  have lt: "a < MAXVA" using assms(3) by (simp add: word_less_nat_alt)
  show ?thesis
    using mappages_loop_first [OF assms(1) lt assms(4), of a pa perm es] unfolding mappages_def a by auto
qed

lemma as_ok_touch [simp]: "as_ok xs pt lim (touch s) = as_ok xs pt lim s"
  by (simp add: as_ok_def)

lemma as_step_touch: "as_ok xs pt lim s \<Longrightarrow> as_step pt lim xs s xs (touch s)"
  by (simp add: as_step_def)

lemma as_ok_push:
  assumes ok: "as_ok xs pt lim s" and n: "page_ok (kend s) n" "n \<notin> foot xs pt lim (pmem s)"
  shows "as_ok (n # xs) pt lim (push_page n s)" "pte_of (pmem (push_page n s)) pt = pte_of (pmem s) pt"
    "foot (n # xs) pt lim (pmem (push_page n s)) = insert n (foot xs pt lim (pmem s))"
    "same_pages (foot xs pt lim (pmem s)) (pmem s) (pmem (push_page n s))"
proof -
  show all: "same_pages (foot xs pt lim (pmem s)) (pmem s) (pmem (push_page n s))"
  proof
    fix a k assume a: "a \<in> foot xs pt lim (pmem s)" "in_page a k"
    then have "\<not> in_page n k"
      using pages_separate [OF as_ok_foot [OF ok a(1)] n(1) _ a(2)] n(2) by auto
    then show "pmem (push_page n s) k = pmem s k" by (rule push_frame)
  qed
  then have "same_pages (pt_pages (pmem s) pt) (pmem s) (pmem (push_page n s))"
    by (simp add: foot_def)
  note fr = node_frame [OF this]
  show F: "pte_of (pmem (push_page n s)) pt = pte_of (pmem s) pt" by (rule ext, rule fr(3))
  have D: "data_pages (pmem (push_page n s)) pt lim = data_pages (pmem s) pt lim"
    by (simp add: data_pages_def data_page_def F)
  have "kmem_ok (n # xs) (push_page n s)"
    using ok n by (intro kmem_ok_push) (auto simp: as_ok_def pt_ok_def foot_def)
  then show "as_ok (n # xs) pt lim (push_page n s)"
    using ok n(2) fr by (auto simp: as_ok_def pt_ok_def F D data_page_def foot_def)
  show "foot (n # xs) pt lim (pmem (push_page n s)) = insert n (foot xs pt lim (pmem s))"
    by (auto simp: foot_def D fr(2))
qed

text \<open>
  A page is taken and prepared (memory \<open>m\<close>), and entered at \<open>va\<close>, or given back because there is
  no page left for the table.
\<close>

lemma as_step_map:
  assumes ok: "as_ok (n # ys) pt lim s" and m: "\<forall>k. \<not> in_page n k \<longrightarrow> m k = pmem s k"
  defines "s1 \<equiv> (pop_page s)\<lparr>pmem := m\<rparr>"
  assumes va: "vpn va < lim" "\<not> mapped (pmem s) pt va" and perm: "unat perm < 1024" "perm OR PTE_V \<noteq> PTE_V"
    and st: "pt_step pt (\<lambda>vb. if vpn vb = vpn va then PA2PTE n OR perm OR PTE_V else pte_of (pmem s1) pt vb) ys s1 zs t"
  shows "as_step pt lim (n # ys) s zs t" "keeps (\<lambda>vb. vpn vb < lim \<and> mapped (pmem s) pt vb) pt s t"
    "pte_of (pmem t) pt = (\<lambda>vb. if vpn vb = vpn va then PA2PTE n OR perm OR PTE_V else pte_of (pmem s) pt vb)"
    "in_page n k \<Longrightarrow> pmem t k = m k"
proof -
  note pop = as_ok_pop [OF ok m, folded s1_def]
  have eq: "pmem s1 = m" "kend s1 = kend s" "mem_step s s1" by (simp_all add: s1_def)
  have n: "page_ok (kend s1) n" "n \<notin> foot ys pt lim (pmem s1)"
    using pop(4,5) eq by simp_all
  have va1: "\<not> mapped (pmem s1) pt va" using va(2) pop(2) by (simp add: eq)
  note mp = as_map [OF pop(1) n va(1) va1 perm st]
  have frame: "pmem t k = pmem s k" if "\<forall>a\<in>foot (n # ys) pt lim (pmem s). \<not> in_page a k" for k
    using that pt_step_frame(3) [OF pop(1) st, of k] m by (simp add: pop(6) eq)
  have "kend t = kend s1" "mem_step s1 t" using st by (auto simp: pt_step_def)
  then show "as_step pt lim (n # ys) s zs t"
    unfolding as_step_def
    using mp(1,2) frame pop(6) mem_step_trans [OF eq(3)] by (simp add: eq)
  have "keeps (\<lambda>vb. vpn vb < lim \<and> mapped (pmem s) pt vb) pt s s1"
    unfolding keeps_def
  proof (intro allI impI conjI)
    fix vb k assume vb: "vpn vb < lim \<and> mapped (pmem s) pt vb"
    show "pte_of (pmem s1) pt vb = pte_of (pmem s) pt vb" by (simp add: eq pop(2))
    assume k: "in_page (data_page (pmem s) pt vb) k"
    have "\<not> in_page n k"
      using as_ok_separate [OF ok _ _ _ k, of n] data_pagesI [of vb lim "pmem s" pt] vb as_ok_data(2) [OF ok]
      by (auto simp: foot_def)
    then show "pmem s1 k = pmem s k" by (simp add: eq m)
  qed
  then show "keeps (\<lambda>vb. vpn vb < lim \<and> mapped (pmem s) pt vb) pt s t"
    using mp(3) pop(2) by (simp add: eq) (rule keeps_trans)
  show "pte_of (pmem t) pt = (\<lambda>vb. if vpn vb = vpn va then PA2PTE n OR perm OR PTE_V else pte_of (pmem s) pt vb)"
    using pt_step_pte [OF st] unfolding eq pop(2) .
  show "pmem t k = m k" if "in_page n k" for k
    using same_pagesD [OF pt_step_frame(2) [OF pop(1) st n]] that by (simp add: eq)
qed

lemma as_step_give_back:
  assumes ok: "as_ok (n # ys) pt lim s" and m: "\<forall>k. \<not> in_page n k \<longrightarrow> m k = pmem s k"
  defines "s1 \<equiv> (pop_page s)\<lparr>pmem := m\<rparr>"
  assumes st: "grows pt ys s1 zs t"
  shows "as_step pt lim (n # ys) s (n # zs) (push_page n t)" "pte_of (pmem (push_page n t)) pt = pte_of (pmem s) pt"
    "keeps (\<lambda>vb. vpn vb < lim \<and> mapped (pmem s) pt vb) pt s (push_page n t)"
    "kfree n es t = Ret () es (push_page n t)"
proof -
  note pop = as_ok_pop [OF ok m, folded s1_def]
  have eq: "pmem s1 = m" "kend s1 = kend s" "mem_step s s1" by (simp_all add: s1_def)
  have gr: "as_step pt lim ys s1 zs t" "keeps (\<lambda>vb. vpn vb < lim \<and> mapped (pmem s1) pt vb) pt s1 t"
    using as_grow [OF pop(1) st] .
  have ft: "foot zs pt lim (pmem t) = foot ys pt lim m" "kend t = kend s" "mem_step s1 t" "as_ok zs pt lim t"
    using gr(1) by (auto simp: as_step_def eq)
  have n: "page_ok (kend t) n" "n \<notin> foot zs pt lim (pmem t)"
    using pop(4,5) ft by simp_all
  note push = as_ok_push [OF ft(4) n]
  show "kfree n es t = Ret () es (push_page n t)"
    using kmem_ok_kfree [of zs t n es] ft(4) n(1) by (simp add: as_ok_def pt_ok_def)
  show F: "pte_of (pmem (push_page n t)) pt = pte_of (pmem s) pt"
    using push(2) pt_step_pte [OF st] pop(2) by (simp add: eq)
  have frame: "pmem (push_page n t) k = pmem s k" if k: "\<forall>a\<in>foot (n # ys) pt lim (pmem s). \<not> in_page a k" for k
  proof -
    have "pmem (push_page n t) k = pmem t k" using k by (intro push_frame) (simp add: pop(6))
    also have "\<dots> = m k" using k pt_step_frame(3) [OF pop(1) st, of k] by (simp add: pop(6) eq)
    also have "\<dots> = pmem s k" using k m by (simp add: pop(6))
    finally show ?thesis .
  qed
  show "as_step pt lim (n # ys) s (n # zs) (push_page n t)"
    unfolding as_step_def
    using push(1,3) frame ft pop(6) mem_step_trans [OF eq(3) ft(3)] by simp
  show "keeps (\<lambda>vb. vpn vb < lim \<and> mapped (pmem s) pt vb) pt s (push_page n t)"
    unfolding keeps_def
  proof (intro allI impI conjI)
    fix vb k assume vb: "vpn vb < lim \<and> mapped (pmem s) pt vb"
    show "pte_of (pmem (push_page n t)) pt vb = pte_of (pmem s) pt vb" by (simp add: F)
    assume k: "in_page (data_page (pmem s) pt vb) k"
    have "\<not> in_page n k"
      using as_ok_separate [OF ok _ _ _ k, of n] data_pagesI [of vb lim "pmem s" pt] vb as_ok_data(2) [OF ok]
      by (auto simp: foot_def)
    moreover have "pmem t k = m k"
      using gr(2) vb k pop(2) by (simp add: keeps_def eq data_page_def)
    ultimately show "pmem (push_page n t) k = pmem s k" using push_frame [of n k t] m by simp
  qed
qed

lemma uvm_ok_touch [simp]: "uvm_ok xs pt sz lim (touch s) = uvm_ok xs pt sz lim s"
  by (simp add: uvm_ok_def)

definition fresh_page :: "'z kmem_scheme \<Rightarrow> u64 \<Rightarrow> u64 \<Rightarrow> bool" where
  "fresh_page t pt vb \<longleftrightarrow> PTE_FLAGS (pte_of (pmem t) pt vb) = 31 \<and>
     (\<forall>k. in_page (data_page (pmem t) pt vb) k \<longrightarrow> pmem t k = 0)"

lemma fresh_keeps: "keeps P pt t u \<Longrightarrow> P vb \<Longrightarrow> fresh_page t pt vb \<Longrightarrow> fresh_page u pt vb"
  by (auto simp: keeps_def fresh_page_def data_page_def)

lemma uvmalloc_rollback:
  assumes st: "as_step pt lim xs s ys t" and same: "pte_of (pmem t) pt = pte_of (pmem s) pt"
    and kp: "keeps (\<lambda>vb. vpn vb < lim \<and> mapped (pmem s) pt vb) pt s t"
    and ok: "uvm_ok xs pt a lim s" and le: "oldsz \<le> a"
  shows "\<exists>u zs. uvmdealloc pt a oldsz es t = Ret oldsz es u \<and> as_step pt lim xs s zs u \<and> uvm_ok zs pt oldsz lim u \<and>
           keeps (\<lambda>vb. vpn vb < npages oldsz) pt s u \<and>
           pte_of (pmem u) pt = unmap_range (npages oldsz) (npages a) (pte_of (pmem s) pt)"
proof -
  have sz: "(if a \<le> oldsz then a else oldsz) = oldsz" using le by auto
  have np: "npages oldsz \<le> npages a" "npages a \<le> lim" using npages_mono [OF le] ok by (auto simp: uvm_ok_def)
  have "uvm_ok ys pt a lim t"
    using as_step_ok [OF st] ok by (simp add: uvm_ok_def same)
  from uvmdealloc_run [OF this, of oldsz es] obtain u zs where
      u: "uvmdealloc pt a oldsz es t = Ret oldsz es u" "as_step pt lim ys t zs u" "uvm_ok zs pt oldsz lim u"
         "pte_of (pmem u) pt = unmap_range (npages oldsz) (npages a) (pte_of (pmem t) pt)"
         "keeps (\<lambda>vb. vpn vb < npages oldsz) pt t u"
    unfolding sz by blast
  have "keeps (\<lambda>vb. vpn vb < npages oldsz) pt s t"
    using ok np by (intro keeps_mono [OF kp]) (auto simp: uvm_ok_def)
  with u same show ?thesis
    using as_step_trans [OF st u(2)] keeps_trans [OF _ u(5)] by metis
qed

lemma uvmalloc_page_run:
  assumes ok: "uvm_ok xs pt a lim s" and a: "unat a mod 4096 = 0" "npages a < lim" and le: "oldsz \<le> a"
  shows "\<exists>t ys. (uvmalloc_page pt oldsz a es s = Ret None es t \<and> as_step pt lim xs s ys t \<and> uvm_ok ys pt (a + 4096) lim t \<and>
             keeps (\<lambda>vb. vpn vb < npages a) pt s t \<and>
             (\<forall>vb. vpn vb = npages a \<longrightarrow> fresh_page t pt vb) \<and>
             (\<forall>vb. vpn vb \<noteq> npages a \<longrightarrow> pte_of (pmem t) pt vb = pte_of (pmem s) pt vb) \<and>
             length xs \<le> length ys + 3) \<or>
           (uvmalloc_page pt oldsz a es s = Ret (Some 0) es t \<and> as_step pt lim xs s ys t \<and> uvm_ok ys pt oldsz lim t \<and>
             keeps (\<lambda>vb. vpn vb < npages oldsz) pt s t \<and>
             pte_of (pmem t) pt = unmap_range (npages oldsz) (npages a) (pte_of (pmem s) pt) \<and> length xs < 4)"
proof -
  have as: "as_ok xs pt lim s" and lim: "lim < 2 ^ 26" using ok by (simp_all add: uvm_ok_def)
  have pool: "kmem_ok xs s" using as by (simp add: as_ok_def pt_ok_def)
  have b: "unat a < 2 ^ 38" using npages_bound [of a] a(2) lim by simp
  have va: "vpn a = npages a" using b by (simp add: vpn_def npages_aligned [OF a(1)])
  have un: "\<not> mapped (pmem s) pt a" using ok va a(2) by (simp add: uvm_ok_def)
  show ?thesis
  proof (cases xs)
    case Nil
    have "kalloc es s = Ret 0 es (touch s)" using kmem_ok_kalloc [OF pool] Nil by simp
    moreover have "keeps (\<lambda>vb. vpn vb < lim \<and> mapped (pmem s) pt vb) pt s (touch s)" by (simp add: keeps_def)
    ultimately show ?thesis
      using uvmalloc_rollback [OF as_step_touch [OF as] _ _ ok le, of es] Nil by (auto simp: uvmalloc_page_def km_simps)
  next
    case (Cons n ys)
    let ?m = "fill (unat n) 0 4096 (pmem s)" and ?s1 = "(pop_page s)\<lparr>pmem := fill (unat n) 0 4096 (pmem s)\<rparr>"
    have asn: "as_ok (n # ys) pt lim s" using as Cons by simp
    have m: "\<forall>k. \<not> in_page n k \<longrightarrow> ?m k = pmem s k" by (auto simp: fill_def in_page_def)
    note pop = as_ok_pop [OF asn m]
    have head: "n \<noteq> 0" "freelist s = n" using kmem_ok_head [of n ys s] pool Cons by simp_all
    have run: "uvmalloc_page pt oldsz a es s = bnd (mappages pt a PGSIZE n 30) (\<lambda>r.
        if r \<noteq> 0 then sq (kfree n) (bnd (uvmdealloc pt a oldsz) (\<lambda>_. ret (Some 0))) else ret None) es ?s1"
      using kmem_ok_kalloc [OF pool, of es] Cons head
      by (simp add: uvmalloc_page_def km_simps) (simp add: pop_page_def fill_fill)
    have un1: "pte_of (pmem ?s1) pt a AND PTE_V = 0" using un pop(2) by simp
    consider t where "mappages pt a PGSIZE n 30 es ?s1 = Ret (-1) es t" "grows pt ys ?s1 [] t" "length ys \<le> 2"
      | t zs where "mappages pt a PGSIZE n 30 es ?s1 = Ret 0 es t"
         "pt_step pt (\<lambda>vb. if vpn vb = vpn a then PA2PTE n OR 30 OR PTE_V else pte_of (pmem ?s1) pt vb) ys ?s1 zs t" "length ys \<le> length zs + 2"
      using mappages_one [OF as_ok_pt [OF pop(1)] a(1) b un1, of n 30 es] by blast
    then show ?thesis
    proof cases
      case (1 t)
      note gb = as_step_give_back [OF asn m 1(2)]
      from uvmalloc_rollback [OF gb(1,2,3) ok [unfolded Cons] le, of es] show ?thesis
        using 1(1,3) gb(4) [of es] by (auto simp: run km_simps Cons)
    next
      case (2 t zs)
      have perm: "unat (30 :: u64) < 1024" "(30 :: u64) OR PTE_V \<noteq> PTE_V" by simp_all
      note mp = as_step_map [OF asn m _ un perm 2(2), unfolded va, OF a(2)]
      have e: "PTE2PA (PA2PTE n OR 31) = n" "PTE_FLAGS (PA2PTE n OR 31) = 31" "(PA2PTE n OR 31) AND PTE_V \<noteq> 0"
        using leaf_entry [OF pop(5) perm] by (simp_all add: or.assoc)
      have "uvm_ok zs pt (a + 4096) lim t"
        using as_step_ok [OF mp(1)] ok a(2) e(3) npages_next [OF a(1) b]
        by (auto simp: uvm_ok_def mp(3) or.assoc split: if_splits)
      moreover have "fresh_page t pt vb" if "vpn vb = npages a" for vb
        using that e mp(4) by (auto simp: fresh_page_def mp(3) data_page_def or.assoc fill_def in_page_def)
      moreover have "keeps (\<lambda>vb. vpn vb < npages a) pt s t"
        using ok a(2) by (intro keeps_mono [OF mp(2)]) (auto simp: uvm_ok_def)
      moreover have "pte_of (pmem t) pt vb = pte_of (pmem s) pt vb" if "vpn vb \<noteq> npages a" for vb
        using that by (simp add: mp(3))
      ultimately show ?thesis
        using 2(1,3) mp(1) by (auto simp: run km_simps Cons)
    qed
  qed
qed

lemma uvmalloc_loop:
  assumes "uvm_ok xs pt a lim s" "unat a mod 4096 = 0" "npages newsz \<le> lim" "oldsz \<le> a" "npages a \<le> npages newsz"
  shows "\<exists>t ys r. for_up a newsz PGSIZE (uvmalloc_page pt oldsz) es s = Ret r es t \<and> as_step pt lim xs s ys t \<and>
           (r = None \<and> uvm_ok ys pt newsz lim t \<and> keeps (\<lambda>vb. vpn vb < npages a) pt s t \<and>
              (\<forall>vb. npages a \<le> vpn vb \<and> vpn vb < npages newsz \<longrightarrow> fresh_page t pt vb) \<or>
            r = Some 0 \<and> uvm_ok ys pt oldsz lim t \<and> keeps (\<lambda>vb. vpn vb < npages oldsz) pt s t \<and>
              length xs < 4 + 3 * (npages newsz - npages a)) \<and>
           (\<forall>vb. npages newsz \<le> vpn vb \<longrightarrow> pte_of (pmem t) pt vb = pte_of (pmem s) pt vb)"
  using assms
proof (induction "npages newsz - npages a" arbitrary: a xs s)
  case 0
  have lim: "lim < 2 ^ 26" using 0 by (simp add: uvm_ok_def)
  have e: "npages a = npages newsz" using 0 by simp
  then have "unat newsz \<le> unat a"
    using npages_aligned [OF 0(3)] 0(3) by (simp add: npages_def [of newsz])
  then have "\<not> a < newsz" by (simp add: word_less_nat_alt)
  moreover have "uvm_ok xs pt newsz lim s" using 0(2) e by (simp add: uvm_ok_def)
  ultimately show ?case
    using as_step_refl [OF uvm_ok_as [OF 0(2)]]
    by (intro exI [of _ s] exI [of _ xs] exI [of _ None]) (auto simp: for_while_done keeps_refl e)
next
  case (Suc d)
  have lim: "lim < 2 ^ 26" using Suc.prems by (simp add: uvm_ok_def)
  have lt: "npages a < npages newsz" and al: "npages a < lim" using Suc.hyps(2) Suc.prems(3) by simp_all
  have b: "unat a < 2 ^ 38" using npages_bound [of a] al lim by simp
  have more: "a < newsz"
  proof (rule ccontr)
    assume "\<not> a < newsz"
    then have "npages newsz \<le> npages a" by (simp add: npages_mono)
    with lt show False by simp
  qed
  have nx: "unat (a + 4096) = unat a + 4096" "npages (a + 4096) = Suc (npages a)"
    using b npages_next [OF Suc.prems(2)] by (simp_all add: unat_next_page)
  have up: "a < a + 4096" by (simp add: word_less_nat_alt nx(1))
  from uvmalloc_page_run [OF Suc.prems(1,2) al Suc.prems(4), of es]
  consider (go) t ys where "uvmalloc_page pt oldsz a es s = Ret None es t" "as_step pt lim xs s ys t"
        "uvm_ok ys pt (a + 4096) lim t" "keeps (\<lambda>vb. vpn vb < npages a) pt s t"
        "\<forall>vb. vpn vb = npages a \<longrightarrow> fresh_page t pt vb"
        "\<forall>vb. vpn vb \<noteq> npages a \<longrightarrow> pte_of (pmem t) pt vb = pte_of (pmem s) pt vb" "length xs \<le> length ys + 3"
    | (stop) t ys where "uvmalloc_page pt oldsz a es s = Ret (Some 0) es t" "as_step pt lim xs s ys t"
        "uvm_ok ys pt oldsz lim t" "keeps (\<lambda>vb. vpn vb < npages oldsz) pt s t"
        "pte_of (pmem t) pt = unmap_range (npages oldsz) (npages a) (pte_of (pmem s) pt)" "length xs < 4"
    by blast
  then show ?case
  proof cases
    case stop
    then show ?thesis
      using for_while_exit [of "\<lambda>i. i < newsz" a "uvmalloc_page pt oldsz", OF more stop(1)] lt
      by (intro exI [of _ t] exI [of _ ys] exI [of _ "Some 0"]) (auto simp: unmap_range_def)
  next
    case go
    have run: "for_up a newsz PGSIZE (uvmalloc_page pt oldsz) es s = for_up (a + PGSIZE) newsz PGSIZE (uvmalloc_page pt oldsz) es t"
      by (rule for_while_step [of "\<lambda>i. i < newsz" a "uvmalloc_page pt oldsz", OF more go(1) up])
    have "unat (a + 4096) mod 4096 = 0" "oldsz \<le> a + 4096" "npages (a + 4096) \<le> npages newsz" "d = npages newsz - npages (a + 4096)"
      using Suc.prems(2,4) up lt Suc.hyps(2) by (auto simp: nx)
    from Suc.hyps(1) [OF this(4) go(3) this(1) Suc.prems(3) this(2,3)] obtain u zs r where
        u: "for_up (a + 4096) newsz PGSIZE (uvmalloc_page pt oldsz) es t = Ret r es u" "as_step pt lim ys t zs u"
           "r = None \<and> uvm_ok zs pt newsz lim u \<and> keeps (\<lambda>vb. vpn vb < npages (a + 4096)) pt t u \<and>
              (\<forall>vb. npages (a + 4096) \<le> vpn vb \<and> vpn vb < npages newsz \<longrightarrow> fresh_page u pt vb) \<or>
            r = Some 0 \<and> uvm_ok zs pt oldsz lim u \<and> keeps (\<lambda>vb. vpn vb < npages oldsz) pt t u \<and>
              length ys < 4 + 3 * (npages newsz - npages (a + 4096))"
           "\<forall>vb. npages newsz \<le> vpn vb \<longrightarrow> pte_of (pmem u) pt vb = pte_of (pmem t) pt vb"
      by blast
    have old: "npages oldsz \<le> npages a" using npages_mono [OF Suc.prems(4)] .
    have st: "as_step pt lim xs s zs u" using as_step_trans [OF go(2) u(2)] .
    have rest: "\<forall>vb. npages newsz \<le> vpn vb \<longrightarrow> pte_of (pmem u) pt vb = pte_of (pmem s) pt vb"
      using u(4) go(6) lt by auto
    from u(3) show ?thesis
    proof
      assume ok: "r = None \<and> uvm_ok zs pt newsz lim u \<and> keeps (\<lambda>vb. vpn vb < npages (a + 4096)) pt t u \<and>
              (\<forall>vb. npages (a + 4096) \<le> vpn vb \<and> vpn vb < npages newsz \<longrightarrow> fresh_page u pt vb)"
      then have kp: "keeps (\<lambda>vb. vpn vb < npages (a + 4096)) pt t u" by simp
      have "keeps (\<lambda>vb. vpn vb < npages a) pt s u"
        by (rule keeps_trans [OF go(4)], rule keeps_mono [OF kp]) (simp add: nx)
      moreover have "fresh_page u pt vb" if "npages a \<le> vpn vb" "vpn vb < npages newsz" for vb
        using that ok go(5) fresh_keeps [OF kp, of vb] by (cases "vpn vb = npages a") (auto simp: nx)
      ultimately show ?thesis using run u(1) st rest ok by auto
    next
      assume "r = Some 0 \<and> uvm_ok zs pt oldsz lim u \<and> keeps (\<lambda>vb. vpn vb < npages oldsz) pt t u \<and>
              length ys < 4 + 3 * (npages newsz - npages (a + 4096))"
      moreover from this go(7) have "length xs < 4 + 3 * (npages newsz - npages a)" 
        unfolding nx using lt by linarith
      moreover have "keeps (\<lambda>vb. vpn vb < npages oldsz) pt s t"
        using old by (intro keeps_mono [OF go(4)]) simp
      ultimately show ?thesis
        using run u(1) st rest keeps_trans by (intro exI [of _ u] exI [of _ zs] exI [of _ r]) auto
    qed
  qed
qed

subsection \<open>An empty address space\<close>

lemma node_empty:
  assumes "\<forall>i<512. pte_at m pt i = 0" "tpath p"
  shows "node m pt p = (if p = [] then Some pt else None)"
  using assms by (cases p) (auto simp: tpath_def)

lemma path_not_Nil: "path_of va \<noteq> []"
  by (simp add: path_of_def)

lemma empty_table:
  assumes z: "\<forall>i<512. pte_at m pt i = 0" and pt: "page_ok e pt"
  shows "pt_pages m pt = {pt}" "pt_wf e m pt" "pte_of m pt = (\<lambda>_. 0)"
proof -
  note nd = node_empty [OF z]
  show p: "pt_pages m pt = {pt}"
    using nd root_page [of pt m] by (auto simp: pt_pages_def split: if_splits)
  show "pt_wf e m pt"
    unfolding pt_wf_def p using pt nd by (auto split: if_splits)
  show "pte_of m pt = (\<lambda>_. 0)"
    using nd by (intro ext) (simp add: pte_of_def path_not_Nil)
qed

lemma npages_0 [simp]: "npages 0 = 0"
  by (simp add: npages_def)

lemma uvmcreate_run:
  assumes ok: "kmem_ok xs s" and lim: "lim < 2 ^ 26"
  shows "case xs of [] \<Rightarrow> uvmcreate es s = Ret 0 es (touch s)
         | p # ys \<Rightarrow> \<exists>t. uvmcreate es s = Ret p es t \<and> p \<noteq> 0 \<and> uvm_ok ys p 0 lim t \<and> pte_of (pmem t) p = (\<lambda>_. 0) \<and> kend t = kend s \<and> mem_step s t \<and>
             (\<forall>k. \<not> in_page p k \<longrightarrow> pmem t k = pmem s k)"
proof (cases xs)
  case Nil
  then show ?thesis using kmem_ok_kalloc [OF ok] by (simp add: uvmcreate_def km_simps)
next
  case (Cons p ys)
  let ?t = "(pop_page s)\<lparr>pmem := fill (unat p) 0 4096 (pmem s)\<rparr>"
  have ok': "kmem_ok (p # ys) s" using ok Cons by simp
  have head: "freelist s = p" "p \<noteq> 0" "page_ok (kend s) p" using kmem_ok_head [OF ok'] by auto
  have run: "uvmcreate es s = Ret p es ?t"
    using kmem_ok_kalloc [OF ok'] head by (simp add: uvmcreate_def km_simps) (simp add: pop_page_def fill_fill)
  have out: "\<not> in_page p k \<Longrightarrow> fill (unat p) 0 4096 (pmem s) k = pmem s k" for k
    by (auto simp: fill_def in_page_def)
  have d: "p \<notin> set ys" "\<forall>y\<in>set ys. page_ok (kend s) y" using kpool.pool_pages [OF ok'] by auto
  have "kmem_ok ys ?t"
  proof (rule kmem_ok_frame [OF kmem_ok_pop [OF ok'] same_pagesI])
    fix a k assume "a \<in> set ys" "in_page a k"
    then have "\<not> in_page p k" using pages_separate [OF _ head(3), of a k] d by auto
    then show "fill (unat p) 0 4096 (pmem s) k = pmem (pop_page s) k"
      using out pop_frame [of s k] head(1) by simp
  qed
  moreover have "\<forall>i<512. pte_at (pmem ?t) p i = 0" by (simp add: zero_page_entry)
  note em = empty_table [OF this, of "kend s"]
  ultimately have "uvm_ok ys p 0 lim ?t"
    using em head(3) d lim by (auto simp: uvm_ok_def as_ok_def pt_ok_def data_pages_def)
  with run head out em(3) show ?thesis by (auto simp: Cons)
qed

lemma example_space:
  assumes "lim < 2 ^ 26" "n \<le> 999"
  shows "\<exists>(s :: kmem) xs pt. uvm_ok xs pt 0 lim s \<and> length xs = n \<and> hart_ok s \<and> pte_of (pmem s) pt = (\<lambda>_. 0)"
proof -
  obtain s :: kmem where s: "kmem_ok (rev (map (\<lambda>i. 0x80001000 + 4096 * word_of_nat i) [0..<Suc n])) s" "hart_ok s"
    using example_pool [of "Suc n"] assms(2) by auto
  obtain p ys where ys: "rev (map (\<lambda>i. 0x80001000 + 4096 * word_of_nat i :: u64) [0..<Suc n]) = p # ys" "length ys = n"
    by simp
  from uvmcreate_run [OF s(1) assms(1), of "[]"] obtain t :: kmem where "uvm_ok ys p 0 lim t" "pte_of (pmem t) p = (\<lambda>_. 0)"
    unfolding ys by auto
  moreover from this have "hart_ok t"
    by (auto simp: uvm_ok_def as_ok_def pt_ok_def kmem_ok_def lock_ready_def)
  ultimately show ?thesis using ys(2) by blast
qed

subsection \<open>Properties\<close>

text \<open>
  C8: \<^verbatim>\<open>uvmalloc\<close> either grows the process to \<open>newsz\<close>, with every page between the old and the new
  size mapped readable, writable and executable for the user to a zeroed page of its own; or it
  returns 0 and the process has its old size again, and that only when memory is short: with four
  free pages and three more for each new page it succeeds. In both cases the pages below the old size
  keep their entries and contents, entries above the new size are untouched, and no page is
  lost: free pages, table pages and data pages together are the same pages as before.
\<close>

theorem uvmalloc_correct:
  assumes "uvm_ok xs pt oldsz lim s" "oldsz \<le> newsz" "npages newsz \<le> lim"
  shows "\<exists>r t ys. uvmalloc pt oldsz newsz es s = Ret r es t \<and>
           foot ys pt lim (pmem t) = foot xs pt lim (pmem s) \<and>
           keeps (\<lambda>vb. vpn vb < npages oldsz) pt s t \<and>
           (\<forall>vb. npages newsz \<le> vpn vb \<longrightarrow> pte_of (pmem t) pt vb = pte_of (pmem s) pt vb) \<and>
           (r = newsz \<and> uvm_ok ys pt newsz lim t \<and>
              (\<forall>vb. npages oldsz \<le> vpn vb \<and> vpn vb < npages newsz \<longrightarrow> fresh_page t pt vb) \<or>
            r = 0 \<and> uvm_ok ys pt oldsz lim t \<and> length xs < 4 + 3 * (npages newsz - npages oldsz))"
proof -
  have b: "npages oldsz < 2 ^ 26" using assms(1) by (simp add: uvm_ok_def)
  have up: "npages (PGROUNDUP oldsz) = npages oldsz" "unat (PGROUNDUP oldsz) mod 4096 = 0"
    using b by (simp_all add: unat_PGROUNDUP_npages)
  have "uvm_ok xs pt (PGROUNDUP oldsz) lim s"
    using assms(1) up by (simp add: uvm_ok_def)
  from uvmalloc_loop [OF this up(2) assms(3) order_refl, unfolded up(1), OF npages_mono [OF assms(2)], of es]
  obtain t ys r where t: "for_up (PGROUNDUP oldsz) newsz PGSIZE (uvmalloc_page pt (PGROUNDUP oldsz)) es s = Ret r es t"
      "as_step pt lim xs s ys t"
      "r = None \<and> uvm_ok ys pt newsz lim t \<and> keeps (\<lambda>vb. vpn vb < npages oldsz) pt s t \<and>
              (\<forall>vb. npages oldsz \<le> vpn vb \<and> vpn vb < npages newsz \<longrightarrow> fresh_page t pt vb) \<or>
            r = Some 0 \<and> uvm_ok ys pt (PGROUNDUP oldsz) lim t \<and> keeps (\<lambda>vb. vpn vb < npages oldsz) pt s t \<and>
              length xs < 4 + 3 * (npages newsz - npages oldsz)"
      "\<forall>vb. npages newsz \<le> vpn vb \<longrightarrow> pte_of (pmem t) pt vb = pte_of (pmem s) pt vb"
    by blast
  have run: "uvmalloc pt oldsz newsz es s = Ret (case r of None \<Rightarrow> newsz | Some v \<Rightarrow> v) es t"
    using leD [OF assms(2)] t(1) by (simp add: uvmalloc_def km_simps Let_def split: option.splits)
  have ft: "foot ys pt lim (pmem t) = foot xs pt lim (pmem s)" using t(2) by (simp add: as_step_def)
  have sz: "uvm_ok ys pt (PGROUNDUP oldsz) lim t \<Longrightarrow> uvm_ok ys pt oldsz lim t"
    by (simp add: uvm_ok_def up(1))
  from t(3) show ?thesis
  proof
    assume "r = None \<and> uvm_ok ys pt newsz lim t \<and> keeps (\<lambda>vb. vpn vb < npages oldsz) pt s t \<and>
              (\<forall>vb. npages oldsz \<le> vpn vb \<and> vpn vb < npages newsz \<longrightarrow> fresh_page t pt vb)"
    then show ?thesis using run ft t(4) by (intro exI [of _ newsz] exI [of _ t] exI [of _ ys]) simp
  next
    assume "r = Some 0 \<and> uvm_ok ys pt (PGROUNDUP oldsz) lim t \<and> keeps (\<lambda>vb. vpn vb < npages oldsz) pt s t \<and>
              length xs < 4 + 3 * (npages newsz - npages oldsz)"
    then show ?thesis using run ft t(4) sz by (intro exI [of _ 0] exI [of _ t] exI [of _ ys]) simp
  qed
qed

theorem uvmalloc_correct_witness:
  "\<exists>(s :: kmem) xs pt. uvm_ok xs pt 0 100 s \<and>
     (\<exists>t ys. uvmalloc pt 0 10000 [] s = Ret 10000 [] t \<and> uvm_ok ys pt 10000 100 t)"
proof -
  obtain s :: kmem and xs pt where s: "uvm_ok xs pt 0 100 s" "length xs = 50"
    using example_space [of 100 50] by auto
  have n: "npages 10000 \<le> 100" "npages 10000 = 3" by (simp_all add: npages_def)
  have "\<not> length xs < 4 + 3 * (npages 10000 - npages 0)" by (simp add: s(2) n(2))
  with uvmalloc_correct [OF s(1) _ n(1), of "[]"] obtain t ys
    where "uvmalloc pt 0 10000 [] s = Ret 10000 [] t" "uvm_ok ys pt 10000 100 t" by auto
  with s show ?thesis by blast
qed



end
