(* ===== verification/CopyUser.thy ===== *)
theory CopyUser
  imports UserMem
begin

text \<open>
  \<^verbatim>\<open>copyin\<close>, \<^verbatim>\<open>copyinstr\<close> and \<^verbatim>\<open>copyout\<close> of \<^verbatim>\<open>kernel/vm.c\<close>, against the user's view of memory:
  \<open>ubyte m pt va\<close> is the byte at virtual address \<open>va\<close>, \<open>uok m pt va\<close> whether user code may use it.
\<close>

definition uok :: "bytes \<Rightarrow> u64 \<Rightarrow> u64 \<Rightarrow> bool" where
  "uok m pt va \<longleftrightarrow> uaddr m pt va \<noteq> 0"

definition ubyte :: "bytes \<Rightarrow> u64 \<Rightarrow> u64 \<Rightarrow> byte" where
  "ubyte m pt va = m (unat (uaddr m pt va) + unat va mod 4096)"

abbreviation voff :: "u64 \<Rightarrow> nat \<Rightarrow> u64" where
  "voff va i \<equiv> va + word_of_nat i"

lemma PGROUNDDOWN_MAXVA: "PGROUNDDOWN va < MAXVA \<longleftrightarrow> va < MAXVA"
proof -
  have "unat va - unat va mod 4096 < 2 ^ 38 \<longleftrightarrow> unat va < 2 ^ 38"
  proof
    assume "unat va - unat va mod 4096 < 2 ^ 38"
    then have "unat va div 4096 * 4096 < 67108864 * 4096" by (simp add: minus_mod_eq_div_mult)
    then have "unat va div 4096 < 67108864" by simp
    then show "unat va < 2 ^ 38" by simp
  qed simp
  then show ?thesis by (simp add: word_less_nat_alt unat_PGROUNDDOWN)
qed

lemma uaddr_page: "uaddr m pt (PGROUNDDOWN va) = uaddr m pt va"
  using pte_of_vpn [of "PGROUNDDOWN va" va m pt] by (simp add: uaddr_def PGROUNDDOWN_MAXVA)

lemma uaddr_same_page:
  assumes "unat va div 4096 = unat vb div 4096"
  shows "uaddr m pt va = uaddr m pt vb"
proof -
  have "unat (PGROUNDDOWN va) = unat (PGROUNDDOWN vb)"
    using assms by (simp add: unat_PGROUNDDOWN minus_mod_eq_mult_div)
  then have "PGROUNDDOWN va = PGROUNDDOWN vb" by (simp add: word_unat_eq_iff)
  then show ?thesis using uaddr_page by metis
qed

lemma uaddr_aligned: "unat (uaddr m pt va) mod 4096 = 0"
  using unat_PTE2PA_aligned by (auto simp: uaddr_def Let_def)

lemma unat_upos: "unat (uaddr m pt va + (va - PGROUNDDOWN va)) = unat (uaddr m pt va) + unat va mod 4096"
proof -
  obtain q where q: "unat (uaddr m pt va) = 4096 * q" using uaddr_aligned [of m pt va] by auto
  have "4096 * q < 4096 * 4503599627370496" using unat_u64 [of "uaddr m pt va"] q by simp
  then have "q \<le> 4503599627370495" by simp
  then have "4096 * q + 4095 < 18446744073709551616" by simp
  moreover have "unat va mod 4096 \<le> 4095" using mod_less_divisor [of 4096 "unat va"] by simp
  ultimately have "unat (uaddr m pt va) + unat va mod 4096 < 18446744073709551616" using q by linarith
  then show ?thesis by (simp add: unat_word_ariths(1) unat_page_offset)
qed

lemma unat_off: "unat va + i < 2 ^ 64 \<Longrightarrow> unat (voff va i) = unat va + i"
  by (simp add: unat_word_ariths(1) unat_of_nat)

text \<open>The bytes of one page are contiguous.\<close>

lemma off_in_page:
  assumes "i < 4096 - unat va mod 4096" "unat va + i < 2 ^ 64"
  shows "uaddr m pt (voff va i) = uaddr m pt va" "unat (voff va i) mod 4096 = unat va mod 4096 + i"
    "ubyte m pt (voff va i) = m (unat (uaddr m pt va) + unat va mod 4096 + i)"
proof -
  have u: "unat (voff va i) = unat va + i" using assms(2) by (rule unat_off)
  have lt: "unat va mod 4096 + i < 4096" using assms(1) by simp
  have d: "(unat va + i) div 4096 = unat va div 4096" "(unat va + i) mod 4096 = unat va mod 4096 + i"
  proof -
    have "unat va + i = 4096 * (unat va div 4096) + (unat va mod 4096 + i)" by simp
    with lt show "(unat va + i) div 4096 = unat va div 4096" "(unat va + i) mod 4096 = unat va mod 4096 + i"
      by (metis div_mult_self4 div_less add_0_right zero_neq_numeral, metis mod_mult_self4 mod_less)
  qed
  show "uaddr m pt (voff va i) = uaddr m pt va"
    by (rule uaddr_same_page) (simp only: u d)
  then show "ubyte m pt (voff va i) = m (unat (uaddr m pt va) + unat va mod 4096 + i)"
    by (simp only: ubyte_def u d add.assoc)
  show "unat (voff va i) mod 4096 = unat va mod 4096 + i" by (simp only: u d)
qed

subsection \<open>copyin\<close>

lemma copy_append:
  "copy (d + n) src n k (copy d src 0 n m) = copy d src 0 (n + k) m" for d n k :: nat and m src :: bytes
  by (auto simp: copy_def fun_eq_iff)

lemma copy_shift: "copy d (\<lambda>i. src (n + i)) 0 k m = copy d src n k m" for m :: bytes
  by (auto simp: copy_def fun_eq_iff)

lemma copy_eqI:
  assumes "\<And>i. i < n \<Longrightarrow> src (a + i) = src' (b + i)"
  shows "copy d src a n m = copy d src' b n m"
proof
  fix x
  show "copy d src a n m x = copy d src' b n m x"
    using assms [of "x - d"] by (auto simp: copy_def)
qed

lemma all_split:
  fixes n l :: nat
  assumes "\<And>i. i < n \<Longrightarrow> P i" "n \<le> l"
  shows "(\<forall>i<l. P i) \<longleftrightarrow> (\<forall>i<l - n. P (n + i))"
proof
  assume r: "\<forall>i<l - n. P (n + i)"
  show "\<forall>i<l. P i"
  proof (intro allI impI)
    fix i assume "i < l"
    show "P i"
    proof (cases "i < n")
      case False
      then obtain j where "i = n + j" by (metis le_Suc_ex not_less)
      with r \<open>i < l\<close> show ?thesis by auto
    qed (rule assms(1))
  qed
qed (use assms(2) in auto)

lemma chunk_step:
  assumes "len \<noteq> 0" "unat va + unat len < 2 ^ 64"
  shows "unat (len - chunk va len) = unat len - unat (chunk va len)"
    "len - chunk va len \<noteq> 0 \<Longrightarrow> PGROUNDDOWN va + PGSIZE = voff va (unat (chunk va len))"
    "0 < unat (chunk va len)" "unat (chunk va len) \<le> unat len"
    "i < unat (chunk va len) \<Longrightarrow> i < 4096 - unat va mod 4096 \<and> unat va + i < 2 ^ 64"
proof -
  let ?n = "unat (chunk va len)"
  have m: "unat va mod 4096 < 4096" by simp
  have n: "?n = min (4096 - unat va mod 4096) (unat len)" by (rule unat_chunk)
  have l: "0 < unat len" using assms(1) by (simp add: unat_gt_0)
  show "0 < ?n" using n m l by simp
  show le: "?n \<le> unat len" using n by simp
  then show d: "unat (len - chunk va len) = unat len - ?n"
    by (simp add: unat_sub word_le_nat_alt)
  show "i < ?n \<Longrightarrow> i < 4096 - unat va mod 4096 \<and> unat va + i < 2 ^ 64"
    using n assms(2) by auto
  assume "len - chunk va len \<noteq> 0"
  then have "unat len - ?n \<noteq> 0" using d by (metis unat_eq_zero)
  then have n': "?n = 4096 - unat va mod 4096" "?n < unat len" using n by auto
  then have "unat va + ?n < 2 ^ 64" using assms(2) by simp
  then have a: "unat (voff va ?n) = unat va + ?n" by (rule unat_off)
  have "unat (PGROUNDDOWN va) + 4096 = unat va + ?n"
    using n' m by (simp add: unat_PGROUNDDOWN)
  moreover from this a have "unat (PGROUNDDOWN va + PGSIZE) = unat (PGROUNDDOWN va) + 4096"
    using \<open>unat va + ?n < 2 ^ 64\<close> by (simp add: unat_word_ariths(1))
  ultimately show "PGROUNDDOWN va + PGSIZE = voff va ?n"
    using a by (simp add: word_unat_eq_iff)
qed

definition ubytes :: "bytes \<Rightarrow> u64 \<Rightarrow> u64 \<Rightarrow> bytes" where
  "ubytes m pt va i = ubyte m pt (voff va i)"

definition uok_range :: "bytes \<Rightarrow> u64 \<Rightarrow> u64 \<Rightarrow> nat \<Rightarrow> bool" where
  "uok_range m pt va n \<longleftrightarrow> (\<forall>i<n. uok m pt (voff va i))"

lemma ubytes_off: "ubytes m pt (voff va n) = (\<lambda>i. ubytes m pt va (n + i))"
  by (simp add: ubytes_def fun_eq_iff add.assoc)

lemma uok_range_first: "0 < n \<Longrightarrow> uok_range m pt va n \<Longrightarrow> uaddr m pt va \<noteq> 0"
  by (auto simp: uok_range_def uok_def dest: spec [of _ 0])

lemma uok_range_split:
  assumes "uok_range m pt va n" "n \<le> l"
  shows "uok_range m pt va l \<longleftrightarrow> uok_range m pt (voff va n) (l - n)"
  using all_split [of n "\<lambda>i. uok m pt (voff va i)" l] assms by (simp add: uok_range_def add.assoc)

text \<open>The first iteration of the three copies: the part of the range on the page of \<open>va\<close>.\<close>

lemma first_chunk:
  assumes "len \<noteq> 0" "unat va + unat len < 2 ^ 64" "uaddr m pt va \<noteq> 0"
  shows "uok_range m pt va (unat (chunk va len))"
    "i < unat (chunk va len) \<Longrightarrow> ubytes m pt va i = m (unat (uaddr m pt va + (va - PGROUNDDOWN va)) + i)"
    "copy d m (unat (uaddr m pt va + (va - PGROUNDDOWN va))) (unat (chunk va len)) dst
       = copy d (ubytes m pt va) 0 (unat (chunk va len)) dst"
proof -
  have pg: "uok m pt (voff va i)" "ubytes m pt va i = m (unat (uaddr m pt va + (va - PGROUNDDOWN va)) + i)"
    if "i < unat (chunk va len)" for i
    using off_in_page(1,3) [of i va m pt] chunk_step(5) [OF assms(1,2) that] assms(3)
    by (auto simp: uok_def ubytes_def unat_upos)
  then show "uok_range m pt va (unat (chunk va len))"
    "i < unat (chunk va len) \<Longrightarrow> ubytes m pt va i = m (unat (uaddr m pt va + (va - PGROUNDDOWN va)) + i)"
    by (auto simp: uok_range_def)
  show "copy d m (unat (uaddr m pt va + (va - PGROUNDDOWN va))) (unat (chunk va len)) dst
       = copy d (ubytes m pt va) 0 (unat (chunk va len)) dst"
    by (rule copy_eqI) (simp only: pg(2) add_0)
qed

lemma copyin_run:
  assumes wf: "pt_wf e (pmem s) pt" "0 < e" and len: "unat srcva + unat len < 2 ^ 64"
  shows "\<exists>dst'. copyin pt dst d srcva len es s = Ret (if uok_range (pmem s) pt srcva (unat len) then 0 else -1, dst') es s \<and>
         (uok_range (pmem s) pt srcva (unat len) \<longrightarrow> dst' = copy d (ubytes (pmem s) pt srcva) 0 (unat len) dst)"
  using len
proof (induction "unat len" arbitrary: len srcva dst d rule: less_induct)
  case less
  show ?case
  proof (cases "len = 0")
    case True
    then show ?thesis by (simp add: copyin.simps uok_range_def)
  next
    case False
    let ?n = "unat (chunk srcva len)" and ?va0 = "PGROUNDDOWN srcva" and ?m = "pmem s"
    note ch = chunk_step [OF False less.prems]
    have wa: "walkaddr pt ?va0 es s = Ret (uaddr ?m pt srcva) es s"
      using walkaddr_run [OF wf, of ?va0 es] by (simp add: uaddr_page)
    show ?thesis
    proof (cases "uaddr ?m pt srcva = 0")
      case True
      then have "\<not> uok_range ?m pt srcva (unat len)"
        using ch(3,4) uok_range_first [of "unat len" ?m pt srcva] by auto
      moreover have "copyin pt dst d srcva len es s = Ret (-1, dst) es s"
        using False True wa by (subst copyin.simps) (simp add: km_simps Let_def)
      ultimately show ?thesis by auto
    next
      case ok: False
      note fc = first_chunk [OF False less.prems ok]
      let ?dst = "copy d (ubytes ?m pt srcva) 0 ?n dst"
      have run: "copyin pt dst d srcva len es s = copyin pt ?dst (d + ?n) (?va0 + PGSIZE) (len - chunk srcva len) es s"
        using False ok wa by (subst copyin.simps) (simp add: km_simps Let_def fc(3))
      show ?thesis
      proof (cases "len - chunk srcva len = 0")
        case True
        then have "?n = unat len" using ch(1,4) by simp
        then show ?thesis using run True fc(1) by (simp add: copyin.simps [of _ _ _ _ 0])
      next
        case more: False
        have u: "unat (voff srcva ?n) = unat srcva + ?n" using ch(4) less.prems by (intro unat_off) simp
        obtain dst' where "copyin pt ?dst (d + ?n) (voff srcva ?n) (len - chunk srcva len) es s =
             Ret (if uok_range ?m pt (voff srcva ?n) (unat len - ?n) then 0 else -1, dst') es s"
           "uok_range ?m pt (voff srcva ?n) (unat len - ?n) \<longrightarrow>
             dst' = copy (d + ?n) (ubytes ?m pt (voff srcva ?n)) 0 (unat len - ?n) ?dst"
          using less.hyps [of "len - chunk srcva len" "voff srcva ?n" ?dst "d + ?n"] ch(1,3,4) less.prems u
          by auto
        then show ?thesis
          using run ch(2) [OF more] uok_range_split [OF fc(1) ch(4)] ch(4)
            copy_append [of d ?n "ubytes ?m pt srcva" "unat len - ?n" dst]
          by (simp only: ubytes_off copy_shift le_add_diff_inverse) blast
      qed
    qed
  qed
qed

subsection \<open>copyinstr\<close>

text \<open>\<open>ustr m pt va n k\<close>: a string of length \<open>k < n\<close> starts at \<open>va\<close>, its NUL included in what the user may read.\<close>

definition ustr :: "bytes \<Rightarrow> u64 \<Rightarrow> u64 \<Rightarrow> nat \<Rightarrow> nat \<Rightarrow> bool" where
  "ustr m pt va n k \<longleftrightarrow> k < n \<and> uok_range m pt va (Suc k) \<and> ubytes m pt va k = 0 \<and> (\<forall>i<k. ubytes m pt va i \<noteq> 0)"

lemma ustr_unique: "ustr m pt va n k \<Longrightarrow> ustr m pt va n l \<Longrightarrow> k = l"
  unfolding ustr_def by (metis linorder_neqE_nat)

lemma ustr_0: "\<not> ustr m pt va 0 k"
  by (simp add: ustr_def)

lemma ustr_addr: "ustr m pt va n k \<Longrightarrow> uaddr m pt va \<noteq> 0"
  using uok_range_first [of "Suc k" m pt va] by (simp add: ustr_def)

lemma cun_none:
  "\<forall>i<n. m (p + i) \<noteq> 0 \<Longrightarrow> copy_until_nul n m p dst d = (False, copy d m p n dst, d + n)"
proof (induction n arbitrary: p dst d)
  case (Suc n)
  have "m p \<noteq> 0" using Suc.prems by (auto dest: spec [of _ 0])
  then have "copy_until_nul (Suc n) m p dst d = copy_until_nul n m (Suc p) (dst(d := m p)) (Suc d)" by simp
  also have "\<dots> = (False, copy (Suc d) m (Suc p) n (dst(d := m p)), Suc d + n)"
    using Suc.prems by (intro Suc.IH) auto
  also have "copy (Suc d) m (Suc p) n (dst(d := m p)) = copy d m p (Suc n) dst" by (rule copy_Suc)
  finally show ?case by simp
qed simp

lemma cun_found:
  "k < n \<Longrightarrow> m (p + k) = 0 \<Longrightarrow> \<forall>i<k. m (p + i) \<noteq> 0 \<Longrightarrow>
     copy_until_nul n m p dst d = (True, copy d m p (Suc k) dst, d + k)"
proof (induction n arbitrary: k p dst d)
  case (Suc n)
  show ?case
  proof (cases k)
    case 0
    then show ?thesis using Suc.prems by (auto simp: copy_def fun_eq_iff)
  next
    case (Suc j)
    have "m p \<noteq> 0" using Suc.prems(3) Suc by (auto dest: spec [of _ 0])
    then have "copy_until_nul (Suc n) m p dst d = copy_until_nul n m (Suc p) (dst(d := m p)) (Suc d)" by simp
    also have "\<dots> = (True, copy (Suc d) m (Suc p) (Suc j) (dst(d := m p)), Suc d + j)"
      using Suc.prems Suc by (intro Suc.IH) auto
    also have "copy (Suc d) m (Suc p) (Suc j) (dst(d := m p)) = copy d m p (Suc (Suc j)) dst" by (rule copy_Suc)
    finally show ?thesis by (simp add: Suc)
  qed
qed simp

lemma ustr_split:
  assumes ok: "uok_range m pt va n" and n: "n \<le> l" and nz: "\<forall>i<n. ubytes m pt va i \<noteq> 0"
  shows "ustr m pt va l k \<longleftrightarrow> n \<le> k \<and> ustr m pt (voff va n) (l - n) (k - n)"
proof (cases "n \<le> k")
  case True
  have "uok_range m pt va (Suc k) \<longleftrightarrow> uok_range m pt (voff va n) (Suc (k - n))"
    using uok_range_split [OF ok, of "Suc k"] True by (simp add: Suc_diff_le)
  moreover have "(\<forall>i<k. ubytes m pt va i \<noteq> 0) \<longleftrightarrow> (\<forall>i<k - n. ubytes m pt va (n + i) \<noteq> 0)"
    using True nz by (intro all_split) auto
  ultimately show ?thesis
    using True n by (auto simp: ustr_def ubytes_off)
next
  case False
  then show ?thesis using nz by (auto simp: ustr_def)
qed

lemma ustr_chunk:
  assumes "uok_range m pt va n" "\<forall>i<n. ubytes m pt va i = m (p + i)" "n \<le> l"
    "k < n" "m (p + k) = 0" "\<forall>i<k. m (p + i) \<noteq> 0"
  shows "ustr m pt va l k"
  using assms by (simp add: ustr_def uok_range_def)

lemma cun_first:
  assumes "\<exists>k<n. m (p + k) = 0"
  shows "\<exists>k. k < n \<and> m (p + k) = 0 \<and> (\<forall>i<k. m (p + i) \<noteq> 0) \<and>
           copy_until_nul n m p dst d = (True, copy d m p (Suc k) dst, d + k)"
proof -
  define k where "k = (LEAST k. m (p + k) = 0)"
  obtain l where l: "l < n" "m (p + l) = 0" using assms by blast
  have k: "m (p + k) = 0" unfolding k_def by (rule LeastI [of "\<lambda>k. m (p + k) = 0", OF l(2)])
  have "k \<le> l" unfolding k_def by (rule Least_le [of "\<lambda>k. m (p + k) = 0", OF l(2)])
  then have kn: "k < n" using l(1) by simp
  have nz: "\<forall>i<k. m (p + i) \<noteq> 0"
    unfolding k_def using not_less_Least [of _ "\<lambda>k. m (p + k) = 0"] by blast
  show ?thesis
    using kn k nz cun_found [of k n m p dst d, OF kn k nz] by (intro exI [of _ k] conjI)
qed

lemma str_result:
  assumes "r = Ret (0, D) es s" "D = F k" "Q k" "\<forall>l. Q l \<longrightarrow> l = k"
  shows "\<exists>dst'. r = Ret (if \<exists>k. Q k then 0 else -1 :: int, dst') es s \<and> (\<forall>k. Q k \<longrightarrow> dst' = F k)"
proof (intro exI [of _ D] conjI allI impI)
  have "\<exists>k. Q k" using assms(3) ..
  then show "r = Ret (if \<exists>k. Q k then 0 else -1 :: int, D) es s" by (simp only: assms(1) if_True)
  show "D = F l" if "Q l" for l using assms(2,4) that by metis
qed

lemma copyinstr_run:
  assumes wf: "pt_wf e (pmem s) pt" "0 < e" and len: "unat srcva + unat maxn < 2 ^ 64"
  shows "\<exists>dst'. copyinstr pt dst d srcva maxn es s = Ret (if \<exists>k. ustr (pmem s) pt srcva (unat maxn) k then 0 else -1, dst') es s \<and>
         (\<forall>k. ustr (pmem s) pt srcva (unat maxn) k \<longrightarrow> dst' = copy d (ubytes (pmem s) pt srcva) 0 (Suc k) dst)"
  using len
proof (induction "unat maxn" arbitrary: maxn srcva dst d rule: less_induct)
  case less
  show ?case
  proof (cases "maxn = 0")
    case True
    then show ?thesis by (simp add: copyinstr.simps ustr_0)
  next
    case False
    let ?n = "unat (chunk srcva maxn)" and ?va0 = "PGROUNDDOWN srcva" and ?m = "pmem s"
    let ?p = "unat (uaddr ?m pt srcva + (srcva - ?va0))"
    note ch = chunk_step [OF False less.prems]
    have wa: "walkaddr pt ?va0 es s = Ret (uaddr ?m pt srcva) es s"
      using walkaddr_run [OF wf, of ?va0 es] by (simp add: uaddr_page)
    show ?thesis
    proof (cases "uaddr ?m pt srcva = 0")
      case True
      then have "\<not> ustr ?m pt srcva (unat maxn) k" for k using ustr_addr by blast
      moreover have "copyinstr pt dst d srcva maxn es s = Ret (-1, dst) es s"
        using False True wa by (subst copyinstr.simps) (simp add: km_simps Let_def)
      ultimately show ?thesis by auto
    next
      case ok: False
      note fc = first_chunk [OF False less.prems ok]
      have fc2: "\<forall>i<?n. ubytes ?m pt srcva i = ?m (?p + i)" using fc(2) by blast
      have step: "copyinstr pt dst d srcva maxn es s = (case copy_until_nul ?n ?m ?p dst d of
            (got_null, dst', d') \<Rightarrow> if got_null then Ret (0, dst') es s
              else copyinstr pt dst' d' (?va0 + PGSIZE) (maxn - chunk srcva maxn) es s)"
        using False ok wa by (subst copyinstr.simps) (simp add: km_simps Let_def)
      show ?thesis
      proof (cases "\<exists>k<?n. ?m (?p + k) = 0")
        case True
        from cun_first [of ?n ?m ?p dst d, OF this] obtain k
          where k: "k < ?n" "?m (?p + k) = 0" "\<forall>i<k. ?m (?p + i) \<noteq> 0"
            and c: "copy_until_nul ?n ?m ?p dst d = (True, copy d ?m ?p (Suc k) dst, d + k)" by (elim exE conjE)
        show ?thesis
        proof (rule str_result [where F = "\<lambda>k. copy d (ubytes ?m pt srcva) 0 (Suc k) dst" and Q = "ustr ?m pt srcva (unat maxn)" and k = k])
          show "copyinstr pt dst d srcva maxn es s = Ret (0, copy d ?m ?p (Suc k) dst) es s"
            unfolding step c by (simp only: prod.case if_True)
          show "copy d ?m ?p (Suc k) dst = copy d (ubytes ?m pt srcva) 0 (Suc k) dst"
          proof (rule copy_eqI)
            fix i assume "i < Suc k"
            then have "i < ?n" using k(1) by linarith
            with fc2 show "?m (?p + i) = ubytes ?m pt srcva (0 + i)" by simp
          qed
          show us: "ustr ?m pt srcva (unat maxn) k"
            by (rule ustr_chunk [of ?m pt srcva ?n ?p "unat maxn" k, OF fc(1) fc2 ch(4) k])
          show "\<forall>l. ustr ?m pt srcva (unat maxn) l \<longrightarrow> l = k"
            using us ustr_unique by blast
        qed
      next
        case none: False
        then have nz: "\<forall>i<?n. ubytes ?m pt srcva i \<noteq> 0" using fc2 by auto
        let ?dst = "copy d (ubytes ?m pt srcva) 0 ?n dst"
        have run: "copyinstr pt dst d srcva maxn es s = copyinstr pt ?dst (d + ?n) (?va0 + PGSIZE) (maxn - chunk srcva maxn) es s"
          using step cun_none [of ?n ?m ?p dst d] none by (simp add: fc(3))
        note sp = ustr_split [OF fc(1) ch(4) nz]
        show ?thesis
        proof (cases "maxn - chunk srcva maxn = 0")
          case True
          then have "?n = unat maxn" using ch(1,4) by simp
          then have "\<not> ustr ?m pt srcva (unat maxn) k" for k by (simp add: sp ustr_0)
          then show ?thesis using run True by (simp add: copyinstr.simps [of _ _ _ _ 0])
        next
          case more: False
          have u: "unat (voff srcva ?n) = unat srcva + ?n" using ch(4) less.prems by (intro unat_off) simp
          obtain dst' where d1: "copyinstr pt ?dst (d + ?n) (voff srcva ?n) (maxn - chunk srcva maxn) es s =
               Ret (if \<exists>k. ustr ?m pt (voff srcva ?n) (unat maxn - ?n) k then 0 else -1, dst') es s"
             and d2: "\<forall>k. ustr ?m pt (voff srcva ?n) (unat maxn - ?n) k \<longrightarrow>
               dst' = copy (d + ?n) (ubytes ?m pt (voff srcva ?n)) 0 (Suc k) ?dst"
            using less.hyps [of "maxn - chunk srcva maxn" "voff srcva ?n" ?dst "d + ?n"] ch(1,3,4) less.prems u
            by auto
          have ex: "(\<exists>k. ustr ?m pt srcva (unat maxn) k) \<longleftrightarrow> (\<exists>k. ustr ?m pt (voff srcva ?n) (unat maxn - ?n) k)"
          proof
            assume "\<exists>k. ustr ?m pt srcva (unat maxn) k"
            then show "\<exists>k. ustr ?m pt (voff srcva ?n) (unat maxn - ?n) k" unfolding sp by blast
          next
            assume "\<exists>k. ustr ?m pt (voff srcva ?n) (unat maxn - ?n) k"
            then obtain k where "ustr ?m pt (voff srcva ?n) (unat maxn - ?n) k" ..
            then have "ustr ?m pt srcva (unat maxn) (?n + k)" unfolding sp by simp
            then show "\<exists>k. ustr ?m pt srcva (unat maxn) k" ..
          qed
          have "dst' = copy d (ubytes ?m pt srcva) 0 (Suc k) dst" if "ustr ?m pt srcva (unat maxn) k" for k
          proof -
            have k: "?n \<le> k" "ustr ?m pt (voff srcva ?n) (unat maxn - ?n) (k - ?n)" using that sp by auto
            then have "dst' = copy (d + ?n) (ubytes ?m pt srcva) ?n (Suc (k - ?n)) ?dst"
              using d2 by (simp only: ubytes_off copy_shift)
            also have "\<dots> = copy d (ubytes ?m pt srcva) 0 (?n + Suc (k - ?n)) dst" by (rule copy_append)
            finally show ?thesis using k(1) by simp
          qed
          moreover have "copyinstr pt dst d srcva maxn es s =
              Ret (if \<exists>k. ustr ?m pt srcva (unat maxn) k then 0 else -1, dst') es s"
            unfolding run ch(2) [OF more] d1 ex ..
          ultimately show ?thesis by blast
        qed
      qed
    qed
  qed
qed

subsection \<open>copyout\<close>

text \<open>
  \<open>uview m pt\<close> is user memory as one byte array, 0 where the user has no access. A write to one
  user page changes the view in the same way as it changes physical memory.
\<close>

definition uview :: "bytes \<Rightarrow> u64 \<Rightarrow> bytes" where
  "uview m pt k = (if k < 2 ^ 64 \<and> uok m pt (word_of_nat k) then ubyte m pt (word_of_nat k) else 0)"

definition user_below :: "bytes \<Rightarrow> u64 \<Rightarrow> nat \<Rightarrow> bool" where
  "user_below m pt lim \<longleftrightarrow> (\<forall>va. uok m pt va \<longrightarrow> vpn va < lim)"

lemma uok_mapped: "uok m pt va \<Longrightarrow> mapped m pt va" "uok m pt va \<Longrightarrow> uaddr m pt va = data_page m pt va"
  "uok m pt va \<Longrightarrow> va < MAXVA"
  by (auto simp: uok_def uaddr_def data_page_def Let_def split: if_splits)

lemma same_pte_user:
  assumes "pte_of m' pt = pte_of m pt"
  shows "uaddr m' pt = uaddr m pt" "uok m' pt = uok m pt" "data_page m' pt = data_page m pt"
    "data_pages m' pt lim = data_pages m pt lim"
  using assms by (simp_all add: uaddr_def uok_def data_page_def data_pages_def fun_eq_iff)

lemma write_data:
  assumes ok: "as_ok xs pt lim s" and va: "vpn va < lim" "mapped (pmem s) pt va"
    and w: "\<forall>k. \<not> in_page (data_page (pmem s) pt va) k \<longrightarrow> m' k = pmem s k"
  shows "pte_of m' pt = pte_of (pmem s) pt" "as_ok xs pt lim (s\<lparr>pmem := m'\<rparr>)"
proof -
  let ?d = "data_page (pmem s) pt va"
  have d: "?d \<in> foot xs pt lim (pmem s)" using data_pagesI [OF va] by (simp add: foot_def)
  have "same_pages (pt_pages (pmem s) pt \<union> set xs) (pmem s) m'"
  proof (rule same_pagesI)
    fix a k assume a: "a \<in> pt_pages (pmem s) pt \<union> set xs" "in_page a k"
    then have "a \<noteq> ?d" using as_ok_data(2,3) [OF ok va] by auto
    moreover have "a \<in> foot xs pt lim (pmem s)" using a(1) by (auto simp: foot_def)
    ultimately have "\<not> in_page ?d k" using as_ok_separate [OF ok _ d] a(2) by blast
    with w show "m' k = pmem s k" by blast
  qed
  note fr = pt_ok_frame [OF as_ok_pt [OF ok] this]
  show p: "pte_of m' pt = pte_of (pmem s) pt" by (rule fr(3))
  show "as_ok xs pt lim (s\<lparr>pmem := m'\<rparr>)"
    using ok fr(1,2) by (simp add: as_ok_def p same_pte_user [OF p])
qed

lemma uok_page: "uok m pt va \<longleftrightarrow> uok m pt (PGROUNDDOWN va)"
  by (simp add: uok_def uaddr_page)

lemma in_page_ubyte:
  "uok m pt va \<Longrightarrow> in_page (data_page m pt va) (unat (uaddr m pt va) + unat va mod 4096)"
  by (simp add: in_page_def uok_mapped)

lemma unat_of_nat_64: "k < 2 ^ 64 \<Longrightarrow> unat (word_of_nat k :: u64) = k"
  by (simp add: unat_of_nat)

lemma write_view:
  fixes src :: bytes and so :: nat
  assumes ok: "as_ok xs pt lim s" "user_below (pmem s) pt lim" and va: "uok (pmem s) pt va"
    and n: "unat va mod 4096 + n \<le> 4096" "unat va + n \<le> 2 ^ 64"
  defines "m' \<equiv> copy (unat (uaddr (pmem s) pt va) + unat va mod 4096) src so n (pmem s)"
  shows "pte_of m' pt = pte_of (pmem s) pt" "as_ok xs pt lim (s\<lparr>pmem := m'\<rparr>)"
    "uview m' pt = copy (unat va) src so n (uview (pmem s) pt)"
proof -
  let ?m = "pmem s"
  have lim: "vpn vb < lim" if "uok ?m pt vb" for vb using ok(2) that by (simp add: user_below_def)
  have dp: "uaddr ?m pt va = data_page ?m pt va" using va by (rule uok_mapped)
  have w: "\<forall>k. \<not> in_page (data_page ?m pt va) k \<longrightarrow> m' k = ?m k"
    using n(1) by (auto simp: m'_def copy_def in_page_def dp)
  show p: "pte_of m' pt = pte_of ?m pt" and "as_ok xs pt lim (s\<lparr>pmem := m'\<rparr>)"
    using write_data [OF ok(1) lim [OF va] uok_mapped(1) [OF va] w] by auto
  note sp = same_pte_user [OF p]
  show "uview m' pt = copy (unat va) src so n (uview ?m pt)"
  proof
    fix k
    let ?b = "word_of_nat k :: u64"
    show "uview m' pt k = copy (unat va) src so n (uview ?m pt) k"
    proof (cases "k < 2 ^ 64 \<and> k div 4096 = unat va div 4096")
      case True
      then have b: "unat ?b = k" by (simp add: unat_of_nat_64)
      have same: "uaddr ?m pt ?b = uaddr ?m pt va" using True b by (intro uaddr_same_page) simp
      have "uview m' pt k = m' (unat (uaddr ?m pt va) + k mod 4096)"
        using True va by (simp add: uview_def sp uok_def same ubyte_def b)
      moreover have "uview ?m pt k = ?m (unat (uaddr ?m pt va) + k mod 4096)"
        using True va by (simp add: uview_def uok_def same ubyte_def b)
      moreover have "k = k mod 4096 + (unat va - unat va mod 4096)"
        using True by (metis minus_mod_eq_mult_div mult_div_mod_eq add.commute)
      then have "unat va mod 4096 \<le> k mod 4096 \<longleftrightarrow> unat va \<le> k" "k mod 4096 - unat va mod 4096 = k - unat va"
        "k mod 4096 < unat va mod 4096 + n \<longleftrightarrow> k < unat va + n"
        using mod_less_eq_dividend [of "unat va" 4096] by linarith+
      ultimately show ?thesis by (simp add: m'_def copy_def)
    next
      case out: False
      have nr: "\<not> (unat va \<le> k \<and> k < unat va + n)"
      proof
        assume r: "unat va \<le> k \<and> k < unat va + n"
        then have "unat va div 4096 \<le> k div 4096" by (simp add: div_le_mono)
        moreover have "k < 4096 * (unat va div 4096) + 4096"
          using r n(1) mult_div_mod_eq [of 4096 "unat va"] by linarith
        then have "k div 4096 \<le> unat va div 4096" by simp
        ultimately show False using out r n(2) by simp
      qed
      have "uview m' pt k = uview ?m pt k"
      proof (cases "k < 2 ^ 64 \<and> uok ?m pt ?b")
        case True
        then have b: "unat ?b = k" by (simp add: unat_of_nat_64)
        have "vpn ?b \<noteq> vpn va"
          using out True b uok_mapped(3) va by (metis vpn_unat)
        then have "data_page ?m pt ?b \<noteq> data_page ?m pt va"
          using as_ok_inj [OF ok(1) lim lim uok_mapped(1) uok_mapped(1)] True va by blast
        moreover have "page_ok (kend s) (data_page ?m pt ?b)" "page_ok (kend s) (data_page ?m pt va)"
          using as_ok_data(1) [OF ok(1) lim uok_mapped(1)] True va by auto
        ultimately have "\<not> in_page (data_page ?m pt va) (unat (uaddr ?m pt ?b) + unat ?b mod 4096)"
          using pages_separate in_page_ubyte True by metis
        then show ?thesis using w True by (simp add: uview_def sp ubyte_def)
      qed (auto simp: uview_def sp)
      with nr show ?thesis by (auto simp: copy_def)
    qed
  qed
qed

lemma copy_concat:
  "copy (d + n) src (so + n) k (copy d src so n m) = copy d src so (n + k) m" for d n k so :: nat and m src :: bytes
  by (auto simp: copy_def fun_eq_iff)

lemma user_below_pte: "pte_of m' pt = pte_of m pt \<Longrightarrow> user_below m' pt lim = user_below m pt lim"
  by (drule same_pte_user(2)) (simp only: user_below_def)

lemma uok_range_pte: "pte_of m' pt = pte_of m pt \<Longrightarrow> uok_range m' pt va n = uok_range m pt va n"
  by (drule same_pte_user(2)) (simp only: uok_range_def)

text \<open>What \<^verbatim>\<open>copyout\<close> leaves: memory in which the view changed by a copy of \<open>n\<close> bytes.\<close>

definition wrote :: "u64 list \<Rightarrow> u64 \<Rightarrow> nat \<Rightarrow> 'z kmem_scheme \<Rightarrow> bytes \<Rightarrow> nat \<Rightarrow> bytes \<Rightarrow> nat \<Rightarrow> nat \<Rightarrow> bool" where
  "wrote xs pt lim s m' d src so n \<longleftrightarrow> as_ok xs pt lim (s\<lparr>pmem := m'\<rparr>) \<and> pte_of m' pt = pte_of (pmem s) pt \<and>
     uview m' pt = copy d src so n (uview (pmem s) pt)"

lemma wrote_trans:
  assumes "wrote xs pt lim s m d src so n" "wrote xs pt lim (s\<lparr>pmem := m\<rparr>) m' (d + n) src (so + n) k"
  shows "wrote xs pt lim s m' d src so (n + k)"
  using assms by (simp add: wrote_def copy_concat)

lemma copyout_run:
  assumes ok: "as_ok xs pt lim s" "user_below (pmem s) pt lim" and len: "unat dstva + unat len < 2 ^ 64"
  shows "\<exists>m' n. copyout pt dstva src so len es s = Ret (if uok_range (pmem s) pt dstva (unat len) then 0 else -1) es (s\<lparr>pmem := m'\<rparr>) \<and>
         wrote xs pt lim s m' (unat dstva) src so n \<and> n \<le> unat len \<and> (uok_range (pmem s) pt dstva (unat len) \<longrightarrow> n = unat len)"
  using ok len
proof (induction "unat len" arbitrary: len dstva so s rule: less_induct)
  case less
  have wf: "pt_wf (kend s) (pmem s) pt" "0 < kend s"
    using pt_ok_kend [OF as_ok_pt [OF less.prems(1)]] less.prems(1) by (auto simp: as_ok_def pt_ok_def)
  have none: "wrote xs pt lim s (pmem s) (unat dstva) src so 0"
    using less.prems(1) by (auto simp: wrote_def copy_def fun_eq_iff)
  show ?case
  proof (cases "len = 0")
    case True
    with none show ?thesis by (intro exI [of _ "pmem s"] exI [of _ 0]) (simp add: copyout.simps uok_range_def)
  next
    case False
    let ?n = "unat (chunk dstva len)" and ?va0 = "PGROUNDDOWN dstva" and ?m = "pmem s"
    note ch = chunk_step [OF False less.prems(3)]
    have wa: "walkaddr pt ?va0 es s = Ret (uaddr ?m pt dstva) es s"
      using walkaddr_run [OF wf, of ?va0 es] by (simp add: uaddr_page)
    show ?thesis
    proof (cases "uaddr ?m pt dstva = 0")
      case True
      then have "\<not> uok_range ?m pt dstva (unat len)"
        using ch(3,4) uok_range_first [of "unat len" ?m pt dstva] by auto
      moreover have "copyout pt dstva src so len es s = Ret (-1) es s"
        using False True wa by (subst copyout.simps) (simp add: km_simps Let_def)
      ultimately show ?thesis using none by (intro exI [of _ ?m] exI [of _ 0]) simp
    next
      case ok: False
      note fc = first_chunk [OF False less.prems(3) ok]
      let ?m' = "copy (unat (uaddr ?m pt dstva) + unat dstva mod 4096) src so ?n ?m"
      have run: "copyout pt dstva src so len es s =
          copyout pt (?va0 + PGSIZE) src (so + ?n) (len - chunk dstva len) es (s\<lparr>pmem := ?m'\<rparr>)"
        using False ok wa by (subst copyout.simps) (simp add: km_simps Let_def unat_upos)
      have n: "unat dstva mod 4096 + ?n \<le> 4096" "unat dstva + ?n \<le> 2 ^ 64"
        using ch(4) less.prems(3) by (simp_all add: unat_chunk)
      have w: "wrote xs pt lim s ?m' (unat dstva) src so ?n"
        using write_view [OF less.prems(1,2) _ n] ok by (simp add: wrote_def uok_def)
      then have p: "pte_of ?m' pt = pte_of ?m pt" and as: "as_ok xs pt lim (s\<lparr>pmem := ?m'\<rparr>)"
        by (simp_all add: wrote_def)
      show ?thesis
      proof (cases "len - chunk dstva len = 0")
        case True
        then have "?n = unat len" using ch(1,4) by simp
        then show ?thesis using run True fc(1) w
          by (intro exI [of _ ?m'] exI [of _ ?n]) (simp add: copyout.simps [of _ _ _ _ 0])
      next
        case more: False
        define v where "v = voff dstva ?n"
        have u: "unat v = unat dstva + ?n" unfolding v_def using ch(4) less.prems(3) by (intro unat_off) simp
        have lt: "unat (len - chunk dstva len) < unat len" "unat v + unat (len - chunk dstva len) < 2 ^ 64"
          using ch(1,3,4) less.prems(3) u by simp_all
        have ub: "user_below (pmem (s\<lparr>pmem := ?m'\<rparr>)) pt lim" using less.prems(2) by (simp add: user_below_pte [OF p])
        have "\<exists>m' k. copyout pt v src (so + ?n) (len - chunk dstva len) es (s\<lparr>pmem := ?m'\<rparr>) =
             Ret (if uok_range ?m pt v (unat len - ?n) then 0 else -1) es (s\<lparr>pmem := m'\<rparr>) \<and>
            wrote xs pt lim (s\<lparr>pmem := ?m'\<rparr>) m' (unat dstva + ?n) src (so + ?n) k \<and> k \<le> unat len - ?n \<and>
            (uok_range ?m pt v (unat len - ?n) \<longrightarrow> k = unat len - ?n)"
          using less.hyps [OF lt(1) as ub lt(2), of "so + ?n"] by (simp add: uok_range_pte [OF p] u ch(1))
        then obtain m' k where
          r: "copyout pt v src (so + ?n) (len - chunk dstva len) es (s\<lparr>pmem := ?m'\<rparr>) =
             Ret (if uok_range ?m pt v (unat len - ?n) then 0 else -1) es (s\<lparr>pmem := m'\<rparr>)"
            "wrote xs pt lim (s\<lparr>pmem := ?m'\<rparr>) m' (unat dstva + ?n) src (so + ?n) k" "k \<le> unat len - ?n"
            "uok_range ?m pt v (unat len - ?n) \<longrightarrow> k = unat len - ?n" by (elim exE conjE)
        note split = uok_range_split [OF fc(1) ch(4), folded v_def]
        show ?thesis
        proof (intro exI [of _ m'] exI [of _ "?n + k"] conjI)
          show "copyout pt dstva src so len es s =
              Ret (if uok_range ?m pt dstva (unat len) then 0 else -1) es (s\<lparr>pmem := m'\<rparr>)"
            unfolding run ch(2) [OF more, folded v_def] r(1) split ..
          show "wrote xs pt lim s m' (unat dstva) src so (?n + k)" by (rule wrote_trans [OF w r(2)])
        qed (use r(3,4) ch(4) split in simp_all)
      qed
    qed
  qed
qed

subsection \<open>Properties\<close>

lemma off_word: "voff va i = word_of_nat (unat va + i)"
  by simp

lemma ubytes_view:
  assumes "uok_range m pt va n" "unat va + n < 2 ^ 64" "i < n"
  shows "ubytes m pt va i = uview m pt (unat va + i)"
proof -
  have "uok m pt (word_of_nat (unat va + i))" "unat va + i < 2 ^ 64"
    using assms by (simp_all only: uok_range_def off_word)
  then show ?thesis unfolding uview_def ubytes_def off_word by (simp only: simp_thms if_True)
qed

lemma fresh_uok:
  assumes "as_ok xs pt lim t" "vpn va < lim" "va < MAXVA" "fresh_page t pt va"
  shows "uok (pmem t) pt va"
proof -
  let ?e = "pte_of (pmem t) pt va"
  have f: "?e AND 0x3FF = 31" using assms(4) by (simp add: fresh_page_def PTE_FLAGS_def)
  have "?e AND 1 = (?e AND 0x3FF) AND 1" "?e AND 16 = (?e AND 0x3FF) AND 16" by (simp_all add: and.assoc)
  then have m: "?e AND PTE_V \<noteq> 0" "?e AND PTE_U \<noteq> 0" unfolding f by simp_all
  then have "page_ok (kend t) (data_page (pmem t) pt va)" using as_ok_data(1) [OF assms(1,2)] by simp
  then have "data_page (pmem t) pt va \<noteq> 0" using pt_ok_kend [OF as_ok_pt [OF assms(1)]] by (auto simp: page_ok_def)
  then show ?thesis using m assms(3) by (simp add: uok_def uaddr_def data_page_def)
qed

lemma example_user:
  "\<exists>(s :: kmem) xs pt. as_ok xs pt 100 s \<and> user_below (pmem s) pt 100 \<and> uok_range (pmem s) pt 0 10000 \<and>
     uview (pmem s) pt = (\<lambda>_. 0)"
proof -
  obtain s :: kmem and xs pt where s: "uvm_ok xs pt 0 100 s" "length xs = 50" "pte_of (pmem s) pt = (\<lambda>_. 0)"
    using example_space [of 100 50] by auto
  have n: "npages 10000 = 3" by (simp add: npages_def)
  have len: "\<not> length xs < 4 + 3 * (npages 10000 - npages 0)" by (simp add: s(2) n)
  have "\<exists>t ys r. for_up 0 10000 PGSIZE (uvmalloc_page pt 0) [] s = Ret r [] t \<and> as_step pt 100 xs s ys t \<and>
           (r = None \<and> uvm_ok ys pt 10000 100 t \<and> keeps (\<lambda>vb. vpn vb < npages 0) pt s t \<and>
              (\<forall>vb. npages 0 \<le> vpn vb \<and> vpn vb < npages 10000 \<longrightarrow> fresh_page t pt vb) \<or>
            r = Some 0 \<and> uvm_ok ys pt 0 100 t \<and> keeps (\<lambda>vb. vpn vb < npages 0) pt s t \<and>
              length xs < 4 + 3 * (npages 10000 - npages 0)) \<and>
           (\<forall>vb. npages 10000 \<le> vpn vb \<longrightarrow> pte_of (pmem t) pt vb = pte_of (pmem s) pt vb)"
    by (rule uvmalloc_loop [OF s(1)]) (simp_all add: n)
  with len obtain t :: kmem and ys where t: "uvm_ok ys pt 10000 100 t"
      "\<forall>vb. vpn vb < 3 \<longrightarrow> fresh_page t pt vb" "\<forall>vb. 3 \<le> vpn vb \<longrightarrow> pte_of (pmem t) pt vb = 0"
    unfolding s(3) n npages_0 by auto
  have as: "as_ok ys pt 100 t" by (rule uvm_ok_as [OF t(1)])
  have low: "vpn va < 3" if "uok (pmem t) pt va" for va
    using uok_mapped(1) [OF that] t(3) by (cases "vpn va < 3") auto
  have "uok (pmem t) pt (voff 0 i)" if "i < 10000" for i
  proof (rule fresh_uok [OF as])
    have u: "unat (voff 0 i) = i" using that by (simp add: unat_of_nat)
    then show "voff 0 i < MAXVA" using that by (simp add: word_less_nat_alt)
    then have "vpn (voff 0 i) = i div 4096" by (simp only: vpn_unat u)
    then have "vpn (voff 0 i) < 3" using that by (simp add: div_less_iff_less_mult)
    then show "vpn (voff 0 i) < 100" "fresh_page t pt (voff 0 i)" using t(2) by auto
  qed
  then have "uok_range (pmem t) pt 0 10000" by (simp add: uok_range_def)
  moreover have "uview (pmem t) pt = (\<lambda>_. 0)"
  proof
    fix k
    show "uview (pmem t) pt k = 0"
    proof (cases "k < 2 ^ 64 \<and> uok (pmem t) pt (word_of_nat k)")
      case True
      then have "fresh_page t pt (word_of_nat k)" using low t(2) by auto
      with True show ?thesis
        using in_page_ubyte [of "pmem t" pt "word_of_nat k"] by (simp add: uview_def ubyte_def fresh_page_def)
    qed (auto simp: uview_def)
  qed
  moreover have "user_below (pmem t) pt 100" using low unfolding user_below_def by fastforce
  ultimately show ?thesis using as by blast
qed

lemma cun_frame:
  "copy_until_nul n m p dst d = (g, dst', d') \<Longrightarrow>
     (g \<or> d' = d + n) \<and> (\<forall>i. i < d \<or> d + n \<le> i \<longrightarrow> dst' i = dst i)"
proof (induction n arbitrary: p dst d)
  case (Suc n)
  show ?case
  proof (cases "m p = 0")
    case False
    then have "copy_until_nul n m (Suc p) (dst(d := m p)) (Suc d) = (g, dst', d')" using Suc.prems by simp
    from Suc.IH [OF this] show ?thesis by auto
  qed (use Suc.prems in auto)
qed simp

lemma copyinstr_frame:
  assumes "copyinstr pt dst d va n es s = Ret (r, b) fs t" "i < d \<or> d + unat n \<le> i"
  shows "b i = dst i"
  using assms
proof (induction pt dst d va n es s rule: copyinstr.induct)
  case (1 pt dst d va n es s)
  show ?case
  proof (cases "n = 0")
    case True
    then show ?thesis using 1(2) by (simp add: copyinstr.simps)
  next
    case False
    from 1(2) False obtain pa0 fs1 t1 where w: "walkaddr pt (PGROUNDDOWN va) es s = Ret pa0 fs1 t1"
      by (subst (asm) copyinstr.simps) (auto simp: Let_def bnd_eq_Ret)
    obtain g dst' d' where c: "copy_until_nul (unat (chunk va n)) (pmem t1) (unat (pa0 + (va - PGROUNDDOWN va))) dst d = (g, dst', d')"
      by (metis prod_cases3)
    have le: "unat (chunk va n) \<le> unat n" by (simp add: unat_chunk)
    have fr: "dst' i = dst i" using cun_frame [OF c] 1(3) le by auto
    have run: "copyinstr pt dst d va n es s = (if pa0 = 0 then Ret (-1, dst) fs1 t1
        else if g then Ret (0, dst') fs1 t1 else copyinstr pt dst' d' (PGROUNDDOWN va + PGSIZE) (n - chunk va n) fs1 t1)"
      using False w c by (subst copyinstr.simps) (simp add: km_simps Let_def)
    show ?thesis
    proof (cases "pa0 = 0 \<or> g")
      case True
      then show ?thesis using run 1(2) fr by (auto split: if_splits)
    next
      case more: False
      then have "d' = d + unat (chunk va n)" using cun_frame [OF c] by auto
      moreover have "unat (n - chunk va n) = unat n - unat (chunk va n)" using le by (simp add: unat_sub word_le_nat_alt)
      ultimately have "i < d' \<or> d' + unat (n - chunk va n) \<le> i" using 1(3) le by auto
      moreover have "copyinstr pt dst' d' (PGROUNDDOWN va + PGSIZE) (n - chunk va n) fs1 t1 = Ret (r, b) fs t"
        using run 1(2) more by simp
      ultimately have "b i = dst' i"
        using 1(1) [OF False refl refl w _ c [symmetric] refl] more by auto
      then show ?thesis by (simp add: fr)
    qed
  qed
qed

text \<open>
  C10: what \<^verbatim>\<open>copyout\<close> puts at a user address, \<^verbatim>\<open>copyin\<close> reads back: when the whole range is user
  memory both return 0, the kernel gets the bytes it wrote, user memory differs in just that range,
  and the address space stays well-formed. Otherwise both return -1.
\<close>

theorem copyout_copyin_roundtrip:
  assumes "as_ok xs pt lim s" "user_below (pmem s) pt lim" "unat va + unat len < 2 ^ 64"
  shows "if uok_range (pmem s) pt va (unat len)
         then \<exists>t. copyout pt va src so len es s = Ret 0 es t \<and> as_ok xs pt lim t \<and>
                uview (pmem t) pt = copy (unat va) src so (unat len) (uview (pmem s) pt) \<and>
                copyin pt dst d va len es t = Ret (0, copy d src so (unat len) dst) es t
         else (\<exists>t. copyout pt va src so len es s = Ret (-1) es t) \<and> (\<exists>b. copyin pt dst d va len es s = Ret (-1, b) es s)"
proof -
  have wf: "pt_wf (kend t) (pmem t) pt" "0 < kend t" if "as_ok xs pt lim t" for t :: "'a kmem_scheme"
    using pt_ok_kend [OF as_ok_pt [OF that]] that by (auto simp: as_ok_def pt_ok_def)
  from copyout_run [OF assms, of src so es] obtain m' n where
    c: "copyout pt va src so len es s = Ret (if uok_range (pmem s) pt va (unat len) then 0 else -1) es (s\<lparr>pmem := m'\<rparr>)"
      "wrote xs pt lim s m' (unat va) src so n" "uok_range (pmem s) pt va (unat len) \<longrightarrow> n = unat len"
    by (elim exE conjE)
  show ?thesis
  proof (cases "uok_range (pmem s) pt va (unat len)")
    case False
    moreover from copyin_run [OF wf [OF assms(1)] assms(3), of dst d es] False
    have "\<exists>b. copyin pt dst d va len es s = Ret (-1, b) es s" by auto
    ultimately show ?thesis using c(1) by auto
  next
    case True
    let ?t = "s\<lparr>pmem := m'\<rparr>"
    from c(2,3) True have w: "as_ok xs pt lim ?t" "pte_of m' pt = pte_of (pmem s) pt"
      "uview m' pt = copy (unat va) src so (unat len) (uview (pmem s) pt)"
      by (simp_all add: wrote_def)
    have ok: "uok_range m' pt va (unat len)" using True by (simp add: uok_range_pte [OF w(2)])
    from copyin_run [OF wf [OF w(1)] assms(3), of dst d es] ok obtain b where
      b: "copyin pt dst d va len es ?t = Ret (0, b) es ?t" "b = copy d (ubytes m' pt va) 0 (unat len) dst" by auto
    have "copy d (ubytes m' pt va) 0 (unat len) dst = copy d src so (unat len) dst"
    proof (rule copy_eqI)
      fix i assume "i < unat len"
      then show "ubytes m' pt va (0 + i) = src (so + i)"
        using ubytes_view [OF ok assms(3), of i] by (simp add: w(3) copy_def)
    qed
    then show ?thesis using True c(1) w(1,3) b by auto
  qed
qed


theorem copyout_copyin_roundtrip_witness:
  "\<exists>(s :: kmem) t pt. copyout pt 4000 (\<lambda>i. word_of_nat i) 5 200 [] s = Ret 0 [] t \<and>
     (\<exists>b. copyin pt (\<lambda>_. 0) 0 4000 200 [] t = Ret (0, b) [] t \<and> b 199 = 204)"
proof -
  obtain s :: kmem and xs pt where s: "as_ok xs pt 100 s" "user_below (pmem s) pt 100" "uok_range (pmem s) pt 0 10000"
    using example_user by blast
  have "uok_range (pmem s) pt 4000 200"
    unfolding uok_range_def
  proof (intro allI impI)
    fix i :: nat assume "i < 200"
    then have "uok (pmem s) pt (voff 0 (4000 + i))" using s(3) unfolding uok_range_def by (elim allE [of _ "4000 + i"] impE) simp_all
    then show "uok (pmem s) pt (voff 4000 i)" by simp
  qed
  with copyout_copyin_roundtrip [OF s(1,2), of 4000 200 "\<lambda>i. word_of_nat i" 5 "[]" "\<lambda>_. 0" 0]
  obtain t where "copyout pt 4000 (\<lambda>i. word_of_nat i) 5 200 [] s = Ret 0 [] t"
      "copyin pt (\<lambda>_. 0) 0 4000 200 [] t = Ret (0, copy 0 (\<lambda>i. word_of_nat i) 5 200 (\<lambda>_. 0)) [] t" by auto
  then show ?thesis by (intro exI conjI) (assumption | simp add: copy_def)+
qed

text \<open>
  C11: \<^verbatim>\<open>copyinstr\<close> succeeds just when a NUL-terminated string of fewer than \<open>maxn\<close> bytes, with its
  NUL, lies in user memory at \<open>srcva\<close>; then the buffer holds that string and its NUL. Whatever the
  user passes, the kernel's buffer is never written outside its \<open>maxn\<close> bytes.
\<close>

theorem copyinstr_correct:
  assumes "pt_wf e (pmem s) pt" "0 < e" "unat srcva + unat maxn < 2 ^ 64"
  shows "\<exists>b. copyinstr pt dst d srcva maxn es s = Ret (if \<exists>k. ustr (pmem s) pt srcva (unat maxn) k then 0 else -1, b) es s \<and>
         (\<forall>k. ustr (pmem s) pt srcva (unat maxn) k \<longrightarrow> b = copy d (ubytes (pmem s) pt srcva) 0 (Suc k) dst) \<and>
         (\<forall>i. i < d \<or> d + unat maxn \<le> i \<longrightarrow> b i = dst i)"
proof -
  obtain b where "copyinstr pt dst d srcva maxn es s = Ret (if \<exists>k. ustr (pmem s) pt srcva (unat maxn) k then 0 else -1, b) es s"
     "\<forall>k. ustr (pmem s) pt srcva (unat maxn) k \<longrightarrow> b = copy d (ubytes (pmem s) pt srcva) 0 (Suc k) dst"
    using copyinstr_run [OF assms, of dst d es] by (elim exE conjE)
  then show ?thesis using copyinstr_frame by (intro exI [of _ b] conjI) blast+
qed

theorem copyinstr_correct_witness:
  "\<exists>(s :: kmem) pt. \<exists>b. copyinstr pt (\<lambda>_. 7) 10 4090 20 [] s = Ret (0, b) [] s \<and> b 10 = 0 \<and> b 9 = 7 \<and> b 30 = 7"
proof -
  obtain s :: kmem and xs pt where s: "as_ok xs pt 100 s" "uok_range (pmem s) pt 0 10000" "uview (pmem s) pt = (\<lambda>_. 0)"
    using example_user by blast
  have wf: "pt_wf (kend s) (pmem s) pt" "0 < kend s"
    using pt_ok_kend [OF as_ok_pt [OF s(1)]] s(1) by (auto simp: as_ok_def pt_ok_def)
  have "uok (pmem s) pt 4090" using s(2) unfolding uok_range_def by (elim allE [of _ 4090] impE) simp_all
  then have ok: "uok_range (pmem s) pt 4090 1" by (simp add: uok_range_def)
  then have "ubytes (pmem s) pt 4090 0 = 0" using ubytes_view [of "pmem s" pt 4090 1 0] s(3) by simp
  with ok have u: "ustr (pmem s) pt 4090 20 0" by (simp add: ustr_def)
  from copyinstr_correct [OF wf, of 4090 20 "\<lambda>_. 7" 10 "[]"] obtain b where
    b: "copyinstr pt (\<lambda>_. 7) 10 4090 20 [] s = Ret (if \<exists>k. ustr (pmem s) pt 4090 20 k then 0 else -1, b) [] s"
      "\<forall>k. ustr (pmem s) pt 4090 20 k \<longrightarrow> b = copy 10 (ubytes (pmem s) pt 4090) 0 (Suc k) (\<lambda>_. 7)"
    by auto
  from u b have "copyinstr pt (\<lambda>_. 7) 10 4090 20 [] s = Ret (0, b) [] s" by auto
  moreover have "b = copy 10 (ubytes (pmem s) pt 4090) 0 (Suc 0) (\<lambda>_. 7)" using u b(2) by blast
  ultimately show ?thesis
    using \<open>ubytes (pmem s) pt 4090 0 = 0\<close> by (intro exI [of _ s] exI [of _ pt] exI [of _ b]) (simp add: copy_def)
qed

end
