(* ===== verification/Section.thy ===== *)
theory Section
  imports CopyUser
begin

text \<open>
  Critical sections of the components above the memory system.

  A component reads and changes fields that lie above the machine (harts, registers, locks): its
  updates are \<open>upper\<close>, its views of the state \<open>reader\<close>s. Such updates commute with everything the
  spin lock code does, so that a section that applies one returns with exactly that update. Each
  component instantiates the two bundles \<open>upper_simps\<close> and \<open>reader_simps\<close> for its fields.
\<close>

definition upper :: "('z machine_scheme \<Rightarrow> 'z machine_scheme) \<Rightarrow> bool" where
  "upper g \<longleftrightarrow> (\<forall>t u. g (graft t u) = graft (g t) u)"

definition reader :: "('z machine_scheme \<Rightarrow> 'a) \<Rightarrow> bool" where
  "reader f \<longleftrightarrow> (\<forall>t u. f (graft t u) = f t)"

lemma graft_alt: "graft t u = t\<lparr>hart := hart u, csrs := csrs u, cpus := cpus u, locks := locks u\<rparr>"
  by (cases t, cases u) (simp add: graft_def)

lemmas upper_defs = upper_def reader_def graft_alt

lemma upper_machine:
  assumes "upper g"
  shows "hart (g s) = hart s" "csrs (g s) = csrs s" "cpus (g s) = cpus s" "locks (g s) = locks s"
proof -
  have "g s = graft (g s) s"
    using assms unfolding upper_def by (metis graft_simps(5))
  then show "hart (g s) = hart s" "csrs (g s) = csrs s" "cpus (g s) = cpus s" "locks (g s) = locks s"
    by (metis graft_simps(1), metis graft_simps(2), metis graft_simps(3), metis graft_simps(4))
qed

lemma same_upper:
  "upper g \<Longrightarrow> machine.more u = machine.more s \<Longrightarrow> hart v = hart u \<Longrightarrow> csrs v = csrs u \<Longrightarrow> cpus v = cpus u \<Longrightarrow> locks v = locks u \<Longrightarrow>
   machine.more v = machine.more (g s) \<Longrightarrow> v = g u"
proof -
  assume g: "upper g" and u: "machine.more u = machine.more s"
    and v: "hart v = hart u" "csrs v = csrs u" "cpus v = cpus u" "locks v = locks u" "machine.more v = machine.more (g s)"
  have "u = graft s u" using u by (cases u, cases s) (simp add: graft_def)
  then have "g u = graft (g s) u" using g unfolding upper_def by metis
  with v show ?thesis by (cases v) (simp add: graft_def)
qed

lemma more_machine [simp]:
  "machine.more (touch s) = machine.more s" "machine.more (acquired lk s) = machine.more s"
  "machine.more (pushed s) = machine.more s" "machine.more (upd_csr f s) = machine.more s"
  "machine.more (upd_mycpu h s) = machine.more s" "machine.more (upd_lock lk k s) = machine.more s"
  "machine.more (graft t u) = machine.more t"
  by (simp_all add: machine_defs)

lemma upper_views:
  assumes "upper g"
  shows "this_csr (g s) = this_csr s" "cpuid (g s) = cpuid s" "mycpu (g s) = mycpu s"
    "hart_ok (g s) = hart_ok s" "lock_ready lk (g s) = lock_ready lk s" "holding lk (g s) = holding lk s"
  by (simp_all add: this_csr_def cpuid_def mycpu_def hart_ok_def lock_ready_def holding_def upper_machine [OF assms])

lemma upper_commute:
  assumes "upper g"
  shows "touch (g s) = g (touch s)" "acquired lk (g s) = g (acquired lk s)" "pushed (g s) = g (pushed s)"
    "upd_csr f (g s) = g (upd_csr f s)" "upd_mycpu h (g s) = g (upd_mycpu h s)"
    "upd_lock lk k (g s) = g (upd_lock lk k s)" "graft (g t) u = g (graft t u)"
proof -
  note simps = upper_machine [OF assms] upper_views [OF assms]
  show m: "upd_mycpu h (g s) = g (upd_mycpu h s)" for h s
    by (rule same_upper [OF assms, of _ s]) (simp_all add: simps, simp_all add: upd_mycpu_def simps)
  show c: "upd_csr f (g s) = g (upd_csr f s)" for f s
    by (rule same_upper [OF assms, of _ s]) (simp_all add: simps, simp_all add: upd_csr_def simps)
  show l: "upd_lock lk k (g s) = g (upd_lock lk k s)" for lk k s
    by (rule same_upper [OF assms, of _ s]) (simp_all add: simps)
  show t: "touch (g s) = g (touch s)" for s
    by (simp add: touch_def simps m)
  show p: "pushed (g s) = g (pushed s)" for s
    by (simp add: pushed_def t c m)
  show "acquired lk (g s) = g (acquired lk s)"
    by (simp add: acquired_def p l simps)
  show "graft (g t) u = g (graft t u)"
    using assms by (simp add: upper_def)
qed

lemmas upper_simps = upper_machine upper_views upper_commute

lemma reader_simps:
  assumes "reader f"
  shows "f (graft t u) = f t" "f (touch s) = f s" "f (acquired lk s) = f s" "f (pushed s) = f s"
    "f (upd_csr c s) = f s" "f (upd_mycpu h s) = f s" "f (upd_lock lk k s) = f s"
proof -
  have *: "f u = f s" if "machine.more u = machine.more s" for u
  proof -
    have "u = graft s u" using that by (cases u, cases s) (simp add: graft_def)
    with assms show ?thesis unfolding reader_def by metis
  qed
  show "f (graft t u) = f t" using assms by (simp add: reader_def)
  show "f (touch s) = f s" "f (acquired lk s) = f s" "f (pushed s) = f s"
    "f (upd_csr c s) = f s" "f (upd_mycpu h s) = f s" "f (upd_lock lk k s) = f s"
    by (rule *, simp)+
qed

lemma release_upper:
  assumes "lock_ready lk s" "upper g"
  shows "release lk es (g (acquired lk s)) = Ret () es (g (touch s))"
  using release_section [OF assms(1), of "g (acquired lk s)" es]
  by (simp add: upper_simps [OF assms(2)])

text \<open>A section that applies an update of the component.\<close>

lemma section_run:
  assumes "lock_ready lk s" "upper g"
  shows "seqs [acquire lk, modify g, release lk] es s = Ret () es (g (touch s))"
  by (simp add: km_simps acquire_ready [OF assms(1)] release_upper [OF assms])

subsection \<open>Releasing in any order\<close>

definition popped :: "'z machine_scheme \<Rightarrow> 'z machine_scheme" where
  "popped s =
     (let t = upd_mycpu (\<lambda>c. c\<lparr>cpu_noff := cpu_noff c - 1\<rparr>) s
      in if cpu_noff (mycpu t) = 0 \<and> cpu_intena (mycpu t) then upd_csr intr_on t else t)"

definition freed :: "lockid \<Rightarrow> 'z machine_scheme \<Rightarrow> 'z machine_scheme" where
  "freed lk s = popped (upd_lock lk (\<lambda>l. l\<lparr>sl_cpu := None, sl_locked := 0\<rparr>) s)"

lemma release_held:
  assumes "holding lk s" "hart_ok s" "0 < cpu_noff (mycpu s)"
  shows "release lk es s = Ret () es (freed lk s)"
proof -
  have "\<not> intr_get (this_csr s)" "1 \<le> cpu_noff (mycpu s)"
    using assms(2,3) by (auto simp: hart_ok_def)
  then show ?thesis using assms(1)
    by (simp add: release_def pop_off_def km_simps freed_def popped_def Let_def) (simp add: upd_lock_def)
qed

lemma upper_freed: "upper g \<Longrightarrow> freed lk (g s) = g (freed lk s)"
  by (simp add: freed_def popped_def Let_def upper_simps)

lemma cpus_pushed:
  "cpus (pushed s) = (cpus (touch s))(cpuid s := (mycpu (touch s))\<lparr>cpu_noff := cpu_noff (mycpu s) + 1\<rparr>)"
proof -
  have "mycpu (upd_csr intr_off (touch s)) = mycpu (touch s)" by simp
  then show ?thesis unfolding pushed_def upd_mycpu_def by simp
qed

lemma this_csr_acquired [simp]: "this_csr (acquired lk s) = intr_off (this_csr s)"
  by (simp add: acquired_def)

lemma mycpu_acquired: "mycpu (acquired lk s) = (mycpu (touch s))\<lparr>cpu_noff := cpu_noff (mycpu s) + 1\<rparr>"
  by (simp add: acquired_def)

text \<open>
  Two locks are taken in turn and the first is given back: what remains is the section of the second.
\<close>

lemma freed_first:
  assumes "lock_ready lk s" "lk \<noteq> lk'"
  shows "freed lk (acquired lk' (acquired lk s)) = acquired lk' s"
proof -
  have noff: "0 \<le> cpu_noff (mycpu s)" "0 < cpu_noff (mycpu s) \<Longrightarrow> \<not> intr_get (this_csr s)"
    using assms(1) by (auto simp: lock_ready_def hart_ok_def)
  have l: "(locks s lk)\<lparr>sl_cpu := None, sl_locked := 0\<rparr> = locks s lk"
    using assms(1) by (cases "locks s lk") (simp add: lock_ready_def)
  define t where "t = acquired lk' (acquired lk s)"
  have tt: "touch (acquired lk s) = acquired lk s"
    using noff by (intro touch_nested) (simp add: mycpu_acquired)
  have myt: "mycpu t = (mycpu (touch s))\<lparr>cpu_noff := cpu_noff (mycpu s) + 2\<rparr>"
    by (simp add: t_def mycpu_acquired tt)
  have "freed lk t = upd_mycpu (\<lambda>c. c\<lparr>cpu_noff := cpu_noff c - 1\<rparr>)
      (upd_lock lk (\<lambda>l. l\<lparr>sl_cpu := None, sl_locked := 0\<rparr>) t)"
    using noff by (simp add: freed_def popped_def Let_def myt)
  also have "\<dots> = acquired lk' s"
  proof (rule machine.equality)
    show "cpus (upd_mycpu (\<lambda>c. c\<lparr>cpu_noff := cpu_noff c - 1\<rparr>) (upd_lock lk (\<lambda>l. l\<lparr>sl_cpu := None, sl_locked := 0\<rparr>) t))
        = cpus (acquired lk' s)"
      by (simp add: upd_mycpu_def myt) (simp add: t_def cpus_pushed tt add.commute)
    show "csrs (upd_mycpu (\<lambda>c. c\<lparr>cpu_noff := cpu_noff c - 1\<rparr>) (upd_lock lk (\<lambda>l. l\<lparr>sl_cpu := None, sl_locked := 0\<rparr>) t))
        = csrs (acquired lk' s)"
      by (simp add: t_def) (simp add: this_csr_def intr_off_id)
    show "locks (upd_mycpu (\<lambda>c. c\<lparr>cpu_noff := cpu_noff c - 1\<rparr>) (upd_lock lk (\<lambda>l. l\<lparr>sl_cpu := None, sl_locked := 0\<rparr>) t))
        = locks (acquired lk' s)"
      using assms(2) l by (auto simp: t_def fun_eq_iff)
  qed (simp_all add: t_def)
  finally show ?thesis by (simp add: t_def)
qed

subsection \<open>Runs that do not block\<close>

lemma each_do_Nil: "each_do [] f es s = Ret () es s"
  by (simp add: each_do_def km_simps)

lemma each_do_Cons: "each_do (x # xs) f es s = bnd (f x) (\<lambda>_. each_do xs f) es s"
  by (simp add: each_do_def km_simps bnd_assoc [symmetric] split: res.splits)

text \<open>
  \<open>runs m s P\<close>: from \<open>s\<close> the routine returns whatever the schedule, without consuming any of it, and
  its value and final state satisfy \<open>P\<close>. These are total-correctness statements; the rules compose
  them along the code.
\<close>

definition runs :: "('s, 'a) km \<Rightarrow> 's \<Rightarrow> ('a \<Rightarrow> 's \<Rightarrow> bool) \<Rightarrow> bool" where
  "runs m s P \<longleftrightarrow> (\<forall>es. \<exists>a t. m es s = Ret a es t \<and> P a t)"

lemma runs_Ret: "(\<And>es. m es s = Ret a es t) \<Longrightarrow> P a t \<Longrightarrow> runs m s P"
  by (auto simp: runs_def)

lemma runs_mono: "runs m s P \<Longrightarrow> (\<And>a t. P a t \<Longrightarrow> Q a t) \<Longrightarrow> runs m s Q"
  by (fastforce simp: runs_def)

lemma runs_bnd: "runs m s P \<Longrightarrow> (\<And>a t. P a t \<Longrightarrow> runs (f a) t Q) \<Longrightarrow> runs (bnd m f) s Q"
  unfolding runs_def
proof
  fix es assume "\<forall>es. \<exists>a t. m es s = Ret a es t \<and> P a t" and f: "\<And>a t. P a t \<Longrightarrow> \<forall>es. \<exists>b u. f a es t = Ret b es u \<and> Q b u"
  then obtain a t where "m es s = Ret a es t" "P a t" by blast
  with f [of a t] show "\<exists>b u. bnd m f es s = Ret b es u \<and> Q b u" by (simp add: bnd_def)
qed

lemma runs_sq: "runs m s P \<Longrightarrow> (\<And>a t. P a t \<Longrightarrow> runs n t Q) \<Longrightarrow> runs (sq m n) s Q"
  unfolding sq_def by (rule runs_bnd)

lemma sq_ret: "sq m (ret ()) = m"
  by (intro ext) (simp add: sq_def bnd_def ret_def split: res.splits)

lemma runs_ret [simp]: "runs (ret a) s P = P a s"
  by (simp add: runs_def ret_def)

lemma runs_gets [simp]: "runs (gets f) s P = P (f s) s"
  by (simp add: runs_def gets_def)

lemma runs_modify [simp]: "runs (modify f) s P = P () (f s)"
  by (simp add: runs_def modify_def)

lemma runs_bnd_gets [simp]: "runs (bnd (gets f) g) s P = runs (g (f s)) s P"
  by (simp add: runs_def bnd_def gets_def)

lemma runs_sq_modify [simp]: "runs (sq (modify f) n) s P = runs n (f s) P"
  by (simp add: runs_def sq_def bnd_def modify_def)

lemma runs_each_do:
  assumes "\<And>i s. i < length xs \<Longrightarrow> I i s \<Longrightarrow> runs (f (xs ! i)) s (\<lambda>_. I (Suc i))" "I 0 s"
  shows "runs (each_do xs f) s (\<lambda>_. I (length xs))"
  using assms
proof (induction xs arbitrary: I s)
  case (Cons x xs)
  have "runs (f x) s (\<lambda>_. I (Suc 0))" using Cons.prems(1) [of 0 s] Cons.prems(2) by simp
  moreover have "runs (each_do xs f) t (\<lambda>_. I (Suc (length xs)))" if "I (Suc 0) t" for t
    using Cons.IH [of "\<lambda>i. I (Suc i)" t] Cons.prems(1) [of "Suc i" for i] that by fastforce
  ultimately have "runs (bnd (f x) (\<lambda>_. each_do xs f)) s (\<lambda>_. I (Suc (length xs)))"
    by (rule runs_bnd)
  then show ?case by (simp add: runs_def each_do_Cons)
qed (simp add: runs_def each_do_Nil)

subsection \<open>The fields of the memory system\<close>

lemma upper_memory: "upper (pmem_update h)" "upper (freelist_update k)" "upper (kernel_pagetable_update g)"
  by (simp_all add: upper_defs)

lemma reader_memory:
  "reader pmem" "reader freelist" "reader kend" "reader trampoline" "reader etext" "reader kernel_pagetable"
  by (simp_all add: upper_defs)

lemmas memory_simps [simp] =
  upper_simps [OF upper_memory(1)] upper_simps [OF upper_memory(2)] upper_simps [OF upper_memory(3)]
  reader_simps [OF reader_memory(1)] reader_simps [OF reader_memory(2)] reader_simps [OF reader_memory(3)]
  reader_simps [OF reader_memory(4)] reader_simps [OF reader_memory(5)] reader_simps [OF reader_memory(6)]

end
