(* ===== verification/Proc.thy ===== *)
theory Proc
  imports Section
begin

text \<open>
  The process table and the CPU's hand-over between processes (\<^verbatim>\<open>kernel/proc.c\<close>,
  \<^verbatim>\<open>kernel/proc.h\<close>), without the routines that need the file system (see \<open>Process\<close>).

  A \<^verbatim>\<open>struct proc *\<close> into \<^verbatim>\<open>proc[]\<close> is its index, a null pointer \<open>None\<close>; using a null pointer
  from \<^verbatim>\<open>myproc()\<close> faults in the kernel, which \<^verbatim>\<open>kerneltrap\<close> answers with a panic. A
  C \<^verbatim>\<open>int\<close> is a 32-bit word read as signed. The trapframe is a page of physical memory.
  \<^verbatim>\<open>swtch\<close> lets the rest of the system run until the thread is resumed: \<open>others_run\<close>.
\<close>

subsection \<open>State\<close>


datatype procstate = UNUSED | SLEEPING | RUNNABLE | RUNNING | ZOMBIE

record proc =
  p_state :: procstate
  p_parent :: "nat option"
  p_chan :: "chan option"
  p_killed :: i32
  p_xstate :: i32
  p_pid :: i32
  p_kstack :: u64
  p_sz :: u64
  p_pagetable :: u64
  p_trapframe :: u64
  p_context :: kcontext
  p_ofile :: "nat \<Rightarrow> nat option"
  p_cwd :: "nat option"
  p_name :: bytes

record kproc = vm +
  procs :: "nat \<Rightarrow> proc"
  initproc :: "nat option"
  nextpid :: i32
  ticks :: u32
  forkret_first :: bool
  forkret_addr :: u64

definition upd_proc :: "nat \<Rightarrow> (proc \<Rightarrow> proc) \<Rightarrow> 'z kproc_scheme \<Rightarrow> 'z kproc_scheme" where
  "upd_proc p f s = s\<lparr>procs := (procs s)(p := f (procs s p))\<rparr>"

text \<open>Fields of \<^verbatim>\<open>struct trapframe\<close>, by their offset in the page.\<close>

abbreviation (input) TF_kernel_satp :: nat where "TF_kernel_satp \<equiv> 0"
abbreviation (input) TF_kernel_sp :: nat where "TF_kernel_sp \<equiv> 8"
abbreviation (input) TF_kernel_trap :: nat where "TF_kernel_trap \<equiv> 16"
abbreviation (input) TF_epc :: nat where "TF_epc \<equiv> 24"
abbreviation (input) TF_kernel_hartid :: nat where "TF_kernel_hartid \<equiv> 32"
abbreviation (input) TF_sp :: nat where "TF_sp \<equiv> 48"
abbreviation (input) TF_a0 :: nat where "TF_a0 \<equiv> 112"
abbreviation (input) TF_a1 :: nat where "TF_a1 \<equiv> 120"
abbreviation (input) TF_a7 :: nat where "TF_a7 \<equiv> 168"

definition tf_get :: "nat \<Rightarrow> nat \<Rightarrow> 'z kproc_scheme \<Rightarrow> u64" where
  "tf_get p off s = ld64 (pmem s) (unat (p_trapframe (procs s p)) + off)"

definition tf_set :: "nat \<Rightarrow> nat \<Rightarrow> u64 \<Rightarrow> ('z kproc_scheme, unit) km" where
  "tf_set p off v = modify (\<lambda>s. s\<lparr>pmem := st64 (unat (p_trapframe (procs s p)) + off) v (pmem s)\<rparr>)"

subsection \<open>The table\<close>

definition procinit :: "('z kproc_scheme, unit) km" where
  "procinit =
     sq (initlock L_pid ''nextpid'')
     (sq (each_do [0..<NPROC] (\<lambda>p.
        sq (initlock (L_proc p) ''proc'')
        (bnd kalloc (\<lambda>pa.
         if pa = 0 then panic ''kalloc''
         else sq (kvmmap (KSTACK p) pa PGSIZE (PTE_R OR PTE_W))
                 (modify (upd_proc p (\<lambda>q. q\<lparr>p_kstack := KSTACK p\<rparr>)))))))
      kvminithart)"

definition myproc :: "('z kproc_scheme, nat option) km" where
  "myproc =
     sq push_off
     (bnd (gets (\<lambda>s. cpu_proc (mycpu s))) (\<lambda>p.
      sq pop_off (ret p)))"

definition curproc :: "('z kproc_scheme, nat) km" where
  "curproc = bnd myproc (\<lambda>p. case p of None \<Rightarrow> panic ''kerneltrap'' | Some p \<Rightarrow> ret p)"

definition allocpid :: "('z kproc_scheme, i32) km" where
  "allocpid =
     sq (acquire L_pid)
     (bnd (gets nextpid) (\<lambda>pid.
      sq (modify (\<lambda>s. s\<lparr>nextpid := nextpid s + 1\<rparr>))
      (sq (release L_pid) (ret pid))))"

definition proc_pagetable :: "nat \<Rightarrow> ('z kproc_scheme, u64) km" where
  "proc_pagetable p =
     bnd uvmcreate (\<lambda>pagetable.
     if pagetable = 0 then ret 0
     else
       bnd (gets trampoline) (\<lambda>tr.
       bnd (mappages pagetable TRAMPOLINE PGSIZE tr (PTE_R OR PTE_X)) (\<lambda>r.
       if r < 0 then sq (uvmfree pagetable 0) (ret 0)
       else
         bnd (gets (\<lambda>s. p_trapframe (procs s p))) (\<lambda>tf.
         bnd (mappages pagetable TRAPFRAME PGSIZE tf (PTE_R OR PTE_W)) (\<lambda>r.
         if r < 0 then sq (uvmunmap pagetable TRAMPOLINE 1 False)
                       (sq (uvmfree pagetable 0) (ret 0))
         else ret pagetable)))))"

definition proc_freepagetable :: "u64 \<Rightarrow> u64 \<Rightarrow> ('z kproc_scheme, unit) km" where
  "proc_freepagetable pagetable sz =
     seqs [uvmunmap pagetable TRAMPOLINE 1 False,
           uvmunmap pagetable TRAPFRAME 1 False,
           uvmfree pagetable sz]"

definition freeproc :: "nat \<Rightarrow> ('z kproc_scheme, unit) km" where
  "freeproc p =
     bnd (gets (\<lambda>s. procs s p)) (\<lambda>q.
     seqs [whenk (p_trapframe q \<noteq> 0) (kfree (p_trapframe q)),
           modify (upd_proc p (\<lambda>q. q\<lparr>p_trapframe := 0\<rparr>)),
           whenk (p_pagetable q \<noteq> 0) (proc_freepagetable (p_pagetable q) (p_sz q)),
           modify (upd_proc p (\<lambda>q. q\<lparr>p_pagetable := 0, p_sz := 0, p_pid := 0, p_parent := None,
              p_name := (p_name q)(0 := 0), p_chan := None, p_killed := 0, p_xstate := 0,
              p_state := UNUSED\<rparr>))])"

text \<open>The part of \<^verbatim>\<open>allocproc\<close> after the label \<^verbatim>\<open>found\<close>, with \<^verbatim>\<open>p->lock\<close> held.\<close>

definition allocproc_found :: "nat \<Rightarrow> ('z kproc_scheme, nat option) km" where
  "allocproc_found p =
     bnd allocpid (\<lambda>pid.
     sq (modify (upd_proc p (\<lambda>q. q\<lparr>p_pid := pid\<rparr>)))
     (bnd kalloc (\<lambda>tf.
      sq (modify (upd_proc p (\<lambda>q. q\<lparr>p_trapframe := tf\<rparr>)))
      (if tf = 0 then sq (release (L_proc p)) (ret None)
       else
         bnd (proc_pagetable p) (\<lambda>pt.
         sq (modify (upd_proc p (\<lambda>q. q\<lparr>p_pagetable := pt\<rparr>)))
         (if pt = 0 then sq (freeproc p) (sq (release (L_proc p)) (ret None))
          else
            sq (modify (\<lambda>s. upd_proc p (\<lambda>q. q\<lparr>p_context := zero_context\<lparr>ctx_ra := forkret_addr s,
                  ctx_sp := p_kstack q + PGSIZE\<rparr>\<rparr>) s))
               (ret (Some p))))))))"

definition allocproc :: "('z kproc_scheme, nat option) km" where
  "allocproc =
     bnd (each [0..<NPROC] (\<lambda>p.
            sq (acquire (L_proc p))
            (bnd (gets (\<lambda>s. p_state (procs s p))) (\<lambda>st.
             if st = UNUSED then ret (Some p)
             else sq (release (L_proc p)) (ret None)))))
         (\<lambda>found. case found of None \<Rightarrow> ret None | Some p \<Rightarrow> allocproc_found p)"

definition growproc :: "i32 \<Rightarrow> ('z kproc_scheme, int) km" where
  "growproc n =
     bnd curproc (\<lambda>p.
     bnd (gets (\<lambda>s. procs s p)) (\<lambda>q.
     let sz = ucast (p_sz q) :: u32;
         finish = (\<lambda>sz. sq (modify (upd_proc p (\<lambda>q. q\<lparr>p_sz := ucast (sz :: u32)\<rparr>))) (ret 0))
     in if 0 < sint n then
          bnd (uvmalloc (p_pagetable q) (ucast sz) (ucast (sz + n))) (\<lambda>r.
          if (ucast r :: u32) = 0 then ret (-1) else finish (ucast r))
        else if sint n < 0 then
          bnd (uvmdealloc (p_pagetable q) (ucast sz) (ucast (sz + n))) (\<lambda>r. finish (ucast r))
        else finish sz))"

definition reparent :: "nat \<Rightarrow> ('z kproc_scheme, unit) km" where
  "reparent p =
     each_do [0..<NPROC] (\<lambda>pp.
       bnd (gets (\<lambda>s. p_parent (procs s pp))) (\<lambda>par.
       whenk (par = Some p)
         (seqs [acquire (L_proc pp),
                modify (\<lambda>s. upd_proc pp (\<lambda>q. q\<lparr>p_parent := initproc s\<rparr>) s),
                release (L_proc pp)])))"

subsection \<open>Switching, sleeping, waking\<close>

definition sched :: "('z kproc_scheme, unit) km" where
  "sched =
     bnd curproc (\<lambda>p.
     bnd (gets (holding (L_proc p))) (\<lambda>h.
     if \<not> h then panic ''sched p->lock'' else
     bnd (gets (\<lambda>s. cpu_noff (mycpu s))) (\<lambda>noff.
     if noff \<noteq> 1 then panic ''sched locks'' else
     bnd (gets (\<lambda>s. p_state (procs s p))) (\<lambda>st.
     if st = RUNNING then panic ''sched running'' else
     bnd (gets (\<lambda>s. intr_get (this_csr s))) (\<lambda>on.
     if on then panic ''sched interruptible'' else
     bnd (gets (\<lambda>s. cpu_intena (mycpu s))) (\<lambda>intena.
     sq others_run
        (modify (upd_mycpu (\<lambda>c. c\<lparr>cpu_intena := intena\<rparr>)))))))))"

definition yield :: "('z kproc_scheme, unit) km" where
  "yield =
     bnd curproc (\<lambda>p.
     seqs [acquire (L_proc p),
           modify (upd_proc p (\<lambda>q. q\<lparr>p_state := RUNNABLE\<rparr>)),
           sched,
           release (L_proc p)])"

definition sleep :: "chan \<Rightarrow> lockid \<Rightarrow> ('z kproc_scheme, unit) km" where
  "sleep chn lk =
     bnd curproc (\<lambda>p.
     seqs [whenk (lk \<noteq> L_proc p) (sq (acquire (L_proc p)) (release lk)),
           modify (upd_proc p (\<lambda>q. q\<lparr>p_chan := Some chn\<rparr>)),
           modify (upd_proc p (\<lambda>q. q\<lparr>p_state := SLEEPING\<rparr>)),
           sched,
           modify (upd_proc p (\<lambda>q. q\<lparr>p_chan := None\<rparr>)),
           whenk (lk \<noteq> L_proc p) (sq (release (L_proc p)) (acquire lk))])"

definition wakeup_one :: "chan \<Rightarrow> proc \<Rightarrow> proc" where
  "wakeup_one chn q = (if p_state q = SLEEPING \<and> p_chan q = Some chn then q\<lparr>p_state := RUNNABLE\<rparr> else q)"

definition wakeup :: "chan \<Rightarrow> ('z kproc_scheme, unit) km" where
  "wakeup chn =
     each_do [0..<NPROC] (\<lambda>p.
       seqs [acquire (L_proc p), modify (upd_proc p (wakeup_one chn)), release (L_proc p)])"

definition wakeup1 :: "nat \<Rightarrow> ('z kproc_scheme, unit) km" where
  "wakeup1 p =
     bnd (gets (holding (L_proc p))) (\<lambda>h.
     if \<not> h then panic ''wakeup1''
     else modify (upd_proc p (\<lambda>q. if p_chan q = Some (Ch_proc p) \<and> p_state q = SLEEPING
                                  then q\<lparr>p_state := RUNNABLE\<rparr> else q)))"

definition kill_proc :: "proc \<Rightarrow> proc" where
  "kill_proc q = (if p_state q = SLEEPING then q\<lparr>p_killed := 1, p_state := RUNNABLE\<rparr> else q\<lparr>p_killed := 1\<rparr>)"

definition kill :: "i32 \<Rightarrow> ('z kproc_scheme, int) km" where
  "kill pid =
     bnd (each [0..<NPROC] (\<lambda>p.
            sq (acquire (L_proc p))
            (bnd (gets (\<lambda>s. p_pid (procs s p))) (\<lambda>q.
             if q = pid then
               sq (modify (upd_proc p kill_proc)) (sq (release (L_proc p)) (ret (Some 0)))
             else sq (release (L_proc p)) (ret None)))))
         (\<lambda>r. ret (case r of None \<Rightarrow> -1 | Some v \<Rightarrow> v))"

text \<open>
  The scheduler of one CPU. \<open>scheduler_try c p\<close> is the body of the scan, which returns whether it
  ran \<open>p\<close>; a round is one pass of \<^verbatim>\<open>for(;;)\<close>, and the loop has no end. \<^verbatim>\<open>wfi\<close> waits for the rest
  of the system too.
\<close>

definition scheduler_try :: "nat \<Rightarrow> nat \<Rightarrow> ('z kproc_scheme, bool) km" where
  "scheduler_try c p =
     sq (acquire (L_proc p))
     (bnd (gets (\<lambda>s. p_state (procs s p))) (\<lambda>st.
      if st = RUNNABLE then
        sq (modify (upd_proc p (\<lambda>q. q\<lparr>p_state := RUNNING\<rparr>)))
        (sq (modify (\<lambda>s. s\<lparr>cpus := (cpus s)(c := (cpus s c)\<lparr>cpu_proc := Some p\<rparr>)\<rparr>))
        (sq others_run
        (sq (modify (\<lambda>s. s\<lparr>cpus := (cpus s)(c := (cpus s c)\<lparr>cpu_proc := None\<rparr>)\<rparr>))
        (sq (release (L_proc p)) (ret True)))))
      else sq (release (L_proc p)) (ret False)))"

fun scheduler_scan :: "nat \<Rightarrow> nat list \<Rightarrow> bool \<Rightarrow> ('z kproc_scheme, bool) km" where
  "scheduler_scan c [] found = ret found"
| "scheduler_scan c (p # ps) found =
     bnd (scheduler_try c p) (\<lambda>ran. scheduler_scan c ps (found \<or> ran))"

definition scheduler_round :: "nat \<Rightarrow> ('z kproc_scheme, unit option) km" where
  "scheduler_round c =
     sq (modify (upd_csr intr_on))
     (bnd (scheduler_scan c [0..<NPROC] False) (\<lambda>found.
      sq (whenk (\<not> found) (sq (modify (upd_csr intr_on)) others_run))
         (ret None)))"

definition scheduler :: "('z kproc_scheme, unit) km" where
  "scheduler =
     bnd (gets cpuid) (\<lambda>c.
     sq (modify (\<lambda>s. s\<lparr>cpus := (cpus s)(c := (cpus s c)\<lparr>cpu_proc := None\<rparr>)\<rparr>))
        (wait_loop (scheduler_round c)))"

subsection \<open>Copies to and from either space\<close>

text \<open>
  A kernel address is in physical memory (\<open>Phys\<close>, which the kernel maps one to one) or an offset in
  a buffer of the caller (\<open>Kbuf\<close>), which the copy takes and returns.
\<close>

datatype kaddr = User u64 | Phys u64 | Kbuf nat

fun kaddr_add :: "kaddr \<Rightarrow> nat \<Rightarrow> kaddr" where
  "kaddr_add (User va) n = User (va + word_of_nat n)"
| "kaddr_add (Phys pa) n = Phys (pa + word_of_nat n)"
| "kaddr_add (Kbuf d) n = Kbuf (d + n)"

fun either_copyout :: "kaddr \<Rightarrow> bytes \<Rightarrow> nat \<Rightarrow> u64 \<Rightarrow> bytes \<Rightarrow> ('z kproc_scheme, int \<times> bytes) km" where
  "either_copyout dst src so len buf =
     bnd myproc (\<lambda>p.
     case dst of
       User va \<Rightarrow> (case p of None \<Rightarrow> panic ''kerneltrap''
         | Some p \<Rightarrow> bnd (gets (\<lambda>s. p_pagetable (procs s p))) (\<lambda>pt.
             bnd (copyout pt va src so len) (\<lambda>r. ret (r, buf))))
     | Phys pa \<Rightarrow> sq (modify (\<lambda>s. s\<lparr>pmem := copy (unat pa) src so (unat len) (pmem s)\<rparr>)) (ret (0, buf))
     | Kbuf d \<Rightarrow> ret (0, copy d src so (unat len) buf))"

fun either_copyin :: "bytes \<Rightarrow> nat \<Rightarrow> kaddr \<Rightarrow> u64 \<Rightarrow> bytes \<Rightarrow> ('z kproc_scheme, int \<times> bytes) km" where
  "either_copyin dst d src len buf =
     bnd myproc (\<lambda>p.
     case src of
       User va \<Rightarrow> (case p of None \<Rightarrow> panic ''kerneltrap''
         | Some p \<Rightarrow> bnd (gets (\<lambda>s. p_pagetable (procs s p))) (\<lambda>pt. copyin pt dst d va len))
     | Phys pa \<Rightarrow> bnd (gets pmem) (\<lambda>m. ret (0, copy d m (unat pa) (unat len) dst))
     | Kbuf so \<Rightarrow> ret (0, copy d buf so (unat len) dst))"

subsection \<open>Running the routines\<close>

lemma upper_proc:
  "upper (procs_update g)" "upper (initproc_update f1)" "upper (nextpid_update f2)"
  "upper (ticks_update f3)" "upper (forkret_first_update f4)"
  by (simp_all add: upper_defs)

lemma reader_proc:
  "reader procs" "reader initproc" "reader nextpid" "reader ticks" "reader forkret_first" "reader forkret_addr"
  by (simp_all add: upper_defs)

lemmas proc_simps [simp] =
  upper_simps [OF upper_proc(1)] upper_simps [OF upper_proc(2)] upper_simps [OF upper_proc(3)]
  upper_simps [OF upper_proc(4)] upper_simps [OF upper_proc(5)]
  reader_simps [OF reader_proc(1)] reader_simps [OF reader_proc(2)] reader_simps [OF reader_proc(3)]
  reader_simps [OF reader_proc(4)] reader_simps [OF reader_proc(5)] reader_simps [OF reader_proc(6)]

lemma upper_upd_proc: "upper (upd_proc p f)"
  by (simp add: upper_def upd_proc_def)

lemma myproc_run: "hart_ok s \<Longrightarrow> myproc es s = Ret (cpu_proc (mycpu s)) es (touch s)"
  by (simp add: myproc_def km_simps push_off_run pop_off_after_push)

lemma curproc_run: "hart_ok s \<Longrightarrow> cpu_proc (mycpu s) = Some p \<Longrightarrow> curproc es s = Ret p es (touch s)"
  by (simp add: curproc_def km_simps myproc_run)

lemma curproc_null: "hart_ok s \<Longrightarrow> cpu_proc (mycpu s) = None \<Longrightarrow> curproc es s = Panic ''kerneltrap''"
  by (simp add: curproc_def km_simps myproc_run)

text \<open>A loop over the table whose body is a section of one process.\<close>

definition procs_ready :: "'z kproc_scheme \<Rightarrow> bool" where
  "procs_ready s \<longleftrightarrow> list_all (\<lambda>p. lock_ready (L_proc p) s) [0..<NPROC]"

definition wake_table :: "chan \<Rightarrow> (nat \<Rightarrow> proc) \<Rightarrow> nat \<Rightarrow> proc" where
  "wake_table chn f p = (if p < NPROC then wakeup_one chn (f p) else f p)"

definition woken :: "chan \<Rightarrow> 'z kproc_scheme \<Rightarrow> 'z kproc_scheme" where
  "woken chn s = (touch s)\<lparr>procs := wake_table chn (procs s)\<rparr>"

lemma wakeup_loop:
  assumes "distinct ps" "\<forall>p\<in>set ps. lock_ready (L_proc p) s" "ps \<noteq> []"
  shows "each_do ps (\<lambda>p. seqs [acquire (L_proc p), modify (upd_proc p (wakeup_one chn)), release (L_proc p)]) es s
    = Ret () es ((touch s)\<lparr>procs := (\<lambda>p. if p \<in> set ps then wakeup_one chn (procs s p) else procs s p)\<rparr>)"
  using assms
proof (induction ps arbitrary: s)
  case (Cons p ps)
  define s1 where "s1 = upd_proc p (wakeup_one chn) (touch s)"
  have run: "seqs [acquire (L_proc p), modify (upd_proc p (wakeup_one chn)), release (L_proc p)] es s = Ret () es s1"
    unfolding s1_def by (rule section_run [OF _ upper_upd_proc]) (use Cons.prems in simp)
  show ?case
  proof (cases "ps = []")
    case True
    have "(procs s)(p := wakeup_one chn (procs s p)) = (\<lambda>q. if q = p then wakeup_one chn (procs s q) else procs s q)"
      by auto
    with run show ?thesis
      by (simp only: each_do_Cons bnd_def res.case True each_do_Nil) (simp add: s1_def upd_proc_def)
  next
    case False
    have "\<forall>q\<in>set ps. lock_ready (L_proc q) s1"
      using Cons.prems by (simp add: s1_def upd_proc_def)
    with Cons.IH [of s1] Cons.prems(1) False run have
      "each_do (p # ps) (\<lambda>p. seqs [acquire (L_proc p), modify (upd_proc p (wakeup_one chn)), release (L_proc p)]) es s
        = Ret () es ((touch s1)\<lparr>procs := (\<lambda>p. if p \<in> set ps then wakeup_one chn (procs s1 p) else procs s1 p)\<rparr>)"
      by (simp only: each_do_Cons bnd_def res.case distinct.simps simp_thms)
    moreover have "(\<lambda>q. if q \<in> set ps then wakeup_one chn (procs s1 q) else procs s1 q)
        = (\<lambda>q. if q \<in> set (p # ps) then wakeup_one chn (procs s q) else procs s q)"
      using Cons.prems(1) by (auto simp: s1_def upd_proc_def)
    moreover have "(touch s1)\<lparr>procs := h\<rparr> = (touch s)\<lparr>procs := h\<rparr>" for h
      by (simp add: s1_def upd_proc_def)
    ultimately show ?thesis by simp
  qed
qed simp

lemma wakeup_run: "procs_ready s \<Longrightarrow> wakeup chn es s = Ret () es (woken chn s)"
  unfolding wakeup_def woken_def procs_ready_def
  by (subst wakeup_loop) (auto simp: list_all_iff atLeast0LessThan fun_eq_iff wake_table_def)


lemma each_Cons: "each (x # xs) f es s = bnd (f x) (\<lambda>r. case r of Some v \<Rightarrow> ret (Some v) | None \<Rightarrow> each xs f) es s"
  by simp

lemma kill_loop:
  assumes "\<forall>p\<in>set ps. lock_ready (L_proc p) s"
  shows "each ps (\<lambda>p.
            sq (acquire (L_proc p))
            (bnd (gets (\<lambda>s. p_pid (procs s p))) (\<lambda>q.
             if q = pid then
               sq (modify (upd_proc p kill_proc)) (sq (release (L_proc p)) (ret (Some (0 :: int))))
             else sq (release (L_proc p)) (ret None)))) es s
    = (case filter (\<lambda>p. p_pid (procs s p) = pid) ps of
         [] \<Rightarrow> Ret None es (if ps = [] then s else touch s)
       | p # _ \<Rightarrow> Ret (Some 0) es (upd_proc p kill_proc (touch s)))"
  using assms
proof (induction ps arbitrary: s)
  case (Cons p ps)
  have rdy: "lock_ready (L_proc p) s" using Cons.prems by simp
  note acq = acquire_ready [OF rdy]
  have rel: "release (L_proc p) es (acquired (L_proc p) s) = Ret () es (touch s)" for es
    using release_upper [OF rdy, of "\<lambda>s. s"] by (simp add: upper_def)
  have kil: "release (L_proc p) es (upd_proc p kill_proc (acquired (L_proc p) s)) = Ret () es (upd_proc p kill_proc (touch s))" for es
    by (rule release_upper [OF rdy upper_upd_proc])
  show ?case
  proof (cases "p_pid (procs s p) = pid")
    case True
    then show ?thesis by (simp add: km_simps acq kil)
  next
    case False
    have "\<forall>q\<in>set ps. lock_ready (L_proc q) (touch s)" using Cons.prems by simp
    from Cons.IH [OF this] False show ?thesis
      by (simp add: km_simps acq rel split: list.splits)
  qed
qed (simp add: km_simps)

lemma kill_run:
  "procs_ready s \<Longrightarrow> kill pid es s =
     (case filter (\<lambda>p. p_pid (procs s p) = pid) [0..<NPROC] of
        [] \<Rightarrow> Ret (-1) es (touch s)
      | p # _ \<Rightarrow> Ret 0 es (upd_proc p kill_proc (touch s)))"
  unfolding kill_def procs_ready_def
  by (subst bnd_def, subst kill_loop) (auto simp: list_all_iff km_simps split: list.splits)

text \<open>What \<^verbatim>\<open>sched\<close> demands of its caller.\<close>

definition sched_ok :: "nat \<Rightarrow> 'z kproc_scheme \<Rightarrow> bool" where
  "sched_ok p s \<longleftrightarrow> hart_ok s \<and> cpu_proc (mycpu s) = Some p \<and> holding (L_proc p) s \<and>
     cpu_noff (mycpu s) = 1 \<and> p_state (procs s p) \<noteq> RUNNING"

lemma holding_touch [simp]: "holding lk (touch s) = holding lk s"
  by (simp add: holding_def)

lemma sched_run:
  assumes "hart_ok s" "cpu_proc (mycpu s) = Some p"
  shows "sched es s =
    (if \<not> holding (L_proc p) s then Panic ''sched p->lock''
     else if cpu_noff (mycpu s) \<noteq> 1 then Panic ''sched locks''
     else if p_state (procs s p) = RUNNING then Panic ''sched running''
     else case es of
       [] \<Rightarrow> Off s
     | e # es \<Rightarrow> Ret () es (upd_mycpu (\<lambda>c. c\<lparr>cpu_intena := cpu_intena (mycpu s)\<rparr>) (e s)))"
proof -
  have t: "touch s = s" if "cpu_noff (mycpu s) = 1"
    using that by (simp add: touch_nested)
  have off: "\<not> intr_get (this_csr s)" if "cpu_noff (mycpu s) = 1"
    using that assms(1) by (simp add: hart_ok_def)
  show ?thesis
    using t off by (simp add: sched_def km_simps curproc_run [OF assms] others_run_def split: list.splits)
qed

lemma scheduler_try_run:
  assumes rdy: "lock_ready (L_proc p) s" and c: "c = cpuid s"
  shows "p_state (procs s p) \<noteq> RUNNABLE \<Longrightarrow> scheduler_try c p es s = Ret False es (touch s)"
    and "p_state (procs s p) = RUNNABLE \<Longrightarrow> scheduler_try c p [] s =
      Off (upd_mycpu (\<lambda>x. x\<lparr>cpu_proc := Some p\<rparr>) (upd_proc p (\<lambda>q. q\<lparr>p_state := RUNNING\<rparr>) (acquired (L_proc p) s)))"
proof -
  note acq = acquire_ready [OF rdy]
  have rel: "release (L_proc p) es (acquired (L_proc p) s) = Ret () es (touch s)" for es
    using release_upper [OF rdy, of "\<lambda>s. s"] by (simp add: upper_def)
  show "p_state (procs s p) \<noteq> RUNNABLE \<Longrightarrow> scheduler_try c p es s = Ret False es (touch s)"
    by (simp add: scheduler_try_def km_simps acq rel)
  show "p_state (procs s p) = RUNNABLE \<Longrightarrow> scheduler_try c p [] s =
      Off (upd_mycpu (\<lambda>x. x\<lparr>cpu_proc := Some p\<rparr>) (upd_proc p (\<lambda>q. q\<lparr>p_state := RUNNING\<rparr>) (acquired (L_proc p) s)))"
    by (simp add: scheduler_try_def km_simps acq others_run_def upd_mycpu_def upd_proc_def c mycpu_def)
qed


text \<open>
  \<^verbatim>\<open>sleep\<close> gives up the lock of the condition and goes to sleep in one step as far as anyone holding
  the process lock can see: the thread leaves the CPU in the state it would have if its section on
  \<open>lk\<close> had ended and it had marked itself as sleeping in a section of its own.
\<close>

definition asleep :: "nat \<Rightarrow> chan \<Rightarrow> 'z kproc_scheme \<Rightarrow> 'z kproc_scheme" where
  "asleep p chn = upd_proc p (\<lambda>q. q\<lparr>p_chan := Some chn, p_state := SLEEPING\<rparr>)"

lemma upper_comp: "upper f \<Longrightarrow> upper g \<Longrightarrow> upper (\<lambda>s. f (g s))"
  by (simp add: upper_def)

lemma sleep_run:
  assumes rdy: "lock_ready lk s" "lock_ready (L_proc p) s" and lk: "lk \<noteq> L_proc p"
    and me: "cpu_proc (mycpu s) = Some p" and noff: "cpu_noff (mycpu s) = 0" and g: "upper g"
  shows "sleep chn lk es (g (acquired lk s)) =
     bnd sched (\<lambda>_. seqs [modify (upd_proc p (\<lambda>q. q\<lparr>p_chan := None\<rparr>)), release (L_proc p), acquire lk])
       es (asleep p chn (g (acquired (L_proc p) s)))"
proof -
  define a where "a = acquired lk s"
  have ok: "hart_ok a" "0 < cpu_noff (mycpu a)" "cpu_proc (mycpu a) = Some p" "touch a = a"
    using rdy me noff by (auto simp: a_def mycpu_acquired hart_ok_def lock_ready_def touch_nested acquired_def)
  have cur: "curproc es (g a) = Ret p es (g a)"
    using curproc_run [of "g a" p es] ok g by (simp add: upper_simps [OF g])
  have ra: "lock_ready (L_proc p) (g a)"
    using rdy(2) lk ok(1) g by (simp add: upper_simps [OF g]) (simp add: lock_ready_def a_def)
  define b where "b = acquired (L_proc p) a"
  have hb: "holding lk (g b)" "hart_ok (g b)" "0 < cpu_noff (mycpu (g b))"
    using ok lk g by (simp_all add: upper_simps [OF g])
       (simp_all add: b_def holding_def a_def hart_ok_def mycpu_acquired)
  have acq: "acquire (L_proc p) es (g a) = Ret () es (g b)"
    using acquire_ready [OF ra] by (simp add: upper_simps [OF g] b_def)
  have rel: "release lk es (g b) = Ret () es (g (acquired (L_proc p) s))"
    using release_held [OF hb] rdy(1) lk upper_freed [OF g, of lk b] by (simp add: b_def a_def freed_first)
  show ?thesis
    using lk cur acq rel
    by (simp add: sleep_def km_simps a_def asleep_def upd_proc_def split: res.splits)
qed


subsection \<open>Properties\<close>

text \<open>A concrete system: process 0 runs on hart 0, and the others are as \<open>f\<close> says.\<close>

definition idle_proc :: proc where
  "idle_proc = \<lparr>p_state = UNUSED, p_parent = None, p_chan = None, p_killed = 0, p_xstate = 0, p_pid = 0,
     p_kstack = 0, p_sz = 0, p_pagetable = 0, p_trapframe = 0, p_context = zero_context,
     p_ofile = (\<lambda>_. None), p_cwd = None, p_name = (\<lambda>_. 0)\<rparr>"

definition over_kmem :: "kmem \<Rightarrow> (nat \<Rightarrow> proc) \<Rightarrow> 'z \<Rightarrow> 'z kproc_scheme" where
  "over_kmem k f m =
     \<lparr>hart = hart k, csrs = csrs k, cpus = (\<lambda>c. (cpus k c)\<lparr>cpu_proc := Some c\<rparr>), locks = locks k,
      pmem = pmem k, freelist = freelist k, kend = kend k, kernel_pagetable = 0, etext = 0, trampoline = 0,
      procs = f, initproc = Some 0, nextpid = 1, ticks = 0, forkret_first = False, forkret_addr = 0, \<dots> = m\<rparr>"

lemma over_kmem_simps [simp]:
  "hart (over_kmem k f m) = hart k" "locks (over_kmem k f m) = locks k" "csrs (over_kmem k f m) = csrs k"
  "pmem (over_kmem k f m) = pmem k" "freelist (over_kmem k f m) = freelist k" "kend (over_kmem k f m) = kend k"
  "procs (over_kmem k f m) = f" "initproc (over_kmem k f m) = Some 0" "this_csr (over_kmem k f m) = this_csr k"
  "cpuid (over_kmem k f m) = cpuid k" "mycpu (over_kmem k f m) = (mycpu k)\<lparr>cpu_proc := Some (cpuid k)\<rparr>"
  "hart_ok (over_kmem k f m) = hart_ok k" "lock_ready lk (over_kmem k f m) = lock_ready lk k"
  by (simp_all add: over_kmem_def this_csr_def cpuid_def mycpu_def hart_ok_def lock_ready_def)

lemma idle_machine_simps [simp]:
  "cpuid (reset_kmem e) = 0" "cpu_noff (mycpu (reset_kmem e)) = 0" "\<not> intr_get (this_csr (reset_kmem e))"
  "lock_ready lk (reset_kmem e)" "hart_ok (reset_kmem e)"
  using reset_kmem_ready [of lk e] by (auto simp: lock_ready_def) (simp_all add: reset_kmem_def reset_machine_def reset_csr_def cpuid_def this_csr_def mycpu_def r_tp_def intr_get_def r_sstatus_def
      machine.defs kmem.defs)

text \<open>
  C12: \<^verbatim>\<open>wakeup(chan)\<close> makes runnable exactly the processes that sleep on \<open>chan\<close>. Processes that sleep
  on another channel, run, or are in any other state keep everything, and nothing else in the kernel
  changes.
\<close>

theorem wakeup_correct:
  assumes "\<forall>p < NPROC. lock_ready (L_proc p) s"
  shows "\<exists>t. wakeup chn es s = Ret () es t \<and>
    (\<forall>p. procs t p = (if p < NPROC \<and> p_state (procs s p) = SLEEPING \<and> p_chan (procs s p) = Some chn
                      then (procs s p)\<lparr>p_state := RUNNABLE\<rparr> else procs s p)) \<and>
    t\<lparr>procs := procs s\<rparr> = touch s"
proof -
  have "procs_ready s" using assms by (simp add: procs_ready_def list_all_iff)
  moreover have "(woken chn s)\<lparr>procs := procs s\<rparr> = touch s"
  proof -
    have "(touch s)\<lparr>procs := procs (touch s)\<rparr> = touch s" by (cases "touch s") simp
    then show ?thesis by (simp add: woken_def)
  qed
  ultimately show ?thesis
    by (intro exI [of _ "woken chn s"]) (simp add: wakeup_run, simp add: woken_def wake_table_def wakeup_one_def)
qed

theorem wakeup_correct_witness:
  "\<exists>t. wakeup Ch_ticks [] (over_kmem (reset_kmem 1) (\<lambda>p. idle_proc\<lparr>p_state := SLEEPING,
          p_chan := Some (if p = 3 then Ch_ticks else Ch_log)\<rparr>) ()) = Ret () [] t \<and>
       p_state (procs t 3) = RUNNABLE \<and> p_state (procs t 4) = SLEEPING"
proof -
  let ?s = "over_kmem (reset_kmem 1) (\<lambda>p. idle_proc\<lparr>p_state := SLEEPING,
          p_chan := Some (if p = 3 then Ch_ticks else Ch_log)\<rparr>) ()"
  have "\<forall>p < NPROC. lock_ready (L_proc p) ?s" by simp
  from wakeup_correct [OF this, of Ch_ticks "[]"] show ?thesis by auto
qed





text \<open>
  C15: \<^verbatim>\<open>kill(pid)\<close> marks the first process of the table with that pid as killed, wakes it if it
  sleeps on any channel, and returns 0; with no such process it returns -1 and changes nothing.
\<close>

theorem kill_correct:
  assumes "\<forall>p < NPROC. lock_ready (L_proc p) s"
  shows "kill pid es s =
     (case filter (\<lambda>p. p_pid (procs s p) = pid) [0..<NPROC] of
        [] \<Rightarrow> Ret (-1) es (touch s)
      | p # _ \<Rightarrow> Ret 0 es (upd_proc p (\<lambda>q. q\<lparr>p_killed := 1,
           p_state := (if p_state q = SLEEPING then RUNNABLE else p_state q)\<rparr>) (touch s)))"
proof -
  have "kill_proc = (\<lambda>q. q\<lparr>p_killed := 1, p_state := (if p_state q = SLEEPING then RUNNABLE else p_state q)\<rparr>)"
    by (simp add: fun_eq_iff kill_proc_def)
  with assms show ?thesis
    by (simp add: procs_ready_def list_all_iff kill_run split: list.splits)
qed

theorem kill_correct_witness:
  "\<exists>t. kill 7 [] (over_kmem (reset_kmem 1) (\<lambda>p. idle_proc\<lparr>p_state := SLEEPING, p_pid := (if p = 5 then 7 else 1)\<rparr>) ()) = Ret 0 [] t \<and>
     p_killed (procs t 5) = 1 \<and> p_state (procs t 5) = RUNNABLE \<and> p_state (procs t 6) = SLEEPING"
proof -
  let ?s = "over_kmem (reset_kmem 1) (\<lambda>p. idle_proc\<lparr>p_state := SLEEPING, p_pid := (if p = 5 then 7 else 1)\<rparr>) ()"
  have "\<forall>p < NPROC. lock_ready (L_proc p) ?s" by simp
  from kill_correct [OF this, of 7 "[]"]
  have "kill 7 [] ?s = (case filter (\<lambda>p. (if p = 5 then 7 else 1) = (7 :: i32)) [0..<NPROC] of [] \<Rightarrow> Ret (-1) [] (touch ?s)
      | p # _ \<Rightarrow> Ret 0 [] (upd_proc p (\<lambda>q. q\<lparr>p_killed := 1,
           p_state := (if p_state q = SLEEPING then RUNNABLE else p_state q)\<rparr>) (touch ?s)))" by simp
  moreover have "filter (\<lambda>p. (if p = 5 then 7 else 1) = (7 :: i32)) [0..<NPROC] = [5]" by code_simp
  ultimately show ?thesis by (simp add: upd_proc_def)
qed

end
