(* ===== verification/Uart.thy ===== *)
theory Uart
  imports Proc
begin

text \<open>
  The UART driver (\<^verbatim>\<open>kernel/uart.c\<close>) and kernel output (\<^verbatim>\<open>kernel/printf.c\<close>, \<^verbatim>\<open>consputc\<close> of
  \<^verbatim>\<open>kernel/console.c\<close>).

  The device is not part of the kernel: \<open>uart_reads\<close> holds the values that the successive reads of
  its registers will return, whatever they are, and \<open>uart_writes\<close> records every register write in
  order. A loop that polls a register consumes one value per iteration; when the device has no
  more answers the loop spins for ever (\<open>Diverge\<close>).

  The arguments of a \<^verbatim>\<open>printf\<close> are a list of tagged values. Taking one that is missing or of
  another type is undefined behaviour and ends the run with a panic that says so.
\<close>

subsection \<open>State\<close>

record kuart = kproc +
  uart_reads :: "byte list"
  uart_writes :: "(nat \<times> byte) list"
  uart_tx_buf :: "nat \<Rightarrow> byte"
  uart_tx_w :: nat
  uart_tx_r :: nat
  panicked :: bool
  pr_locking :: bool

abbreviation (input) RHR :: nat where "RHR \<equiv> 0"
abbreviation (input) THR :: nat where "THR \<equiv> 0"
abbreviation (input) IER :: nat where "IER \<equiv> 1"
abbreviation (input) FCR :: nat where "FCR \<equiv> 2"
abbreviation (input) LCR :: nat where "LCR \<equiv> 3"
abbreviation (input) LSR :: nat where "LSR \<equiv> 5"
abbreviation (input) LSR_RX_READY :: byte where "LSR_RX_READY \<equiv> 1"
abbreviation (input) LSR_TX_IDLE :: byte where "LSR_TX_IDLE \<equiv> 32"
abbreviation (input) UART_TX_BUF_SIZE :: nat where "UART_TX_BUF_SIZE \<equiv> 32"

definition WriteReg :: "nat \<Rightarrow> byte \<Rightarrow> ('z kuart_scheme, unit) km" where
  "WriteReg reg v = modify (\<lambda>s. s\<lparr>uart_writes := uart_writes s @ [(reg, v)]\<rparr>)"

definition ReadReg :: "nat \<Rightarrow> ('z kuart_scheme, byte) km" where
  "ReadReg reg es s =
     (case uart_reads s of [] \<Rightarrow> Diverge | v # vs \<Rightarrow> Ret v es (s\<lparr>uart_reads := vs\<rparr>))"

subsection \<open>Driver\<close>

definition uartinit :: "('z kuart_scheme, unit) km" where
  "uartinit =
     seqs [WriteReg IER 0x00,
           WriteReg LCR 0x80,
           WriteReg 0 0x03,
           WriteReg 1 0x00,
           WriteReg LCR 3,
           WriteReg FCR (1 OR 6),
           WriteReg IER (1 OR 2),
           initlock L_uart_tx ''uart'']"

text \<open>
  \<^verbatim>\<open>uartstart\<close>: every iteration that does not return sends one byte, after a read of \<^verbatim>\<open>LSR\<close>, so
  the loop ends with the answers of the device.
\<close>

fun uartstart_loop :: "nat \<Rightarrow> ('z kuart_scheme, unit) km" where
  "uartstart_loop 0 = (\<lambda>es s. Diverge)"
| "uartstart_loop (Suc fuel) =
     bnd (gets (\<lambda>s. uart_tx_w s = uart_tx_r s)) (\<lambda>empt.
     if empt then ret ()
     else
       bnd (ReadReg LSR) (\<lambda>lsr.
       if lsr AND LSR_TX_IDLE = 0 then ret ()
       else
         bnd (gets (\<lambda>s. uart_tx_buf s (uart_tx_r s))) (\<lambda>c.
         sq (modify (\<lambda>s. s\<lparr>uart_tx_r := (uart_tx_r s + 1) mod UART_TX_BUF_SIZE\<rparr>))
         (sq (wakeup Ch_uart_tx_r)
         (sq (WriteReg THR c)
             (uartstart_loop fuel))))))"

definition uartstart :: "('z kuart_scheme, unit) km" where
  "uartstart = bnd (gets (\<lambda>s. length (uart_reads s))) (\<lambda>n. uartstart_loop (Suc n))"

definition uartputc :: "i32 \<Rightarrow> ('z kuart_scheme, unit) km" where
  "uartputc c =
     sq (acquire L_uart_tx)
     (bnd (gets panicked) (\<lambda>p.
      if p then (\<lambda>es s. Diverge)
      else wait_loop
        (bnd (gets (\<lambda>s. (uart_tx_w s + 1) mod UART_TX_BUF_SIZE = uart_tx_r s)) (\<lambda>full.
         if full then sq (sleep Ch_uart_tx_r L_uart_tx) (ret None)
         else
           sq (modify (\<lambda>s. s\<lparr>uart_tx_buf := (uart_tx_buf s)(uart_tx_w s := ucast c)\<rparr>))
           (sq (modify (\<lambda>s. s\<lparr>uart_tx_w := (uart_tx_w s + 1) mod UART_TX_BUF_SIZE\<rparr>))
           (sq uartstart
           (sq (release L_uart_tx) (ret (Some ())))))))))"

function wait_tx_idle :: "('z kuart_scheme, unit) km" where
  "wait_tx_idle es s =
     (case uart_reads s of
        [] \<Rightarrow> Diverge
      | v # vs \<Rightarrow> if v AND LSR_TX_IDLE = 0 then wait_tx_idle es (s\<lparr>uart_reads := vs\<rparr>)
                  else Ret () es (s\<lparr>uart_reads := vs\<rparr>))"
  by pat_completeness auto
termination
  by (relation "measure (\<lambda>(es, s). length (uart_reads s))") auto

declare wait_tx_idle.simps [simp del]

definition uartputc_sync :: "i32 \<Rightarrow> ('z kuart_scheme, unit) km" where
  "uartputc_sync c =
     sq push_off
     (bnd (gets panicked) (\<lambda>p.
      if p then (\<lambda>es s. Diverge)
      else seqs [wait_tx_idle, WriteReg THR (ucast c), pop_off]))"

definition uartgetc :: "('z kuart_scheme, i32) km" where
  "uartgetc =
     bnd (ReadReg LSR) (\<lambda>lsr.
     if lsr AND 1 \<noteq> 0 then bnd (ReadReg RHR) (\<lambda>c. ret (ucast c)) else ret (-1))"

subsection \<open>Kernel output\<close>

abbreviation (input) BACKSPACE :: i32 where "BACKSPACE \<equiv> 0x100"

definition consputc :: "i32 \<Rightarrow> ('z kuart_scheme, unit) km" where
  "consputc c =
     (if c = BACKSPACE then seqs [uartputc_sync 8, uartputc_sync 32, uartputc_sync 8]
      else uartputc_sync c)"

definition cbyte :: "char \<Rightarrow> byte" where
  "cbyte c = of_char c"

definition cstring :: "string \<Rightarrow> byte list" where
  "cstring s = map cbyte s"

definition digits :: "byte list" where
  "digits = cstring ''0123456789abcdef''"

text \<open>
  The characters \<^verbatim>\<open>printint\<close> puts into \<^verbatim>\<open>buf\<close>, least significant digit first, for a base of at
  least 2.
\<close>

function int_digits :: "u32 \<Rightarrow> u32 \<Rightarrow> byte list" where
  "int_digits base x =
     (if x div base = 0 \<or> base < 2 then [digits ! unat (x mod base)]
      else digits ! unat (x mod base) # int_digits base (x div base))"
  by pat_completeness auto
termination
proof (relation "measure (\<lambda>(base, x). unat x)")
  fix base x :: u32
  assume "\<not> (x div base = 0 \<or> base < 2)"
  then have "1 < unat base" "0 < unat x" by (auto simp: word_less_nat_alt unat_gt_0)
  then show "((base, x div base), (base, x)) \<in> measure (\<lambda>(base, x). unat x)"
    by (simp add: unat_div)
qed simp

declare int_digits.simps [simp del]

definition printint_chars :: "i32 \<Rightarrow> u32 \<Rightarrow> bool \<Rightarrow> byte list" where
  "printint_chars xx base sign =
     (let neg = (sign \<and> sint xx < 0);
          x = (if neg then - xx else xx)
      in rev (int_digits base x @ (if neg then [45] else [])))"

definition put_all :: "byte list \<Rightarrow> ('z kuart_scheme, unit) km" where
  "put_all cs = each_do cs (\<lambda>c. consputc (ucast c))"

definition printint :: "i32 \<Rightarrow> u32 \<Rightarrow> bool \<Rightarrow> ('z kuart_scheme, unit) km" where
  "printint xx base sign = put_all (printint_chars xx base sign)"

definition printptr_chars :: "u64 \<Rightarrow> byte list" where
  "printptr_chars x = cstring ''0x'' @ map (\<lambda>i. digits ! unat (drop_bit 60 (push_bit (4 * i) x))) [0..<16]"

definition printptr :: "u64 \<Rightarrow> ('z kuart_scheme, unit) km" where
  "printptr x = put_all (printptr_chars x)"

datatype pfarg = A_int i32 | A_ptr u64 | A_str "byte list option"

abbreviation (input) undef :: "('s, 'a) km" where "undef \<equiv> panic ''undefined: va_arg''"

fun printf_loop :: "byte list \<Rightarrow> pfarg list \<Rightarrow> ('z kuart_scheme, unit) km" where
  "printf_loop [] args = ret ()"
| "printf_loop (c # cs) args =
     (if c \<noteq> cbyte CHR ''%'' then sq (consputc (ucast c)) (printf_loop cs args)
      else case cs of
        [] \<Rightarrow> ret ()
      | d # ds \<Rightarrow>
          if d = cbyte CHR ''d'' then
            (case args of A_int x # as \<Rightarrow> sq (printint x 10 True) (printf_loop ds as) | _ \<Rightarrow> undef)
          else if d = cbyte CHR ''x'' then
            (case args of A_int x # as \<Rightarrow> sq (printint x 16 True) (printf_loop ds as) | _ \<Rightarrow> undef)
          else if d = cbyte CHR ''p'' then
            (case args of A_ptr x # as \<Rightarrow> sq (printptr x) (printf_loop ds as) | _ \<Rightarrow> undef)
          else if d = cbyte CHR ''s'' then
            (case args of
               A_str so # as \<Rightarrow> sq (put_all (case so of None \<Rightarrow> cstring ''(null)'' | Some t \<Rightarrow> t)) (printf_loop ds as)
             | _ \<Rightarrow> undef)
          else if d = cbyte CHR ''%'' then sq (consputc (ucast d)) (printf_loop ds args)
          else sq (consputc (ucast (cbyte CHR ''%''))) (sq (consputc (ucast d)) (printf_loop ds args)))"

definition kprintf :: "byte list option \<Rightarrow> pfarg list \<Rightarrow> ('z kuart_scheme, unit) km" where
  "kprintf fmt args =
     bnd (gets pr_locking) (\<lambda>locking.
     sq (whenk locking (acquire L_pr))
     (case fmt of
        None \<Rightarrow> panic ''null fmt''
      | Some f \<Rightarrow> sq (printf_loop f args) (whenk locking (release L_pr))))"

abbreviation printf :: "string \<Rightarrow> pfarg list \<Rightarrow> ('z kuart_scheme, unit) km" where
  "printf fmt args \<equiv> kprintf (Some (cstring fmt)) args"

text \<open>
  \<^verbatim>\<open>panic\<close> prints its message without the lock and stops every hart that prints. The routines of the
  model that panic have the outcome \<open>Panic\<close> directly.
\<close>

definition panic_body :: "string \<Rightarrow> ('z kuart_scheme, 'a) km" where
  "panic_body msg =
     sq (modify (\<lambda>s. s\<lparr>pr_locking := False\<rparr>))
     (sq (printf ''panic: '' [])
     (sq (printf msg [])
     (sq (kprintf (Some [cbyte (CHR 0x0A)]) [])
     (sq (modify (\<lambda>s. s\<lparr>panicked := True\<rparr>))
         (panic msg)))))"

definition printfinit :: "('z kuart_scheme, unit) km" where
  "printfinit = sq (initlock L_pr ''pr'') (modify (\<lambda>s. s\<lparr>pr_locking := True\<rparr>))"

subsection \<open>The fields are above the machine\<close>

lemma upper_uart: "upper (uart_reads_update f0)" "upper (uart_writes_update f1)" "upper (uart_tx_buf_update f2)" "upper (uart_tx_w_update f3)" "upper (uart_tx_r_update f4)" "upper (panicked_update f5)" "upper (pr_locking_update f6)"
  by (simp_all add: upper_defs)

lemma reader_uart: "reader uart_reads" "reader uart_writes" "reader uart_tx_buf" "reader uart_tx_w" "reader uart_tx_r" "reader panicked" "reader pr_locking"
  by (simp_all add: upper_defs)

lemmas uart_simps [simp] =
  upper_simps [OF upper_uart(1)] reader_simps [OF reader_uart(1)]
  upper_simps [OF upper_uart(2)] reader_simps [OF reader_uart(2)]
  upper_simps [OF upper_uart(3)] reader_simps [OF reader_uart(3)]
  upper_simps [OF upper_uart(4)] reader_simps [OF reader_uart(4)]
  upper_simps [OF upper_uart(5)] reader_simps [OF reader_uart(5)]
  upper_simps [OF upper_uart(6)] reader_simps [OF reader_uart(6)]
  upper_simps [OF upper_uart(7)] reader_simps [OF reader_uart(7)]

end
