(* ===== verification/Console.thy ===== *)
theory Console
  imports Uart
begin

text \<open>
  The console (\<^verbatim>\<open>kernel/console.c\<close>), the process listing it prints (\<^verbatim>\<open>procdump\<close> of
  \<^verbatim>\<open>kernel/proc.c\<close>) and the interrupt handler of the UART that feeds it (\<^verbatim>\<open>uartintr\<close> of
  \<^verbatim>\<open>kernel/uart.c\<close>). The input ring has three 32-bit indices that only ever count up, except that
  editing takes \<^verbatim>\<open>e\<close> back.
\<close>

subsection \<open>State\<close>

abbreviation (input) INPUT_BUF :: u32 where "INPUT_BUF \<equiv> 128"
abbreviation (input) CONSOLE :: nat where "CONSOLE \<equiv> 1"

datatype devfn = Consoleread | Consolewrite

record devsw =
  dev_read :: "devfn option"
  dev_write :: "devfn option"

record kcons = kuart +
  cons_buf :: "nat \<Rightarrow> byte"
  cons_r :: u32
  cons_w :: u32
  cons_e :: u32
  devsws :: "nat \<Rightarrow> devsw"

subsection \<open>Operations\<close>

definition state_name :: "procstate \<Rightarrow> byte list" where
  "state_name x = cstring (case x of UNUSED \<Rightarrow> ''unused'' | SLEEPING \<Rightarrow> ''sleep '' | RUNNABLE \<Rightarrow> ''runble''
     | RUNNING \<Rightarrow> ''run   '' | ZOMBIE \<Rightarrow> ''zombie'')"

abbreviation (input) newline :: "byte list" where "newline \<equiv> [10]"

definition procdump :: "('z kuart_scheme, unit) km" where
  "procdump =
     sq (kprintf (Some newline) [])
        (each_do [0..<NPROC] (\<lambda>p.
           bnd (gets (\<lambda>s. procs s p)) (\<lambda>q.
           whenk (p_state q \<noteq> UNUSED)
             (sq (printf ''%d %s %s'' [A_int (p_pid q), A_str (Some (state_name (p_state q))), A_str (Some (cstr 16 (p_name q) 0))])
                 (kprintf (Some newline) [])))))"

definition consolewrite :: "kaddr \<Rightarrow> i32 \<Rightarrow> bytes \<Rightarrow> ('z kcons_scheme, int) km" where
  "consolewrite src n k =
     sq (acquire L_cons)
     (bnd (each [0..<nat (sint n)] (\<lambda>i.
             bnd (either_copyin (\<lambda>_. 0) 0 (kaddr_add src i) 1 k) (\<lambda>(r, c).
             if r = -1 then ret (Some i) else sq (uartputc (scast (c 0))) (ret None)))) (\<lambda>r.
      sq (release L_cons) (ret (case r of None \<Rightarrow> max 0 (sint n) | Some i \<Rightarrow> int i))))"

text \<open>
  Waiting for input: \<^verbatim>\<open>while (cons.r == cons.w)\<close>. The value is whether there is input; without,
  the process was killed and the lock is released.
\<close>

definition cons_wait :: "('z kcons_scheme, bool) km" where
  "cons_wait =
     wait_loop
       (bnd (gets (\<lambda>s. cons_r s = cons_w s)) (\<lambda>empt.
        if \<not> empt then ret (Some True)
        else
          bnd curproc (\<lambda>p.
          bnd (gets (\<lambda>s. p_killed (procs s p))) (\<lambda>killed.
          if killed \<noteq> 0 then sq (release L_cons) (ret (Some False))
          else sq (sleep Ch_cons_r L_cons) (ret None)))))"

text \<open>
  The outer loop, \<open>n\<close> bytes to go of \<open>target\<close>. It returns \<open>None\<close> when the process was killed,
  otherwise how many bytes are still missing.
\<close>

fun consoleread_loop :: "nat \<Rightarrow> nat \<Rightarrow> kaddr \<Rightarrow> bytes \<Rightarrow> ('z kcons_scheme, (nat \<times> bytes) option) km" where
  "consoleread_loop 0 target dst k = ret (Some (0, k))"
| "consoleread_loop (Suc n) target dst k =
     bnd cons_wait (\<lambda>ok.
     if \<not> ok then ret None
     else
       bnd (gets (\<lambda>s. cons_buf s (unat (cons_r s mod INPUT_BUF)))) (\<lambda>c.
       sq (modify (\<lambda>s. s\<lparr>cons_r := cons_r s + 1\<rparr>))
       (if c = 4 then
          sq (whenk (Suc n < target) (modify (\<lambda>s. s\<lparr>cons_r := cons_r s - 1\<rparr>)))
             (ret (Some (Suc n, k)))
        else
          bnd (either_copyout dst (\<lambda>_. c) 0 1 k) (\<lambda>(r, k').
          if r = -1 then ret (Some (Suc n, k'))
          else if c = 10 then ret (Some (n, k'))
          else consoleread_loop n target (kaddr_add dst 1) k'))))"

definition consoleread :: "kaddr \<Rightarrow> i32 \<Rightarrow> bytes \<Rightarrow> ('z kcons_scheme, int \<times> bytes) km" where
  "consoleread dst n k =
     (let target = nat (sint n) in
      sq (acquire L_cons)
      (bnd (consoleread_loop target target dst k) (\<lambda>r.
       case r of
         None \<Rightarrow> ret (-1, k)
       | Some (left_over, k') \<Rightarrow> sq (release L_cons) (ret (int target - int left_over, k')))))"

text \<open>
  \<^verbatim>\<open>^U\<close>: erase back to the last newline or to the committed input. Echoing changes neither index, so
  that every iteration brings \<^verbatim>\<open>e\<close> one closer to \<^verbatim>\<open>w\<close>; the test that it does makes the recursion
  well-founded.
\<close>

function cons_kill_line :: "('z kcons_scheme, unit) km" where
  "cons_kill_line es s =
     (if cons_e s \<noteq> cons_w s \<and> cons_buf s (unat ((cons_e s - 1) mod INPUT_BUF)) \<noteq> 10 then
        bnd (sq (modify (\<lambda>s. s\<lparr>cons_e := cons_e s - 1\<rparr>)) (consputc BACKSPACE)) (\<lambda>_ es' s'.
          if unat (cons_e s' - cons_w s') < unat (cons_e s - cons_w s) then cons_kill_line es' s' else Diverge) es s
      else Ret () es s)"
  by pat_completeness auto
termination
  by (relation "measure (\<lambda>(es, s). unat (cons_e s - cons_w s))") auto

declare cons_kill_line.simps [simp del]

definition consoleintr :: "i32 \<Rightarrow> ('z kcons_scheme, unit) km" where
  "consoleintr c =
     seqs
       [acquire L_cons,
        if c = 16 then procdump
        else if c = 21 then cons_kill_line
        else if c = 8 \<or> c = 0x7f then
          bnd (gets (\<lambda>s. cons_e s \<noteq> cons_w s)) (\<lambda>any.
          whenk any (sq (modify (\<lambda>s. s\<lparr>cons_e := cons_e s - 1\<rparr>)) (consputc BACKSPACE)))
        else
          bnd (gets (\<lambda>s. c \<noteq> 0 \<and> cons_e s - cons_r s < INPUT_BUF)) (\<lambda>room.
          whenk room
            (let c' = (if c = 13 then 10 else c) in
             seqs
               [consputc c',
                modify (\<lambda>s. s\<lparr>cons_buf := (cons_buf s)(unat (cons_e s mod INPUT_BUF) := ucast c')\<rparr>),
                modify (\<lambda>s. s\<lparr>cons_e := cons_e s + 1\<rparr>),
                bnd (gets (\<lambda>s. c' = 10 \<or> c' = 4 \<or> cons_e s = cons_r s + INPUT_BUF)) (\<lambda>line.
                whenk line (sq (modify (\<lambda>s. s\<lparr>cons_w := cons_e s\<rparr>)) (wakeup Ch_cons_r)))])),
        release L_cons]"

definition consoleinit :: "('z kcons_scheme, unit) km" where
  "consoleinit =
     seqs [initlock L_cons ''cons'',
           uartinit,
           modify (\<lambda>s. s\<lparr>devsws := (devsws s)(CONSOLE := (devsws s CONSOLE)\<lparr>dev_read := Some Consoleread\<rparr>)\<rparr>),
           modify (\<lambda>s. s\<lparr>devsws := (devsws s)(CONSOLE := (devsws s CONSOLE)\<lparr>dev_write := Some Consolewrite\<rparr>)\<rparr>)]"

text \<open>The loop of \<^verbatim>\<open>uartintr\<close> over the characters that have arrived: one read of \<^verbatim>\<open>LSR\<close> each.\<close>

fun uartintr_input :: "nat \<Rightarrow> ('z kcons_scheme, unit) km" where
  "uartintr_input 0 = (\<lambda>es s. Diverge)"
| "uartintr_input (Suc fuel) =
     bnd uartgetc (\<lambda>c.
     if c = -1 then ret () else sq (consoleintr c) (uartintr_input fuel))"

definition uartintr :: "('z kcons_scheme, unit) km" where
  "uartintr =
     bnd (gets (\<lambda>s. length (uart_reads s))) (\<lambda>n.
     seqs [uartintr_input (Suc n), acquire L_uart_tx, uartstart, release L_uart_tx])"

subsection \<open>The fields are above the machine\<close>

lemma upper_cons: "upper (cons_buf_update f0)" "upper (cons_r_update f1)" "upper (cons_w_update f2)" "upper (cons_e_update f3)" "upper (devsws_update f4)"
  by (simp_all add: upper_defs)

lemma reader_cons: "reader cons_buf" "reader cons_r" "reader cons_w" "reader cons_e" "reader devsws"
  by (simp_all add: upper_defs)

lemmas cons_simps [simp] =
  upper_simps [OF upper_cons(1)] reader_simps [OF reader_cons(1)]
  upper_simps [OF upper_cons(2)] reader_simps [OF reader_cons(2)]
  upper_simps [OF upper_cons(3)] reader_simps [OF reader_cons(3)]
  upper_simps [OF upper_cons(4)] reader_simps [OF reader_cons(4)]
  upper_simps [OF upper_cons(5)] reader_simps [OF reader_cons(5)]

end
