(* ===== verification/Sleeplock.thy ===== *)
theory Sleeplock
  imports Console
begin

text \<open>
  Sleep locks (\<^verbatim>\<open>kernel/sleeplock.c\<close>, \<^verbatim>\<open>kernel/sleeplock.h\<close>). The sleep locks of the kernel are
  those of the buffers and of the inodes; a lock is named by a \<open>slid\<close>, its spin lock
  \<^verbatim>\<open>lk->lk\<close> is \<open>L_sleep\<close> of that name and its sleep channel \<open>Ch_sleeplock\<close> of it.
\<close>

record sleeplock =
  slk_locked :: u32
  slk_name :: string
  slk_pid :: i32

record ksleep = kcons +
  slocks :: "slid \<Rightarrow> sleeplock"

definition upd_slock :: "slid \<Rightarrow> (sleeplock \<Rightarrow> sleeplock) \<Rightarrow> 'z ksleep_scheme \<Rightarrow> 'z ksleep_scheme" where
  "upd_slock lk f s = s\<lparr>slocks := (slocks s)(lk := f (slocks s lk))\<rparr>"

definition initsleeplock :: "slid \<Rightarrow> string \<Rightarrow> ('z ksleep_scheme, unit) km" where
  "initsleeplock lk name =
     sq (initlock (L_sleep lk) ''sleep lock'')
        (modify (upd_slock lk (\<lambda>_. \<lparr>slk_locked = 0, slk_name = name, slk_pid = 0\<rparr>)))"

definition acquiresleep :: "slid \<Rightarrow> ('z ksleep_scheme, unit) km" where
  "acquiresleep lk =
     seqs [acquire (L_sleep lk),
           wait_loop
             (bnd (gets (\<lambda>s. slk_locked (slocks s lk))) (\<lambda>l.
              if l \<noteq> 0 then sq (sleep (Ch_sleeplock lk) (L_sleep lk)) (ret None)
              else ret (Some ()))),
           modify (upd_slock lk (\<lambda>l. l\<lparr>slk_locked := 1\<rparr>)),
           bnd curproc (\<lambda>p. modify (\<lambda>s. upd_slock lk (\<lambda>l. l\<lparr>slk_pid := p_pid (procs s p)\<rparr>) s)),
           release (L_sleep lk)]"

definition releasesleep :: "slid \<Rightarrow> ('z ksleep_scheme, unit) km" where
  "releasesleep lk =
     seqs [acquire (L_sleep lk),
           modify (upd_slock lk (\<lambda>l. l\<lparr>slk_locked := 0\<rparr>)),
           modify (upd_slock lk (\<lambda>l. l\<lparr>slk_pid := 0\<rparr>)),
           wakeup (Ch_sleeplock lk),
           release (L_sleep lk)]"

definition holdingsleep :: "slid \<Rightarrow> ('z ksleep_scheme, bool) km" where
  "holdingsleep lk =
     sq (acquire (L_sleep lk))
     (bnd (gets (\<lambda>s. slocks s lk)) (\<lambda>l.
      bnd (if slk_locked l = 0 then ret False
           else bnd curproc (\<lambda>p. gets (\<lambda>s. slk_pid l = p_pid (procs s p)))) (\<lambda>r.
      sq (release (L_sleep lk)) (ret r))))"

subsection \<open>The fields are above the machine\<close>

lemma upper_slock: "upper (slocks_update f0)"
  by (simp_all add: upper_defs)

lemma reader_slock: "reader slocks"
  by (simp_all add: upper_defs)

lemmas slock_simps [simp] =
  upper_simps [OF upper_slock] reader_simps [OF reader_slock]

lemma upper_upd_slock: "upper (upd_slock lk f)"
  by (simp add: upper_def upd_slock_def)

lemma upd_slock_twice [simp]: "upd_slock lk f (upd_slock lk g s) = upd_slock lk (\<lambda>l. f (g l)) s"
  by (simp add: upd_slock_def)

subsection \<open>Running the routines without contention\<close>

text \<open>Every spin lock is free except those of \<open>L\<close>, which this thread holds.\<close>

definition free_except :: "lockid set \<Rightarrow> 'z machine_scheme \<Rightarrow> bool" where
  "free_except L s \<longleftrightarrow> (\<forall>lk. lk \<notin> L \<longrightarrow> lock_ready lk s)"

lemma free_exceptD: "free_except L s \<Longrightarrow> lk \<notin> L \<Longrightarrow> lock_ready lk s"
  by (simp add: free_except_def)

lemma free_except_hart: "free_except L s \<Longrightarrow> lk \<notin> L \<Longrightarrow> hart_ok s"
  by (auto simp: free_except_def lock_ready_def)

lemma hart_ok_acquired: "hart_ok s \<Longrightarrow> hart_ok (acquired lk s)"
  by (simp add: hart_ok_def mycpu_acquired)

lemma free_except_acquired [simp]: "free_except L s \<Longrightarrow> lk \<notin> L \<Longrightarrow> free_except (insert lk L) (acquired lk s)"
  by (auto simp: free_except_def lock_ready_def hart_ok_acquired)

lemma free_except_touch [simp]: "free_except L (touch s) = free_except L s"
  by (simp add: free_except_def)

lemma touch_acquired [simp]: "hart_ok s \<Longrightarrow> touch (acquired lk s) = acquired lk s"
  by (simp add: touch_nested mycpu_acquired hart_ok_def)

definition procs_free :: "lockid set \<Rightarrow> bool" where
  "procs_free L \<longleftrightarrow> (\<forall>p. L_proc p \<notin> L)"

lemma free_except_procs: "free_except L s \<Longrightarrow> procs_free L \<Longrightarrow> procs_ready s"
  by (simp add: procs_ready_def procs_free_def list_all_iff free_except_def)

definition slept :: "slid \<Rightarrow> i32 \<Rightarrow> 'z ksleep_scheme \<Rightarrow> 'z ksleep_scheme" where
  "slept lk pid = upd_slock lk (\<lambda>l. l\<lparr>slk_locked := 1, slk_pid := pid\<rparr>)"

definition unslept :: "slid \<Rightarrow> 'z ksleep_scheme \<Rightarrow> 'z ksleep_scheme" where
  "unslept lk = upd_slock lk (\<lambda>l. l\<lparr>slk_locked := 0, slk_pid := 0\<rparr>)"

lemma acquiresleep_run:
  assumes free: "lock_ready (L_sleep lk) s" and me: "cpu_proc (mycpu s) = Some p"
    and unl: "slk_locked (slocks s lk) = 0"
  shows "acquiresleep lk es s = Ret () es (slept lk (p_pid (procs s p)) (touch s))"
proof -
  let ?a = "acquired (L_sleep lk) s"
  have ok: "hart_ok s" using free by (simp add: lock_ready_def)
  have wait: "wait_loop (bnd (gets (\<lambda>s. slk_locked (slocks s lk))) (\<lambda>l.
              if l \<noteq> 0 then sq (sleep (Ch_sleeplock lk) (L_sleep lk)) (ret None) else ret (Some ()))) es ?a = Ret () es ?a"
    by (rule wait_loop_done) (simp add: km_simps unl)
  have cur: "curproc es (upd_slock lk (\<lambda>l. l\<lparr>slk_locked := 1\<rparr>) ?a) = Ret p es (upd_slock lk (\<lambda>l. l\<lparr>slk_locked := 1\<rparr>) ?a)"
    using curproc_run [of "upd_slock lk (\<lambda>l. l\<lparr>slk_locked := 1\<rparr>) ?a" p es] ok me
    by (simp add: upper_simps [OF upper_upd_slock] hart_ok_acquired mycpu_acquired)
  have rel: "release (L_sleep lk) es (slept lk x ?a) = Ret () es (slept lk x (touch s))" for x
    unfolding slept_def by (rule release_upper [OF free upper_upd_slock])
  show ?thesis
    using rel by (simp add: acquiresleep_def km_simps acquire_ready [OF free] wait cur)
      (simp add: slept_def upd_slock_def ret_def)
qed

lemma releasesleep_run:
  assumes free: "free_except L s" "L_sleep lk \<notin> L" "procs_free L"
  shows "releasesleep lk es s = Ret () es (unslept lk (woken (Ch_sleeplock lk) s))"
proof -
  let ?a = "acquired (L_sleep lk) s"
  have rdy: "lock_ready (L_sleep lk) s" and ok: "hart_ok s" using free by (auto simp: free_except_def lock_ready_def)
  have "free_except (insert (L_sleep lk) L) (unslept lk ?a)"
    using free by (simp add: free_except_def unslept_def upper_simps [OF upper_upd_slock]) 
      (simp add: lock_ready_def hart_ok_acquired ok)
  then have "procs_ready (unslept lk ?a)"
    using free by (intro free_except_procs [of "insert (L_sleep lk) L"]) (simp_all add: procs_free_def)
  then have w: "wakeup (Ch_sleeplock lk) es (unslept lk ?a) = Ret () es (woken (Ch_sleeplock lk) (unslept lk ?a))"
    by (rule wakeup_run)
  define g :: "'a ksleep_scheme \<Rightarrow> 'a ksleep_scheme" where "g = (\<lambda>t. unslept lk (t\<lparr>procs := wake_table (Ch_sleeplock lk) (procs t)\<rparr>))"
  have g: "upper g" by (simp add: upper_def g_def unslept_def upd_slock_def)
  have "woken (Ch_sleeplock lk) (unslept lk ?a) = g ?a"
    using ok by (simp add: woken_def g_def unslept_def upd_slock_def)
  moreover have "release (L_sleep lk) es (g ?a) = Ret () es (g (touch s))"
    by (rule release_upper [OF rdy g])
  moreover have "g (touch s) = unslept lk (woken (Ch_sleeplock lk) s)"
    by (simp add: g_def woken_def)
  ultimately show ?thesis
    using w by (simp add: releasesleep_def km_simps acquire_ready [OF rdy])
      (simp add: unslept_def upd_slock_def km_simps)
qed

lemma holdingsleep_run:
  assumes free: "lock_ready (L_sleep lk) s" and me: "cpu_proc (mycpu s) = Some p"
  shows "holdingsleep lk es s =
    Ret (slk_locked (slocks s lk) \<noteq> 0 \<and> slk_pid (slocks s lk) = p_pid (procs s p)) es (touch s)"
proof -
  let ?a = "acquired (L_sleep lk) s"
  have ok: "hart_ok s" using free by (simp add: lock_ready_def)
  have cur: "curproc es ?a = Ret p es ?a"
    using curproc_run [of ?a p es] ok me by (simp add: hart_ok_acquired mycpu_acquired)
  have rel: "release (L_sleep lk) es ?a = Ret () es (touch s)"
    using release_upper [OF free, of "\<lambda>s. s"] by (simp add: upper_def)
  show ?thesis
    by (simp add: holdingsleep_def km_simps acquire_ready [OF free] cur rel)
qed


end
