(* ===== verification/Bio.thy ===== *)
theory Bio
  imports Sleeplock
begin

text \<open>
  The buffer cache (\<^verbatim>\<open>kernel/bio.c\<close>, \<^verbatim>\<open>kernel/buf.h\<close>). A \<^verbatim>\<open>struct buf *\<close> is an index, \<open>HEAD\<close>
  that of \<^verbatim>\<open>bcache.head\<close>; the cache is the doubly linked list through \<open>b_prev\<close> and \<open>b_next\<close>.
  The two scans of \<^verbatim>\<open>bget\<close> follow the links for one step more than there are buffers; on a list
  that does not come back to the head they would not end (\<open>Diverge\<close>).

  \<open>disk_rw\<close> is what \<^verbatim>\<open>virtio_disk_rw\<close> does for its callers: it moves one block between the buffer
  and the disk. The driver itself is in \<open>Virtio\<close>. \<open>dtrace\<close> records the writes in the order in which
  they reach the disk.
\<close>

subsection \<open>State\<close>

abbreviation (input) BSIZE :: nat where "BSIZE \<equiv> 1024"
abbreviation (input) HEAD :: nat where "HEAD \<equiv> NBUF"

record buf =
  b_valid :: bool
  b_disk :: bool
  b_dev :: u32
  b_blockno :: u32
  b_refcnt :: u32
  b_prev :: nat
  b_next :: nat
  b_data :: bytes

record kbio = ksleep +
  bufs :: "nat \<Rightarrow> buf"
  disk :: "u32 \<Rightarrow> bytes"
  dtrace :: "(u32 \<times> bytes) list"

definition upd_buf :: "nat \<Rightarrow> (buf \<Rightarrow> buf) \<Rightarrow> 'z kbio_scheme \<Rightarrow> 'z kbio_scheme" where
  "upd_buf b f s = s\<lparr>bufs := (bufs s)(b := f (bufs s b))\<rparr>"

definition disk_rw :: "nat \<Rightarrow> bool \<Rightarrow> ('z kbio_scheme, unit) km" where
  "disk_rw b write =
     modify (\<lambda>s. let n = b_blockno (bufs s b) in
       if write then s\<lparr>disk := (disk s)(n := b_data (bufs s b)), dtrace := dtrace s @ [(n, b_data (bufs s b))]\<rparr>
       else upd_buf b (\<lambda>x. x\<lparr>b_data := disk s n\<rparr>) s)"

subsection \<open>Operations\<close>

text \<open>Linking \<open>b\<close> in after the head, the last four statements of \<^verbatim>\<open>binit\<close>'s loop and of \<^verbatim>\<open>brelse\<close>.\<close>

definition link_front :: "nat \<Rightarrow> (nat \<Rightarrow> buf) \<Rightarrow> (nat \<Rightarrow> buf)" where
  "link_front b f =
     (let f1 = f(b := (f b)\<lparr>b_next := b_next (f HEAD)\<rparr>);
          f2 = f1(b := (f1 b)\<lparr>b_prev := HEAD\<rparr>);
          n = b_next (f2 HEAD);
          f3 = f2(n := (f2 n)\<lparr>b_prev := b\<rparr>)
      in f3(HEAD := (f3 HEAD)\<lparr>b_next := b\<rparr>))"

definition unlink :: "nat \<Rightarrow> (nat \<Rightarrow> buf) \<Rightarrow> (nat \<Rightarrow> buf)" where
  "unlink b f =
     (let f1 = f(b_next (f b) := (f (b_next (f b)))\<lparr>b_prev := b_prev (f b)\<rparr>)
      in f1(b_prev (f1 b) := (f1 (b_prev (f1 b)))\<lparr>b_next := b_next (f1 b)\<rparr>))"

definition binit :: "('z kbio_scheme, unit) km" where
  "binit =
     seqs [initlock L_bcache ''bcache'',
           modify (upd_buf HEAD (\<lambda>h. h\<lparr>b_prev := HEAD, b_next := HEAD\<rparr>)),
           each_do [0..<NBUF] (\<lambda>b.
             sq (initsleeplock (SL_buf b) ''buffer'')
                (modify (\<lambda>s. s\<lparr>bufs := link_front b (bufs s)\<rparr>)))]"

fun bget_cached :: "nat \<Rightarrow> nat \<Rightarrow> u32 \<Rightarrow> u32 \<Rightarrow> ('z kbio_scheme, nat option) km" where
  "bget_cached 0 b dev blockno = (\<lambda>es s. Diverge)"
| "bget_cached (Suc fuel) b dev blockno =
     (if b = HEAD then ret None
      else bnd (gets (\<lambda>s. bufs s b)) (\<lambda>x.
        if b_dev x = dev \<and> b_blockno x = blockno then ret (Some b)
        else bget_cached fuel (b_next x) dev blockno))"

fun bget_unused :: "nat \<Rightarrow> nat \<Rightarrow> ('z kbio_scheme, nat option) km" where
  "bget_unused 0 b = (\<lambda>es s. Diverge)"
| "bget_unused (Suc fuel) b =
     (if b = HEAD then ret None
      else bnd (gets (\<lambda>s. bufs s b)) (\<lambda>x.
        if b_refcnt x = 0 then ret (Some b)
        else bget_unused fuel (b_prev x)))"

definition bget :: "u32 \<Rightarrow> u32 \<Rightarrow> ('z kbio_scheme, nat) km" where
  "bget dev blockno =
     sq (acquire L_bcache)
     (bnd (gets (\<lambda>s. b_next (bufs s HEAD))) (\<lambda>first.
      bnd (bget_cached (Suc NBUF) first dev blockno) (\<lambda>r.
      case r of
        Some b \<Rightarrow> sq (modify (upd_buf b (\<lambda>x. x\<lparr>b_refcnt := b_refcnt x + 1\<rparr>)))
            (sq (release L_bcache) (sq (acquiresleep (SL_buf b)) (ret b)))
      | None \<Rightarrow>
          bnd (gets (\<lambda>s. b_prev (bufs s HEAD))) (\<lambda>lru.
          bnd (bget_unused (Suc NBUF) lru) (\<lambda>r.
          case r of
            Some b \<Rightarrow> sq (modify (upd_buf b (\<lambda>x. x\<lparr>b_dev := dev, b_blockno := blockno,
                  b_valid := False, b_refcnt := 1\<rparr>)))
                (sq (release L_bcache) (sq (acquiresleep (SL_buf b)) (ret b)))
          | None \<Rightarrow> panic ''bget: no buffers'')))))"

definition bread :: "u32 \<Rightarrow> u32 \<Rightarrow> ('z kbio_scheme, nat) km" where
  "bread dev blockno =
     bnd (bget dev blockno) (\<lambda>b.
     bnd (gets (\<lambda>s. b_valid (bufs s b))) (\<lambda>v.
     sq (whenk (\<not> v) (sq (disk_rw b False) (modify (upd_buf b (\<lambda>x. x\<lparr>b_valid := True\<rparr>)))))
        (ret b)))"

definition bwrite :: "nat \<Rightarrow> ('z kbio_scheme, unit) km" where
  "bwrite b =
     bnd (holdingsleep (SL_buf b)) (\<lambda>h.
     if \<not> h then panic ''bwrite'' else disk_rw b True)"

definition brelse :: "nat \<Rightarrow> ('z kbio_scheme, unit) km" where
  "brelse b =
     bnd (holdingsleep (SL_buf b)) (\<lambda>h.
     if \<not> h then panic ''brelse''
     else seqs
       [releasesleep (SL_buf b),
        acquire L_bcache,
        modify (upd_buf b (\<lambda>x. x\<lparr>b_refcnt := b_refcnt x - 1\<rparr>)),
        bnd (gets (\<lambda>s. b_refcnt (bufs s b))) (\<lambda>r.
          whenk (r = 0) (modify (\<lambda>s. s\<lparr>bufs := link_front b (unlink b (bufs s))\<rparr>))),
        release L_bcache])"

definition bpin :: "nat \<Rightarrow> ('z kbio_scheme, unit) km" where
  "bpin b = seqs [acquire L_bcache, modify (upd_buf b (\<lambda>x. x\<lparr>b_refcnt := b_refcnt x + 1\<rparr>)), release L_bcache]"

definition bunpin :: "nat \<Rightarrow> ('z kbio_scheme, unit) km" where
  "bunpin b = seqs [acquire L_bcache, modify (upd_buf b (\<lambda>x. x\<lparr>b_refcnt := b_refcnt x - 1\<rparr>)), release L_bcache]"

subsection \<open>The fields are above the machine\<close>

lemma upper_bio: "upper (bufs_update f0)" "upper (disk_update f1)" "upper (dtrace_update f2)"
  by (simp_all add: upper_defs)

lemma reader_bio: "reader bufs" "reader disk" "reader dtrace"
  by (simp_all add: upper_defs)

lemmas bio_simps [simp] =
  upper_simps [OF upper_bio(1)] reader_simps [OF reader_bio(1)]
  upper_simps [OF upper_bio(2)] reader_simps [OF reader_bio(2)]
  upper_simps [OF upper_bio(3)] reader_simps [OF reader_bio(3)]

lemma upper_upd_buf: "upper (upd_buf b f)"
  by (simp add: upper_def upd_buf_def)

subsection \<open>The doubly linked list\<close>

text \<open>
  \<open>chain nx pv x ys\<close>: from \<open>x\<close> the forward links lead through \<open>ys\<close> and the backward links lead back.
  The cache is a cycle through the head; \<open>linked f bl\<close> says that it visits the buffers in the order
  \<open>bl\<close>, most recently used first.
\<close>

fun chain :: "(nat \<Rightarrow> nat) \<Rightarrow> (nat \<Rightarrow> nat) \<Rightarrow> nat \<Rightarrow> nat list \<Rightarrow> bool" where
  "chain nx pv x [] \<longleftrightarrow> True"
| "chain nx pv x (y # ys) \<longleftrightarrow> nx x = y \<and> pv y = x \<and> chain nx pv y ys"

definition linked :: "(nat \<Rightarrow> buf) \<Rightarrow> nat list \<Rightarrow> bool" where
  "linked f bl \<longleftrightarrow> chain (\<lambda>b. b_next (f b)) (\<lambda>b. b_prev (f b)) HEAD (bl @ [HEAD]) \<and>
     distinct bl \<and> set bl = {..<NBUF}"

lemma chain_append: "chain nx pv x (ys @ z # zs) \<longleftrightarrow> chain nx pv x (ys @ [z]) \<and> chain nx pv z zs"
  by (induction ys arbitrary: x) auto

lemma chain_cong:
  "(\<And>a. a \<in> set (butlast (x # ys)) \<Longrightarrow> nx a = nx' a) \<Longrightarrow> (\<And>a. a \<in> set ys \<Longrightarrow> pv a = pv' a) \<Longrightarrow>
     chain nx pv x ys = chain nx' pv' x ys"
  by (induction ys arbitrary: x) (auto split: if_splits)

lemma chain_prefix: "chain nx pv x (ys @ zs) \<Longrightarrow> chain nx pv x ys"
  by (induction ys arbitrary: x) auto

lemma chain_last: "chain nx pv x (ys @ [z]) \<Longrightarrow> pv z = last (x # ys) \<and> nx (last (x # ys)) = z"
  by (induction ys arbitrary: x) auto

lemma chain_remove:
  assumes ch: "chain nx pv h (xs @ b # ys @ [h])" and d: "distinct (h # xs @ b # ys)"
  shows "chain (nx(pv b := nx b)) (pv(nx b := pv b)) h (xs @ ys @ [h])"
proof -
  let ?nx = "nx(pv b := nx b)" and ?pv = "pv(nx b := pv b)"
  have parts: "chain nx pv h (xs @ [b])" "chain nx pv b (ys @ [h])"
    using ch chain_append [of nx pv h xs b "ys @ [h]"] by auto
  have p: "pv b = last (h # xs)" using chain_last [OF parts(1)] by simp
  obtain n zs where nz: "ys @ [h] = n # zs" by (cases ys) auto
  then have n: "nx b = n" "chain nx pv n zs" using parts(2) by auto
  have bl: "butlast (n # zs) = ys" using nz butlast_snoc [of ys h] by simp
  have "pv b \<notin> set ys" using p d by (cases xs rule: rev_cases) auto
  moreover have "n \<notin> set zs" using nz d by (cases ys) auto
  ultimately have "chain nx pv n zs = chain ?nx ?pv n zs"
    by (intro chain_cong) (unfold bl n(1), auto)
  with n have right: "chain ?nx ?pv n zs" by simp
  have left: "chain ?nx ?pv h (xs @ [n])"
  proof (cases xs rule: rev_cases)
    case Nil
    then show ?thesis using p n by simp
  next
    case (snoc us q)
    have q: "pv b = q" using p snoc by simp
    have "n \<notin> set (us @ [q])" using nz d snoc by (cases ys) auto
    then have "chain nx pv h (us @ [q]) = chain ?nx ?pv h (us @ [q])"
      using q d snoc n by (intro chain_cong) (auto simp: butlast_append)
    moreover have "chain nx pv h (us @ [q])" using parts(1) snoc chain_append [of nx pv h us q "[b]"] by simp
    ultimately have "chain ?nx ?pv h (us @ [q])" by simp
    then show ?thesis using snoc q n chain_append [of ?nx ?pv h us q "[n]"] by simp
  qed
  show ?thesis
    using left right nz chain_append [of ?nx ?pv h xs n zs] by simp
qed

lemma chain_push:
  assumes "chain nx pv h (ys @ [h])" "b \<notin> set (h # ys)" "h \<notin> set ys" "distinct ys"
  shows "chain (nx(b := nx h, h := b)) (pv(b := h, nx h := b)) h (b # ys @ [h])"
proof -
  obtain n zs where nz: "ys @ [h] = n # zs" by (cases ys) auto
  then have n: "nx h = n" "chain nx pv n zs" using assms(1) by auto
  have bl: "butlast (n # zs) = ys" using nz butlast_snoc [of ys h] by simp
  have "b \<notin> set (n # zs)" using assms(2) arg_cong [OF nz, of set] by auto
  moreover have "n \<notin> set zs" using nz assms(3,4) by (cases ys) auto
  ultimately have "chain nx pv n zs = chain (nx(b := n, h := b)) (pv(b := h, n := b)) n zs"
    using assms(2,3) by (intro chain_cong) (unfold bl, auto)
  with n have "chain (nx(b := n, h := b)) (pv(b := h, n := b)) n zs" by simp
  then show ?thesis using n assms(2) \<open>b \<notin> set (n # zs)\<close> by (simp add: nz)
qed

lemma link_front_fields:
  "b_valid (link_front b f x) = b_valid (f x)" "b_disk (link_front b f x) = b_disk (f x)"
  "b_dev (link_front b f x) = b_dev (f x)" "b_blockno (link_front b f x) = b_blockno (f x)"
  "b_refcnt (link_front b f x) = b_refcnt (f x)" "b_data (link_front b f x) = b_data (f x)"
  by (auto simp: link_front_def Let_def)

lemma unlink_fields:
  "b_valid (unlink b f x) = b_valid (f x)" "b_disk (unlink b f x) = b_disk (f x)"
  "b_dev (unlink b f x) = b_dev (f x)" "b_blockno (unlink b f x) = b_blockno (f x)"
  "b_refcnt (unlink b f x) = b_refcnt (f x)" "b_data (unlink b f x) = b_data (f x)"
  by (auto simp: unlink_def Let_def)

lemma unlink_links:
  assumes "b_next (f b) \<noteq> b"
  shows "(\<lambda>x. b_next (unlink b f x)) = (\<lambda>x. b_next (f x))(b_prev (f b) := b_next (f b))"
    "(\<lambda>x. b_prev (unlink b f x)) = (\<lambda>x. b_prev (f x))(b_next (f b) := b_prev (f b))"
  using assms by (auto simp: unlink_def Let_def fun_eq_iff)

lemma link_front_links:
  assumes "b \<noteq> HEAD" "b_next (f HEAD) \<noteq> b"
  shows "(\<lambda>x. b_next (link_front b f x)) = (\<lambda>x. b_next (f x))(b := b_next (f HEAD), HEAD := b)"
    "(\<lambda>x. b_prev (link_front b f x)) = (\<lambda>x. b_prev (f x))(b := HEAD, b_next (f HEAD) := b)"
  using assms by (auto simp: link_front_def Let_def fun_eq_iff)

lemma linked_to_front:
  assumes "linked f bl" "b < NBUF"
  shows "linked (link_front b (unlink b f)) (b # remove1 b bl)"
proof -
  let ?nx = "\<lambda>x. b_next (f x)" and ?pv = "\<lambda>x. b_prev (f x)" and ?g = "unlink b f"
  have d: "distinct bl" "set bl = {..<NBUF}" and ch: "chain ?nx ?pv HEAD (bl @ [HEAD])"
    using assms(1) by (auto simp: linked_def)
  then obtain xs ys where bl: "bl = xs @ b # ys" using assms(2) by (metis lessThan_iff split_list)
  have h: "HEAD \<notin> set bl" using d(2) by simp
  have dd: "distinct (HEAD # xs @ b # ys)" using d h bl by simp
  have nb: "b_next (f b) \<noteq> b"
  proof -
    have "chain ?nx ?pv b (ys @ [HEAD])" using ch bl chain_append [of ?nx ?pv HEAD xs b "ys @ [HEAD]"] by simp
    then show ?thesis using dd by (cases ys) auto
  qed
  have g: "chain (\<lambda>x. b_next (?g x)) (\<lambda>x. b_prev (?g x)) HEAD (xs @ ys @ [HEAD])"
    unfolding unlink_links [where f = f and b = b, OF nb]
    using chain_remove [of ?nx ?pv HEAD xs b ys] ch bl dd by simp
  have hb: "b \<noteq> HEAD" "b_next (?g HEAD) \<noteq> b"
  proof -
    show "b \<noteq> HEAD" using dd by auto
    have "b_next (?g HEAD) \<in> set (xs @ ys @ [HEAD])"
      using g by (cases "xs @ ys @ [HEAD]") auto
    then show "b_next (?g HEAD) \<noteq> b" using dd by auto
  qed
  have "chain (\<lambda>x. b_next (link_front b ?g x)) (\<lambda>x. b_prev (link_front b ?g x)) HEAD (b # (xs @ ys) @ [HEAD])"
    unfolding link_front_links [where f = ?g and b = b, OF hb]
    using g dd by (intro chain_push) auto
  moreover have "remove1 b bl = xs @ ys" using dd bl by (simp add: remove1_append)
  ultimately show ?thesis
    using d assms(2) bl by (auto simp: linked_def)
qed

lemma linked_unchanged:
  assumes "\<And>x. b_next (g x) = b_next (f x)" "\<And>x. b_prev (g x) = b_prev (f x)"
  shows "linked g bl = linked f bl"
  using assms by (simp add: linked_def)

subsection \<open>Running the routines\<close>

lemma bget_cached_run:
  "chain (\<lambda>b. b_next (bufs s b)) pv x (bl @ [HEAD]) \<Longrightarrow> HEAD \<notin> set bl \<Longrightarrow> length bl < fuel \<Longrightarrow>
     bget_cached fuel (hd (bl @ [HEAD])) dev blockno es s
       = Ret (find (\<lambda>b. b_dev (bufs s b) = dev \<and> b_blockno (bufs s b) = blockno) bl) es s"
proof (induction bl arbitrary: x fuel)
  case Nil
  then show ?case by (cases fuel) (auto simp: km_simps)
next
  case (Cons b bl)
  then obtain fuel' where f: "fuel = Suc fuel'" by (cases fuel) auto
  have "b_next (bufs s b) = hd (bl @ [HEAD])" using Cons.prems(1) by (cases bl) auto
  then show ?case using Cons.IH [of b fuel'] Cons.prems by (auto simp: f km_simps)
qed

lemma bget_unused_run:
  "chain nx (\<lambda>b. b_prev (bufs s b)) HEAD bl \<Longrightarrow> HEAD \<notin> set bl \<Longrightarrow> length bl < fuel \<Longrightarrow>
     bget_unused fuel (last (HEAD # bl)) es s = Ret (find (\<lambda>b. b_refcnt (bufs s b) = 0) (rev bl)) es s"
proof (induction bl arbitrary: fuel rule: rev_induct)
  case Nil
  then show ?case by (cases fuel) (auto simp: km_simps)
next
  case (snoc b bl)
  then obtain fuel' where f: "fuel = Suc fuel'" by (cases fuel) auto
  have "b_prev (bufs s b) = last (HEAD # bl)" "chain nx (\<lambda>b. b_prev (bufs s b)) HEAD bl"
    using chain_last [OF snoc.prems(1)] chain_prefix [OF snoc.prems(1)] by simp_all
  then show ?case using snoc.IH [of fuel'] snoc.prems by (auto simp: f km_simps)
qed

text \<open>
  Process \<open>p\<close> runs, holding no spin lock but those of \<open>L\<close>, and no other thread is inside the cache.
\<close>

definition quiet :: "nat \<Rightarrow> lockid set \<Rightarrow> 'z machine_scheme \<Rightarrow> bool" where
  "quiet p L s \<longleftrightarrow> free_except L s \<and> L_bcache \<notin> L \<and> (\<forall>x. L_sleep x \<notin> L) \<and> procs_free L \<and>
     cpu_proc (mycpu s) = Some p"

lemma quietD:
  assumes "quiet p L s"
  shows "lock_ready L_bcache s" "lock_ready (L_sleep x) s" "procs_ready s" "cpu_proc (mycpu s) = Some p" "hart_ok s"
    "free_except L s"
  using assms free_except_procs [of L s] by (auto simp: quiet_def free_except_def lock_ready_def)

lemma quiet_touch [simp]: "quiet p L (touch s) = quiet p L s"
  by (simp add: quiet_def)

lemma quiet_upper: "upper g \<Longrightarrow> quiet p L (g s) = quiet p L s"
  by (simp add: quiet_def free_except_def upper_simps)

lemma quiet_acquired: "quiet p L s \<Longrightarrow> lk \<notin> L \<Longrightarrow> lk \<noteq> L_bcache \<Longrightarrow> (\<And>x. lk \<noteq> L_sleep x) \<Longrightarrow> (\<And>q. lk \<noteq> L_proc q) \<Longrightarrow>
    quiet p (insert lk L) (acquired lk s)"
  by (auto simp: quiet_def procs_free_def mycpu_acquired)

definition cached :: "(nat \<Rightarrow> buf) \<Rightarrow> u32 \<Rightarrow> u32 \<Rightarrow> nat list \<Rightarrow> nat option" where
  "cached f dev n bl = find (\<lambda>b. b_dev (f b) = dev \<and> b_blockno (f b) = n) bl"

definition lru :: "(nat \<Rightarrow> buf) \<Rightarrow> nat list \<Rightarrow> nat option" where
  "lru f bl = find (\<lambda>b. b_refcnt (f b) = 0) (rev bl)"

definition recycled :: "u32 \<Rightarrow> u32 \<Rightarrow> buf \<Rightarrow> buf" where
  "recycled dev n x = x\<lparr>b_dev := dev, b_blockno := n, b_valid := False, b_refcnt := 1\<rparr>"

definition referenced :: "buf \<Rightarrow> buf" where
  "referenced x = x\<lparr>b_refcnt := b_refcnt x + 1\<rparr>"

abbreviation mypid :: "nat \<Rightarrow> 'z kproc_scheme \<Rightarrow> i32" where
  "mypid p s \<equiv> p_pid (procs s p)"

lemma bget_lock:
  assumes q: "quiet p L s" and unl: "slk_locked (slocks s (SL_buf b)) = 0"
  shows "sq (modify (upd_buf b f)) (sq (release L_bcache) (sq (acquiresleep (SL_buf b)) (ret b))) es (acquired L_bcache s)
     = Ret b es (slept (SL_buf b) (mypid p s) (upd_buf b f (touch s)))"
proof -
  let ?t = "upd_buf b f (touch s)"
  have rel: "release L_bcache es (upd_buf b f (acquired L_bcache s)) = Ret () es ?t"
    by (rule release_upper [OF quietD(1) [OF q] upper_upd_buf])
  have "acquiresleep (SL_buf b) es ?t = Ret () es (slept (SL_buf b) (mypid p ?t) (touch ?t))"
    using quietD [OF q] unl
    by (intro acquiresleep_run) (simp_all add: upper_simps [OF upper_upd_buf], simp add: upd_buf_def)
  moreover have "touch ?t = ?t" by (simp add: upper_simps [OF upper_upd_buf])
  moreover have "mypid p ?t = mypid p s" by (simp add: upd_buf_def)
  ultimately show ?thesis using rel by (simp add: km_simps)
qed

lemma bget_scan:
  assumes "linked (bufs s) bl"
  shows "bget_cached (Suc NBUF) (b_next (bufs s HEAD)) dev n es s = Ret (cached (bufs s) dev n bl) es s"
    "bget_unused (Suc NBUF) (b_prev (bufs s HEAD)) es s = Ret (lru (bufs s) bl) es s"
proof -
  have ch: "chain (\<lambda>b. b_next (bufs s b)) (\<lambda>b. b_prev (bufs s b)) HEAD (bl @ [HEAD])"
    and d: "distinct bl" "set bl = {..<NBUF}" using assms by (auto simp: linked_def)
  have len: "length bl = NBUF" using distinct_card [OF d(1)] d(2) by simp
  have nx: "b_next (bufs s HEAD) = hd (bl @ [HEAD])" using ch by (cases bl) auto
  have pv: "b_prev (bufs s HEAD) = last (HEAD # bl)" using chain_last [OF ch] by simp
  show "bget_cached (Suc NBUF) (b_next (bufs s HEAD)) dev n es s = Ret (cached (bufs s) dev n bl) es s"
    unfolding nx cached_def by (rule bget_cached_run [OF ch]) (use d len in auto)
  show "bget_unused (Suc NBUF) (b_prev (bufs s HEAD)) es s = Ret (lru (bufs s) bl) es s"
    unfolding pv lru_def by (rule bget_unused_run [OF chain_prefix [OF ch]]) (use d len in auto)
qed

lemma bget_run:
  assumes q: "quiet p L s" and l: "linked (bufs s) bl"
  shows "cached (bufs s) dev n bl = Some b \<Longrightarrow> slk_locked (slocks s (SL_buf b)) = 0 \<Longrightarrow>
      bget dev n es s = Ret b es (slept (SL_buf b) (mypid p s) (upd_buf b referenced (touch s)))"
    and "cached (bufs s) dev n bl = None \<Longrightarrow> lru (bufs s) bl = Some b \<Longrightarrow> slk_locked (slocks s (SL_buf b)) = 0 \<Longrightarrow>
      bget dev n es s = Ret b es (slept (SL_buf b) (mypid p s) (upd_buf b (recycled dev n) (touch s)))"
    and "cached (bufs s) dev n bl = None \<Longrightarrow> lru (bufs s) bl = None \<Longrightarrow> bget dev n es s = Panic ''bget: no buffers''"
proof -
  let ?a = "acquired L_bcache s"
  have acq: "acquire L_bcache es s = Ret () es ?a" by (rule acquire_ready [OF quietD(1) [OF q]])
  have l': "linked (bufs ?a) bl" using l by simp
  note scan = bget_scan [OF l']
  have fn: "(\<lambda>x. x\<lparr>b_dev := dev, b_blockno := n, b_valid := False, b_refcnt := 1\<rparr>) = recycled dev n"
    "(\<lambda>x. x\<lparr>b_refcnt := b_refcnt x + 1\<rparr>) = referenced"
    by (auto simp: recycled_def referenced_def)
  have cached: "bget dev n es s = (case cached (bufs s) dev n bl of
      Some b \<Rightarrow> sq (modify (upd_buf b referenced)) (sq (release L_bcache) (sq (acquiresleep (SL_buf b)) (ret b))) es ?a
    | None \<Rightarrow> (case lru (bufs s) bl of
        Some b \<Rightarrow> sq (modify (upd_buf b (recycled dev n))) (sq (release L_bcache) (sq (acquiresleep (SL_buf b)) (ret b))) es ?a
      | None \<Rightarrow> Panic ''bget: no buffers''))"
    unfolding bget_def fn using scan
    by (simp add: sq_def bnd_def gets_def acq panic_def split: option.splits)
  show "cached (bufs s) dev n bl = Some b \<Longrightarrow> slk_locked (slocks s (SL_buf b)) = 0 \<Longrightarrow>
      bget dev n es s = Ret b es (slept (SL_buf b) (mypid p s) (upd_buf b referenced (touch s)))"
    using cached bget_lock [OF q, of b referenced es] by simp
  show "cached (bufs s) dev n bl = None \<Longrightarrow> lru (bufs s) bl = Some b \<Longrightarrow> slk_locked (slocks s (SL_buf b)) = 0 \<Longrightarrow>
      bget dev n es s = Ret b es (slept (SL_buf b) (mypid p s) (upd_buf b (recycled dev n) (touch s)))"
    using cached bget_lock [OF q, of b "recycled dev n" es] by simp
  show "cached (bufs s) dev n bl = None \<Longrightarrow> lru (bufs s) bl = None \<Longrightarrow> bget dev n es s = Panic ''bget: no buffers''"
    using cached by simp
qed

end
