(* ===== verification/Log.thy ===== *)
theory Log
  imports Bio
begin

text \<open>
  The write-ahead log (\<^verbatim>\<open>kernel/log.c\<close>). The header block holds the number of logged blocks and
  their home block numbers as 32-bit integers (\<open>hdr_n\<close>, \<open>hdr_block\<close>); the in-memory header is a
  count and an array. An index past the array of \<^verbatim>\<open>LOGSIZE\<close> entries is undefined behaviour and
  ends the run with a panic whose message says so.
\<close>

subsection \<open>State\<close>

record superblock =
  sb_magic :: u32
  sb_size :: u32
  sb_nblocks :: u32
  sb_ninodes :: u32
  sb_nlog :: u32
  sb_logstart :: u32
  sb_inodestart :: u32
  sb_bmapstart :: u32

record logheader =
  lh_n :: i32
  lh_block :: "nat \<Rightarrow> i32"

record log =
  log_start :: i32
  log_size :: i32
  log_outstanding :: int
  log_committing :: bool
  log_dev :: i32
  log_lh :: logheader

record klog = kbio +
  lg :: log

definition upd_log :: "(log \<Rightarrow> log) \<Rightarrow> 'z klog_scheme \<Rightarrow> 'z klog_scheme" where
  "upd_log f s = s\<lparr>lg := f (lg s)\<rparr>"

abbreviation logged :: "'z klog_scheme \<Rightarrow> nat" where
  "logged s \<equiv> nat (sint (lh_n (log_lh (lg s))))"

definition hdr_n :: "bytes \<Rightarrow> i32" where
  "hdr_n d = ld32 d 0"

definition hdr_block :: "bytes \<Rightarrow> nat \<Rightarrow> i32" where
  "hdr_block d i = ld32 d (4 + 4 * i)"

fun put_blocks :: "nat \<Rightarrow> (nat \<Rightarrow> i32) \<Rightarrow> bytes \<Rightarrow> bytes" where
  "put_blocks 0 f d = d"
| "put_blocks (Suc n) f d = st32 (4 + 4 * n) (f n) (put_blocks n f d)"

subsection \<open>Reading, writing and installing\<close>

definition install_block :: "nat \<Rightarrow> ('z klog_scheme, unit) km" where
  "install_block tail =
     bnd (gets lg) (\<lambda>l.
     if LOGSIZE \<le> tail then panic ''undefined: log.lh.block out of range'' else
     bnd (bread (log_dev l) (log_start l + word_of_nat tail + 1)) (\<lambda>lbuf.
     bnd (bread (log_dev l) (lh_block (log_lh l) tail)) (\<lambda>dbuf.
     seqs [modify (\<lambda>s. upd_buf dbuf (\<lambda>x. x\<lparr>b_data := copy 0 (b_data (bufs s lbuf)) 0 BSIZE (b_data x)\<rparr>) s),
           bwrite dbuf, bunpin dbuf, brelse lbuf, brelse dbuf])))"

definition install_trans :: "('z klog_scheme, unit) km" where
  "install_trans = bnd (gets logged) (\<lambda>n. each_do [0..<n] install_block)"

definition read_head :: "('z klog_scheme, unit) km" where
  "read_head =
     bnd (gets lg) (\<lambda>l.
     bnd (bread (log_dev l) (log_start l)) (\<lambda>b.
     bnd (gets (\<lambda>s. b_data (bufs s b))) (\<lambda>d.
     let n = nat (sint (hdr_n d)) in
     if LOGSIZE < n then panic ''undefined: log.lh.block out of range''
     else seqs [modify (upd_log (\<lambda>l. l\<lparr>log_lh := \<lparr>lh_n = hdr_n d,
                   lh_block = (\<lambda>i. if i < n then hdr_block d i else lh_block (log_lh l) i)\<rparr>\<rparr>)),
                brelse b])))"

definition write_head :: "('z klog_scheme, unit) km" where
  "write_head =
     bnd (gets lg) (\<lambda>l.
     bnd (bread (log_dev l) (log_start l)) (\<lambda>b.
     let n = nat (sint (lh_n (log_lh l))) in
     if LOGSIZE < n then panic ''undefined: log.lh.block out of range''
     else seqs [modify (upd_buf b (\<lambda>x. x\<lparr>b_data := put_blocks n (lh_block (log_lh l)) (st32 0 (lh_n (log_lh l)) (b_data x))\<rparr>)),
                bwrite b, brelse b]))"

definition clear_log :: "('z klog_scheme, unit) km" where
  "clear_log = modify (upd_log (\<lambda>l. l\<lparr>log_lh := (log_lh l)\<lparr>lh_n := 0\<rparr>\<rparr>))"

definition recover_from_log :: "('z klog_scheme, unit) km" where
  "recover_from_log = seqs [read_head, install_trans, clear_log, write_head]"

definition initlog :: "i32 \<Rightarrow> superblock \<Rightarrow> ('z klog_scheme, unit) km" where
  "initlog dev sb =
     (if BSIZE \<le> 4 + 4 * LOGSIZE then panic ''initlog: too big logheader''
      else seqs [initlock L_log ''log'',
                 modify (upd_log (\<lambda>l. l\<lparr>log_start := sb_logstart sb, log_size := sb_nlog sb, log_dev := dev\<rparr>)),
                 recover_from_log])"

subsection \<open>Transactions\<close>

definition begin_op :: "('z klog_scheme, unit) km" where
  "begin_op =
     sq (acquire L_log)
     (wait_loop
       (bnd (gets lg) (\<lambda>l.
        if log_committing l then sq (sleep Ch_log L_log) (ret None)
        else if sint (lh_n (log_lh l)) + (log_outstanding l + 1) * int MAXOPBLOCKS > int LOGSIZE
        then sq (sleep Ch_log L_log) (ret None)
        else sq (modify (upd_log (\<lambda>l. l\<lparr>log_outstanding := log_outstanding l + 1\<rparr>)))
                (sq (release L_log) (ret (Some ()))))))"

definition write_log_block :: "nat \<Rightarrow> ('z klog_scheme, unit) km" where
  "write_log_block tail =
     bnd (gets lg) (\<lambda>l.
     if LOGSIZE \<le> tail then panic ''undefined: log.lh.block out of range'' else
     bnd (bread (log_dev l) (log_start l + word_of_nat tail + 1)) (\<lambda>tob.
     bnd (bread (log_dev l) (lh_block (log_lh l) tail)) (\<lambda>from.
     seqs [modify (\<lambda>s. upd_buf tob (\<lambda>x. x\<lparr>b_data := copy 0 (b_data (bufs s from)) 0 BSIZE (b_data x)\<rparr>) s),
           bwrite tob, brelse from, brelse tob])))"

definition write_log :: "('z klog_scheme, unit) km" where
  "write_log = bnd (gets logged) (\<lambda>n. each_do [0..<n] write_log_block)"

definition commit :: "('z klog_scheme, unit) km" where
  "commit =
     bnd (gets (\<lambda>s. lh_n (log_lh (lg s)))) (\<lambda>n.
     whenk (0 < sint n) (seqs [write_log, write_head, install_trans, clear_log, write_head]))"

definition end_op :: "('z klog_scheme, unit) km" where
  "end_op =
     sq (acquire L_log)
     (sq (modify (upd_log (\<lambda>l. l\<lparr>log_outstanding := log_outstanding l - 1\<rparr>)))
     (bnd (gets lg) (\<lambda>l.
      if log_committing l then panic ''log.committing''
      else
        let do_commit = (log_outstanding l = 0) in
        seqs [if do_commit then modify (upd_log (\<lambda>l. l\<lparr>log_committing := True\<rparr>)) else wakeup Ch_log,
              release L_log,
              whenk do_commit
                (seqs [commit, acquire L_log,
                       modify (upd_log (\<lambda>l. l\<lparr>log_committing := False\<rparr>)),
                       wakeup Ch_log, release L_log])])))"

text \<open>The scan of \<^verbatim>\<open>log_write\<close>: the first index at which \<open>blockno\<close> is logged, or the count.\<close>

fun log_slot :: "nat \<Rightarrow> nat \<Rightarrow> (nat \<Rightarrow> i32) \<Rightarrow> u32 \<Rightarrow> nat" where
  "log_slot i 0 blk blockno = i"
| "log_slot i (Suc n) blk blockno = (if blk i = blockno then i else log_slot (Suc i) n blk blockno)"

definition log_write :: "nat \<Rightarrow> ('z klog_scheme, unit) km" where
  "log_write b =
     bnd (gets lg) (\<lambda>l.
     if int LOGSIZE \<le> sint (lh_n (log_lh l)) \<or> sint (log_size l) - 1 \<le> sint (lh_n (log_lh l))
     then panic ''too big a transaction''
     else if log_outstanding l < 1 then panic ''log_write outside of trans''
     else
       sq (acquire L_log)
       (bnd (gets (\<lambda>s. log_slot 0 (logged s) (lh_block (log_lh (lg s))) (b_blockno (bufs s b)))) (\<lambda>i.
        sq (modify (\<lambda>s. upd_log (\<lambda>l. l\<lparr>log_lh := (log_lh l)\<lparr>lh_block := (lh_block (log_lh l))(i := b_blockno (bufs s b))\<rparr>\<rparr>) s))
        (bnd (gets logged) (\<lambda>n.
         sq (whenk (i = n) (sq (bpin b)
               (modify (upd_log (\<lambda>l. l\<lparr>log_lh := (log_lh l)\<lparr>lh_n := lh_n (log_lh l) + 1\<rparr>\<rparr>)))))
            (release L_log))))))"

subsection \<open>The fields are above the machine\<close>

lemma upper_log: "upper (lg_update f0)"
  by (simp_all add: upper_defs)

lemma reader_log: "reader lg"
  by (simp_all add: upper_defs)

lemmas log_simps [simp] =
  upper_simps [OF upper_log] reader_simps [OF reader_log]

end
