(* ===== verification/Fs.thy ===== *)
theory Fs
  imports Log
begin

text \<open>
  The file system (\<^verbatim>\<open>kernel/fs.c\<close>, \<^verbatim>\<open>kernel/fs.h\<close>, the inode of \<^verbatim>\<open>kernel/file.h\<close>): block
  allocation, the inode cache, file contents, directories and paths, over the buffer cache and
  the log. A \<^verbatim>\<open>struct inode *\<close> is an index into \<^verbatim>\<open>icache.inode\<close>; on-disk inodes are read and
  written at their byte offsets in a block. A C string is the list of its bytes without the NUL.
  Offsets and sizes are 32-bit words; a loop over them that wraps around never ends (\<open>Diverge\<close>).
\<close>

subsection \<open>On-disk format and state\<close>

abbreviation (input) ROOTINO :: u32 where "ROOTINO \<equiv> 1"
abbreviation (input) FSMAGIC :: u32 where "FSMAGIC \<equiv> 0x10203040"
abbreviation (input) NDIRECT :: nat where "NDIRECT \<equiv> 12"
abbreviation (input) NINDIRECT :: nat where "NINDIRECT \<equiv> 256"
abbreviation (input) MAXFILE :: nat where "MAXFILE \<equiv> 268"
abbreviation (input) IPB :: u32 where "IPB \<equiv> 16"
abbreviation (input) BPB :: nat where "BPB \<equiv> 8192"
abbreviation (input) DIRSIZ :: nat where "DIRSIZ \<equiv> 14"
abbreviation (input) T_DIR :: u16 where "T_DIR \<equiv> 1"
abbreviation (input) T_FILE :: u16 where "T_FILE \<equiv> 2"
abbreviation (input) T_DEVICE :: u16 where "T_DEVICE \<equiv> 3"

definition IBLOCK :: "u32 \<Rightarrow> superblock \<Rightarrow> u32" where
  "IBLOCK i sb = i div IPB + sb_inodestart sb"

definition BBLOCK :: "u32 \<Rightarrow> superblock \<Rightarrow> u32" where
  "BBLOCK b sb = b div 8192 + sb_bmapstart sb"

record inode =
  i_dev :: u32
  i_inum :: u32
  i_ref :: int
  i_valid :: bool
  i_type :: u16
  i_major :: u16
  i_minor :: u16
  i_nlink :: u16
  i_size :: u32
  i_addrs :: "nat \<Rightarrow> u32"

record dinode =
  d_type :: u16
  d_major :: u16
  d_minor :: u16
  d_nlink :: u16
  d_size :: u32
  d_addrs :: "nat \<Rightarrow> u32"

record stat =
  st_dev :: i32
  st_ino :: u32
  st_type :: u16
  st_nlink :: u16
  st_size :: u64

record kfs = klog +
  sblk :: superblock
  inodes :: "nat \<Rightarrow> inode"

definition upd_inode :: "nat \<Rightarrow> (inode \<Rightarrow> inode) \<Rightarrow> 'z kfs_scheme \<Rightarrow> 'z kfs_scheme" where
  "upd_inode ip f s = s\<lparr>inodes := (inodes s)(ip := f (inodes s ip))\<rparr>"

text \<open>The 64 bytes of an on-disk inode at offset \<open>o\<close> of a block.\<close>

definition ld_dinode :: "bytes \<Rightarrow> nat \<Rightarrow> dinode" where
  "ld_dinode m o' = \<lparr>d_type = ld16 m o', d_major = ld16 m (o' + 2), d_minor = ld16 m (o' + 4),
     d_nlink = ld16 m (o' + 6), d_size = ld32 m (o' + 8), d_addrs = (\<lambda>i. ld32 m (o' + 12 + 4 * i))\<rparr>"

fun st_addrs :: "nat \<Rightarrow> nat \<Rightarrow> (nat \<Rightarrow> u32) \<Rightarrow> bytes \<Rightarrow> bytes" where
  "st_addrs 0 o' a m = m"
| "st_addrs (Suc n) o' a m = st32 (o' + 4 * n) (a n) (st_addrs n o' a m)"

definition st_dinode :: "nat \<Rightarrow> dinode \<Rightarrow> bytes \<Rightarrow> bytes" where
  "st_dinode o' d m = st_addrs (NDIRECT + 1) (o' + 12) (d_addrs d) (st32 (o' + 8) (d_size d)
     (st16 (o' + 6) (d_nlink d) (st16 (o' + 4) (d_minor d) (st16 (o' + 2) (d_major d) (st16 o' (d_type d) m)))))"

definition inode_off :: "u32 \<Rightarrow> nat" where
  "inode_off inum = 64 * unat (inum mod IPB)"

definition dinode_of :: "inode \<Rightarrow> dinode" where
  "dinode_of i = \<lparr>d_type = i_type i, d_major = i_major i, d_minor = i_minor i, d_nlink = i_nlink i,
     d_size = i_size i, d_addrs = i_addrs i\<rparr>"

definition load_dinode :: "dinode \<Rightarrow> inode \<Rightarrow> inode" where
  "load_dinode d i = i\<lparr>i_type := d_type d, i_major := d_major d, i_minor := d_minor d, i_nlink := d_nlink d,
     i_size := d_size d, i_addrs := (\<lambda>k. if k \<le> NDIRECT then d_addrs d k else i_addrs i k)\<rparr>"

subsection \<open>Superblock and blocks\<close>

definition readsb :: "i32 \<Rightarrow> ('z kfs_scheme, unit) km" where
  "readsb dev =
     bnd (bread dev 1) (\<lambda>bp.
     sq (modify (\<lambda>s. let d = b_data (bufs s bp) in s\<lparr>sblk := \<lparr>sb_magic = ld32 d 0, sb_size = ld32 d 4,
           sb_nblocks = ld32 d 8, sb_ninodes = ld32 d 12, sb_nlog = ld32 d 16, sb_logstart = ld32 d 20,
           sb_inodestart = ld32 d 24, sb_bmapstart = ld32 d 28\<rparr>\<rparr>))
        (brelse bp))"

definition fsinit :: "i32 \<Rightarrow> ('z kfs_scheme, unit) km" where
  "fsinit dev =
     sq (readsb dev)
     (bnd (gets sblk) (\<lambda>sb.
      if sb_magic sb \<noteq> FSMAGIC then panic ''invalid file system'' else initlog dev sb))"

definition bzero :: "i32 \<Rightarrow> i32 \<Rightarrow> ('z kfs_scheme, unit) km" where
  "bzero dev bno =
     bnd (bread dev bno) (\<lambda>bp.
     seqs [modify (upd_buf bp (\<lambda>x. x\<lparr>b_data := memset 0 0 BSIZE (b_data x)\<rparr>)), log_write bp, brelse bp])"

definition bit_at :: "bytes \<Rightarrow> nat \<Rightarrow> bool" where
  "bit_at d bi \<longleftrightarrow> d (bi div 8) AND push_bit (bi mod 8) 1 \<noteq> 0"

definition set_bit_at :: "nat \<Rightarrow> bytes \<Rightarrow> bytes" where
  "set_bit_at bi d = d(bi div 8 := d (bi div 8) OR push_bit (bi mod 8) 1)"

definition clear_bit_at :: "nat \<Rightarrow> bytes \<Rightarrow> bytes" where
  "clear_bit_at bi d = d(bi div 8 := d (bi div 8) AND NOT (push_bit (bi mod 8) 1))"

definition balloc :: "u32 \<Rightarrow> ('z kfs_scheme, u32) km" where
  "balloc dev =
     bnd (gets sblk) (\<lambda>sb.
     bnd (each (map (\<lambda>k. BPB * k) [0..<(unat (sb_size sb) + BPB - 1) div BPB]) (\<lambda>b.
       bnd (bread dev (BBLOCK (word_of_nat b) sb)) (\<lambda>bp.
       bnd (each [0..<min BPB (unat (sb_size sb) - b)] (\<lambda>bi.
              bnd (gets (\<lambda>s. b_data (bufs s bp))) (\<lambda>d.
              if bit_at d bi then ret None
              else sq (modify (upd_buf bp (\<lambda>x. x\<lparr>b_data := set_bit_at bi (b_data x)\<rparr>)))
                   (sq (log_write bp)
                   (sq (brelse bp)
                   (sq (bzero dev (word_of_nat (b + bi)))
                       (ret (Some (word_of_nat (b + bi))))))))))
           (\<lambda>r. case r of Some a \<Rightarrow> ret (Some a) | None \<Rightarrow> sq (brelse bp) (ret None)))))
         (\<lambda>r. case r of Some a \<Rightarrow> ret a | None \<Rightarrow> panic ''balloc: out of blocks''))"

definition bfree :: "i32 \<Rightarrow> u32 \<Rightarrow> ('z kfs_scheme, unit) km" where
  "bfree dev b =
     bnd (gets sblk) (\<lambda>sb.
     bnd (bread dev (BBLOCK b sb)) (\<lambda>bp.
     let bi = unat (b mod 8192) in
     bnd (gets (\<lambda>s. b_data (bufs s bp))) (\<lambda>d.
     if \<not> bit_at d bi then panic ''freeing free block''
     else seqs [modify (upd_buf bp (\<lambda>x. x\<lparr>b_data := clear_bit_at bi (b_data x)\<rparr>)), log_write bp, brelse bp])))"

subsection \<open>Inodes\<close>

definition iinit :: "('z kfs_scheme, unit) km" where
  "iinit = sq (initlock L_icache ''icache'')
              (each_do [0..<NINODE] (\<lambda>i. initsleeplock (SL_inode i) ''inode''))"

text \<open>
  \<^verbatim>\<open>iget\<close>: the scan of the cache returns the entry that holds the inode, or the first one
  without references.
\<close>

fun iget_scan :: "nat list \<Rightarrow> nat option \<Rightarrow> u32 \<Rightarrow> u32 \<Rightarrow> (nat \<Rightarrow> inode) \<Rightarrow> nat option \<times> nat option" where
  "iget_scan [] emp dev inum f = (None, emp)"
| "iget_scan (ip # ips) emp dev inum f =
     (if 0 < i_ref (f ip) \<and> i_dev (f ip) = dev \<and> i_inum (f ip) = inum then (Some ip, emp)
      else iget_scan ips (if emp = None \<and> i_ref (f ip) = 0 then Some ip else emp) dev inum f)"

definition iget :: "u32 \<Rightarrow> u32 \<Rightarrow> ('z kfs_scheme, nat) km" where
  "iget dev inum =
     sq (acquire L_icache)
     (bnd (gets (\<lambda>s. iget_scan [0..<NINODE] None dev inum (inodes s))) (\<lambda>r.
      case r of
        (Some ip, _) \<Rightarrow>
          sq (modify (upd_inode ip (\<lambda>i. i\<lparr>i_ref := i_ref i + 1\<rparr>)))
          (sq (release L_icache) (ret ip))
      | (None, None) \<Rightarrow> panic ''iget: no inodes''
      | (None, Some ip) \<Rightarrow>
          sq (modify (upd_inode ip (\<lambda>i. i\<lparr>i_dev := dev, i_inum := inum, i_ref := 1, i_valid := False\<rparr>)))
          (sq (release L_icache) (ret ip))))"

definition ialloc :: "u32 \<Rightarrow> u16 \<Rightarrow> ('z kfs_scheme, nat) km" where
  "ialloc dev type =
     bnd (gets sblk) (\<lambda>sb.
     bnd (each [1..<unat (sb_ninodes sb)] (\<lambda>n.
       let inum = word_of_nat n in
       bnd (bread dev (IBLOCK inum sb)) (\<lambda>bp.
       bnd (gets (\<lambda>s. ld_dinode (b_data (bufs s bp)) (inode_off inum))) (\<lambda>dip.
       if d_type dip = 0 then
         sq (modify (upd_buf bp (\<lambda>x. x\<lparr>b_data := st16 (inode_off inum) type (memset (inode_off inum) 0 64 (b_data x))\<rparr>)))
         (sq (log_write bp)
         (sq (brelse bp)
         (bnd (iget dev inum) (\<lambda>ip. ret (Some ip)))))
       else sq (brelse bp) (ret None)))))
     (\<lambda>r. case r of Some ip \<Rightarrow> ret ip | None \<Rightarrow> panic ''ialloc: no inodes''))"

definition iupdate :: "nat \<Rightarrow> ('z kfs_scheme, unit) km" where
  "iupdate ip =
     bnd (gets (\<lambda>s. inodes s ip)) (\<lambda>i.
     bnd (gets sblk) (\<lambda>sb.
     bnd (bread (i_dev i) (IBLOCK (i_inum i) sb)) (\<lambda>bp.
     seqs [modify (\<lambda>s. upd_buf bp (\<lambda>x. x\<lparr>b_data := st_dinode (inode_off (i_inum i)) (dinode_of (inodes s ip)) (b_data x)\<rparr>) s),
           log_write bp, brelse bp])))"

definition idup :: "nat \<Rightarrow> ('z kfs_scheme, nat) km" where
  "idup ip =
     sq (acquire L_icache)
     (sq (modify (upd_inode ip (\<lambda>i. i\<lparr>i_ref := i_ref i + 1\<rparr>)))
     (sq (release L_icache) (ret ip)))"

definition ilock :: "nat option \<Rightarrow> ('z kfs_scheme, unit) km" where
  "ilock ipo =
     (case ipo of None \<Rightarrow> panic ''ilock''
      | Some ip \<Rightarrow>
          bnd (gets (\<lambda>s. i_ref (inodes s ip))) (\<lambda>r.
          if r < 1 then panic ''ilock''
          else
            sq (acquiresleep (SL_inode ip))
            (bnd (gets (\<lambda>s. inodes s ip)) (\<lambda>i.
             if i_valid i then ret ()
             else
               bnd (gets sblk) (\<lambda>sb.
               bnd (bread (i_dev i) (IBLOCK (i_inum i) sb)) (\<lambda>bp.
               sq (modify (\<lambda>s. upd_inode ip (load_dinode (ld_dinode (b_data (bufs s bp)) (inode_off (i_inum i)))) s))
               (sq (brelse bp)
               (sq (modify (upd_inode ip (\<lambda>i. i\<lparr>i_valid := True\<rparr>)))
               (bnd (gets (\<lambda>s. i_type (inodes s ip))) (\<lambda>t.
                if t = 0 then panic ''ilock: no type'' else ret ())))))))))) "

definition iunlock :: "nat option \<Rightarrow> ('z kfs_scheme, unit) km" where
  "iunlock ipo =
     (case ipo of None \<Rightarrow> panic ''iunlock''
      | Some ip \<Rightarrow>
          bnd (holdingsleep (SL_inode ip)) (\<lambda>h.
          if \<not> h then panic ''iunlock''
          else bnd (gets (\<lambda>s. i_ref (inodes s ip))) (\<lambda>r.
            if r < 1 then panic ''iunlock'' else releasesleep (SL_inode ip))))"

subsection \<open>Contents\<close>

definition bmap_direct :: "nat \<Rightarrow> nat \<Rightarrow> ('z kfs_scheme, u32) km" where
  "bmap_direct ip k =
     bnd (gets (\<lambda>s. inodes s ip)) (\<lambda>i.
     if i_addrs i k \<noteq> 0 then ret (i_addrs i k)
     else bnd (balloc (i_dev i)) (\<lambda>addr.
       sq (modify (upd_inode ip (\<lambda>i. i\<lparr>i_addrs := (i_addrs i)(k := addr)\<rparr>))) (ret addr)))"

definition bmap :: "nat \<Rightarrow> u32 \<Rightarrow> ('z kfs_scheme, u32) km" where
  "bmap ip bn =
     (if unat bn < NDIRECT then bmap_direct ip (unat bn)
      else let bn = unat bn - NDIRECT in
        if bn < NINDIRECT then
          bnd (bmap_direct ip NDIRECT) (\<lambda>addr.
          bnd (gets (\<lambda>s. i_dev (inodes s ip))) (\<lambda>dev.
          bnd (bread dev addr) (\<lambda>bp.
          bnd (gets (\<lambda>s. ld32 (b_data (bufs s bp)) (4 * bn))) (\<lambda>a.
          if a \<noteq> 0 then sq (brelse bp) (ret a)
          else bnd (balloc dev) (\<lambda>a.
            sq (modify (upd_buf bp (\<lambda>x. x\<lparr>b_data := st32 (4 * bn) a (b_data x)\<rparr>)))
            (sq (log_write bp) (sq (brelse bp) (ret a))))))))
        else panic ''bmap: out of range'')"

definition itrunc :: "nat \<Rightarrow> ('z kfs_scheme, unit) km" where
  "itrunc ip =
     bnd (gets (\<lambda>s. i_dev (inodes s ip))) (\<lambda>dev.
     seqs
       [each_do [0..<NDIRECT] (\<lambda>k.
          bnd (gets (\<lambda>s. i_addrs (inodes s ip) k)) (\<lambda>a.
          whenk (a \<noteq> 0) (sq (bfree dev a) (modify (upd_inode ip (\<lambda>i. i\<lparr>i_addrs := (i_addrs i)(k := 0)\<rparr>)))))),
        bnd (gets (\<lambda>s. i_addrs (inodes s ip) NDIRECT)) (\<lambda>a.
          whenk (a \<noteq> 0)
            (bnd (bread dev a) (\<lambda>bp.
             seqs [each_do [0..<NINDIRECT] (\<lambda>j.
                     bnd (gets (\<lambda>s. ld32 (b_data (bufs s bp)) (4 * j))) (\<lambda>e.
                     whenk (e \<noteq> 0) (bfree dev e))),
                   brelse bp,
                   bfree dev a,
                   modify (upd_inode ip (\<lambda>i. i\<lparr>i_addrs := (i_addrs i)(NDIRECT := 0)\<rparr>))]))),
        modify (upd_inode ip (\<lambda>i. i\<lparr>i_size := 0\<rparr>)),
        iupdate ip])"

definition iput :: "nat \<Rightarrow> ('z kfs_scheme, unit) km" where
  "iput ip =
     sq (acquire L_icache)
     (bnd (gets (\<lambda>s. inodes s ip)) (\<lambda>i.
      seqs
        [whenk (i_ref i = 1 \<and> i_valid i \<and> i_nlink i = 0)
           (seqs [acquiresleep (SL_inode ip), release L_icache,
                  itrunc ip,
                  modify (upd_inode ip (\<lambda>i. i\<lparr>i_type := 0\<rparr>)),
                  iupdate ip,
                  modify (upd_inode ip (\<lambda>i. i\<lparr>i_valid := False\<rparr>)),
                  releasesleep (SL_inode ip), acquire L_icache]),
         modify (upd_inode ip (\<lambda>i. i\<lparr>i_ref := i_ref i - 1\<rparr>)),
         release L_icache]))"

definition iunlockput :: "nat \<Rightarrow> ('z kfs_scheme, unit) km" where
  "iunlockput ip = sq (iunlock (Some ip)) (iput ip)"

definition stati :: "nat \<Rightarrow> 'z kfs_scheme \<Rightarrow> stat" where
  "stati ip s = (let i = inodes s ip in
     \<lparr>st_dev = i_dev i, st_ino = i_inum i, st_type = i_type i, st_nlink = i_nlink i, st_size = ucast (i_size i)\<rparr>)"

text \<open>The bytes of one iteration: to the end of the block, at most what is left.\<close>

definition piece :: "u32 \<Rightarrow> u32 \<Rightarrow> u32" where
  "piece off left_over = (if left_over < 1024 - off mod 1024 then left_over else 1024 - off mod 1024)"

lemma unat_piece: "unat (piece off l) = min (unat l) (1024 - unat off mod 1024)"
proof -
  have "off mod 1024 \<le> 1024" by (simp add: word_le_nat_alt unat_mod less_imp_le)
  then have "unat (1024 - off mod 1024) = 1024 - unat off mod 1024"
    by (simp add: unat_sub unat_mod)
  then show ?thesis by (auto simp: piece_def word_less_nat_alt)
qed

lemma piece_decreases:
  fixes n tot off :: u32
  assumes "tot < n"
  shows "unat (n - (tot + piece off (n - tot))) < unat (n - tot)"
proof -
  have le: "unat (piece off (n - tot)) \<le> unat (n - tot)" by (simp add: unat_piece)
  have "0 < unat (n - tot)" using assms by (simp add: unat_gt_0)
  then have "0 < unat (piece off (n - tot))"
    using mod_less_divisor [of 1024 "unat off"] by (simp add: unat_piece)
  moreover have e: "n - (tot + piece off (n - tot)) = (n - tot) - piece off (n - tot)"
    by (simp only: diff_diff_eq)
  moreover have "unat ((n - tot) - piece off (n - tot)) = unat (n - tot) - unat (piece off (n - tot))"
    using le by (simp add: unat_sub word_le_nat_alt)
  ultimately show ?thesis using \<open>0 < unat (n - tot)\<close> unfolding e by linarith
qed

function readi_loop :: "nat \<Rightarrow> kaddr \<Rightarrow> u32 \<Rightarrow> u32 \<Rightarrow> u32 \<Rightarrow> bytes \<Rightarrow> ('z kfs_scheme, u32 \<times> bytes) km" where
  "readi_loop ip dst off n tot k es s =
     (if tot < n then
        bnd (bnd (bmap ip (off div 1024)) (\<lambda>a.
             bnd (gets (\<lambda>s. i_dev (inodes s ip))) (\<lambda>dev.
             bnd (bread dev a) (\<lambda>bp.
             bnd (gets (\<lambda>s. b_data (bufs s bp))) (\<lambda>d.
             bnd (either_copyout dst d (unat (off mod 1024)) (ucast (piece off (n - tot))) k) (\<lambda>r.
             sq (brelse bp) (ret r)))))))
          (\<lambda>r es s.
             if fst r = -1 then Ret (tot, snd r) es s
             else readi_loop ip (kaddr_add dst (unat (piece off (n - tot)))) (off + piece off (n - tot)) n
                    (tot + piece off (n - tot)) (snd r) es s) es s
      else Ret (tot, k) es s)"
  by pat_completeness auto
termination
  by (relation "measure (\<lambda>(ip, dst, off, n, tot, k, es, s). unat (n - tot))") (simp_all add: piece_decreases)

definition readi :: "nat \<Rightarrow> kaddr \<Rightarrow> u32 \<Rightarrow> u32 \<Rightarrow> bytes \<Rightarrow> ('z kfs_scheme, u32 \<times> bytes) km" where
  "readi ip dst off n k =
     bnd (gets (\<lambda>s. i_size (inodes s ip))) (\<lambda>size.
     if size < off \<or> off + n < off then ret (0, k)
     else readi_loop ip dst off (if size < off + n then size - off else n) 0 k)"

text \<open>The loop of \<^verbatim>\<open>writei\<close> returns the offset it reached.\<close>

function writei_loop :: "nat \<Rightarrow> kaddr \<Rightarrow> u32 \<Rightarrow> u32 \<Rightarrow> u32 \<Rightarrow> bytes \<Rightarrow> ('z kfs_scheme, u32) km" where
  "writei_loop ip src off n tot k es s =
     (if tot < n then
        bnd (bnd (bmap ip (off div 1024)) (\<lambda>a.
             bnd (gets (\<lambda>s. i_dev (inodes s ip))) (\<lambda>dev.
             bnd (bread dev a) (\<lambda>bp.
             bnd (gets (\<lambda>s. b_data (bufs s bp))) (\<lambda>d.
             bnd (either_copyin d (unat (off mod 1024)) src (ucast (piece off (n - tot))) k) (\<lambda>r.
             sq (modify (upd_buf bp (\<lambda>x. x\<lparr>b_data := snd r\<rparr>)))
             (sq (whenk (fst r \<noteq> -1) (log_write bp))
             (sq (brelse bp) (ret (fst r))))))))))
          (\<lambda>r es s.
             if r = -1 then Ret off es s
             else writei_loop ip (kaddr_add src (unat (piece off (n - tot)))) (off + piece off (n - tot)) n
                    (tot + piece off (n - tot)) k es s) es s
      else Ret off es s)"
  by pat_completeness auto
termination
  by (relation "measure (\<lambda>(ip, src, off, n, tot, k, es, s). unat (n - tot))") (simp_all add: piece_decreases)

declare readi_loop.simps [simp del] writei_loop.simps [simp del]

definition writei :: "nat \<Rightarrow> kaddr \<Rightarrow> u32 \<Rightarrow> u32 \<Rightarrow> bytes \<Rightarrow> ('z kfs_scheme, int) km" where
  "writei ip src off n k =
     bnd (gets (\<lambda>s. i_size (inodes s ip))) (\<lambda>size.
     if size < off \<or> off + n < off then ret (-1)
     else if word_of_nat (MAXFILE * BSIZE) < off + n then ret (-1)
     else
       bnd (writei_loop ip src off n 0 k) (\<lambda>off'.
       sq (whenk (0 < n)
             (sq (modify (upd_inode ip (\<lambda>i. if i_size i < off' then i\<lparr>i_size := off'\<rparr> else i)))
                 (iupdate ip)))
          (ret (sint n))))"

subsection \<open>Directories\<close>

definition str_bytes :: "byte list \<Rightarrow> bytes" where
  "str_bytes xs i = (if i < length xs then xs ! i else 0)"

definition namecmp :: "bytes \<Rightarrow> nat \<Rightarrow> bytes \<Rightarrow> nat \<Rightarrow> int" where
  "namecmp m1 s m2 t = strncmp m1 s m2 t DIRSIZ"

text \<open>\<open>for32 a d f\<close> runs \<open>f\<close> at \<open>a\<close>, \<open>a + d\<close>, ... until it yields a result.\<close>

function for32 :: "u32 \<Rightarrow> u32 \<Rightarrow> (u32 \<Rightarrow> ('s, 'r option) km) \<Rightarrow> ('s, 'r) km" where
  "for32 a d f es s =
     bnd (f a) (\<lambda>r es s. case r of
        Some v \<Rightarrow> Ret v es s
      | None \<Rightarrow> if a < a + d then for32 (a + d) d f es s else Diverge) es s"
  by pat_completeness auto
termination
  by (relation "measure (\<lambda>(a, d, f, es, s). 2 ^ 32 - unat a)")
     (auto simp: word_less_nat_alt intro!: diff_less_mono2 unat_u32)

declare for32.simps [simp del]

text \<open>
  \<^verbatim>\<open>dirlookup\<close> returns the inode and the offset of its entry. The entry is read into the 16 bytes
  of \<^verbatim>\<open>de\<close>: the inode number, then the name.
\<close>

definition dirlookup :: "nat \<Rightarrow> byte list \<Rightarrow> ('z kfs_scheme, (nat \<times> u32) option) km" where
  "dirlookup dp name =
     bnd (gets (\<lambda>s. i_type (inodes s dp))) (\<lambda>t.
     if t \<noteq> T_DIR then panic ''dirlookup not DIR''
     else for32 0 16 (\<lambda>off.
       bnd (gets (\<lambda>s. i_size (inodes s dp))) (\<lambda>size.
       if \<not> off < size then ret (Some None)
       else
         bnd (readi dp (Kbuf 0) off 16 (\<lambda>_. 0)) (\<lambda>(r, de).
         if r \<noteq> 16 then panic ''dirlookup read''
         else if ld16 de 0 = 0 then ret None
         else if namecmp (str_bytes name) 0 de 2 = 0 then
           bnd (gets (\<lambda>s. i_dev (inodes s dp))) (\<lambda>dev.
           bnd (iget dev (ucast (ld16 de 0))) (\<lambda>ip. ret (Some (Some (ip, off)))))
         else ret None))))"

definition dirlink :: "nat \<Rightarrow> byte list \<Rightarrow> u32 \<Rightarrow> ('z kfs_scheme, int) km" where
  "dirlink dp name inum =
     bnd (dirlookup dp name) (\<lambda>found.
     case found of
       Some (ip, _) \<Rightarrow> sq (iput ip) (ret (-1))
     | None \<Rightarrow>
         bnd (for32 0 16 (\<lambda>off.
           bnd (gets (\<lambda>s. i_size (inodes s dp))) (\<lambda>size.
           if \<not> off < size then ret (Some (off, \<lambda>_. 0))
           else
             bnd (readi dp (Kbuf 0) off 16 (\<lambda>_. 0)) (\<lambda>(r, de).
             if r \<noteq> 16 then panic ''dirlink read''
             else if ld16 de 0 = 0 then ret (Some (off, de))
             else ret None)))) (\<lambda>(off, de).
         bnd (writei dp (Kbuf 0) off 16 (st16 0 (ucast inum) (strncpy 2 (str_bytes name) 0 (int DIRSIZ) de))) (\<lambda>r.
         if r \<noteq> 16 then panic ''dirlink'' else ret 0)))"

subsection \<open>Paths\<close>

abbreviation (input) SLASH :: byte where "SLASH \<equiv> 47"

definition skipelem :: "byte list \<Rightarrow> (byte list \<times> byte list) option" where
  "skipelem path =
     (let p = dropWhile (\<lambda>c. c = SLASH) path in
      if p = [] then None
      else
        let elem = takeWhile (\<lambda>c. c \<noteq> SLASH) p;
            rest = dropWhile (\<lambda>c. c \<noteq> SLASH) p;
            name = (if DIRSIZ \<le> length elem then take DIRSIZ elem else elem)
        in Some (dropWhile (\<lambda>c. c = SLASH) rest, name))"

lemma skipelem_shorter: "skipelem path = Some (rest, name) \<Longrightarrow> length rest < length path"
proof -
  assume a: "skipelem path = Some (rest, name)"
  define p where "p = dropWhile (\<lambda>c. c = SLASH) path"
  have p: "p \<noteq> []" and r: "rest = dropWhile (\<lambda>c. c = SLASH) (dropWhile (\<lambda>c. c \<noteq> SLASH) p)"
    using a by (auto simp: skipelem_def p_def Let_def split: if_splits)
  have "hd p \<noteq> SLASH" using p hd_dropWhile [of "\<lambda>c. c = SLASH" path] by (auto simp: p_def)
  then obtain c cs where "p = c # cs" "c \<noteq> SLASH" using p by (cases p) auto
  then have "length rest \<le> length cs"
    using length_dropWhile_le [of "\<lambda>c. c = SLASH" "dropWhile (\<lambda>c. c \<noteq> SLASH) p"]
      length_dropWhile_le [of "\<lambda>c. c \<noteq> SLASH" cs] r by simp
  also have "\<dots> < length p" using \<open>p = c # cs\<close> by simp
  also have "\<dots> \<le> length path" unfolding p_def by (rule length_dropWhile_le)
  finally show ?thesis .
qed

function namex_loop :: "byte list \<Rightarrow> bool \<Rightarrow> nat \<Rightarrow> byte list \<Rightarrow> ('z kfs_scheme, (nat \<times> byte list) option) km" where
  "namex_loop path parent ip name es s =
     (case skipelem path of
        None \<Rightarrow> (if parent then sq (iput ip) (ret None) else ret (Some (ip, name))) es s
      | Some (rest, name') \<Rightarrow>
          bnd (sq (ilock (Some ip))
               (bnd (gets (\<lambda>s. i_type (inodes s ip))) (\<lambda>t.
                if t \<noteq> T_DIR then sq (iunlockput ip) (ret (Inl None))
                else if parent \<and> rest = [] then sq (iunlock (Some ip)) (ret (Inl (Some (ip, name'))))
                else bnd (dirlookup ip name') (\<lambda>nx.
                  sq (iunlockput ip) (ret (case nx of None \<Rightarrow> Inl None | Some (nip, _) \<Rightarrow> Inr nip))))))
            (\<lambda>r es s. case r of Inl v \<Rightarrow> Ret v es s
               | Inr nip \<Rightarrow> namex_loop rest parent nip name' es s) es s)"
  by pat_completeness auto
termination
  by (relation "measure (\<lambda>(path, parent, ip, name, es, s). length path)") (auto dest: skipelem_shorter)

declare namex_loop.simps [simp del]

definition namex :: "byte list \<Rightarrow> bool \<Rightarrow> ('z kfs_scheme, (nat \<times> byte list) option) km" where
  "namex path parent =
     bnd (if path \<noteq> [] \<and> hd path = SLASH then iget ROOTDEV ROOTINO
          else bnd curproc (\<lambda>p.
            bnd (gets (\<lambda>s. p_cwd (procs s p))) (\<lambda>cwd.
            case cwd of None \<Rightarrow> panic ''kerneltrap'' | Some c \<Rightarrow> idup c)))
         (\<lambda>ip. namex_loop path parent ip [])"

definition namei :: "byte list \<Rightarrow> ('z kfs_scheme, nat option) km" where
  "namei path = bnd (namex path False) (\<lambda>r. ret (map_option fst r))"

definition nameiparent :: "byte list \<Rightarrow> ('z kfs_scheme, (nat \<times> byte list) option) km" where
  "nameiparent path = namex path True"

subsection \<open>The fields are above the machine\<close>

lemma upper_fs: "upper (sblk_update f0)" "upper (inodes_update f1)"
  by (simp_all add: upper_defs)

lemma reader_fs: "reader sblk" "reader inodes"
  by (simp_all add: upper_defs)

lemmas fs_simps [simp] =
  upper_simps [OF upper_fs(1)] reader_simps [OF reader_fs(1)]
  upper_simps [OF upper_fs(2)] reader_simps [OF reader_fs(2)]

end
