(* ===== verification/Pipe.thy ===== *)
theory Pipe
  imports Fs
begin

text \<open>
  Pipes (\<^verbatim>\<open>kernel/pipe.c\<close>) and the file table's data (\<^verbatim>\<open>kernel/file.h\<close>). A pipe is named by the
  physical address of its page; \<open>pipes\<close> holds the contents of the pages that are in use as pipes,
  and the page itself comes from and goes back to the page allocator. \<^verbatim>\<open>nread\<close> and \<^verbatim>\<open>nwrite\<close> count
  bytes modulo \<open>2 ^ 32\<close>; the ring buffer is indexed modulo \<^verbatim>\<open>PIPESIZE\<close>.
\<close>

subsection \<open>State\<close>

abbreviation (input) PIPESIZE :: u32 where "PIPESIZE \<equiv> 512"

record pipe =
  pi_data :: "nat \<Rightarrow> byte"
  pi_nread :: u32
  pi_nwrite :: u32
  pi_readopen :: bool
  pi_writeopen :: bool

datatype fdtype = FD_NONE | FD_PIPE | FD_INODE | FD_DEVICE

record ofile =
  f_type :: fdtype
  f_ref :: int
  f_readable :: bool
  f_writable :: bool
  f_pipe :: u64
  f_ip :: nat
  f_off :: u32
  f_major :: u16

record kfile = kfs +
  files :: "nat \<Rightarrow> ofile"
  pipes :: "u64 \<Rightarrow> pipe"

definition upd_pipe :: "u64 \<Rightarrow> (pipe \<Rightarrow> pipe) \<Rightarrow> 'z kfile_scheme \<Rightarrow> 'z kfile_scheme" where
  "upd_pipe p f s = s\<lparr>pipes := (pipes s)(p := f (pipes s p))\<rparr>"

definition upd_file :: "nat \<Rightarrow> (ofile \<Rightarrow> ofile) \<Rightarrow> 'z kfile_scheme \<Rightarrow> 'z kfile_scheme" where
  "upd_file i f s = s\<lparr>files := (files s)(i := f (files s i))\<rparr>"

subsection \<open>Operations\<close>

definition pipe_full :: "pipe \<Rightarrow> bool" where
  "pipe_full p \<longleftrightarrow> pi_nwrite p = pi_nread p + PIPESIZE"

definition pipe_put :: "byte \<Rightarrow> pipe \<Rightarrow> pipe" where
  "pipe_put c p = p\<lparr>pi_data := (pi_data p)(unat (pi_nwrite p mod PIPESIZE) := c), pi_nwrite := pi_nwrite p + 1\<rparr>"

definition pipe_next :: "pipe \<Rightarrow> byte" where
  "pipe_next p = pi_data p (unat (pi_nread p mod PIPESIZE))"

definition pipe_drop :: "pipe \<Rightarrow> pipe" where
  "pipe_drop p = p\<lparr>pi_nread := pi_nread p + 1\<rparr>"

definition pipeclose :: "u64 \<Rightarrow> bool \<Rightarrow> ('z kfile_scheme, unit) km" where
  "pipeclose pip writable =
     sq (acquire (L_pipe pip))
     (sq (if writable
          then sq (modify (upd_pipe pip (\<lambda>p. p\<lparr>pi_writeopen := False\<rparr>))) (wakeup (Ch_nread pip))
          else sq (modify (upd_pipe pip (\<lambda>p. p\<lparr>pi_readopen := False\<rparr>))) (wakeup (Ch_nwrite pip)))
     (bnd (gets (\<lambda>s. \<not> pi_readopen (pipes s pip) \<and> \<not> pi_writeopen (pipes s pip))) (\<lambda>closed.
      if closed then sq (release (L_pipe pip)) (kfree pip) else release (L_pipe pip))))"

text \<open>Waiting for room: \<open>False\<close> when the reader is gone or the process killed, the lock released.\<close>

definition pipe_wait_room :: "u64 \<Rightarrow> nat \<Rightarrow> ('z kfile_scheme, bool) km" where
  "pipe_wait_room pip pr =
     wait_loop
       (bnd (gets (\<lambda>s. pipe_full (pipes s pip))) (\<lambda>full.
        if \<not> full then ret (Some True)
        else
          bnd (gets (\<lambda>s. \<not> pi_readopen (pipes s pip) \<or> p_killed (procs s pr) \<noteq> 0)) (\<lambda>stop.
          if stop then sq (release (L_pipe pip)) (ret (Some False))
          else sq (wakeup (Ch_nread pip)) (sq (sleep (Ch_nwrite pip) (L_pipe pip)) (ret None)))))"

definition pipewrite :: "u64 \<Rightarrow> u64 \<Rightarrow> i32 \<Rightarrow> ('z kfile_scheme, int) km" where
  "pipewrite pip addr n =
     bnd curproc (\<lambda>pr.
     sq (acquire (L_pipe pip))
     (bnd (each [0..<nat (sint n)] (\<lambda>i.
        bnd (pipe_wait_room pip pr) (\<lambda>ok.
        if \<not> ok then ret (Some None)
        else
          bnd (gets (\<lambda>s. p_pagetable (procs s pr))) (\<lambda>pt.
          bnd (copyin pt (\<lambda>_. 0) 0 (addr + word_of_nat i) 1) (\<lambda>(r, ch).
          if r = -1 then ret (Some (Some i))
          else sq (modify (upd_pipe pip (pipe_put (ch 0)))) (ret None)))))) (\<lambda>r.
      case r of
        Some None \<Rightarrow> ret (-1)
      | _ \<Rightarrow>
          sq (wakeup (Ch_nread pip))
          (sq (release (L_pipe pip))
              (ret (case r of Some (Some i) \<Rightarrow> int i | _ \<Rightarrow> max 0 (sint n)))))))"

text \<open>Waiting for data: \<open>False\<close> when the process was killed, the lock released.\<close>

definition pipe_wait_data :: "u64 \<Rightarrow> nat \<Rightarrow> ('z kfile_scheme, bool) km" where
  "pipe_wait_data pip pr =
     wait_loop
       (bnd (gets (\<lambda>s. pi_nread (pipes s pip) = pi_nwrite (pipes s pip) \<and> pi_writeopen (pipes s pip))) (\<lambda>empt.
        if \<not> empt then ret (Some True)
        else
          bnd (gets (\<lambda>s. p_killed (procs s pr))) (\<lambda>killed.
          if killed \<noteq> 0 then sq (release (L_pipe pip)) (ret (Some False))
          else sq (sleep (Ch_nread pip) (L_pipe pip)) (ret None))))"

definition piperead :: "u64 \<Rightarrow> u64 \<Rightarrow> i32 \<Rightarrow> ('z kfile_scheme, int) km" where
  "piperead pip addr n =
     bnd curproc (\<lambda>pr.
     sq (acquire (L_pipe pip))
     (bnd (pipe_wait_data pip pr) (\<lambda>ok.
      if \<not> ok then ret (-1)
      else
        bnd (each [0..<nat (sint n)] (\<lambda>i.
          bnd (gets (\<lambda>s. pipes s pip)) (\<lambda>p.
          if pi_nread p = pi_nwrite p then ret (Some i)
          else
            sq (modify (upd_pipe pip pipe_drop))
            (bnd (gets (\<lambda>s. p_pagetable (procs s pr))) (\<lambda>pt.
             bnd (copyout pt (addr + word_of_nat i) (\<lambda>_. pipe_next p) 0 1) (\<lambda>r.
             if r = -1 then ret (Some i) else ret None)))))) (\<lambda>r.
        sq (wakeup (Ch_nwrite pip))
        (sq (release (L_pipe pip))
            (ret (case r of Some i \<Rightarrow> int i | None \<Rightarrow> max 0 (sint n))))))))"

subsection \<open>The fields are above the machine\<close>

lemma upper_file: "upper (files_update f0)" "upper (pipes_update f1)"
  by (simp_all add: upper_defs)

lemma reader_file: "reader files" "reader pipes"
  by (simp_all add: upper_defs)

lemmas file_simps [simp] =
  upper_simps [OF upper_file(1)] reader_simps [OF reader_file(1)]
  upper_simps [OF upper_file(2)] reader_simps [OF reader_file(2)]

end
