(* ===== verification/File.thy ===== *)
theory File
  imports Pipe
begin

text \<open>
  The table of open files (\<^verbatim>\<open>kernel/file.c\<close>) and the creation of pipes (\<^verbatim>\<open>pipealloc\<close> of
  \<^verbatim>\<open>kernel/pipe.c\<close>). A \<^verbatim>\<open>struct file *\<close> is an index into \<^verbatim>\<open>ftable.file\<close>. A function pointer of
  \<^verbatim>\<open>devsw\<close> is the name of the function, of which the kernel has two.
\<close>

definition fileinit :: "('z kfile_scheme, unit) km" where
  "fileinit = initlock L_ftable ''ftable''"

definition filealloc :: "('z kfile_scheme, nat option) km" where
  "filealloc =
     sq (acquire L_ftable)
     (bnd (each [0..<NFILE] (\<lambda>f.
        bnd (gets (\<lambda>s. f_ref (files s f))) (\<lambda>r.
        if r = 0 then
          sq (modify (upd_file f (\<lambda>x. x\<lparr>f_ref := 1\<rparr>)))
          (sq (release L_ftable) (ret (Some f)))
        else ret None))) (\<lambda>r.
      case r of Some f \<Rightarrow> ret (Some f) | None \<Rightarrow> sq (release L_ftable) (ret None)))"

definition filedup :: "nat \<Rightarrow> ('z kfile_scheme, nat) km" where
  "filedup f =
     sq (acquire L_ftable)
     (bnd (gets (\<lambda>s. f_ref (files s f))) (\<lambda>r.
      if r < 1 then panic ''filedup''
      else sq (modify (upd_file f (\<lambda>x. x\<lparr>f_ref := f_ref x + 1\<rparr>)))
           (sq (release L_ftable) (ret f))))"

definition fileclose :: "nat \<Rightarrow> ('z kfile_scheme, unit) km" where
  "fileclose f =
     sq (acquire L_ftable)
     (bnd (gets (\<lambda>s. f_ref (files s f))) (\<lambda>r.
      if r < 1 then panic ''fileclose''
      else
        sq (modify (upd_file f (\<lambda>x. x\<lparr>f_ref := f_ref x - 1\<rparr>)))
        (if 0 < r - 1 then release L_ftable
         else
           bnd (gets (\<lambda>s. files s f)) (\<lambda>ff.
           seqs
             [modify (upd_file f (\<lambda>x. x\<lparr>f_ref := 0, f_type := FD_NONE\<rparr>)),
              release L_ftable,
              case f_type ff of
                FD_PIPE \<Rightarrow> pipeclose (f_pipe ff) (f_writable ff)
              | FD_NONE \<Rightarrow> ret ()
              | _ \<Rightarrow> seqs [begin_op, iput (f_ip ff), end_op]]))))"

text \<open>The 24 bytes of a \<^verbatim>\<open>struct stat\<close>; the four bytes of padding are left as they are in \<open>m\<close>.\<close>

definition stat_bytes :: "stat \<Rightarrow> bytes \<Rightarrow> bytes" where
  "stat_bytes x m = st64 16 (st_size x) (st16 10 (st_nlink x) (st16 8 (st_type x) (st32 4 (st_ino x) (st32 0 (st_dev x) m))))"

definition filestat :: "nat \<Rightarrow> u64 \<Rightarrow> ('z kfile_scheme, int) km" where
  "filestat f addr =
     bnd curproc (\<lambda>p.
     bnd (gets (\<lambda>s. files s f)) (\<lambda>ff.
     if f_type ff = FD_INODE \<or> f_type ff = FD_DEVICE then
       sq (ilock (Some (f_ip ff)))
       (bnd (gets (stati (f_ip ff))) (\<lambda>x.
        sq (iunlock (Some (f_ip ff)))
        (bnd (gets (\<lambda>s. p_pagetable (procs s p))) (\<lambda>pt.
         bnd (copyout pt addr (stat_bytes x (\<lambda>_. 0)) 0 24) (\<lambda>r.
         ret (if r < 0 then -1 else 0))))))
     else ret (-1)))"

definition dev_ok :: "u16 \<Rightarrow> bool" where
  "dev_ok m \<longleftrightarrow> 0 \<le> sint m \<and> sint m < int NDEV"

definition fileread :: "nat \<Rightarrow> u64 \<Rightarrow> i32 \<Rightarrow> ('z kfile_scheme, int) km" where
  "fileread f addr n =
     bnd (gets (\<lambda>s. files s f)) (\<lambda>ff.
     if \<not> f_readable ff then ret (-1)
     else case f_type ff of
       FD_PIPE \<Rightarrow> piperead (f_pipe ff) addr n
     | FD_DEVICE \<Rightarrow>
         bnd (gets devsws) (\<lambda>dv.
         if \<not> dev_ok (f_major ff) then ret (-1)
         else case dev_read (dv (nat (sint (f_major ff)))) of
           Some Consoleread \<Rightarrow> bnd (consoleread (User addr) n (\<lambda>_. 0)) (\<lambda>r. ret (fst r))
         | Some Consolewrite \<Rightarrow> consolewrite (User addr) n (\<lambda>_. 0)
         | None \<Rightarrow> ret (-1))
     | FD_INODE \<Rightarrow>
         sq (ilock (Some (f_ip ff)))
         (bnd (readi (f_ip ff) (User addr) (f_off ff) n (\<lambda>_. 0)) (\<lambda>(r, _).
          sq (whenk (0 < sint r) (modify (upd_file f (\<lambda>x. x\<lparr>f_off := f_off x + r\<rparr>))))
          (sq (iunlock (Some (f_ip ff))) (ret (sint r)))))
     | FD_NONE \<Rightarrow> panic ''fileread'')"

text \<open>
  \<^verbatim>\<open>filewrite\<close> cuts a write into transactions of at most \<^verbatim>\<open>max\<close> bytes. The loop returns how many
  bytes it got through; an iteration that makes no progress does not go on.
\<close>

abbreviation (input) WRITE_MAX :: int where
  "WRITE_MAX \<equiv> ((int MAXOPBLOCKS - 1 - 1 - 2) div 2) * int BSIZE"

definition filewrite_step :: "nat \<Rightarrow> u64 \<Rightarrow> int \<Rightarrow> int \<Rightarrow> ('z kfile_scheme, int) km" where
  "filewrite_step f addr i n1 =
     bnd (gets (\<lambda>s. files s f)) (\<lambda>ff.
     sq begin_op
     (sq (ilock (Some (f_ip ff)))
     (bnd (writei (f_ip ff) (User (addr + word_of_int i)) (f_off ff) (word_of_int n1) (\<lambda>_. 0)) (\<lambda>r.
      sq (whenk (0 < r) (modify (upd_file f (\<lambda>x. x\<lparr>f_off := f_off x + word_of_int r\<rparr>))))
      (sq (iunlock (Some (f_ip ff)))
      (sq end_op (ret r)))))))"

function filewrite_loop :: "nat \<Rightarrow> u64 \<Rightarrow> int \<Rightarrow> int \<Rightarrow> ('z kfile_scheme, int) km" where
  "filewrite_loop f addr n i es s =
     (if i < n then
        let n1 = min (n - i) WRITE_MAX in
        bnd (filewrite_step f addr i n1) (\<lambda>r es s.
          if r < 0 then Ret i es s
          else if r \<noteq> n1 then Panic ''short filewrite''
          else filewrite_loop f addr n (i + r) es s) es s
      else Ret i es s)"
  by pat_completeness auto
termination
  by (relation "measure (\<lambda>(f, addr, n, i, es, s). nat (n - i))") auto

declare filewrite_loop.simps [simp del]

definition filewrite :: "nat \<Rightarrow> u64 \<Rightarrow> i32 \<Rightarrow> ('z kfile_scheme, int) km" where
  "filewrite f addr n =
     bnd (gets (\<lambda>s. files s f)) (\<lambda>ff.
     if \<not> f_writable ff then ret (-1)
     else case f_type ff of
       FD_PIPE \<Rightarrow> pipewrite (f_pipe ff) addr n
     | FD_DEVICE \<Rightarrow>
         bnd (gets devsws) (\<lambda>dv.
         if \<not> dev_ok (f_major ff) then ret (-1)
         else case dev_write (dv (nat (sint (f_major ff)))) of
           Some Consoleread \<Rightarrow> bnd (consoleread (User addr) n (\<lambda>_. 0)) (\<lambda>r. ret (fst r))
         | Some Consolewrite \<Rightarrow> consolewrite (User addr) n (\<lambda>_. 0)
         | None \<Rightarrow> ret (-1))
     | FD_INODE \<Rightarrow>
         bnd (filewrite_loop f addr (sint n) 0) (\<lambda>i. ret (if i = sint n then sint n else -1))
     | FD_NONE \<Rightarrow> panic ''filewrite'')"

text \<open>\<^verbatim>\<open>pipealloc\<close> returns the two files, or \<open>None\<close> after undoing what it had done.\<close>

definition pipealloc_bad :: "nat option \<Rightarrow> nat option \<Rightarrow> ('z kfile_scheme, (nat \<times> nat) option) km" where
  "pipealloc_bad f0 f1 =
     sq (case f0 of None \<Rightarrow> ret () | Some f \<Rightarrow> fileclose f)
     (sq (case f1 of None \<Rightarrow> ret () | Some f \<Rightarrow> fileclose f)
         (ret None))"

definition pipealloc :: "('z kfile_scheme, (nat \<times> nat) option) km" where
  "pipealloc =
     bnd filealloc (\<lambda>f0.
     case f0 of
       None \<Rightarrow> pipealloc_bad None None
     | Some rfile \<Rightarrow>
         bnd filealloc (\<lambda>f1.
         case f1 of
           None \<Rightarrow> pipealloc_bad (Some rfile) None
         | Some wfile \<Rightarrow>
             bnd kalloc (\<lambda>pip.
             if pip = 0 then pipealloc_bad (Some rfile) (Some wfile)
             else
               sq (modify (upd_pipe pip (\<lambda>p. p\<lparr>pi_readopen := True, pi_writeopen := True, pi_nwrite := 0, pi_nread := 0\<rparr>)))
               (sq (initlock (L_pipe pip) ''pipe'')
               (sq (modify (upd_file rfile (\<lambda>x. x\<lparr>f_type := FD_PIPE, f_readable := True, f_writable := False, f_pipe := pip\<rparr>)))
               (sq (modify (upd_file wfile (\<lambda>x. x\<lparr>f_type := FD_PIPE, f_readable := False, f_writable := True, f_pipe := pip\<rparr>)))
                   (ret (Some (rfile, wfile)))))))))"

end
