(* ===== verification/Process.thy ===== *)
theory Process
  imports File
begin

text \<open>
  Creation and end of processes (\<^verbatim>\<open>userinit\<close>, \<^verbatim>\<open>fork\<close>, \<^verbatim>\<open>exit\<close> and \<^verbatim>\<open>wait\<close> of
  \<^verbatim>\<open>kernel/proc.c\<close>), over the process table, the open files and the file system.
\<close>

definition initcode :: "byte list" where
  "initcode = [0x17, 0x05, 0x00, 0x00, 0x13, 0x05, 0x45, 0x02, 0x97, 0x05, 0x00, 0x00, 0x93,
               0x85, 0x35, 0x02, 0x93, 0x08, 0x70, 0x00, 0x73, 0x00, 0x00, 0x00, 0x93, 0x08,
               0x20, 0x00, 0x73, 0x00, 0x00, 0x00, 0xef, 0xf0, 0x9f, 0xff, 0x2f, 0x69, 0x6e,
               0x69, 0x74, 0x00, 0x00, 0x24, 0x00, 0x00, 0x00, 0x00, 0x00, 0x00, 0x00, 0x00]"

definition userinit :: "('z kfile_scheme, unit) km" where
  "userinit =
     bnd allocproc (\<lambda>po.
     sq (modify (\<lambda>s. s\<lparr>initproc := po\<rparr>))
     (case po of
        None \<Rightarrow> panic ''kerneltrap''
      | Some p \<Rightarrow>
          bnd (gets (\<lambda>s. p_pagetable (procs s p))) (\<lambda>pt.
          seqs
            [uvminit pt (str_bytes initcode) (word_of_nat (length initcode)),
             modify (upd_proc p (\<lambda>q. q\<lparr>p_sz := PGSIZE\<rparr>)),
             tf_set p TF_epc 0,
             tf_set p TF_sp PGSIZE,
             modify (upd_proc p (\<lambda>q. q\<lparr>p_name := safestrcpy 0 (str_bytes (cstring ''initcode'')) 0 16 (p_name q)\<rparr>)),
             bnd (namei (cstring ''/'')) (\<lambda>ip. modify (upd_proc p (\<lambda>q. q\<lparr>p_cwd := ip\<rparr>))),
             modify (upd_proc p (\<lambda>q. q\<lparr>p_state := RUNNABLE\<rparr>)),
             release (L_proc p)])))"

definition fork :: "('z kfile_scheme, int) km" where
  "fork =
     bnd curproc (\<lambda>p.
     bnd allocproc (\<lambda>npo.
     case npo of
       None \<Rightarrow> ret (-1)
     | Some np \<Rightarrow>
         bnd (gets (\<lambda>s. procs s)) (\<lambda>ps.
         bnd (uvmcopy (p_pagetable (ps p)) (p_pagetable (ps np)) (p_sz (ps p))) (\<lambda>r.
         if r < 0 then sq (freeproc np) (sq (release (L_proc np)) (ret (-1)))
         else
           sq (modify (\<lambda>s. upd_proc np (\<lambda>q. q\<lparr>p_sz := p_sz (procs s p), p_parent := Some p\<rparr>) s))
           (sq (modify (\<lambda>s. s\<lparr>pmem := copy (unat (p_trapframe (procs s np))) (pmem s) (unat (p_trapframe (procs s p))) 288 (pmem s)\<rparr>))
           (sq (tf_set np TF_a0 0)
           (sq (each_do [0..<NOFILE] (\<lambda>i.
                  bnd (gets (\<lambda>s. p_ofile (procs s p) i)) (\<lambda>fo.
                  case fo of None \<Rightarrow> ret ()
                  | Some f \<Rightarrow> bnd (filedup f) (\<lambda>f'. modify (upd_proc np (\<lambda>q. q\<lparr>p_ofile := (p_ofile q)(i := Some f')\<rparr>))))))
           (bnd (gets (\<lambda>s. p_cwd (procs s p))) (\<lambda>cwd.
            case cwd of
              None \<Rightarrow> panic ''kerneltrap''
            | Some c \<Rightarrow>
                bnd (idup c) (\<lambda>c'.
                sq (modify (upd_proc np (\<lambda>q. q\<lparr>p_cwd := Some c'\<rparr>)))
                (sq (modify (\<lambda>s. upd_proc np (\<lambda>q. q\<lparr>p_name := safestrcpy 0 (p_name (procs s p)) 0 16 (p_name q)\<rparr>) s))
                (bnd (gets (\<lambda>s. p_pid (procs s np))) (\<lambda>pid.
                 sq (modify (upd_proc np (\<lambda>q. q\<lparr>p_state := RUNNABLE\<rparr>)))
                 (sq (release (L_proc np)) (ret (sint pid))))))))))))))))"

definition exit :: "i32 \<Rightarrow> ('z kfile_scheme, unit) km" where
  "exit status =
     bnd curproc (\<lambda>p.
     bnd (gets initproc) (\<lambda>ini.
     if ini = Some p then panic ''init exiting''
     else
       sq (each_do [0..<NOFILE] (\<lambda>fd.
             bnd (gets (\<lambda>s. p_ofile (procs s p) fd)) (\<lambda>fo.
             case fo of None \<Rightarrow> ret ()
             | Some f \<Rightarrow> sq (fileclose f) (modify (upd_proc p (\<lambda>q. q\<lparr>p_ofile := (p_ofile q)(fd := None)\<rparr>))))))
       (sq begin_op
       (sq (bnd (gets (\<lambda>s. p_cwd (procs s p))) (\<lambda>cwd. case cwd of None \<Rightarrow> panic ''kerneltrap'' | Some c \<Rightarrow> iput c))
       (sq end_op
       (sq (modify (upd_proc p (\<lambda>q. q\<lparr>p_cwd := None\<rparr>)))
       (case ini of
          None \<Rightarrow> panic ''kerneltrap''
        | Some ip \<Rightarrow>
            sq (acquire (L_proc ip))
            (sq (wakeup1 ip)
            (sq (release (L_proc ip))
            (sq (acquire (L_proc p))
            (bnd (gets (\<lambda>s. p_parent (procs s p))) (\<lambda>par.
             sq (release (L_proc p))
             (case par of
                None \<Rightarrow> panic ''kerneltrap''
              | Some original_parent \<Rightarrow>
                  seqs
                    [acquire (L_proc original_parent),
                     acquire (L_proc p),
                     reparent p,
                     wakeup1 original_parent,
                     modify (upd_proc p (\<lambda>q. q\<lparr>p_xstate := status\<rparr>)),
                     modify (upd_proc p (\<lambda>q. q\<lparr>p_state := ZOMBIE\<rparr>)),
                     release (L_proc original_parent),
                     sched,
                     panic ''zombie exit'']))))))))))))) "

text \<open>
  \<^verbatim>\<open>wait\<close>. \<open>wait_scan\<close> is one pass over the table: \<open>Inl v\<close> when \<^verbatim>\<open>wait\<close> returns \<open>v\<close> (the locks are
  released), otherwise whether there was a child.
\<close>

fun wait_scan :: "nat \<Rightarrow> u64 \<Rightarrow> nat list \<Rightarrow> bool \<Rightarrow> ('z kfile_scheme, int + bool) km" where
  "wait_scan p addr [] havekids = ret (Inr havekids)"
| "wait_scan p addr (np # nps) havekids =
     bnd (gets (\<lambda>s. p_parent (procs s np))) (\<lambda>par.
     if par \<noteq> Some p then wait_scan p addr nps havekids
     else
       sq (acquire (L_proc np))
       (bnd (gets (\<lambda>s. procs s np)) (\<lambda>q.
        if p_state q = ZOMBIE then
          bnd (if addr \<noteq> 0
               then bnd (gets (\<lambda>s. p_pagetable (procs s p))) (\<lambda>pt. copyout pt addr (st32 0 (p_xstate q) (\<lambda>_. 0)) 0 4)
               else ret 0) (\<lambda>r.
          if r < 0 then
            sq (release (L_proc np)) (sq (release (L_proc p)) (ret (Inl (-1))))
          else
            sq (freeproc np)
            (sq (release (L_proc np))
            (sq (release (L_proc p))
                (ret (Inl (sint (p_pid q)))))))
        else sq (release (L_proc np)) (wait_scan p addr nps True))))"

definition wait :: "u64 \<Rightarrow> ('z kfile_scheme, int) km" where
  "wait addr =
     bnd curproc (\<lambda>p.
     sq (acquire (L_proc p))
     (wait_loop
        (bnd (wait_scan p addr [0..<NPROC] False) (\<lambda>r.
         case r of
           Inl v \<Rightarrow> ret (Some v)
         | Inr havekids \<Rightarrow>
             bnd (gets (\<lambda>s. p_killed (procs s p))) (\<lambda>killed.
             if \<not> havekids \<or> killed \<noteq> 0 then sq (release (L_proc p)) (ret (Some (-1)))
             else sq (sleep (Ch_proc p) (L_proc p)) (ret None))))))"

end
