(* ===== verification/Sysarg.thy ===== *)
theory Sysarg
  imports Process
begin

text \<open>
  Arguments of system calls (the first half of \<^verbatim>\<open>kernel/syscall.c\<close>): the registers saved in the
  trapframe, and words and strings in user memory. A routine that fills a variable of its caller
  returns the value with its result.
\<close>

definition fetchaddr :: "u64 \<Rightarrow> ('z kproc_scheme, int \<times> u64) km" where
  "fetchaddr addr =
     bnd curproc (\<lambda>p.
     bnd (gets (\<lambda>s. procs s p)) (\<lambda>q.
     if p_sz q \<le> addr \<or> p_sz q < addr + 8 then ret (-1, 0)
     else bnd (copyin (p_pagetable q) (\<lambda>_. 0) 0 addr 8) (\<lambda>(r, b).
       if r \<noteq> 0 then ret (-1, 0) else ret (0, ld64 b 0))))"

definition fetchstr :: "u64 \<Rightarrow> bytes \<Rightarrow> nat \<Rightarrow> i32 \<Rightarrow> ('z kproc_scheme, int \<times> bytes) km" where
  "fetchstr addr buf d maxn =
     bnd curproc (\<lambda>p.
     bnd (gets (\<lambda>s. p_pagetable (procs s p))) (\<lambda>pt.
     bnd (copyinstr pt buf d addr (scast maxn)) (\<lambda>(err, b).
     if err < 0 then ret (err, b)
     else case strlen b d of None \<Rightarrow> (\<lambda>es s. Diverge) | Some n \<Rightarrow> ret (int n, b))))"

definition argraw :: "nat \<Rightarrow> ('z kproc_scheme, u64) km" where
  "argraw n =
     bnd curproc (\<lambda>p.
     if n < 6 then gets (tf_get p (TF_a0 + 8 * n)) else panic ''argraw'')"

definition argint :: "nat \<Rightarrow> ('z kproc_scheme, int \<times> i32) km" where
  "argint n = bnd (argraw n) (\<lambda>x. ret (0, ucast x))"

definition argaddr :: "nat \<Rightarrow> ('z kproc_scheme, int \<times> u64) km" where
  "argaddr n = bnd (argraw n) (\<lambda>x. ret (0, x))"

definition argstr :: "nat \<Rightarrow> bytes \<Rightarrow> i32 \<Rightarrow> ('z kproc_scheme, int \<times> bytes) km" where
  "argstr n buf maxn =
     bnd (argaddr n) (\<lambda>(r, addr). if r < 0 then ret (-1, buf) else fetchstr addr buf 0 maxn)"

text \<open>A path argument, as the list of its bytes.\<close>

definition argpath :: "nat \<Rightarrow> ('z kproc_scheme, byte list option) km" where
  "argpath n =
     bnd (argstr n (\<lambda>_. 0) (word_of_nat MAXPATH)) (\<lambda>(r, b).
     ret (if r < 0 then None else Some (cstr MAXPATH b 0)))"

end
