(* ===== verification/Exec.thy ===== *)
theory Exec
  imports Sysarg
begin

text \<open>
  \<^verbatim>\<open>kernel/exec.c\<close>: replacing the memory of a process by a program. The ELF header and the program
  headers are read at their byte offsets (\<^verbatim>\<open>kernel/elf.h\<close>). \<open>argv\<close> lists the addresses of the
  argument strings in physical memory, up to the null pointer. A part of the routine that jumps to
  the label \<^verbatim>\<open>bad\<close> yields \<open>Inl sz\<close>, with the size the new image has then.
\<close>

abbreviation (input) ELF_MAGIC :: u32 where "ELF_MAGIC \<equiv> 0x464C457F"
abbreviation (input) ELF_PROG_LOAD :: u32 where "ELF_PROG_LOAD \<equiv> 1"

record elfhdr =
  elf_magic :: u32
  elf_entry :: u64
  elf_phoff :: u64
  elf_phnum :: u16

record proghdr =
  ph_type :: u32
  ph_off :: u64
  ph_vaddr :: u64
  ph_filesz :: u64
  ph_memsz :: u64

definition ld_elfhdr :: "bytes \<Rightarrow> elfhdr" where
  "ld_elfhdr b = \<lparr>elf_magic = ld32 b 0, elf_entry = ld64 b 24, elf_phoff = ld64 b 32, elf_phnum = ld16 b 56\<rparr>"

definition ld_proghdr :: "bytes \<Rightarrow> proghdr" where
  "ld_proghdr b = \<lparr>ph_type = ld32 b 0, ph_off = ld64 b 8, ph_vaddr = ld64 b 16, ph_filesz = ld64 b 32, ph_memsz = ld64 b 40\<rparr>"

definition loadseg :: "u64 \<Rightarrow> u64 \<Rightarrow> nat \<Rightarrow> u32 \<Rightarrow> u32 \<Rightarrow> ('z kfile_scheme, int) km" where
  "loadseg pagetable va ip offset sz =
     (if va mod PGSIZE \<noteq> 0 then panic ''loadseg: va must be page aligned''
      else for32 0 4096 (\<lambda>i.
        if \<not> i < sz then ret (Some 0)
        else
          bnd (walkaddr pagetable (va + ucast i)) (\<lambda>pa.
          if pa = 0 then panic ''loadseg: address should exist''
          else
            let n = (if sz - i < 4096 then sz - i else 4096) in
            bnd (readi ip (Phys pa) (offset + i) n (\<lambda>_. 0)) (\<lambda>(r, _).
            ret (if r \<noteq> n then Some (-1) else None)))))"

fun exec_segments :: "nat \<Rightarrow> u32 \<Rightarrow> nat \<Rightarrow> u64 \<Rightarrow> u64 \<Rightarrow> ('z kfile_scheme, u64 + u64) km" where
  "exec_segments 0 off ip pagetable sz = ret (Inr sz)"
| "exec_segments (Suc k) off ip pagetable sz =
     bnd (readi ip (Kbuf 0) off 56 (\<lambda>_. 0)) (\<lambda>(r, b).
     if r \<noteq> 56 then ret (Inl sz)
     else
       let ph = ld_proghdr b in
       if ph_type ph \<noteq> ELF_PROG_LOAD then exec_segments k (off + 56) ip pagetable sz
       else if ph_memsz ph < ph_filesz ph then ret (Inl sz)
       else if ph_vaddr ph + ph_memsz ph < ph_vaddr ph then ret (Inl sz)
       else
         bnd (uvmalloc pagetable sz (ph_vaddr ph + ph_memsz ph)) (\<lambda>sz1.
         if sz1 = 0 then ret (Inl sz)
         else if ph_vaddr ph mod PGSIZE \<noteq> 0 then ret (Inl sz1)
         else
           bnd (loadseg pagetable (ph_vaddr ph) ip (ucast (ph_off ph)) (ucast (ph_filesz ph))) (\<lambda>r.
           if r < 0 then ret (Inl sz1) else exec_segments k (off + 56) ip pagetable sz1)))"

text \<open>Pushing the argument strings: \<open>None\<close> for \<^verbatim>\<open>bad\<close>, otherwise the stack pointer and \<^verbatim>\<open>ustack\<close>.\<close>

fun exec_args :: "u64 list \<Rightarrow> nat \<Rightarrow> u64 \<Rightarrow> u64 \<Rightarrow> u64 \<Rightarrow> u64 list \<Rightarrow> ('z kfile_scheme, (u64 \<times> u64 list) option) km" where
  "exec_args [] argc pagetable stackbase sp ustack = ret (Some (sp, ustack))"
| "exec_args (a # as) argc pagetable stackbase sp ustack =
     (if MAXARG \<le> argc then ret None
      else
        bnd (gets pmem) (\<lambda>m.
        case strlen m (unat a) of
          None \<Rightarrow> (\<lambda>es s. Diverge)
        | Some n \<Rightarrow>
            let sp1 = sp - (word_of_nat n + 1);
                sp2 = sp1 - sp1 mod 16
            in if sp2 < stackbase then ret None
               else
                 bnd (copyout pagetable sp2 m (unat a) (word_of_nat n + 1)) (\<lambda>r.
                 if r < 0 then ret None
                 else exec_args as (Suc argc) pagetable stackbase sp2 (ustack @ [sp2]))))"

fun st64s :: "nat \<Rightarrow> u64 list \<Rightarrow> bytes \<Rightarrow> bytes" where
  "st64s a [] m = m"
| "st64s a (x # xs) m = st64s (a + 8) xs (st64 a x m)"

text \<open>The part of a path after its last slash.\<close>

fun path_last :: "byte list \<Rightarrow> byte list \<Rightarrow> byte list" where
  "path_last l [] = l"
| "path_last l (c # cs) = path_last (if c = SLASH then cs else l) cs"

definition exec_bad :: "u64 \<Rightarrow> u64 \<Rightarrow> nat option \<Rightarrow> ('z kfile_scheme, int) km" where
  "exec_bad pagetable sz ipo =
     sq (whenk (pagetable \<noteq> 0) (proc_freepagetable pagetable sz))
     (sq (case ipo of None \<Rightarrow> ret () | Some ip \<Rightarrow> sq (iunlockput ip) end_op)
         (ret (-1)))"

text \<open>From the loaded image to the commit: stack, arguments, registers, and the old image freed.\<close>

definition exec_finish :: "byte list \<Rightarrow> u64 list \<Rightarrow> elfhdr \<Rightarrow> u64 \<Rightarrow> u64 \<Rightarrow> ('z kfile_scheme, int) km" where
  "exec_finish path argv elf pagetable sz0 =
     bnd curproc (\<lambda>p.
     bnd (gets (\<lambda>s. p_sz (procs s p))) (\<lambda>oldsz.
     let sz = PGROUNDUP sz0 in
     bnd (uvmalloc pagetable sz (sz + 2 * PGSIZE)) (\<lambda>sz1.
     if sz1 = 0 then exec_bad pagetable sz None
     else
       sq (uvmclear pagetable (sz1 - 2 * PGSIZE))
       (let stackbase = sz1 - PGSIZE in
        bnd (exec_args argv 0 pagetable stackbase sz1 []) (\<lambda>r.
        case r of
          None \<Rightarrow> exec_bad pagetable sz1 None
        | Some (sp, ustack) \<Rightarrow>
            let argc = length argv;
                sp1 = sp - word_of_nat ((argc + 1) * 8);
                sp2 = sp1 - sp1 mod 16
            in if sp2 < stackbase then exec_bad pagetable sz1 None
               else
                 bnd (copyout pagetable sp2 (st64s 0 (ustack @ [0]) (\<lambda>_. 0)) 0 (word_of_nat ((argc + 1) * 8))) (\<lambda>r.
                 if r < 0 then exec_bad pagetable sz1 None
                 else
                   sq (tf_set p TF_a1 sp2)
                   (sq (modify (upd_proc p (\<lambda>q. q\<lparr>p_name := safestrcpy 0 (str_bytes (path_last path path)) 0 16 (p_name q)\<rparr>)))
                   (bnd (gets (\<lambda>s. p_pagetable (procs s p))) (\<lambda>oldpagetable.
                    sq (modify (upd_proc p (\<lambda>q. q\<lparr>p_pagetable := pagetable, p_sz := sz1\<rparr>)))
                    (sq (tf_set p TF_epc (elf_entry elf))
                    (sq (tf_set p TF_sp sp2)
                    (sq (proc_freepagetable oldpagetable oldsz)
                        (ret (int argc)))))))))))))) "

definition exec :: "byte list \<Rightarrow> u64 list \<Rightarrow> ('z kfile_scheme, int) km" where
  "exec path argv =
     bnd curproc (\<lambda>p.
     sq begin_op
     (bnd (namei path) (\<lambda>ipo.
      case ipo of
        None \<Rightarrow> sq end_op (ret (-1))
      | Some ip \<Rightarrow>
          sq (ilock (Some ip))
          (bnd (readi ip (Kbuf 0) 0 64 (\<lambda>_. 0)) (\<lambda>(r, b).
           let elf = ld_elfhdr b in
           if r \<noteq> 64 then exec_bad 0 0 (Some ip)
           else if elf_magic elf \<noteq> ELF_MAGIC then exec_bad 0 0 (Some ip)
           else
             bnd (proc_pagetable p) (\<lambda>pagetable.
             if pagetable = 0 then exec_bad 0 0 (Some ip)
             else
               bnd (exec_segments (unat (elf_phnum elf)) (ucast (elf_phoff elf)) ip pagetable 0) (\<lambda>r.
               case r of
                 Inl sz \<Rightarrow> exec_bad pagetable sz (Some ip)
               | Inr sz \<Rightarrow> sq (iunlockput ip) (sq end_op (exec_finish path argv elf pagetable sz)))))))))"

end
