(* ===== verification/Sysfile.thy ===== *)
theory Sysfile
  imports Exec
begin

text \<open>
  The system calls on files (\<^verbatim>\<open>kernel/sysfile.c\<close>). The result of a system call is the integer that
  goes to the user's \<^verbatim>\<open>a0\<close>.
\<close>

abbreviation (input) O_RDONLY :: i32 where "O_RDONLY \<equiv> 0"
abbreviation (input) O_WRONLY :: i32 where "O_WRONLY \<equiv> 1"
abbreviation (input) O_RDWR :: i32 where "O_RDWR \<equiv> 2"
abbreviation (input) O_CREATE :: i32 where "O_CREATE \<equiv> 0x200"
abbreviation (input) O_TRUNC :: i32 where "O_TRUNC \<equiv> 0x400"

subsection \<open>Descriptors\<close>

definition argfd :: "nat \<Rightarrow> ('z kfile_scheme, (nat \<times> nat) option) km" where
  "argfd n =
     bnd (argint n) (\<lambda>(r, fd).
     if r < 0 then ret None
     else if sint fd < 0 \<or> int NOFILE \<le> sint fd then ret None
     else bnd curproc (\<lambda>p.
       bnd (gets (\<lambda>s. p_ofile (procs s p) (nat (sint fd)))) (\<lambda>fo.
       ret (case fo of None \<Rightarrow> None | Some f \<Rightarrow> Some (nat (sint fd), f)))))"

definition fdalloc :: "nat \<Rightarrow> ('z kfile_scheme, int) km" where
  "fdalloc f =
     bnd curproc (\<lambda>p.
     bnd (each [0..<NOFILE] (\<lambda>fd.
       bnd (gets (\<lambda>s. p_ofile (procs s p) fd)) (\<lambda>fo.
       if fo = None
       then sq (modify (upd_proc p (\<lambda>q. q\<lparr>p_ofile := (p_ofile q)(fd := Some f)\<rparr>))) (ret (Some (int fd)))
       else ret None))) (\<lambda>r.
     ret (case r of Some fd \<Rightarrow> fd | None \<Rightarrow> -1)))"

definition fdclear :: "nat \<Rightarrow> int \<Rightarrow> ('z kfile_scheme, unit) km" where
  "fdclear p fd = modify (upd_proc p (\<lambda>q. q\<lparr>p_ofile := (p_ofile q)(nat fd := None)\<rparr>))"

definition sys_dup :: "('z kfile_scheme, int) km" where
  "sys_dup =
     bnd (argfd 0) (\<lambda>a.
     case a of None \<Rightarrow> ret (-1)
     | Some (_, f) \<Rightarrow>
         bnd (fdalloc f) (\<lambda>fd.
         if fd < 0 then ret (-1) else bnd (filedup f) (\<lambda>_. ret fd)))"

definition sys_read :: "('z kfile_scheme, int) km" where
  "sys_read =
     bnd (argfd 0) (\<lambda>a.
     case a of None \<Rightarrow> ret (-1)
     | Some (_, f) \<Rightarrow>
         bnd (argint 2) (\<lambda>(r, n).
         if r < 0 then ret (-1)
         else bnd (argaddr 1) (\<lambda>(r, p). if r < 0 then ret (-1) else fileread f p n)))"

definition sys_write :: "('z kfile_scheme, int) km" where
  "sys_write =
     bnd (argfd 0) (\<lambda>a.
     case a of None \<Rightarrow> ret (-1)
     | Some (_, f) \<Rightarrow>
         bnd (argint 2) (\<lambda>(r, n).
         if r < 0 then ret (-1)
         else bnd (argaddr 1) (\<lambda>(r, p). if r < 0 then ret (-1) else filewrite f p n)))"

definition sys_close :: "('z kfile_scheme, int) km" where
  "sys_close =
     bnd (argfd 0) (\<lambda>a.
     case a of None \<Rightarrow> ret (-1)
     | Some (fd, f) \<Rightarrow>
         bnd curproc (\<lambda>p. sq (fdclear p (int fd)) (sq (fileclose f) (ret 0))))"

definition sys_fstat :: "('z kfile_scheme, int) km" where
  "sys_fstat =
     bnd (argfd 0) (\<lambda>a.
     case a of None \<Rightarrow> ret (-1)
     | Some (_, f) \<Rightarrow> bnd (argaddr 1) (\<lambda>(r, x). if r < 0 then ret (-1) else filestat f x))"

subsection \<open>Names\<close>

definition sys_link_bad :: "nat \<Rightarrow> ('z kfile_scheme, int) km" where
  "sys_link_bad ip =
     sq (seqs [ilock (Some ip), modify (upd_inode ip (\<lambda>i. i\<lparr>i_nlink := i_nlink i - 1\<rparr>)), iupdate ip, iunlockput ip, end_op]) (ret (-1))"

definition sys_link :: "('z kfile_scheme, int) km" where
  "sys_link =
     bnd (argpath 0) (\<lambda>o1. case o1 of None \<Rightarrow> ret (-1) | Some old \<Rightarrow>
     bnd (argpath 1) (\<lambda>o2. case o2 of None \<Rightarrow> ret (-1) | Some new \<Rightarrow>
     sq begin_op
     (bnd (namei old) (\<lambda>ipo. case ipo of
        None \<Rightarrow> sq end_op (ret (-1))
      | Some ip \<Rightarrow>
          sq (ilock (Some ip))
          (bnd (gets (\<lambda>s. i_type (inodes s ip))) (\<lambda>t.
           if t = T_DIR then sq (iunlockput ip) (sq end_op (ret (-1)))
           else
             sq (modify (upd_inode ip (\<lambda>i. i\<lparr>i_nlink := i_nlink i + 1\<rparr>)))
             (sq (iupdate ip)
             (sq (iunlock (Some ip))
             (bnd (nameiparent new) (\<lambda>dpo. case dpo of
                None \<Rightarrow> sys_link_bad ip
              | Some (dp, name) \<Rightarrow>
                  sq (ilock (Some dp))
                  (bnd (gets (\<lambda>s. (i_dev (inodes s dp), i_dev (inodes s ip), i_inum (inodes s ip)))) (\<lambda>(d1, d2, inum).
                   bnd (if d1 \<noteq> d2 then ret (-1) else dirlink dp name inum) (\<lambda>r.
                   if r < 0 then sq (iunlockput dp) (sys_link_bad ip)
                   else sq (seqs [iunlockput dp, iput ip, end_op]) (ret 0))))))))))))))"

definition isdirempty :: "nat \<Rightarrow> ('z kfile_scheme, bool) km" where
  "isdirempty dp =
     for32 32 16 (\<lambda>off.
       bnd (gets (\<lambda>s. i_size (inodes s dp))) (\<lambda>size.
       if \<not> off < size then ret (Some True)
       else
         bnd (readi dp (Kbuf 0) off 16 (\<lambda>_. 0)) (\<lambda>(r, de).
         if r \<noteq> 16 then panic ''isdirempty: readi''
         else ret (if ld16 de 0 \<noteq> 0 then Some False else None))))"

definition sys_unlink_bad :: "nat \<Rightarrow> ('z kfile_scheme, int) km" where
  "sys_unlink_bad dp = sq (iunlockput dp) (sq end_op (ret (-1)))"

definition sys_unlink :: "('z kfile_scheme, int) km" where
  "sys_unlink =
     bnd (argpath 0) (\<lambda>po. case po of None \<Rightarrow> ret (-1) | Some path \<Rightarrow>
     sq begin_op
     (bnd (nameiparent path) (\<lambda>dpo. case dpo of
        None \<Rightarrow> sq end_op (ret (-1))
      | Some (dp, name) \<Rightarrow>
          sq (ilock (Some dp))
          (if namecmp (str_bytes name) 0 (str_bytes (cstring ''.'')) 0 = 0
              \<or> namecmp (str_bytes name) 0 (str_bytes (cstring ''..'')) 0 = 0
           then sys_unlink_bad dp
           else
             bnd (dirlookup dp name) (\<lambda>ipo. case ipo of
               None \<Rightarrow> sys_unlink_bad dp
             | Some (ip, off) \<Rightarrow>
                 sq (ilock (Some ip))
                 (bnd (gets (\<lambda>s. inodes s ip)) (\<lambda>i.
                  if sint (i_nlink i) < 1 then panic ''unlink: nlink < 1''
                  else
                    bnd (if i_type i = T_DIR then isdirempty ip else ret True) (\<lambda>empt.
                    if \<not> empt then sq (iunlockput ip) (sys_unlink_bad dp)
                    else
                      bnd (writei dp (Kbuf 0) off 16 (\<lambda>_. 0)) (\<lambda>r.
                      if r \<noteq> 16 then panic ''unlink: writei''
                      else
                        sq (seqs [whenk (i_type i = T_DIR)
                             (sq (modify (upd_inode dp (\<lambda>d. d\<lparr>i_nlink := i_nlink d - 1\<rparr>))) (iupdate dp)),
                           iunlockput dp,
                           modify (upd_inode ip (\<lambda>i. i\<lparr>i_nlink := i_nlink i - 1\<rparr>)),
                           iupdate ip,
                           iunlockput ip,
                           end_op]) (ret 0))))))))))"

text \<open>\<^verbatim>\<open>create\<close> returns the new or existing inode, locked.\<close>

definition create :: "byte list \<Rightarrow> u16 \<Rightarrow> u16 \<Rightarrow> u16 \<Rightarrow> ('z kfile_scheme, nat option) km" where
  "create path type major minor =
     bnd (nameiparent path) (\<lambda>dpo. case dpo of
       None \<Rightarrow> ret None
     | Some (dp, name) \<Rightarrow>
         sq (ilock (Some dp))
         (bnd (dirlookup dp name) (\<lambda>ipo. case ipo of
            Some (ip, _) \<Rightarrow>
              sq (iunlockput dp)
              (sq (ilock (Some ip))
              (bnd (gets (\<lambda>s. i_type (inodes s ip))) (\<lambda>t.
               if type = T_FILE \<and> (t = T_FILE \<or> t = T_DEVICE) then ret (Some ip)
               else sq (iunlockput ip) (ret None))))
          | None \<Rightarrow>
              bnd (gets (\<lambda>s. i_dev (inodes s dp))) (\<lambda>dev.
              bnd (ialloc dev type) (\<lambda>ip.
              sq (ilock (Some ip))
              (sq (modify (upd_inode ip (\<lambda>i. i\<lparr>i_major := major, i_minor := minor, i_nlink := 1\<rparr>)))
              (sq (iupdate ip)
              (bnd (gets (\<lambda>s. (i_inum (inodes s ip), i_inum (inodes s dp)))) (\<lambda>(inum, dinum).
               sq (whenk (type = T_DIR)
                     (sq (modify (upd_inode dp (\<lambda>d. d\<lparr>i_nlink := i_nlink d + 1\<rparr>)))
                     (sq (iupdate dp)
                     (bnd (dirlink ip (cstring ''.'') inum) (\<lambda>r1.
                      if r1 < 0 then panic ''create dots''
                      else bnd (dirlink ip (cstring ''..'') dinum) (\<lambda>r2.
                        if r2 < 0 then panic ''create dots'' else ret ()))))))
               (bnd (dirlink dp name inum) (\<lambda>r.
                if r < 0 then panic ''create: dirlink''
                else sq (iunlockput dp) (ret (Some ip)))))))))))))"

text \<open>The second half of \<^verbatim>\<open>sys_open\<close>, with the inode found and locked.\<close>

definition sys_open_inode :: "nat \<Rightarrow> i32 \<Rightarrow> ('z kfile_scheme, int) km" where
  "sys_open_inode ip omode =
     bnd (gets (\<lambda>s. inodes s ip)) (\<lambda>i.
     if i_type i = T_DEVICE \<and> \<not> dev_ok (i_major i) then
       sq (iunlockput ip) (sq end_op (ret (-1)))
     else
       bnd filealloc (\<lambda>fo.
       case fo of
         None \<Rightarrow> sq (iunlockput ip) (sq end_op (ret (-1)))
       | Some f \<Rightarrow>
           bnd (fdalloc f) (\<lambda>fd.
           if fd < 0 then sq (fileclose f) (sq (iunlockput ip) (sq end_op (ret (-1))))
           else
             sq (if i_type i = T_DEVICE
                 then modify (upd_file f (\<lambda>x. x\<lparr>f_type := FD_DEVICE, f_major := i_major i\<rparr>))
                 else modify (upd_file f (\<lambda>x. x\<lparr>f_type := FD_INODE, f_off := 0\<rparr>)))
             (sq (modify (upd_file f (\<lambda>x. x\<lparr>f_ip := ip, f_readable := (omode AND O_WRONLY = 0),
                    f_writable := (omode AND O_WRONLY \<noteq> 0 \<or> omode AND O_RDWR \<noteq> 0)\<rparr>)))
             (sq (whenk (omode AND O_TRUNC \<noteq> 0 \<and> i_type i = T_FILE) (itrunc ip))
             (sq (iunlock (Some ip))
             (sq end_op (ret fd))))))))"

definition sys_open :: "('z kfile_scheme, int) km" where
  "sys_open =
     bnd (argpath 0) (\<lambda>po. case po of None \<Rightarrow> ret (-1) | Some path \<Rightarrow>
     bnd (argint 1) (\<lambda>(r, omode).
     if r < 0 then ret (-1)
     else
       sq begin_op
       (if omode AND O_CREATE \<noteq> 0 then
          bnd (create path T_FILE 0 0) (\<lambda>ipo. case ipo of
            None \<Rightarrow> sq end_op (ret (-1))
          | Some ip \<Rightarrow> sys_open_inode ip omode)
        else
          bnd (namei path) (\<lambda>ipo. case ipo of
            None \<Rightarrow> sq end_op (ret (-1))
          | Some ip \<Rightarrow>
              sq (ilock (Some ip))
              (bnd (gets (\<lambda>s. i_type (inodes s ip))) (\<lambda>t.
               if t = T_DIR \<and> omode \<noteq> O_RDONLY then sq (iunlockput ip) (sq end_op (ret (-1)))
               else sys_open_inode ip omode))))))"

definition sys_mkdir :: "('z kfile_scheme, int) km" where
  "sys_mkdir =
     sq begin_op
     (bnd (argpath 0) (\<lambda>po.
      bnd (case po of None \<Rightarrow> ret None | Some path \<Rightarrow> create path T_DIR 0 0) (\<lambda>ipo.
      case ipo of
        None \<Rightarrow> sq end_op (ret (-1))
      | Some ip \<Rightarrow> sq (iunlockput ip) (sq end_op (ret 0)))))"

definition sys_mknod :: "('z kfile_scheme, int) km" where
  "sys_mknod =
     sq begin_op
     (bnd (argpath 0) (\<lambda>po.
      bnd (case po of None \<Rightarrow> ret None
           | Some path \<Rightarrow>
               bnd (argint 1) (\<lambda>(r1, major).
               bnd (argint 2) (\<lambda>(r2, minor).
               if r1 < 0 \<or> r2 < 0 then ret None
               else create path T_DEVICE (ucast major) (ucast minor)))) (\<lambda>ipo.
      case ipo of
        None \<Rightarrow> sq end_op (ret (-1))
      | Some ip \<Rightarrow> sq (iunlockput ip) (sq end_op (ret 0)))))"

definition sys_chdir :: "('z kfile_scheme, int) km" where
  "sys_chdir =
     bnd curproc (\<lambda>p.
     sq begin_op
     (bnd (argpath 0) (\<lambda>po.
      bnd (case po of None \<Rightarrow> ret None | Some path \<Rightarrow> namei path) (\<lambda>ipo.
      case ipo of
        None \<Rightarrow> sq end_op (ret (-1))
      | Some ip \<Rightarrow>
          sq (ilock (Some ip))
          (bnd (gets (\<lambda>s. i_type (inodes s ip))) (\<lambda>t.
           if t \<noteq> T_DIR then sq (iunlockput ip) (sq end_op (ret (-1)))
           else
             sq (iunlock (Some ip))
             (sq (bnd (gets (\<lambda>s. p_cwd (procs s p))) (\<lambda>cwd. case cwd of None \<Rightarrow> panic ''kerneltrap'' | Some c \<Rightarrow> iput c))
             (sq end_op
             (sq (modify (upd_proc p (\<lambda>q. q\<lparr>p_cwd := Some ip\<rparr>)))
                 (ret 0))))))))))"

subsection \<open>exec and pipe\<close>

text \<open>
  Fetching the arguments of \<^verbatim>\<open>sys_exec\<close>: the pages allocated so far, and whether the loop ended
  with the null pointer.
\<close>

fun fetch_argv :: "nat \<Rightarrow> nat \<Rightarrow> u64 \<Rightarrow> u64 list \<Rightarrow> ('z kfile_scheme, bool \<times> u64 list) km" where
  "fetch_argv 0 i uargv acc = ret (False, acc)"
| "fetch_argv (Suc k) i uargv acc =
     bnd (fetchaddr (uargv + 8 * word_of_nat i)) (\<lambda>(r, uarg).
     if r < 0 then ret (False, acc)
     else if uarg = 0 then ret (True, acc)
     else
       bnd kalloc (\<lambda>a.
       if a = 0 then ret (False, acc)
       else
         bnd (gets pmem) (\<lambda>m.
         bnd (fetchstr uarg m (unat a) 4096) (\<lambda>(r, b).
         sq (modify (\<lambda>s. s\<lparr>pmem := b\<rparr>))
         (if r < 0 then ret (False, acc @ [a])
          else fetch_argv k (Suc i) uargv (acc @ [a]))))))"

definition sys_exec :: "('z kfile_scheme, int) km" where
  "sys_exec =
     bnd (argpath 0) (\<lambda>po. case po of None \<Rightarrow> ret (-1) | Some path \<Rightarrow>
     bnd (argaddr 1) (\<lambda>(r, uargv).
     if r < 0 then ret (-1)
     else
       bnd (fetch_argv MAXARG 0 uargv []) (\<lambda>(ok, argv).
       bnd (if ok then exec path argv else ret (-1)) (\<lambda>r.
       sq (each_do argv kfree) (ret r)))))"

definition sys_pipe_bad :: "nat \<Rightarrow> nat \<Rightarrow> ('z kfile_scheme, int) km" where
  "sys_pipe_bad rfile wfile = sq (fileclose rfile) (sq (fileclose wfile) (ret (-1)))"

definition sys_pipe :: "('z kfile_scheme, int) km" where
  "sys_pipe =
     bnd curproc (\<lambda>p.
     bnd (argaddr 0) (\<lambda>(r, fdarray).
     if r < 0 then ret (-1)
     else
       bnd pipealloc (\<lambda>pa. case pa of None \<Rightarrow> ret (-1) | Some (rfile, wfile) \<Rightarrow>
       bnd (fdalloc rfile) (\<lambda>fd0.
       if fd0 < 0 then sys_pipe_bad rfile wfile
       else
         bnd (fdalloc wfile) (\<lambda>fd1.
         if fd1 < 0 then sq (fdclear p fd0) (sys_pipe_bad rfile wfile)
         else
           bnd (gets (\<lambda>s. p_pagetable (procs s p))) (\<lambda>pt.
           bnd (copyout pt fdarray (st32 0 (word_of_int fd0) (\<lambda>_. 0)) 0 4) (\<lambda>r0.
           bnd (if r0 < 0 then ret r0 else copyout pt (fdarray + 4) (st32 0 (word_of_int fd1) (\<lambda>_. 0)) 0 4) (\<lambda>r1.
           if r1 < 0 then sq (fdclear p fd0) (sq (fdclear p fd1) (sys_pipe_bad rfile wfile))
           else ret 0))))))))"

end
