(* ===== verification/Syscall.thy ===== *)
theory Syscall
  imports Sysfile
begin

text \<open>
  The system calls on processes (\<^verbatim>\<open>kernel/sysproc.c\<close>) and the dispatch of system calls (the
  second half of \<^verbatim>\<open>kernel/syscall.c\<close>, numbers from \<^verbatim>\<open>kernel/syscall.h\<close>). The table \<^verbatim>\<open>syscalls\<close> is
  a function from numbers to calls.
\<close>

subsection \<open>Calls on processes\<close>

definition sys_exit :: "('z kfile_scheme, int) km" where
  "sys_exit = bnd (argint 0) (\<lambda>(r, n). if r < 0 then ret (-1) else sq (exit n) (ret 0))"

definition sys_getpid :: "('z kfile_scheme, int) km" where
  "sys_getpid = bnd curproc (\<lambda>p. gets (\<lambda>s. sint (p_pid (procs s p))))"

definition sys_fork :: "('z kfile_scheme, int) km" where
  "sys_fork = fork"

definition sys_wait :: "('z kfile_scheme, int) km" where
  "sys_wait = bnd (argaddr 0) (\<lambda>(r, p). if r < 0 then ret (-1) else wait p)"

definition sys_sbrk :: "('z kfile_scheme, int) km" where
  "sys_sbrk =
     bnd (argint 0) (\<lambda>(r, n).
     if r < 0 then ret (-1)
     else
       bnd curproc (\<lambda>p.
       bnd (gets (\<lambda>s. ucast (p_sz (procs s p)) :: i32)) (\<lambda>addr.
       bnd (growproc n) (\<lambda>g. ret (if g < 0 then -1 else sint addr)))))"

definition sys_sleep :: "('z kfile_scheme, int) km" where
  "sys_sleep =
     bnd (argint 0) (\<lambda>(r, n).
     if r < 0 then ret (-1)
     else
       sq (acquire L_ticks)
       (bnd (gets ticks) (\<lambda>ticks0.
        wait_loop
          (bnd (gets ticks) (\<lambda>t.
           if t - ticks0 < n then
             bnd curproc (\<lambda>p.
             bnd (gets (\<lambda>s. p_killed (procs s p))) (\<lambda>killed.
             if killed \<noteq> 0 then sq (release L_ticks) (ret (Some (-1)))
             else sq (sleep Ch_ticks L_ticks) (ret None)))
           else sq (release L_ticks) (ret (Some 0)))))))"

definition sys_kill :: "('z kfile_scheme, int) km" where
  "sys_kill = bnd (argint 0) (\<lambda>(r, pid). if r < 0 then ret (-1) else kill pid)"

definition sys_uptime :: "('z kfile_scheme, int) km" where
  "sys_uptime =
     sq (acquire L_ticks)
     (bnd (gets ticks) (\<lambda>xticks.
      sq (release L_ticks) (ret (uint xticks))))"

subsection \<open>Dispatch\<close>

definition syscalls :: "int \<Rightarrow> ('z kfile_scheme, int) km option" where
  "syscalls num =
     (if num = 1 then Some sys_fork
      else if num = 2 then Some sys_exit
      else if num = 3 then Some sys_wait
      else if num = 4 then Some sys_pipe
      else if num = 5 then Some sys_read
      else if num = 6 then Some sys_kill
      else if num = 7 then Some sys_exec
      else if num = 8 then Some sys_fstat
      else if num = 9 then Some sys_chdir
      else if num = 10 then Some sys_dup
      else if num = 11 then Some sys_getpid
      else if num = 12 then Some sys_sbrk
      else if num = 13 then Some sys_sleep
      else if num = 14 then Some sys_uptime
      else if num = 15 then Some sys_open
      else if num = 16 then Some sys_write
      else if num = 17 then Some sys_mknod
      else if num = 18 then Some sys_unlink
      else if num = 19 then Some sys_link
      else if num = 20 then Some sys_mkdir
      else if num = 21 then Some sys_close
      else None)"

definition syscall :: "('z kfile_scheme, unit) km" where
  "syscall =
     bnd curproc (\<lambda>p.
     bnd (gets (\<lambda>s. ucast (tf_get p TF_a7 s) :: i32)) (\<lambda>num.
     case syscalls (sint num) of
       Some f \<Rightarrow> bnd f (\<lambda>r. tf_set p TF_a0 (word_of_int r))
     | None \<Rightarrow>
         bnd (gets (\<lambda>s. procs s p)) (\<lambda>q.
         sq (kprintf (Some (cstring ''%d %s: unknown sys call %d'' @ newline))
               [A_int (p_pid q), A_str (Some (cstr 16 (p_name q) 0)), A_int num])
            (tf_set p TF_a0 (-1)))))"

end
