(* ===== verification/Virtio.thy ===== *)
theory Virtio
  imports Process
begin

text \<open>
  The disk driver (\<^verbatim>\<open>kernel/virtio_disk.c\<close>, \<^verbatim>\<open>kernel/virtio.h\<close>). The descriptor table, the
  available ring and the used ring are fields of the state; an address in a descriptor is named by
  what it points to: the request header, a buffer's data or a status byte. Device registers are
  read from \<open>mmio_reads\<close>, the answers of the devices in order, and every write of a register is
  recorded in \<open>mmio_writes\<close>.

  The device is not part of the kernel. What it does between the notification and the interrupt is
  part of the schedule entry during which the requesting thread sleeps.
\<close>

subsection \<open>State\<close>

abbreviation (input) NUM :: nat where "NUM \<equiv> 8"
abbreviation (input) VRING_DESC_F_NEXT :: u16 where "VRING_DESC_F_NEXT \<equiv> 1"
abbreviation (input) VRING_DESC_F_WRITE :: u16 where "VRING_DESC_F_WRITE \<equiv> 2"
abbreviation (input) VIRTIO_BLK_T_IN :: u32 where "VIRTIO_BLK_T_IN \<equiv> 0"
abbreviation (input) VIRTIO_BLK_T_OUT :: u32 where "VIRTIO_BLK_T_OUT \<equiv> 1"

record outhdr =
  oh_type :: u32
  oh_reserved :: u32
  oh_sector :: u64

datatype daddr = D_null | D_hdr outhdr | D_data nat | D_status nat

record vdesc =
  vd_addr :: daddr
  vd_len :: u32
  vd_flags :: u16
  vd_next :: u16

record vdisk =
  v_desc :: "nat \<Rightarrow> vdesc"
  v_avail_idx :: u16
  v_avail :: "nat \<Rightarrow> u16"
  v_used_id :: u16
  v_used_elem :: "nat \<Rightarrow> u32"
  v_free :: "nat \<Rightarrow> bool"
  v_used_idx :: u16
  v_info_b :: "nat \<Rightarrow> nat option"
  v_info_status :: "nat \<Rightarrow> byte"

record kvirtio = kfile +
  mmio_reads :: "u32 list"
  mmio_writes :: "(u64 \<times> u32) list"
  vdisk :: vdisk

definition upd_vdisk :: "(vdisk \<Rightarrow> vdisk) \<Rightarrow> 'z kvirtio_scheme \<Rightarrow> 'z kvirtio_scheme" where
  "upd_vdisk f s = s\<lparr>vdisk := f (vdisk s)\<rparr>"

definition rd32 :: "u64 \<Rightarrow> ('z kvirtio_scheme, u32) km" where
  "rd32 a es s = (case mmio_reads s of [] \<Rightarrow> Diverge | v # vs \<Rightarrow> Ret v es (s\<lparr>mmio_reads := vs\<rparr>))"

definition wr32 :: "u64 \<Rightarrow> u32 \<Rightarrow> ('z kvirtio_scheme, unit) km" where
  "wr32 a v = modify (\<lambda>s. s\<lparr>mmio_writes := mmio_writes s @ [(a, v)]\<rparr>)"

subsection \<open>Initialisation\<close>

definition zero_vdesc :: vdesc where
  "zero_vdesc = \<lparr>vd_addr = D_null, vd_len = 0, vd_flags = 0, vd_next = 0\<rparr>"

definition clear_rings :: "vdisk \<Rightarrow> vdisk" where
  "clear_rings v = v\<lparr>v_desc := (\<lambda>_. zero_vdesc), v_avail_idx := 0, v_avail := (\<lambda>_. 0), v_used_id := 0, v_used_elem := (\<lambda>_. 0)\<rparr>"

definition virtio_features :: "u32 \<Rightarrow> u32" where
  "virtio_features f = f AND NOT (push_bit 5 1) AND NOT (push_bit 7 1) AND NOT (push_bit 11 1)
     AND NOT (push_bit 12 1) AND NOT (push_bit 27 1) AND NOT (push_bit 29 1) AND NOT (push_bit 28 1)"

definition virtio_disk_init :: "u64 \<Rightarrow> ('z kvirtio_scheme, unit) km" where
  "virtio_disk_init pages =
     sq (initlock L_vdisk ''virtio_disk'')
     (bnd (rd32 (VIRTIO0 + 0x000)) (\<lambda>magic. if magic \<noteq> 0x74726976 then panic ''could not find virtio disk'' else
      bnd (rd32 (VIRTIO0 + 0x004)) (\<lambda>ver. if ver \<noteq> 1 then panic ''could not find virtio disk'' else
      bnd (rd32 (VIRTIO0 + 0x008)) (\<lambda>devid. if devid \<noteq> 2 then panic ''could not find virtio disk'' else
      bnd (rd32 (VIRTIO0 + 0x00c)) (\<lambda>vendor. if vendor \<noteq> 0x554d4551 then panic ''could not find virtio disk'' else
      sq (wr32 (VIRTIO0 + 0x070) 1)
      (sq (wr32 (VIRTIO0 + 0x070) 3)
      (bnd (rd32 (VIRTIO0 + 0x010)) (\<lambda>features.
       sq (wr32 (VIRTIO0 + 0x020) (virtio_features features))
       (sq (wr32 (VIRTIO0 + 0x070) 11)
       (sq (wr32 (VIRTIO0 + 0x070) 15)
       (sq (wr32 (VIRTIO0 + 0x028) 4096)
       (sq (wr32 (VIRTIO0 + 0x030) 0)
       (bnd (rd32 (VIRTIO0 + 0x034)) (\<lambda>mx.
        if mx = 0 then panic ''virtio disk has no queue 0''
        else if unat mx < NUM then panic ''virtio disk max queue too short''
        else seqs
          [wr32 (VIRTIO0 + 0x038) (word_of_nat NUM),
           modify (upd_vdisk clear_rings),
           wr32 (VIRTIO0 + 0x040) (ucast (drop_bit PGSHIFT pages)),
           modify (upd_vdisk (\<lambda>v. v\<lparr>v_free := (\<lambda>i. if i < NUM then True else v_free v i)\<rparr>))])))))))))))))) "

subsection \<open>Descriptors\<close>

definition alloc_desc :: "('z kvirtio_scheme, nat option) km" where
  "alloc_desc =
     each [0..<NUM] (\<lambda>i.
       bnd (gets (\<lambda>s. v_free (vdisk s) i)) (\<lambda>fr.
       if fr then sq (modify (upd_vdisk (\<lambda>v. v\<lparr>v_free := (v_free v)(i := False)\<rparr>))) (ret (Some i))
       else ret None))"

definition free_desc :: "nat \<Rightarrow> ('z kvirtio_scheme, unit) km" where
  "free_desc i =
     (if NUM \<le> i then panic ''virtio_disk_intr 1''
      else
        bnd (gets (\<lambda>s. v_free (vdisk s) i)) (\<lambda>fr.
        if fr then panic ''virtio_disk_intr 2''
        else seqs
          [modify (upd_vdisk (\<lambda>v. v\<lparr>v_desc := (v_desc v)(i := (v_desc v i)\<lparr>vd_addr := D_null\<rparr>)\<rparr>)),
           modify (upd_vdisk (\<lambda>v. v\<lparr>v_free := (v_free v)(i := True)\<rparr>)),
           wakeup Ch_disk_free]))"

text \<open>
  \<^verbatim>\<open>free_chain\<close>: a chain that comes back to a descriptor it has freed ends in the second panic of
  \<^verbatim>\<open>free_desc\<close>, at the latest after all \<open>NUM\<close> descriptors.
\<close>

fun free_chain_loop :: "nat \<Rightarrow> nat \<Rightarrow> ('z kvirtio_scheme, unit) km" where
  "free_chain_loop 0 i = (\<lambda>es s. Diverge)"
| "free_chain_loop (Suc fuel) i =
     sq (free_desc i)
     (bnd (gets (\<lambda>s. v_desc (vdisk s) i)) (\<lambda>d.
      if vd_flags d AND VRING_DESC_F_NEXT \<noteq> 0 then free_chain_loop fuel (unat (vd_next d)) else ret ()))"

definition free_chain :: "nat \<Rightarrow> ('z kvirtio_scheme, unit) km" where
  "free_chain i = free_chain_loop (Suc NUM) i"

fun alloc_descs :: "nat \<Rightarrow> nat list \<Rightarrow> ('z kvirtio_scheme, nat list option) km" where
  "alloc_descs 0 got = ret (Some got)"
| "alloc_descs (Suc k) got =
     bnd alloc_desc (\<lambda>r.
     case r of
       Some i \<Rightarrow> alloc_descs k (got @ [i])
     | None \<Rightarrow> sq (each_do got free_desc) (ret None))"

definition alloc3_desc :: "('z kvirtio_scheme, nat list option) km" where
  "alloc3_desc = alloc_descs 3 []"

subsection \<open>Requests and completion\<close>

definition format_request :: "nat \<Rightarrow> bool \<Rightarrow> u32 \<Rightarrow> nat \<Rightarrow> nat \<Rightarrow> nat \<Rightarrow> vdisk \<Rightarrow> vdisk" where
  "format_request b write blockno i0 i1 i2 v =
     (let d0 = \<lparr>vd_addr = D_hdr \<lparr>oh_type = (if write then VIRTIO_BLK_T_OUT else VIRTIO_BLK_T_IN), oh_reserved = 0,
                   oh_sector = ucast (blockno * 2)\<rparr>,
                vd_len = 16, vd_flags = VRING_DESC_F_NEXT, vd_next = word_of_nat i1\<rparr>;
          d1 = \<lparr>vd_addr = D_data b, vd_len = 1024,
                vd_flags = (if write then 0 else VRING_DESC_F_WRITE) OR VRING_DESC_F_NEXT, vd_next = word_of_nat i2\<rparr>;
          d2 = \<lparr>vd_addr = D_status i0, vd_len = 1, vd_flags = VRING_DESC_F_WRITE, vd_next = 0\<rparr>
      in v\<lparr>v_desc := (v_desc v)(i0 := d0, i1 := d1, i2 := d2),
           v_info_status := (v_info_status v)(i0 := 0),
           v_info_b := (v_info_b v)(i0 := Some b)\<rparr>)"

definition publish :: "nat \<Rightarrow> vdisk \<Rightarrow> vdisk" where
  "publish i0 v = v\<lparr>v_avail := (v_avail v)(unat (v_avail_idx v mod 8) := word_of_nat i0), v_avail_idx := v_avail_idx v + 1\<rparr>"

definition virtio_disk_rw :: "nat \<Rightarrow> bool \<Rightarrow> ('z kvirtio_scheme, unit) km" where
  "virtio_disk_rw b write =
     sq (acquire L_vdisk)
     (bnd (wait_loop
             (bnd alloc3_desc (\<lambda>r.
              case r of Some idx \<Rightarrow> ret (Some idx)
              | None \<Rightarrow> sq (sleep Ch_disk_free L_vdisk) (ret None)))) (\<lambda>idx.
      seqs
        [modify (\<lambda>s. upd_vdisk (format_request b write (b_blockno (bufs s b)) (idx ! 0) (idx ! 1) (idx ! 2)) s),
         modify (upd_buf b (\<lambda>x. x\<lparr>b_disk := True\<rparr>)),
         modify (upd_vdisk (publish (idx ! 0))),
         wr32 (VIRTIO0 + 0x050) 0,
         wait_loop
           (bnd (gets (\<lambda>s. b_disk (bufs s b))) (\<lambda>busy.
            if busy then sq (sleep (Ch_buf b) L_vdisk) (ret None) else ret (Some ()))),
         modify (upd_vdisk (\<lambda>v. v\<lparr>v_info_b := (v_info_b v)(idx ! 0 := None)\<rparr>)),
         free_chain (idx ! 0),
         release L_vdisk]))"

text \<open>
  The interrupt handler. An index in the used ring that is no request in flight is undefined
  behaviour. \<^verbatim>\<open>used_idx\<close> runs through the ring at most once.
\<close>

fun virtio_intr_loop :: "nat \<Rightarrow> ('z kvirtio_scheme, unit) km" where
  "virtio_intr_loop 0 = (\<lambda>es s. Diverge)"
| "virtio_intr_loop (Suc fuel) =
     bnd (gets vdisk) (\<lambda>v.
     if v_used_idx v mod 8 = v_used_id v mod 8 then ret ()
     else
       let i = unat (v_used_elem v (unat (v_used_idx v))) in
       if v_info_status v i \<noteq> 0 then panic ''virtio_disk_intr status''
       else case v_info_b v i of
         None \<Rightarrow> panic ''undefined: virtio used ring''
       | Some b \<Rightarrow>
           seqs
             [modify (upd_buf b (\<lambda>x. x\<lparr>b_disk := False\<rparr>)),
              wakeup (Ch_buf b),
              modify (upd_vdisk (\<lambda>v. v\<lparr>v_used_idx := (v_used_idx v + 1) mod 8\<rparr>)),
              virtio_intr_loop fuel])"

definition virtio_disk_intr :: "('z kvirtio_scheme, unit) km" where
  "virtio_disk_intr =
     seqs
       [acquire L_vdisk,
        virtio_intr_loop (Suc NUM),
        bnd (rd32 (VIRTIO0 + 0x060)) (\<lambda>status. wr32 (VIRTIO0 + 0x064) (status AND 3)),
        release L_vdisk]"

subsection \<open>The fields are above the machine\<close>

lemma upper_virtio: "upper (mmio_reads_update f0)" "upper (mmio_writes_update f1)" "upper (vdisk_update f2)"
  by (simp_all add: upper_defs)

lemma reader_virtio: "reader mmio_reads" "reader mmio_writes" "reader vdisk"
  by (simp_all add: upper_defs)

lemmas virtio_simps [simp] =
  upper_simps [OF upper_virtio(1)] reader_simps [OF reader_virtio(1)]
  upper_simps [OF upper_virtio(2)] reader_simps [OF reader_virtio(2)]
  upper_simps [OF upper_virtio(3)] reader_simps [OF reader_virtio(3)]

end
