(* ===== verification/Trap.thy ===== *)
theory Trap
  imports Syscall Virtio
begin

text \<open>
  Traps (\<^verbatim>\<open>kernel/trap.c\<close>), the interrupt controller (\<^verbatim>\<open>kernel/plic.c\<close>) and the first return of a
  new process (\<^verbatim>\<open>forkret\<close> of \<^verbatim>\<open>kernel/proc.c\<close>). Addresses of code that the linker assigns are
  constant fields of the state. \<open>usertrapret\<close> ends with the jump to \<^verbatim>\<open>userret\<close> in the trampoline: its
  value is the address jumped to and the two arguments.
\<close>

record ktrap = kvirtio +
  uservec_addr :: u64
  userret_addr :: u64
  usertrap_addr :: u64
  kernelvec_addr :: u64
  timervec_addr :: u64
  main_addr :: u64
  mscratch0_addr :: u64
  mscratch0 :: "nat \<Rightarrow> u64"
  clint_mtime :: u64
  clint_mtimecmp :: "nat \<Rightarrow> u64"
  started :: bool
  vdisk_pages :: u64

subsection \<open>The interrupt controller\<close>

definition plicinit :: "('z ktrap_scheme, unit) km" where
  "plicinit = sq (wr32 (PLIC + ucast UART0_IRQ * 4) 1) (wr32 (PLIC + ucast VIRTIO0_IRQ * 4) 1)"

definition plicinithart :: "('z ktrap_scheme, unit) km" where
  "plicinithart =
     bnd (gets cpuid) (\<lambda>hart.
     sq (wr32 (PLIC_SENABLE (word_of_nat hart)) (push_bit (unat UART0_IRQ) 1 OR push_bit (unat VIRTIO0_IRQ) 1))
        (wr32 (PLIC_SPRIORITY (word_of_nat hart)) 0))"

definition plic_claim :: "('z ktrap_scheme, u32) km" where
  "plic_claim = bnd (gets cpuid) (\<lambda>hart. rd32 (PLIC_SCLAIM (word_of_nat hart)))"

definition plic_complete :: "u32 \<Rightarrow> ('z ktrap_scheme, unit) km" where
  "plic_complete irq = bnd (gets cpuid) (\<lambda>hart. wr32 (PLIC_SCLAIM (word_of_nat hart)) irq)"

subsection \<open>Handlers\<close>

definition trapinit :: "('z ktrap_scheme, unit) km" where
  "trapinit = initlock L_ticks ''time''"

definition trapinithart :: "('z ktrap_scheme, unit) km" where
  "trapinithart = modify (\<lambda>s. upd_csr (w_stvec (kernelvec_addr s)) s)"

definition clockintr :: "('z ktrap_scheme, unit) km" where
  "clockintr =
     seqs [acquire L_ticks, modify (\<lambda>s. s\<lparr>ticks := ticks s + 1\<rparr>), wakeup Ch_ticks, release L_ticks]"

definition devintr :: "('z ktrap_scheme, nat) km" where
  "devintr =
     bnd (gets (\<lambda>s. r_scause (this_csr s))) (\<lambda>scause.
     if scause AND 0x8000000000000000 \<noteq> 0 \<and> scause AND 0xff = 9 then
       bnd plic_claim (\<lambda>irq.
       sq (if irq = UART0_IRQ then uartintr
           else if irq = VIRTIO0_IRQ then virtio_disk_intr
           else if irq \<noteq> 0 then kprintf (Some (cstring ''unexpected interrupt irq=%d'' @ newline)) [A_int irq]
           else ret ())
       (sq (whenk (irq \<noteq> 0) (plic_complete irq))
           (ret 1)))
     else if scause = 0x8000000000000001 then
       bnd (gets cpuid) (\<lambda>c.
       sq (whenk (c = 0) clockintr)
       (sq (modify (upd_csr (\<lambda>h. w_sip (r_sip h AND NOT 2) h)))
           (ret 2)))
     else ret 0)"

definition usertrapret :: "('z ktrap_scheme, u64 \<times> u64 \<times> u64) km" where
  "usertrapret =
     bnd curproc (\<lambda>p.
     sq (modify (upd_csr intr_off))
     (sq (modify (\<lambda>s. upd_csr (w_stvec (TRAMPOLINE + (uservec_addr s - trampoline s))) s))
     (bnd (gets (\<lambda>s. s)) (\<lambda>s.
      sq (tf_set p TF_kernel_satp (r_satp (this_csr s)))
      (sq (tf_set p TF_kernel_sp (p_kstack (procs s p) + PGSIZE))
      (sq (tf_set p TF_kernel_trap (usertrap_addr s))
      (sq (tf_set p TF_kernel_hartid (r_tp (this_csr s)))
      (sq (modify (upd_csr (\<lambda>h. w_sstatus ((r_sstatus h AND NOT SSTATUS_SPP) OR SSTATUS_SPIE) h)))
      (sq (modify (\<lambda>s. upd_csr (w_sepc (tf_get p TF_epc s)) s))
          (ret (TRAMPOLINE + (userret_addr s - trampoline s), TRAPFRAME, MAKE_SATP (p_pagetable (procs s p)))))))))))))"

text \<open>\<^verbatim>\<open>exit\<close> does not return: a thread that has called it is switched away for good.\<close>

definition usertrap :: "('z ktrap_scheme, u64 \<times> u64 \<times> u64) km" where
  "usertrap =
     bnd (gets (\<lambda>s. r_sstatus (this_csr s))) (\<lambda>sst.
     if sst AND SSTATUS_SPP \<noteq> 0 then panic ''usertrap: not from user mode''
     else
       sq (modify (\<lambda>s. upd_csr (w_stvec (kernelvec_addr s)) s))
       (bnd curproc (\<lambda>p.
        sq (bnd (gets (\<lambda>s. r_sepc (this_csr s))) (\<lambda>pc. tf_set p TF_epc pc))
        (bnd (gets (\<lambda>s. r_scause (this_csr s))) (\<lambda>scause.
         bnd (if scause = 8 then
                sq (bnd (gets (\<lambda>s. p_killed (procs s p))) (\<lambda>k. whenk (k \<noteq> 0) (exit (-1))))
                (sq (bnd (gets (tf_get p TF_epc)) (\<lambda>pc. tf_set p TF_epc (pc + 4)))
                (sq (modify (upd_csr intr_on))
                (sq syscall (ret 0))))
              else
                bnd devintr (\<lambda>which_dev.
                if which_dev \<noteq> 0 then ret which_dev
                else
                  bnd (gets (\<lambda>s. (p_pid (procs s p), this_csr s))) (\<lambda>(pid, h).
                  sq (kprintf (Some (cstring ''usertrap(): unexpected scause %p pid=%d'' @ newline)) [A_ptr (r_scause h), A_int pid])
                  (sq (kprintf (Some (cstring ''            sepc=%p stval=%p'' @ newline)) [A_ptr (r_sepc h), A_ptr (r_stval h)])
                  (sq (modify (upd_proc p (\<lambda>q. q\<lparr>p_killed := 1\<rparr>)))
                      (ret 0)))))) (\<lambda>which_dev.
         sq (bnd (gets (\<lambda>s. p_killed (procs s p))) (\<lambda>k. whenk (k \<noteq> 0) (exit (-1))))
         (sq (whenk (which_dev = 2) yield)
             usertrapret)))))))"

definition kerneltrap :: "('z ktrap_scheme, unit) km" where
  "kerneltrap =
     bnd (gets (\<lambda>s. (r_sepc (this_csr s), r_sstatus (this_csr s), r_scause (this_csr s)))) (\<lambda>(sepc, sstatus, scause).
     if sstatus AND SSTATUS_SPP = 0 then panic ''kerneltrap: not from supervisor mode''
     else
       bnd (gets (\<lambda>s. intr_get (this_csr s))) (\<lambda>on.
       if on then panic ''kerneltrap: interrupts enabled''
       else
         bnd devintr (\<lambda>which_dev.
         if which_dev = 0 then
           bnd (gets this_csr) (\<lambda>h.
           sq (kprintf (Some (cstring ''scause %p'' @ newline)) [A_ptr scause])
           (sq (kprintf (Some (cstring ''sepc=%p stval=%p'' @ newline)) [A_ptr (r_sepc h), A_ptr (r_stval h)])
               (panic ''kerneltrap'')))
         else
           bnd (if which_dev = 2 then myproc else ret None) (\<lambda>po.
           sq (case po of
                 None \<Rightarrow> ret ()
               | Some _ \<Rightarrow>
                   bnd curproc (\<lambda>p.
                   bnd (gets (\<lambda>s. p_state (procs s p))) (\<lambda>x. whenk (x = RUNNING) yield)))
           (sq (modify (upd_csr (w_sepc sepc)))
               (modify (upd_csr (w_sstatus sstatus))))))))"

definition forkret :: "('z ktrap_scheme, u64 \<times> u64 \<times> u64) km" where
  "forkret =
     bnd curproc (\<lambda>p.
     sq (release (L_proc p))
     (bnd (gets forkret_first) (\<lambda>first.
      sq (whenk first (sq (modify (\<lambda>s. s\<lparr>forkret_first := False\<rparr>)) (fsinit ROOTDEV)))
         usertrapret)))"

end
