(* ===== verification/Boot.thy ===== *)
theory Boot
  imports Trap
begin

text \<open>
  Booting: machine mode (\<^verbatim>\<open>kernel/start.c\<close>) and supervisor mode (\<^verbatim>\<open>kernel/main.c\<close>). The value of
  \<open>start\<close> is the address \<^verbatim>\<open>mret\<close> continues at.
\<close>

definition timerinit :: "('z ktrap_scheme, unit) km" where
  "timerinit =
     bnd (gets (\<lambda>s. unat (ucast (r_mhartid (this_csr s)) :: u32))) (\<lambda>i.
     if NCPU \<le> i then panic ''undefined: mscratch0''
     else seqs
       [modify (\<lambda>s. s\<lparr>clint_mtimecmp := (clint_mtimecmp s)(i := clint_mtime s + 1000000)\<rparr>),
        modify (\<lambda>s. s\<lparr>mscratch0 := (mscratch0 s)(32 * i + 4 := CLINT_MTIMECMP (word_of_nat i), 32 * i + 5 := 1000000)\<rparr>),
        modify (\<lambda>s. upd_csr (w_mscratch (mscratch0_addr s + word_of_nat (8 * 32 * i))) s),
        modify (\<lambda>s. upd_csr (w_mtvec (timervec_addr s)) s),
        modify (upd_csr (\<lambda>h. w_mstatus (r_mstatus h OR MSTATUS_MIE) h)),
        modify (upd_csr (\<lambda>h. w_mie (r_mie h OR MIE_MTIE) h))])"

definition start :: "('z ktrap_scheme, u64) km" where
  "start =
     sq (seqs
       [modify (upd_csr (\<lambda>h. w_mstatus ((r_mstatus h AND NOT MSTATUS_MPP_MASK) OR MSTATUS_MPP_S) h)),
        modify (\<lambda>s. upd_csr (w_mepc (main_addr s)) s),
        modify (upd_csr (w_satp 0)),
        modify (upd_csr (w_medeleg 0xffff)),
        modify (upd_csr (w_mideleg 0xffff)),
        modify (upd_csr (\<lambda>h. w_sie (r_sie h OR SIE_SEIE OR SIE_STIE OR SIE_SSIE) h)),
        modify (upd_csr (w_pmpaddr0 0x1fffffffffffff)),
        modify (upd_csr (w_pmpcfg0 0x1f)),
        timerinit,
        modify (upd_csr (\<lambda>h. w_tp (scast (ucast (r_mhartid h) :: u32)) h)),
        bnd (gets cpuid) (\<lambda>c. whenk (c = 0) (sq consoleinit printfinit))])
       (gets (\<lambda>s. c_mepc (this_csr s)))"

definition main :: "('z ktrap_scheme, unit) km" where
  "main =
     bnd (gets cpuid) (\<lambda>c.
     sq (if c = 0 then
           seqs
             [kprintf (Some newline) [],
              kprintf (Some (cstring ''xv6 kernel is booting'' @ newline)) [],
              kprintf (Some newline) [],
              kinit, kvminit, kvminithart, procinit, trapinit, trapinithart, plicinit, plicinithart,
              binit, iinit, fileinit,
              bnd (gets vdisk_pages) virtio_disk_init,
              userinit,
              modify (\<lambda>s. s\<lparr>started := True\<rparr>)]
         else
           seqs
             [wait_loop (bnd (gets started) (\<lambda>go. if go then ret (Some ()) else sq others_run (ret None))),
              bnd (gets cpuid) (\<lambda>c. kprintf (Some (cstring ''hart %d starting'' @ newline)) [A_int (word_of_nat c)]),
              kvminithart, trapinithart, plicinithart])
        scheduler)"

end
