(* ===== verification/SleepWakeup.thy ===== *)
theory SleepWakeup
  imports Proc
begin

text \<open>
  Why \<^verbatim>\<open>sleep\<close> takes the process lock before it gives up the lock of the condition.

  An interleaving machine for the protocol of \<^verbatim>\<open>sleep\<close> and \<^verbatim>\<open>wakeup\<close> (\<^verbatim>\<open>kernel/proc.c\<close>): any number
  of processes run \<^verbatim>\<open>acquire(lk); while(!cond) sleep(chan, lk); cond = 0; release(lk)\<close>, any number of
  wakers run \<^verbatim>\<open>acquire(lk); cond = 1; wakeup(chan); release(lk)\<close>. A step is one lock operation or one
  access of one actor, the locks are those of the two routines, and \<^verbatim>\<open>kill\<close> may wake a sleeper at any
  time. The body of \<^verbatim>\<open>wakeup\<close> is \<open>wakeup_one\<close> of \<open>Proc\<close>.
\<close>

datatype actor = Sleeper nat | Waker nat

text \<open>
  The sleeper: before \<^verbatim>\<open>acquire(lk)\<close>; at the test; in \<^verbatim>\<open>sleep\<close> before \<^verbatim>\<open>acquire(&p->lock)\<close>, before
  \<^verbatim>\<open>release(lk)\<close>, before the stores to \<^verbatim>\<open>chan\<close> and \<^verbatim>\<open>state\<close>, before \<^verbatim>\<open>swtch\<close>; off the CPU; resumed with
  \<^verbatim>\<open>p->lock\<close> held; before \<^verbatim>\<open>acquire(lk)\<close> again; before the final \<^verbatim>\<open>release(lk)\<close>.
\<close>

datatype sleeper_pc = S_idle | S_test | S_lockp | S_unlock | S_chan | S_state | S_switch | S_off | S_awake | S_relock | S_leave

text \<open>The waker: idle; before the store to the condition; in the loop, before a process and at it; at the end.\<close>

datatype waker_pc = W_idle | W_store | W_next "nat list" | W_at nat "nat list"

record sw_sys =
  sw_lk :: "actor option"
  sw_plock :: "nat \<Rightarrow> actor option"
  sw_cond :: bool
  sw_proc :: "nat \<Rightarrow> proc"
  sw_pc :: "nat \<Rightarrow> sleeper_pc"
  sw_wpc :: "nat \<Rightarrow> waker_pc"

definition sw_init :: sw_sys where
  "sw_init = \<lparr>sw_lk = None, sw_plock = (\<lambda>_. None), sw_cond = False,
     sw_proc = (\<lambda>_. idle_proc\<lparr>p_state := RUNNING\<rparr>), sw_pc = (\<lambda>_. S_idle), sw_wpc = (\<lambda>_. W_idle)\<rparr>"

abbreviation at_pc :: "nat \<Rightarrow> sleeper_pc \<Rightarrow> sw_sys \<Rightarrow> sw_sys" where
  "at_pc p c s \<equiv> s\<lparr>sw_pc := (sw_pc s)(p := c)\<rparr>"

abbreviation at_wpc :: "nat \<Rightarrow> waker_pc \<Rightarrow> sw_sys \<Rightarrow> sw_sys" where
  "at_wpc w c s \<equiv> s\<lparr>sw_wpc := (sw_wpc s)(w := c)\<rparr>"

abbreviation on_proc :: "nat \<Rightarrow> (proc \<Rightarrow> proc) \<Rightarrow> sw_sys \<Rightarrow> sw_sys" where
  "on_proc p f s \<equiv> s\<lparr>sw_proc := (sw_proc s)(p := f (sw_proc s p))\<rparr>"

abbreviation on_plock :: "nat \<Rightarrow> actor option \<Rightarrow> sw_sys \<Rightarrow> sw_sys" where
  "on_plock p a s \<equiv> s\<lparr>sw_plock := (sw_plock s)(p := a)\<rparr>"

inductive sw_step :: "chan \<Rightarrow> sw_sys \<Rightarrow> sw_sys \<Rightarrow> bool" for chn where
  s_enter: "sw_pc s p = S_idle \<Longrightarrow> p < NPROC \<Longrightarrow> sw_lk s = None \<Longrightarrow> sw_step chn s (at_pc p S_test (s\<lparr>sw_lk := Some (Sleeper p)\<rparr>))"
| s_go: "sw_pc s p = S_test \<Longrightarrow> sw_cond s \<Longrightarrow> sw_step chn s (at_pc p S_leave (s\<lparr>sw_cond := False\<rparr>))"
| s_wait: "sw_pc s p = S_test \<Longrightarrow> \<not> sw_cond s \<Longrightarrow> sw_step chn s (at_pc p S_lockp s)"
| s_lockp: "sw_pc s p = S_lockp \<Longrightarrow> sw_plock s p = None \<Longrightarrow> sw_step chn s (at_pc p S_unlock (on_plock p (Some (Sleeper p)) s))"
| s_unlock: "sw_pc s p = S_unlock \<Longrightarrow> sw_step chn s (at_pc p S_chan (s\<lparr>sw_lk := None\<rparr>))"
| s_chan: "sw_pc s p = S_chan \<Longrightarrow> sw_step chn s (at_pc p S_state (on_proc p (\<lambda>q. q\<lparr>p_chan := Some chn\<rparr>) s))"
| s_state: "sw_pc s p = S_state \<Longrightarrow> sw_step chn s (at_pc p S_switch (on_proc p (\<lambda>q. q\<lparr>p_state := SLEEPING\<rparr>) s))"
| s_switch: "sw_pc s p = S_switch \<Longrightarrow> sw_step chn s (at_pc p S_off (on_plock p None s))"
| s_resume: "sw_pc s p = S_off \<Longrightarrow> p_state (sw_proc s p) = RUNNABLE \<Longrightarrow> sw_plock s p = None \<Longrightarrow>
    sw_step chn s (at_pc p S_awake (on_plock p (Some (Sleeper p)) (on_proc p (\<lambda>q. q\<lparr>p_state := RUNNING\<rparr>) s)))"
| s_awake: "sw_pc s p = S_awake \<Longrightarrow> sw_step chn s (at_pc p S_relock (on_plock p None (on_proc p (\<lambda>q. q\<lparr>p_chan := None\<rparr>) s)))"
| s_relock: "sw_pc s p = S_relock \<Longrightarrow> sw_lk s = None \<Longrightarrow> sw_step chn s (at_pc p S_test (s\<lparr>sw_lk := Some (Sleeper p)\<rparr>))"
| s_leave: "sw_pc s p = S_leave \<Longrightarrow> sw_step chn s (at_pc p S_idle (s\<lparr>sw_lk := None\<rparr>))"
| w_enter: "sw_wpc s w = W_idle \<Longrightarrow> sw_lk s = None \<Longrightarrow> sw_step chn s (at_wpc w W_store (s\<lparr>sw_lk := Some (Waker w)\<rparr>))"
| w_store: "sw_wpc s w = W_store \<Longrightarrow> sw_step chn s (at_wpc w (W_next [0..<NPROC]) (s\<lparr>sw_cond := True\<rparr>))"
| w_lockp: "sw_wpc s w = W_next (p # ps) \<Longrightarrow> sw_plock s p = None \<Longrightarrow>
    sw_step chn s (at_wpc w (W_at p ps) (on_plock p (Some (Waker w)) s))"
| w_wake: "sw_wpc s w = W_at p ps \<Longrightarrow>
    sw_step chn s (at_wpc w (W_next ps) (on_plock p None (on_proc p (wakeup_one chn) s)))"
| w_leave: "sw_wpc s w = W_next [] \<Longrightarrow> sw_step chn s (at_wpc w W_idle (s\<lparr>sw_lk := None\<rparr>))"
| k_kill: "sw_plock s p = None \<Longrightarrow> sw_step chn s (on_proc p kill_proc s)"

inductive_cases sw_stepE: "sw_step chn s t"

subsection \<open>The invariant\<close>

fun left_to_wake :: "waker_pc \<Rightarrow> nat list" where
  "left_to_wake (W_next ps) = ps"
| "left_to_wake (W_at p ps) = p # ps"
| "left_to_wake _ = []"

text \<open>
  The first two parts say who owns the locks. The third says that a sleeper that saw the condition
  false and has not been woken is ahead of the waker that made it true.
\<close>

fun needs_lk :: "sleeper_pc \<Rightarrow> bool" where
  "needs_lk S_test = True" | "needs_lk S_lockp = True" | "needs_lk S_unlock = True" | "needs_lk S_leave = True"
| "needs_lk S_idle = False" | "needs_lk S_chan = False" | "needs_lk S_state = False" | "needs_lk S_switch = False"
| "needs_lk S_off = False" | "needs_lk S_awake = False" | "needs_lk S_relock = False"

fun needs_plock :: "sleeper_pc \<Rightarrow> bool" where
  "needs_plock S_unlock = True" | "needs_plock S_chan = True" | "needs_plock S_state = True"
| "needs_plock S_switch = True" | "needs_plock S_awake = True" | "needs_plock S_test = False"
| "needs_plock S_lockp = False" | "needs_plock S_leave = False" | "needs_plock S_idle = False"
| "needs_plock S_off = False" | "needs_plock S_relock = False"

definition lk_owner :: "sw_sys \<Rightarrow> bool" where
  "lk_owner s \<longleftrightarrow>
     (\<forall>p. needs_lk (sw_pc s p) \<longleftrightarrow> sw_lk s = Some (Sleeper p)) \<and>
     (\<forall>w. sw_wpc s w \<noteq> W_idle \<longleftrightarrow> sw_lk s = Some (Waker w))"

definition plock_owner :: "sw_sys \<Rightarrow> bool" where
  "plock_owner s \<longleftrightarrow>
     (\<forall>p. needs_plock (sw_pc s p) \<longleftrightarrow> sw_plock s p = Some (Sleeper p)) \<and>
     (\<forall>w p ps. sw_wpc s w = W_at p ps \<longrightarrow> sw_plock s p = Some (Waker w))"

definition unwoken :: "chan \<Rightarrow> sw_sys \<Rightarrow> nat \<Rightarrow> bool" where
  "unwoken chn s p \<longleftrightarrow> sw_pc s p \<in> {S_lockp, S_unlock, S_chan, S_state, S_switch} \<or>
     sw_pc s p = S_off \<and> p_state (sw_proc s p) \<noteq> RUNNABLE"

definition sleep_marked :: "chan \<Rightarrow> sw_sys \<Rightarrow> bool" where
  "sleep_marked chn s \<longleftrightarrow>
     (\<forall>p. sw_pc s p \<in> {S_state, S_switch, S_off} \<longrightarrow> p_chan (sw_proc s p) = Some chn) \<and>
     (\<forall>p. sw_pc s p = S_switch \<longrightarrow> p_state (sw_proc s p) = SLEEPING) \<and>
     (\<forall>p. sw_pc s p = S_off \<longrightarrow> p_state (sw_proc s p) \<in> {SLEEPING, RUNNABLE}) \<and>
     (\<forall>p. sw_pc s p \<noteq> S_idle \<longrightarrow> p < NPROC)"

definition no_lost :: "chan \<Rightarrow> sw_sys \<Rightarrow> bool" where
  "no_lost chn s \<longleftrightarrow>
     (\<forall>p. sw_cond s \<and> unwoken chn s p \<longrightarrow> (\<exists>w. p \<in> set (left_to_wake (sw_wpc s w))))"

definition sw_inv :: "chan \<Rightarrow> sw_sys \<Rightarrow> bool" where
  "sw_inv chn s \<longleftrightarrow> lk_owner s \<and> plock_owner s \<and> sleep_marked chn s \<and> no_lost chn s"

lemma sw_inv_init: "sw_inv chn sw_init"
  by (simp add: sw_inv_def sw_init_def lk_owner_def plock_owner_def sleep_marked_def no_lost_def)

lemma lk_ownerD:
  assumes "lk_owner s"
  shows "needs_lk (sw_pc s p) \<longleftrightarrow> sw_lk s = Some (Sleeper p)" "sw_wpc s w \<noteq> W_idle \<longleftrightarrow> sw_lk s = Some (Waker w)"
  using assms by (simp_all add: lk_owner_def)

lemma plock_ownerD:
  assumes "plock_owner s"
  shows "needs_plock (sw_pc s p) \<longleftrightarrow> sw_plock s p = Some (Sleeper p)"
    "sw_wpc s w = W_at p ps \<Longrightarrow> sw_plock s p = Some (Waker w)"
  using assms by (simp_all add: plock_owner_def)

lemma lk_owner_step:
  assumes "sw_step chn s t" "lk_owner s"
  shows "lk_owner t"
  using assms(1)
proof cases
  case (s_enter a)
  with lk_ownerD(1) [OF assms(2), of a] assms(2) show ?thesis by (auto simp: lk_owner_def)
next
  case (s_go a)
  with lk_ownerD(1) [OF assms(2), of a] assms(2) show ?thesis by (auto simp: lk_owner_def)
next
  case (s_wait a)
  with lk_ownerD(1) [OF assms(2), of a] assms(2) show ?thesis by (auto simp: lk_owner_def)
next
  case (s_lockp a)
  with lk_ownerD(1) [OF assms(2), of a] assms(2) show ?thesis by (auto simp: lk_owner_def)
next
  case (s_unlock a)
  with lk_ownerD(1) [OF assms(2), of a] assms(2) show ?thesis by (auto simp: lk_owner_def)
next
  case (s_chan a)
  with lk_ownerD(1) [OF assms(2), of a] assms(2) show ?thesis by (auto simp: lk_owner_def)
next
  case (s_state a)
  with lk_ownerD(1) [OF assms(2), of a] assms(2) show ?thesis by (auto simp: lk_owner_def)
next
  case (s_switch a)
  with lk_ownerD(1) [OF assms(2), of a] assms(2) show ?thesis by (auto simp: lk_owner_def)
next
  case (s_resume a)
  with lk_ownerD(1) [OF assms(2), of a] assms(2) show ?thesis by (auto simp: lk_owner_def)
next
  case (s_awake a)
  with lk_ownerD(1) [OF assms(2), of a] assms(2) show ?thesis by (auto simp: lk_owner_def)
next
  case (s_relock a)
  with lk_ownerD(1) [OF assms(2), of a] assms(2) show ?thesis by (auto simp: lk_owner_def)
next
  case (s_leave a)
  with lk_ownerD(1) [OF assms(2), of a] assms(2) show ?thesis by (auto simp: lk_owner_def)
next
  case (w_enter a)
  with lk_ownerD(2) [OF assms(2), of a] assms(2) show ?thesis by (auto simp: lk_owner_def)
next
  case (w_store a)
  with lk_ownerD(2) [OF assms(2), of a] assms(2) show ?thesis by (auto simp: lk_owner_def)
next
  case (w_lockp a)
  with lk_ownerD(2) [OF assms(2), of a] assms(2) show ?thesis by (auto simp: lk_owner_def)
next
  case (w_wake a)
  with lk_ownerD(2) [OF assms(2), of a] assms(2) show ?thesis by (auto simp: lk_owner_def)
next
  case (w_leave a)
  with lk_ownerD(2) [OF assms(2), of a] assms(2) show ?thesis by (auto simp: lk_owner_def)
qed (use assms(2) in \<open>simp add: lk_owner_def\<close>)

lemma plock_owner_step:
  assumes "sw_step chn s t" "plock_owner s"
  shows "plock_owner t"
  using assms(1)
proof cases
  case (s_enter a)
  with plock_ownerD(1) [OF assms(2), of a] assms(2) show ?thesis by (auto simp: plock_owner_def)
next
  case (s_go a)
  with plock_ownerD(1) [OF assms(2), of a] assms(2) show ?thesis by (auto simp: plock_owner_def)
next
  case (s_wait a)
  with plock_ownerD(1) [OF assms(2), of a] assms(2) show ?thesis by (auto simp: plock_owner_def)
next
  case (s_lockp a)
  with plock_ownerD(1) [OF assms(2), of a] assms(2) show ?thesis by (fastforce simp: plock_owner_def)
next
  case (s_unlock a)
  with plock_ownerD(1) [OF assms(2), of a] assms(2) show ?thesis by (auto simp: plock_owner_def)
next
  case (s_chan a)
  with plock_ownerD(1) [OF assms(2), of a] assms(2) show ?thesis by (auto simp: plock_owner_def)
next
  case (s_state a)
  with plock_ownerD(1) [OF assms(2), of a] assms(2) show ?thesis by (auto simp: plock_owner_def)
next
  case (s_switch a)
  with plock_ownerD(1) [OF assms(2), of a] assms(2) show ?thesis by (fastforce simp: plock_owner_def)
next
  case (s_resume a)
  with plock_ownerD(1) [OF assms(2), of a] assms(2) show ?thesis by (fastforce simp: plock_owner_def)
next
  case (s_awake a)
  with plock_ownerD(1) [OF assms(2), of a] assms(2) show ?thesis by (fastforce simp: plock_owner_def)
next
  case (s_relock a)
  with plock_ownerD(1) [OF assms(2), of a] assms(2) show ?thesis by (auto simp: plock_owner_def)
next
  case (s_leave a)
  with plock_ownerD(1) [OF assms(2), of a] assms(2) show ?thesis by (auto simp: plock_owner_def)
next
  case (w_wake w a ps)
  then have a: "sw_plock s a = Some (Waker w)" using plock_ownerD(2) [OF assms(2)] by blast
  have n: "\<not> needs_plock (sw_pc s a)" using plock_ownerD(1) [OF assms(2), of a] a by simp
  have u: "v = w" if "sw_wpc s v = W_at a qs" for v qs using plock_ownerD(2) [OF assms(2) that] a by simp
  show ?thesis unfolding plock_owner_def
  proof (intro conjI allI impI)
    fix p show "needs_plock (sw_pc t p) = (sw_plock t p = Some (Sleeper p))"
      using n a plock_ownerD(1) [OF assms(2), of p] by (auto simp: w_wake(1))
  next
    fix v p qs assume "sw_wpc t v = W_at p qs"
    then have v: "sw_wpc s v = W_at p qs" "v \<noteq> w" by (auto simp: w_wake(1) split: if_splits)
    with u have "p \<noteq> a" by blast
    with plock_ownerD(2) [OF assms(2) v(1)] show "sw_plock t p = Some (Waker v)" by (simp add: w_wake(1))
  qed
next
  case (w_lockp w a ps)
  with plock_ownerD [OF assms(2)] show ?thesis by (fastforce simp: plock_owner_def)
qed (use assms(2) in \<open>auto simp: plock_owner_def\<close>)

lemma sleep_marked_step:
  assumes "sw_step chn s t" "sleep_marked chn s" "plock_owner s" 
  shows "sleep_marked chn t"
  using assms(1)
proof cases
  case (w_wake w p ps)
  with plock_ownerD(1) [OF assms(3), of p] plock_ownerD(2) [OF assms(3)] assms(2) show ?thesis
    by (auto simp: sleep_marked_def wakeup_one_def)
next
  case (k_kill p)
  with plock_ownerD(1) [OF assms(3), of p] assms(2) show ?thesis
    by (auto simp: sleep_marked_def kill_proc_def)
qed (use assms(2) in \<open>auto simp: sleep_marked_def\<close>)


lemma no_lost_step:
  assumes "sw_step chn s t" "sw_inv chn s"
  shows "no_lost chn t"
proof (unfold no_lost_def, intro allI impI, elim conjE)
  fix q assume cond: "sw_cond t" and un: "unwoken chn t q"
  have lk: "lk_owner s" and pl: "plock_owner s" and sm: "sleep_marked chn s"
    and nl: "\<And>p. sw_cond s \<Longrightarrow> unwoken chn s p \<Longrightarrow> \<exists>w. p \<in> set (left_to_wake (sw_wpc s w))"
    using assms(2) by (auto simp: sw_inv_def no_lost_def)
  from assms(1) show "\<exists>w. q \<in> set (left_to_wake (sw_wpc t w))"
  proof cases
    case (w_store w)
    have "q < NPROC"
      using sm un w_store by (auto simp: sleep_marked_def unwoken_def)
    then show ?thesis using w_store by (intro exI [of _ w]) simp
  next
    case (w_wake w p ps)
    have p: "sw_plock s p = Some (Waker w)" using pl w_wake by (auto simp: plock_owner_def)
    have other: "unwoken chn s q"
      using un w_wake by (auto simp: unwoken_def wakeup_one_def split: if_splits)
    have "q \<noteq> p"
    proof
      assume q: "q = p"
      have "\<not> needs_plock (sw_pc s q)" "\<not> needs_lk (sw_pc s q)"
        using plock_ownerD(1) [OF pl, of q] p q lk_ownerD(1) [OF lk, of q] lk_ownerD(2) [OF lk, of w] w_wake by auto
      then show False
        using un w_wake q sm by (auto simp: unwoken_def wakeup_one_def sleep_marked_def split: if_splits)
    qed
    obtain v where v: "q \<in> set (left_to_wake (sw_wpc s v))" using nl other cond w_wake by auto
    then show ?thesis using w_wake \<open>q \<noteq> p\<close> by (cases "v = w") (auto intro!: exI [of _ v])
  next
    case (w_lockp w p ps)
    then obtain v where "q \<in> set (left_to_wake (sw_wpc s v))" using nl [of q] cond un by (auto simp: unwoken_def)
    then show ?thesis using w_lockp by (cases "v = w") (auto intro!: exI [of _ v])
  next
    case (w_leave w)
    then obtain v where "q \<in> set (left_to_wake (sw_wpc s v))" using nl [of q] cond un by (auto simp: unwoken_def)
    then show ?thesis using w_leave by (cases "v = w") (auto intro!: exI [of _ v])
  next
    case (w_enter w)
    then obtain v where "q \<in> set (left_to_wake (sw_wpc s v))" using nl [of q] cond un by (auto simp: unwoken_def)
    then show ?thesis using w_enter by (cases "v = w") (auto intro!: exI [of _ v])
  qed (use nl [of q] cond un sm in \<open>auto simp: unwoken_def kill_proc_def sleep_marked_def split: if_splits\<close>)
qed


lemma sw_inv_step: "sw_step chn s t \<Longrightarrow> sw_inv chn s \<Longrightarrow> sw_inv chn t"
  using lk_owner_step plock_owner_step sleep_marked_step no_lost_step by (auto simp: sw_inv_def)

lemma sw_inv_reachable: "(sw_step chn)\<^sup>*\<^sup>* sw_init s \<Longrightarrow> sw_inv chn s"
  by (induction rule: rtranclp_induct) (auto simp: sw_inv_init intro: sw_inv_step)

text \<open>
  C16: no wake-up is lost. In every interleaving, while the condition is true, a process that is off
  the CPU in \<^verbatim>\<open>sleep\<close> has been made runnable, unless some waker still holds the lock of the condition
  and has that process ahead of it in its pass over the table.
\<close>

theorem no_lost_wakeup:
  assumes "(sw_step chn)\<^sup>*\<^sup>* sw_init s" "sw_cond s" "sw_pc s p = S_off"
  shows "p_state (sw_proc s p) = RUNNABLE \<or>
    (\<exists>w. sw_lk s = Some (Waker w) \<and> p \<in> set (left_to_wake (sw_wpc s w)))"
proof -
  note inv = sw_inv_reachable [OF assms(1)]
  have "p_state (sw_proc s p) = RUNNABLE \<or> (\<exists>w. p \<in> set (left_to_wake (sw_wpc s w)))"
    using inv assms(2,3) by (auto simp: sw_inv_def no_lost_def unwoken_def)
  moreover have "sw_lk s = Some (Waker w)" if "p \<in> set (left_to_wake (sw_wpc s w))" for w
    using that inv lk_ownerD(2) [of s w] by (cases "sw_wpc s w") (auto simp: sw_inv_def)
  ultimately show ?thesis by blast
qed

theorem no_lost_wakeup_witness:
  "\<exists>s. (sw_step Ch_ticks)\<^sup>*\<^sup>* sw_init s \<and> sw_cond s \<and> sw_pc s 0 = S_off \<and> p_state (sw_proc s 0) = SLEEPING \<and>
     (\<exists>w. sw_lk s = Some (Waker w) \<and> 0 \<in> set (left_to_wake (sw_wpc s w)))"
proof -
  define s1 where "s1 = at_pc 0 S_test (sw_init\<lparr>sw_lk := Some (Sleeper 0)\<rparr>)"
  define s2 where "s2 = at_pc 0 S_lockp s1"
  define s3 where "s3 = at_pc 0 S_unlock (on_plock 0 (Some (Sleeper 0)) s2)"
  define s4 where "s4 = at_pc 0 S_chan (s3\<lparr>sw_lk := None\<rparr>)"
  define s5 where "s5 = at_pc 0 S_state (on_proc 0 (\<lambda>q. q\<lparr>p_chan := Some Ch_ticks\<rparr>) s4)"
  define s6 where "s6 = at_pc 0 S_switch (on_proc 0 (\<lambda>q. q\<lparr>p_state := SLEEPING\<rparr>) s5)"
  define s7 where "s7 = at_pc 0 S_off (on_plock 0 None s6)"
  define s8 where "s8 = at_wpc 0 W_store (s7\<lparr>sw_lk := Some (Waker 0)\<rparr>)"
  define s9 where "s9 = at_wpc 0 (W_next [0..<NPROC]) (s8\<lparr>sw_cond := True\<rparr>)"
  note d = s1_def s2_def s3_def s4_def s5_def s6_def s7_def s8_def s9_def sw_init_def
  have "sw_step Ch_ticks sw_init s1 \<and> sw_step Ch_ticks s1 s2 \<and> sw_step Ch_ticks s2 s3 \<and> sw_step Ch_ticks s3 s4 \<and> sw_step Ch_ticks s4 s5 \<and> sw_step Ch_ticks s5 s6 \<and> sw_step Ch_ticks s6 s7 \<and> sw_step Ch_ticks s7 s8 \<and> sw_step Ch_ticks s8 s9"
  proof (intro conjI)
    show "sw_step Ch_ticks sw_init s1" unfolding s1_def by (rule sw_step.s_enter) (simp_all add: d)
    show "sw_step Ch_ticks s1 s2" unfolding s2_def by (rule sw_step.s_wait) (simp_all add: d)
    show "sw_step Ch_ticks s2 s3" unfolding s3_def by (rule sw_step.s_lockp) (simp_all add: d)
    show "sw_step Ch_ticks s3 s4" unfolding s4_def by (rule sw_step.s_unlock) (simp_all add: d)
    show "sw_step Ch_ticks s4 s5" unfolding s5_def by (rule sw_step.s_chan) (simp_all add: d)
    show "sw_step Ch_ticks s5 s6" unfolding s6_def by (rule sw_step.s_state) (simp_all add: d)
    show "sw_step Ch_ticks s6 s7" unfolding s7_def by (rule sw_step.s_switch) (simp_all add: d)
    show "sw_step Ch_ticks s7 s8" unfolding s8_def by (rule sw_step.w_enter) (simp_all add: d)
    show "sw_step Ch_ticks s8 s9" unfolding s9_def by (rule sw_step.w_store) (simp_all add: d)
  qed
  then have reach: "(sw_step Ch_ticks)\<^sup>*\<^sup>* sw_init s9" by (meson converse_rtranclp_into_rtranclp rtranclp.rtrancl_refl)
  have here: "sw_cond s9" "sw_pc s9 0 = S_off" "p_state (sw_proc s9 0) = SLEEPING" by (simp_all add: d)
  from no_lost_wakeup [OF reach here(1,2)] here(3) have "\<exists>w. sw_lk s9 = Some (Waker w) \<and> 0 \<in> set (left_to_wake (sw_wpc s9 w))"
    by simp
  with reach here show ?thesis by blast
qed

end
