(* ===== verification/Ring.thy ===== *)
theory Ring
  imports Prelude
begin

text \<open>
  Ring buffers: the queue that an array indexed modulo its size stands for, and the interface of a
  bounded queue. The ring buffer of a pipe provides it (\<open>PipeQueue\<close>).
\<close>

definition ring :: "nat \<Rightarrow> (nat \<Rightarrow> 'a) \<Rightarrow> nat \<Rightarrow> nat \<Rightarrow> 'a list" where
  "ring k f r n = map (\<lambda>i. f ((r + i) mod k)) [0..<n]"

lemma length_ring [simp]: "length (ring k f r n) = n"
  by (simp add: ring_def)

lemma ring_0 [simp]: "ring k f r 0 = []"
  by (simp add: ring_def)

lemma ring_nth: "i < n \<Longrightarrow> ring k f r n ! i = f ((r + i) mod k)"
  by (simp add: ring_def)

lemma ring_cong: "r mod k = r' mod k \<Longrightarrow> ring k f r n = ring k f r' n"
  unfolding ring_def by (intro map_cong refl arg_cong [of _ _ f] mod_add_cong)

lemma ring_put:
  assumes "n < k"
  shows "ring k (f((r + n) mod k := c)) r (Suc n) = ring k f r n @ [c]"
proof -
  have "(r + i) mod k \<noteq> (r + n) mod k" if "i < n" for i
  proof
    assume "(r + i) mod k = (r + n) mod k"
    then have "k dvd (r + n) - (r + i)" using that by (subst mod_eq_dvd_iff_nat [symmetric]) simp_all
    then have "k \<le> n - i" using that by (auto dest: dvd_imp_le)
    then show False using assms by simp
  qed
  then show ?thesis by (simp add: ring_def)
qed

lemma ring_get: "ring k f r (Suc n) = f (r mod k) # ring k f (Suc r) n"
  by (simp add: ring_def upt_conv_Cons map_Suc_upt [symmetric] comp_def del: upt_Suc)

subsection \<open>Bounded queues\<close>

locale bounded_queue =
  fixes ok :: "'q \<Rightarrow> bool" and queue :: "'q \<Rightarrow> 'a list" and cap :: nat and full :: "'q \<Rightarrow> bool" and empty :: "'q \<Rightarrow> bool"
    and put :: "'a \<Rightarrow> 'q \<Rightarrow> 'q" and front :: "'q \<Rightarrow> 'a" and pop :: "'q \<Rightarrow> 'q"
  assumes bound: "ok q \<Longrightarrow> length (queue q) \<le> cap"
    and full_law: "ok q \<Longrightarrow> full q \<longleftrightarrow> length (queue q) = cap"
    and empty_law: "ok q \<Longrightarrow> empty q \<longleftrightarrow> queue q = []"
    and put_law: "ok q \<Longrightarrow> \<not> full q \<Longrightarrow> ok (put c q) \<and> queue (put c q) = queue q @ [c]"
    and pop_law: "ok q \<Longrightarrow> \<not> empty q \<Longrightarrow> ok (pop q) \<and> queue q = front q # queue (pop q)"
begin

lemma put_all:
  "ok q \<Longrightarrow> length (queue q) + length xs \<le> cap \<Longrightarrow> ok (fold put xs q) \<and> queue (fold put xs q) = queue q @ xs"
proof (induction xs arbitrary: q)
  case (Cons x xs)
  have "\<not> full q" using Cons.prems full_law [of q] by simp
  with put_law [OF Cons.prems(1) this, of x] Cons.IH [of "put x q"] Cons.prems(2) show ?case by simp
qed simp

lemma pop_all:
  "ok q \<Longrightarrow> n \<le> length (queue q) \<Longrightarrow> ok ((pop ^^ n) q) \<and> queue ((pop ^^ n) q) = drop n (queue q)"
proof (induction n)
  case (Suc n)
  then have q: "ok ((pop ^^ n) q)" "queue ((pop ^^ n) q) = drop n (queue q)" by simp_all
  then have "\<not> empty ((pop ^^ n) q)" using empty_law [of "(pop ^^ n) q"] Suc.prems(2) by simp
  from pop_law [OF q(1) this] q(2) have "drop n (queue q) = front ((pop ^^ n) q) # queue (pop ((pop ^^ n) q))" by simp
  then have "tl (drop n (queue q)) = queue (pop ((pop ^^ n) q))" by simp
  then show ?case using pop_law [OF q(1) \<open>\<not> empty ((pop ^^ n) q)\<close>] by (simp add: drop_Suc tl_drop)
qed simp

lemma front_nth:
  assumes "ok q" "n < length (queue q)"
  shows "\<not> empty ((pop ^^ n) q)" "front ((pop ^^ n) q) = queue q ! n"
proof -
  have q: "ok ((pop ^^ n) q)" "queue ((pop ^^ n) q) = drop n (queue q)" using pop_all [of q n] assms by simp_all
  then show ne: "\<not> empty ((pop ^^ n) q)" using empty_law [of "(pop ^^ n) q"] assms(2) by simp
  have "drop n (queue q) = front ((pop ^^ n) q) # queue (pop ((pop ^^ n) q))" using pop_law [OF q(1) ne] q(2) by simp
  then show "front ((pop ^^ n) q) = queue q ! n" using assms(2) hd_drop_conv_nth [of n "queue q"] by simp
qed

text \<open>First in, first out: what is put is what comes out, after what was there before.\<close>

lemma fifo:
  assumes "ok q" "length (queue q) + length xs \<le> cap"
  shows "map (\<lambda>i. front ((pop ^^ i) (fold put xs q))) [0..<length (queue q) + length xs] = queue q @ xs"
proof (rule nth_equalityI)
  fix i assume "i < length (map (\<lambda>i. front ((pop ^^ i) (fold put xs q))) [0..<length (queue q) + length xs])"
  then have "i < length (queue (fold put xs q))" using put_all [OF assms] by simp
  then show "map (\<lambda>i. front ((pop ^^ i) (fold put xs q))) [0..<length (queue q) + length xs] ! i = (queue q @ xs) ! i"
    using front_nth(2) [of "fold put xs q" i] put_all [OF assms] by simp
qed simp

end

end
