(* ===== verification/BioView.thy ===== *)
theory BioView
  imports Bio
begin

text \<open>
  The buffer cache as a block store: an abstraction function from the buffers, their locks and the
  disk to contents, reference counts and held buffers, an invariant, and the effect of each routine of
  \<^verbatim>\<open>kernel/bio.c\<close> on the abstraction. The log and the file system rely on these laws only.
\<close>

subsection \<open>The cache as a block store\<close>

text \<open>
  What the cache stands for, on device \<open>d\<close>: every block has a content (that of its valid buffer, or
  that of the disk), some blocks are referenced, and some buffers are held by the running process.
\<close>

record bview =
  v_content :: "u32 \<Rightarrow> bytes"
  v_disk :: "u32 \<Rightarrow> bytes"
  v_trace :: "(u32 \<times> bytes) list"
  v_ref :: "u32 \<Rightarrow> u32"
  v_held :: "nat \<Rightarrow> u32 option"

definition home :: "(nat \<Rightarrow> buf) \<Rightarrow> u32 \<Rightarrow> u32 \<Rightarrow> nat option" where
  "home f d n = find (\<lambda>b. b_dev (f b) = d \<and> b_blockno (f b) = n) [0..<NBUF]"

definition content_of :: "u32 \<Rightarrow> (nat \<Rightarrow> buf) \<Rightarrow> (u32 \<Rightarrow> bytes) \<Rightarrow> u32 \<Rightarrow> bytes" where
  "content_of d f dk n = (case home f d n of
     Some b \<Rightarrow> if b_valid (f b) then b_data (f b) else dk n
   | None \<Rightarrow> dk n)"

definition ref_of :: "u32 \<Rightarrow> (nat \<Rightarrow> buf) \<Rightarrow> u32 \<Rightarrow> u32" where
  "ref_of d f n = (case home f d n of Some b \<Rightarrow> b_refcnt (f b) | None \<Rightarrow> 0)"

definition held_of :: "(nat \<Rightarrow> buf) \<Rightarrow> (slid \<Rightarrow> sleeplock) \<Rightarrow> nat \<Rightarrow> u32 option" where
  "held_of f l b = (if b < NBUF \<and> slk_locked (l (SL_buf b)) \<noteq> 0 then Some (b_blockno (f b)) else None)"

definition view_of :: "u32 \<Rightarrow> 'z kbio_scheme \<Rightarrow> bview" where
  "view_of d s = \<lparr>v_content = content_of d (bufs s) (disk s), v_disk = disk s, v_trace = dtrace s,
     v_ref = ref_of d (bufs s), v_held = held_of (bufs s) (slocks s)\<rparr>"

definition uniq :: "(nat \<Rightarrow> buf) \<Rightarrow> u32 \<Rightarrow> bool" where
  "uniq f d \<longleftrightarrow> (\<forall>b < NBUF. \<forall>c < NBUF. b_dev (f b) = d \<and> b_dev (f c) = d \<and> b_blockno (f b) = b_blockno (f c) \<longrightarrow> b = c)"

definition buf_ok :: "u32 \<Rightarrow> i32 \<Rightarrow> (u32 \<Rightarrow> bytes) \<Rightarrow> buf \<Rightarrow> sleeplock \<Rightarrow> bool" where
  "buf_ok d pid dk x l \<longleftrightarrow>
     (b_refcnt x \<noteq> 0 \<or> slk_locked l \<noteq> 0 \<longrightarrow> b_dev x = d) \<and>
     (b_refcnt x = 0 \<and> slk_locked l = 0 \<and> b_valid x \<and> b_dev x = d \<longrightarrow> b_data x = dk (b_blockno x)) \<and>
     (slk_locked l \<noteq> 0 \<longrightarrow> slk_pid l = pid \<and> b_valid x)"

definition binv :: "nat \<Rightarrow> u32 \<Rightarrow> lockid set \<Rightarrow> 'z kbio_scheme \<Rightarrow> bool" where
  "binv p d L s \<longleftrightarrow> quiet p L s \<and> (\<exists>bl. linked (bufs s) bl) \<and> uniq (bufs s) d \<and>
     (\<forall>b < NBUF. buf_ok d (mypid p s) (disk s) (bufs s b) (slocks s (SL_buf b)))"

text \<open>What the routines of the cache leave alone: everything above it, and all of a process but its state.\<close>

definition bkeeps :: "'z kbio_scheme \<Rightarrow> 'z kbio_scheme \<Rightarrow> bool" where
  "bkeeps s t \<longleftrightarrow>
     t = s\<lparr>cpus := cpus t, procs := procs t, slocks := slocks t, bufs := bufs t, disk := disk t, dtrace := dtrace t\<rparr> \<and>
     (\<forall>q. procs t q = (procs s q)\<lparr>p_state := p_state (procs t q)\<rparr>)"

lemma home_None: "home f d n = None \<longleftrightarrow> (\<forall>b < NBUF. \<not> (b_dev (f b) = d \<and> b_blockno (f b) = n))"
  by (auto simp: home_def find_None_iff)

lemma home_Some: "home f d n = Some b \<Longrightarrow> b < NBUF \<and> b_dev (f b) = d \<and> b_blockno (f b) = n"
  by (auto simp: home_def find_Some_iff)

lemma home_I: "uniq f d \<Longrightarrow> b < NBUF \<Longrightarrow> b_dev (f b) = d \<Longrightarrow> b_blockno (f b) = n \<Longrightarrow> home f d n = Some b"
proof (cases "home f d n")
  case None
  assume "b < NBUF" "b_dev (f b) = d" "b_blockno (f b) = n"
  with None home_None [of f d n] show ?thesis by auto
next
  case (Some c)
  assume "uniq f d" "b < NBUF" "b_dev (f b) = d" "b_blockno (f b) = n"
  with home_Some [OF Some] have "b = c" unfolding uniq_def by blast
  with Some show ?thesis by simp
qed

lemma cached_home:
  assumes "linked f bl" "uniq f d"
  shows "cached f d n bl = home f d n"
proof (cases "cached f d n bl")
  case None
  then have "\<forall>b < NBUF. \<not> (b_dev (f b) = d \<and> b_blockno (f b) = n)"
    using assms(1) by (auto simp: cached_def find_None_iff linked_def)
  then have "home f d n = None" by (simp add: home_None)
  with None show ?thesis by simp
next
  case (Some b)
  then have "b \<in> set bl" "b_dev (f b) = d" "b_blockno (f b) = n"
    by (auto simp: cached_def find_Some_iff)
  then have "home f d n = Some b" using assms by (intro home_I) (auto simp: linked_def)
  with Some show ?thesis by simp
qed

text \<open>Putting a buffer for block \<open>n\<close> at \<open>b\<close>: the buffer that had it, or an unused one.\<close>

lemma home_update:
  assumes "uniq f d" "b < NBUF" "b_dev x = d" "b_blockno x = n" "home f d n \<in> {None, Some b}"
  shows "uniq (f(b := x)) d"
    "home (f(b := x)) d m = (if m = n then Some b else if home f d m = Some b then None else home f d m)"
proof -
  have other: "\<not> (b_dev (f c) = d \<and> b_blockno (f c) = n)" if "c < NBUF" "c \<noteq> b" for c
    using home_I [OF assms(1), of c n] assms(5) that home_None [of f d n] by auto
  show u: "uniq (f(b := x)) d"
    unfolding uniq_def
  proof (intro allI impI, elim conjE)
    fix c e assume ce: "c < NBUF" "e < NBUF" "b_dev ((f(b := x)) c) = d" "b_dev ((f(b := x)) e) = d"
      "b_blockno ((f(b := x)) c) = b_blockno ((f(b := x)) e)"
    consider "c = b" "e \<noteq> b" | "e = b" "c \<noteq> b" | "c = e" | "c \<noteq> b" "e \<noteq> b" by blast
    then show "c = e"
    proof cases
      case 1 with ce assms(3,4) have "b_dev (f e) = d" "b_blockno (f e) = n" by simp_all
      with other [OF ce(2) 1(2)] show ?thesis by blast
    next
      case 2 with ce assms(3,4) have "b_dev (f c) = d" "b_blockno (f c) = n" by simp_all
      with other [OF ce(1) 2(2)] show ?thesis by blast
    next
      case 4
      then have "b_dev (f c) = d" "b_dev (f e) = d" "b_blockno (f c) = b_blockno (f e)" using ce by simp_all
      then show ?thesis using assms(1) ce(1,2) unfolding uniq_def by blast
    qed
  qed
  show "home (f(b := x)) d m = (if m = n then Some b else if home f d m = Some b then None else home f d m)"
  proof (cases "m = n")
    case True
    then show ?thesis using home_I [OF u, of b n] assms(2-4) by simp
  next
    case False
    show ?thesis
    proof (cases "home f d m")
      case None
      then have "home (f(b := x)) d m = None" using False assms(3,4) by (auto simp: home_None)
      with None False show ?thesis by simp
    next
      case (Some c)
      note c = home_Some [OF Some]
      show ?thesis
      proof (cases "c = b")
        case True
        have "home (f(b := x)) d m = None"
          unfolding home_None
        proof (intro allI impI)
          fix e :: nat assume e: "e < NBUF"
          show "\<not> (b_dev ((f(b := x)) e) = d \<and> b_blockno ((f(b := x)) e) = m)"
            using False assms(1,4) c e True by (cases "e = b") (auto simp: uniq_def)
        qed
        with True Some False show ?thesis by simp
      next
        case False
        then have "home (f(b := x)) d m = Some c" using c u by (intro home_I) auto
        with Some False \<open>m \<noteq> n\<close> show ?thesis by simp
      qed
    qed
  qed
qed

subsection \<open>Reading a block\<close>

lemma binvD:
  assumes "binv p d L s"
  shows "quiet p L s" "uniq (bufs s) d" "b < NBUF \<Longrightarrow> buf_ok d (mypid p s) (disk s) (bufs s b) (slocks s (SL_buf b))"
  using assms by (simp_all add: binv_def)

lemma free_buffer:
  assumes "uniq f d" "\<And>b. b < NBUF \<Longrightarrow> b_refcnt (f b) \<noteq> 0 \<Longrightarrow> b_dev (f b) = d" "card {m. ref_of d f m \<noteq> 0} < NBUF"
  shows "\<exists>b < NBUF. b_refcnt (f b) = 0"
proof (rule ccontr)
  assume "\<not> ?thesis"
  then have r: "b < NBUF \<Longrightarrow> b_refcnt (f b) \<noteq> 0 \<and> b_dev (f b) = d" for b using assms(2) by blast
  have inj: "inj_on (\<lambda>b. b_blockno (f b)) {..<NBUF}"
  proof (rule inj_onI)
    fix b c assume "b \<in> {..<NBUF}" "c \<in> {..<NBUF}" "b_blockno (f b) = b_blockno (f c)"
    moreover from this have "b_dev (f b) = d" "b_dev (f c) = d" using r by auto
    ultimately show "b = c" using assms(1) unfolding uniq_def by blast
  qed
  have "(\<lambda>b. b_blockno (f b)) ` {..<NBUF} \<subseteq> {m. ref_of d f m \<noteq> 0}"
  proof clarify
    fix b :: nat assume b: "b < NBUF" and 0: "ref_of d f (b_blockno (f b)) = 0"
    have "home f d (b_blockno (f b)) = Some b" using r [OF b] b assms(1) by (intro home_I) auto
    with 0 r [OF b] show False by (simp add: ref_of_def)
  qed
  then have "card ((\<lambda>b. b_blockno (f b)) ` {..<NBUF}) \<le> card {m. ref_of d f m \<noteq> 0}"
    by (intro card_mono) simp_all
  then show False using assms(3) card_image [OF inj] by simp
qed

lemma find_SomeD: "find P xs = Some x \<Longrightarrow> x \<in> set xs \<and> P x"
  by (induction xs) (auto split: if_splits)

lemma lru_Some:
  assumes "linked f bl" "\<exists>b < NBUF. b_refcnt (f b) = 0"
  shows "\<exists>b. lru f bl = Some b \<and> b < NBUF \<and> b_refcnt (f b) = 0"
proof (cases "lru f bl")
  case None
  then show ?thesis using assms by (auto simp: lru_def find_None_iff linked_def)
next
  case (Some b)
  then have "b \<in> set (rev bl)" "b_refcnt (f b) = 0" by (auto simp: lru_def dest: find_SomeD)
  then show ?thesis using Some assms(1) by (auto simp: linked_def)
qed

text \<open>The buffer that holds block \<open>n\<close> with content \<open>c\<close> after \<open>x\<close> has been read, and the state then.\<close>

definition loaded :: "u32 \<Rightarrow> u32 \<Rightarrow> u32 \<Rightarrow> bytes \<Rightarrow> buf \<Rightarrow> buf" where
  "loaded d n r c x = x\<lparr>b_dev := d, b_blockno := n, b_valid := True, b_refcnt := r, b_data := c\<rparr>"

definition taken :: "nat \<Rightarrow> i32 \<Rightarrow> buf \<Rightarrow> 'z kbio_scheme \<Rightarrow> 'z kbio_scheme" where
  "taken b pid x s = slept (SL_buf b) pid ((touch s)\<lparr>bufs := (bufs s)(b := x)\<rparr>)"

lemma bread_run:
  assumes inv: "binv p d L s" and unheld: "\<forall>b. held_of (bufs s) (slocks s) b \<noteq> Some n"
    and used: "\<forall>b m. held_of (bufs s) (slocks s) b = Some m \<longrightarrow> ref_of d (bufs s) m \<noteq> 0"
    and room: "ref_of d (bufs s) n \<noteq> 0 \<or> card {m. ref_of d (bufs s) m \<noteq> 0} < NBUF"
  shows "\<exists>b. b < NBUF \<and> home (bufs s) d n \<in> {None, Some b} \<and> slk_locked (slocks s (SL_buf b)) = 0 \<and>
    (home (bufs s) d n = None \<longrightarrow> b_refcnt (bufs s b) = 0) \<and>
    (\<forall>es. bread d n es s = Ret b es (taken b (mypid p s)
      (loaded d n (ref_of d (bufs s) n + 1) (content_of d (bufs s) (disk s) n) (bufs s b)) s))"
proof -
  let ?f = "bufs s"
  have q: "quiet p L s" and u: "uniq ?f d" using inv by (auto simp: binv_def)
  obtain bl where l: "linked ?f bl" using inv by (auto simp: binv_def)
  note get = bget_run [OF q l]
  have ok: "b < NBUF \<Longrightarrow> buf_ok d (mypid p s) (disk s) (?f b) (slocks s (SL_buf b))" for b
    by (rule binvD(3) [OF inv])
  show ?thesis
  proof (cases "home ?f d n")
    case (Some b)
    note b = home_Some [OF Some]
    have unl: "slk_locked (slocks s (SL_buf b)) = 0" using unheld b by (auto simp: held_of_def split: if_splits)
    have c: "cached ?f d n bl = Some b" using cached_home [OF l u] Some by simp
    note run = get(1) [OF c unl]
    have "bread d n es s = Ret b es (taken b (mypid p s)
      (loaded d n (ref_of d ?f n + 1) (content_of d ?f (disk s) n) (?f b)) s)" for es
    proof (cases "b_valid (?f b)")
      case True
      have "loaded d n (b_refcnt (?f b) + 1) (b_data (?f b)) (?f b) = referenced (?f b)"
        using b True by (cases "?f b") (simp add: loaded_def referenced_def)
      then show ?thesis
        using True by (simp add: bread_def run km_simps content_of_def ref_of_def Some taken_def
          slept_def upd_slock_def upd_buf_def referenced_def)
    next
      case False
      have "b_blockno (?f b) = n" "b_dev (?f b) = d" using b by auto
      then show ?thesis
        using False by (simp add: bread_def run km_simps content_of_def ref_of_def Some taken_def
          slept_def upd_slock_def upd_buf_def referenced_def disk_rw_def Let_def)
          (cases "?f b", simp add: loaded_def)
    qed
    with b unl Some show ?thesis by (intro exI [of _ b]) simp
  next
    case None
    have r0: "ref_of d ?f n = 0" using None by (simp add: ref_of_def)
    have "\<exists>b < NBUF. b_refcnt (?f b) = 0"
    proof (rule free_buffer [OF u])
      show "b_dev (?f b) = d" if "b < NBUF" "b_refcnt (?f b) \<noteq> 0" for b using ok [OF that(1)] that(2) by (simp add: buf_ok_def)
      show "card {m. ref_of d ?f m \<noteq> 0} < NBUF" using room r0 by simp
    qed
    with lru_Some [OF l] obtain b where b: "lru ?f bl = Some b" "b < NBUF" "b_refcnt (?f b) = 0" by blast
    have unl: "slk_locked (slocks s (SL_buf b)) = 0"
    proof (rule ccontr)
      assume lk: "slk_locked (slocks s (SL_buf b)) \<noteq> 0"
      then have "b_dev (?f b) = d" using ok [OF b(2)] by (simp add: buf_ok_def)
      then have "home ?f d (b_blockno (?f b)) = Some b" using u b(2) by (intro home_I) auto
      then have "ref_of d ?f (b_blockno (?f b)) = 0" using b(3) by (simp add: ref_of_def)
      moreover have "held_of ?f (slocks s) b = Some (b_blockno (?f b))" using lk b(2) by (simp add: held_of_def)
      ultimately show False using used by blast
    qed
    have c: "cached ?f d n bl = None" using cached_home [OF l u] None by simp
    note run = get(2) [OF c b(1) unl]
    have "bread d n es s = Ret b es (taken b (mypid p s)
      (loaded d n (ref_of d ?f n + 1) (content_of d ?f (disk s) n) (?f b)) s)" for es
      by (simp add: bread_def run km_simps content_of_def r0 None taken_def
          slept_def upd_slock_def upd_buf_def recycled_def disk_rw_def Let_def)
         (cases "?f b", simp add: loaded_def)
    with b unl None show ?thesis by (intro exI [of _ b]) simp
  qed
qed

lemma bkeeps_refl: "bkeeps s s"
  by (simp add: bkeeps_def)

lemma bkeeps_trans: "bkeeps s t \<Longrightarrow> bkeeps t u \<Longrightarrow> bkeeps s u"
proof -
  assume st: "bkeeps s t" and tu: "bkeeps t u"
  let ?c = "\<lambda>x y. x\<lparr>cpus := cpus y, procs := procs y, slocks := slocks y, bufs := bufs y, disk := disk y, dtrace := dtrace y\<rparr>"
  have "?c (?c s t) u = ?c s u" by simp
  moreover have "?c s t = t" "?c t u = u" using st tu by (simp_all add: bkeeps_def)
  ultimately have "?c s u = u" by simp
  moreover have "procs u q = (procs s q)\<lparr>p_state := p_state (procs u q)\<rparr>" for q
  proof -
    have 1: "procs t q = (procs s q)\<lparr>p_state := p_state (procs t q)\<rparr>" using st unfolding bkeeps_def by blast
    have 2: "procs u q = (procs t q)\<lparr>p_state := p_state (procs u q)\<rparr>" using tu unfolding bkeeps_def by blast
    show ?thesis by (subst 2, subst 1) simp
  qed
  ultimately show ?thesis by (simp add: bkeeps_def)
qed

lemma content_buffer:
  "uniq f d \<Longrightarrow> b < NBUF \<Longrightarrow> b_dev (f b) = d \<Longrightarrow> b_valid (f b) \<Longrightarrow> content_of d f dk (b_blockno (f b)) = b_data (f b)"
  by (simp add: content_of_def home_I)

text \<open>Replacing the buffer of block \<open>n\<close>, or recycling a clean one for it.\<close>

lemma view_update:
  assumes u: "uniq f d" and b: "b < NBUF" and x: "b_dev x = d" "b_blockno x = n" "b_valid x"
    and h: "home f d n \<in> {None, Some b}"
    and clean: "home f d n = None \<Longrightarrow> b_refcnt (f b) = 0 \<and> (b_valid (f b) \<and> b_dev (f b) = d \<longrightarrow> b_data (f b) = dk (b_blockno (f b)))"
  shows "content_of d (f(b := x)) dk = (content_of d f dk)(n := b_data x)"
    "ref_of d (f(b := x)) = (ref_of d f)(n := b_refcnt x)"
proof -
  note hu = home_update [OF u b x(1,2) h]
  have evict: "home f d m = Some b \<Longrightarrow> m \<noteq> n \<Longrightarrow> content_of d f dk m = dk m \<and> ref_of d f m = 0" for m
  proof -
    assume m: "home f d m = Some b" "m \<noteq> n"
    then have "home f d n = None" using h home_Some [OF m(1)] home_Some [of f d n b] by auto
    then show ?thesis using clean home_Some [OF m(1)] m by (auto simp: content_of_def ref_of_def)
  qed
  have same: "home f d m = Some c \<Longrightarrow> c \<noteq> b \<Longrightarrow> (f(b := x)) c = f c" for m c by simp
  show "content_of d (f(b := x)) dk = (content_of d f dk)(n := b_data x)"
  proof
    fix m show "content_of d (f(b := x)) dk m = ((content_of d f dk)(n := b_data x)) m"
      using evict [of m] x(3) by (cases "home f d m") (auto simp: content_of_def hu(2))
  qed
  show "ref_of d (f(b := x)) = (ref_of d f)(n := b_refcnt x)"
  proof
    fix m show "ref_of d (f(b := x)) m = ((ref_of d f)(n := b_refcnt x)) m"
      using evict [of m] by (cases "home f d m") (auto simp: ref_of_def hu(2))
  qed
qed

lemma upper_taken: "taken b pid x s = slept (SL_buf b) pid ((touch s)\<lparr>bufs := (bufs s)(b := x)\<rparr>)"
  by (simp add: taken_def)

lemma slept_fields [simp]:
  "bufs (slept lk pid s) = bufs s" "disk (slept lk pid s) = disk s" "dtrace (slept lk pid s) = dtrace s"
  "procs (slept lk pid s) = procs s" "slocks (slept lk pid s) = (slocks s)(lk := (slocks s lk)\<lparr>slk_locked := 1, slk_pid := pid\<rparr>)"
  by (simp_all add: slept_def upd_slock_def)

lemma bread_law:
  assumes inv: "binv p d L s" and v: "v = view_of d s" and unheld: "\<forall>b. v_held v b \<noteq> Some n"
    and used: "\<forall>b m. v_held v b = Some m \<longrightarrow> v_ref v m \<noteq> 0"
    and room: "v_ref v n \<noteq> 0 \<or> card {m. v_ref v m \<noteq> 0} < NBUF"
  shows "runs (bread d n) s (\<lambda>b t. binv p d L t \<and> bkeeps s t \<and> v_held v b = None \<and> b < NBUF \<and>
    view_of d t = v\<lparr>v_ref := (v_ref v)(n := v_ref v n + 1), v_held := (v_held v)(b \<mapsto> n)\<rparr>)"
proof -
  let ?f = "bufs s"
  note vd = v view_of_def
  obtain b where b: "b < NBUF" "home ?f d n \<in> {None, Some b}" "slk_locked (slocks s (SL_buf b)) = 0"
      "home ?f d n = None \<Longrightarrow> b_refcnt (?f b) = 0"
    and run: "\<And>es. bread d n es s = Ret b es (taken b (mypid p s)
      (loaded d n (ref_of d ?f n + 1) (content_of d ?f (disk s) n) (?f b)) s)"
    using bread_run [OF inv, of n] unheld used room by (auto simp: vd)
  define x where "x = loaded d n (ref_of d ?f n + 1) (content_of d ?f (disk s) n) (?f b)"
  have x: "b_dev x = d" "b_blockno x = n" "b_valid x" "b_refcnt x = ref_of d ?f n + 1" "b_data x = content_of d ?f (disk s) n"
      "b_next x = b_next (?f b)" "b_prev x = b_prev (?f b)"
    by (simp_all add: x_def loaded_def)
  have q: "quiet p L s" and u: "uniq ?f d" using inv by (auto simp: binv_def)
  obtain bl where l: "linked ?f bl" using inv by (auto simp: binv_def)
  have ok: "c < NBUF \<Longrightarrow> buf_ok d (mypid p s) (disk s) (?f c) (slocks s (SL_buf c))" for c
    by (rule binvD(3) [OF inv])
  have upd: "content_of d (?f(b := x)) (disk s) = (content_of d ?f (disk s))(n := b_data x)"
    "ref_of d (?f(b := x)) = (ref_of d ?f)(n := b_refcnt x)"
    using view_update [OF u b(1) x(1-3) b(2), of "disk s"] b(3,4) ok [OF b(1)] by (auto simp: buf_ok_def)
  define t where "t = taken b (mypid p s) x s"
  have t: "bufs t = ?f(b := x)" "disk t = disk s" "dtrace t = dtrace s" "procs t = procs s"
      "slocks t = (slocks s)(SL_buf b := (slocks s (SL_buf b))\<lparr>slk_locked := 1, slk_pid := mypid p s\<rparr>)"
    by (simp_all add: t_def taken_def)
  have up: "upper (\<lambda>u. slept (SL_buf b) (mypid p s) (u\<lparr>bufs := ?f(b := x)\<rparr>))"
    by (simp add: upper_def slept_def upd_slock_def)
  have qt: "quiet p L t"
    using q quiet_upper [OF up, of p L "touch s"] by (simp add: t_def taken_def)
  have lt: "linked (bufs t) bl"
    unfolding t(1) by (subst linked_unchanged [of _ ?f]) (use l x in auto)
  have okt: "buf_ok d (mypid p t) (disk t) (bufs t c) (slocks t (SL_buf c))" if "c < NBUF" for c
    using ok [OF that] x by (simp add: t buf_ok_def vd)
  have "binv p d L t"
    using qt lt okt home_update(1) [OF u b(1) x(1,2) b(2)] by (auto simp: binv_def t)
  moreover have "bkeeps s t"
    by (simp add: bkeeps_def t) (simp add: t_def taken_def slept_def upd_slock_def touch_def upd_mycpu_def)
  moreover have "v_held v b = None" using b(3) by (simp add: vd held_of_def)
  moreover have "held_of (bufs t) (slocks t) = (held_of ?f (slocks s))(b \<mapsto> n)"
    using b(1) x by (auto simp: held_of_def t fun_eq_iff)
  then have "view_of d t = v\<lparr>v_ref := (v_ref v)(n := v_ref v n + 1), v_held := (v_held v)(b \<mapsto> n)\<rparr>"
    using upd x by (simp add: vd t)
  ultimately show ?thesis
    using b(1) run by (intro runs_Ret [of "bread d n" s b t]) (simp_all add: t_def x_def)
qed

subsection \<open>A held buffer\<close>

lemma held_buffer:
  assumes "binv p d L s" "v_held (view_of d s) b = Some n"
  shows "b < NBUF" "b_blockno (bufs s b) = n" "b_dev (bufs s b) = d" "b_valid (bufs s b)"
    "slk_locked (slocks s (SL_buf b)) \<noteq> 0" "slk_pid (slocks s (SL_buf b)) = mypid p s"
    "home (bufs s) d n = Some b" "b_data (bufs s b) = v_content (view_of d s) n" "b_refcnt (bufs s b) = v_ref (view_of d s) n"
proof -
  show b: "b < NBUF" and n: "b_blockno (bufs s b) = n" and l: "slk_locked (slocks s (SL_buf b)) \<noteq> 0"
    using assms(2) by (auto simp: view_of_def held_of_def split: if_splits)
  show d: "b_dev (bufs s b) = d" and v: "b_valid (bufs s b)" and "slk_pid (slocks s (SL_buf b)) = mypid p s"
    using binvD(3) [OF assms(1) b] l by (auto simp: buf_ok_def)
  show h: "home (bufs s) d n = Some b" using binvD(2) [OF assms(1)] b d n by (intro home_I)
  show "b_data (bufs s b) = v_content (view_of d s) n" "b_refcnt (bufs s b) = v_ref (view_of d s) n"
    using h v by (simp_all add: view_of_def content_of_def ref_of_def)
qed

text \<open>A change of the held buffer that keeps its place in the cache.\<close>

lemma held_update:
  assumes inv: "binv p d L s" and h: "v_held (view_of d s) b = Some n" and v: "v = view_of d s"
    and x: "b_dev x = d" "b_blockno x = n" "b_valid x" "b_next x = b_next (bufs s b)" "b_prev x = b_prev (bufs s b)"
    and t: "t = (upd_buf b (\<lambda>_. x) s)"
  shows "binv p d L t" "view_of d t = v\<lparr>v_content := (v_content v)(n := b_data x), v_ref := (v_ref v)(n := b_refcnt x)\<rparr>"
    "bkeeps s t"
proof -
  note b = held_buffer [OF inv h]
  note u = binvD(2) [OF inv]
  obtain bl where l: "linked (bufs s) bl" using inv by (auto simp: binv_def)
  have ft: "bufs t = (bufs s)(b := x)" "disk t = disk s" "slocks t = slocks s" "dtrace t = dtrace s" "procs t = procs s"
    by (simp_all add: t upd_buf_def)
  have hm: "home (bufs s) d n \<in> {None, Some b}" using b(7) by simp
  have lt: "linked (bufs t) bl"
    unfolding ft(1) by (subst linked_unchanged [of _ "bufs s"]) (use l x in auto)
  have okt: "buf_ok d (mypid p t) (disk t) (bufs t c) (slocks t (SL_buf c))" if "c < NBUF" for c
    using binvD(3) [OF inv that] b(5,6) x by (simp add: ft buf_ok_def)
  have "quiet p L t" using binvD(1) [OF inv] quiet_upper [OF upper_upd_buf, of p L b "\<lambda>_. x" s] by (simp add: t)
  then show "binv p d L t"
    using lt okt home_update(1) [OF u b(1) x(1,2) hm] by (auto simp: binv_def ft)
  have "held_of (bufs t) (slocks t) = held_of (bufs s) (slocks s)"
    using b(2) x(2) by (auto simp: held_of_def ft fun_eq_iff)
  then show "view_of d t = v\<lparr>v_content := (v_content v)(n := b_data x), v_ref := (v_ref v)(n := b_refcnt x)\<rparr>"
    using view_update [OF u b(1) x(1-3) hm, of "disk s"] b(7) by (simp add: v view_of_def ft)
  show "bkeeps s t" by (simp add: bkeeps_def ft) (simp add: t upd_buf_def)
qed

lemma bput_law:
  assumes "binv p d L s" "v = view_of d s" "v_held v b = Some n"
  shows "binv p d L (upd_buf b (\<lambda>x. x\<lparr>b_data := y\<rparr>) s)"
    "view_of d (upd_buf b (\<lambda>x. x\<lparr>b_data := y\<rparr>) s) = v\<lparr>v_content := (v_content v)(n := y)\<rparr>"
    "bkeeps s (upd_buf b (\<lambda>x. x\<lparr>b_data := y\<rparr>) s)"
proof -
  let ?x = "(bufs s b)\<lparr>b_data := y\<rparr>"
  have h: "v_held (view_of d s) b = Some n" using assms(2,3) by simp
  note b = held_buffer [OF assms(1) h]
  have t: "upd_buf b (\<lambda>x. x\<lparr>b_data := y\<rparr>) s = upd_buf b (\<lambda>_. ?x) s" by (simp add: upd_buf_def)
  note hu = held_update [OF assms(1) h assms(2), of ?x, OF _ _ _ _ _ t]
  show "binv p d L (upd_buf b (\<lambda>x. x\<lparr>b_data := y\<rparr>) s)" by (rule hu(1)) (simp_all add: b)
  show "bkeeps s (upd_buf b (\<lambda>x. x\<lparr>b_data := y\<rparr>) s)" by (rule hu(3)) (simp_all add: b)
  have "(v_ref v)(n := b_refcnt ?x) = v_ref v" using b(9) assms(2) by auto
  then show "view_of d (upd_buf b (\<lambda>x. x\<lparr>b_data := y\<rparr>) s) = v\<lparr>v_content := (v_content v)(n := y)\<rparr>"
    using hu(2) b by simp
qed

lemma binv_touch [simp]: "binv p d L (touch s) = binv p d L s"
  by (simp add: binv_def)

lemma view_touch [simp]: "view_of d (touch s) = view_of d s"
  by (simp add: view_of_def)

lemma bkeeps_touch: "bkeeps s (touch s)"
  by (simp add: bkeeps_def) (simp add: touch_def upd_mycpu_def)

lemma bwrite_law:
  assumes inv: "binv p d L s" and v: "v = view_of d s" and h: "v_held v b = Some n"
  shows "runs (bwrite b) s (\<lambda>_ t. binv p d L t \<and> bkeeps s t \<and>
    view_of d t = v\<lparr>v_disk := (v_disk v)(n := v_content v n), v_trace := v_trace v @ [(n, v_content v n)]\<rparr>)"
proof -
  note b = held_buffer [OF inv h [unfolded v]]
  note q = binvD(1) [OF inv] and u = binvD(2) [OF inv]
  let ?x = "b_data (bufs s b)"
  define t where "t = (touch s)\<lparr>disk := (disk s)(n := ?x), dtrace := dtrace s @ [(n, ?x)]\<rparr>"
  have run: "bwrite b es s = Ret () es t" for es
    using holdingsleep_run [OF quietD(2,4) [OF q], of "SL_buf b" es] b
    by (simp add: bwrite_def km_simps disk_rw_def t_def)
  have ft: "bufs t = bufs s" "slocks t = slocks s" "procs t = procs s" "disk t = (disk s)(n := ?x)" "dtrace t = dtrace s @ [(n, ?x)]"
    by (simp_all add: t_def)
  have okt: "buf_ok d (mypid p t) (disk t) (bufs t c) (slocks t (SL_buf c))" if c: "c < NBUF" for c
  proof -
    have "c = b" if "b_dev (bufs s c) = d" "b_blockno (bufs s c) = n"
      using u c b that unfolding uniq_def by blast
    then show ?thesis using binvD(3) [OF inv c] b(5) by (auto simp: ft buf_ok_def)
  qed
  have "quiet p L t" using q quiet_upper [of "\<lambda>t. t\<lparr>disk := (disk s)(n := ?x), dtrace := dtrace s @ [(n, ?x)]\<rparr>" p L "touch s"]
    by (simp add: t_def upper_def)
  then have "binv p d L t" using okt u inv by (auto simp: binv_def ft)
  moreover have "bkeeps s t" by (simp add: bkeeps_def ft) (simp add: t_def touch_def upd_mycpu_def)
  moreover have "content_of d (bufs s) ((disk s)(n := ?x)) = content_of d (bufs s) (disk s)"
  proof
    fix m show "content_of d (bufs s) ((disk s)(n := ?x)) m = content_of d (bufs s) (disk s) m"
    proof (cases "m = n")
      case True then show ?thesis using b(4,7) by (simp add: content_of_def)
    qed (auto simp: content_of_def split: option.splits)
  qed
  then have "view_of d t = v\<lparr>v_disk := (v_disk v)(n := v_content v n), v_trace := v_trace v @ [(n, v_content v n)]\<rparr>"
    using b(8) by (simp add: v view_of_def ft)
  ultimately show ?thesis using run by (intro runs_Ret [of "bwrite b" s "()" t]) auto
qed

text \<open>The views do not depend on the links.\<close>

lemma view_links:
  assumes "\<And>x. b_valid (g x) = b_valid (f x)" "\<And>x. b_dev (g x) = b_dev (f x)" "\<And>x. b_blockno (g x) = b_blockno (f x)"
    "\<And>x. b_refcnt (g x) = b_refcnt (f x)" "\<And>x. b_data (g x) = b_data (f x)"
  shows "home g = home f" "content_of d g = content_of d f" "ref_of d g = ref_of d f" "held_of g = held_of f"
    "uniq g d = uniq f d" "buf_ok d pid dk (g b) l = buf_ok d pid dk (f b) l"
proof -
  show h: "home g = home f" using assms by (simp add: home_def fun_eq_iff)
  show "content_of d g = content_of d f" "ref_of d g = ref_of d f" "held_of g = held_of f"
    "uniq g d = uniq f d" "buf_ok d pid dk (g b) l = buf_ok d pid dk (f b) l"
    using assms by (simp_all add: content_of_def ref_of_def held_of_def uniq_def buf_ok_def h fun_eq_iff split: option.splits)
qed

definition moved :: "nat \<Rightarrow> (nat \<Rightarrow> buf) \<Rightarrow> (nat \<Rightarrow> buf)" where
  "moved b f = (if b_refcnt (f b) = 0 then link_front b (unlink b f) else f)"

lemma moved_fields:
  "b_valid (moved b f x) = b_valid (f x)" "b_dev (moved b f x) = b_dev (f x)" "b_blockno (moved b f x) = b_blockno (f x)"
  "b_refcnt (moved b f x) = b_refcnt (f x)" "b_data (moved b f x) = b_data (f x)"
  by (simp_all add: moved_def link_front_fields unlink_fields)

lemmas view_moved = view_links [of "moved b f" f for b f, OF moved_fields]

definition released_buf :: "nat \<Rightarrow> 'z kbio_scheme \<Rightarrow> 'z kbio_scheme" where
  "released_buf b s = unslept (SL_buf b) ((woken (Ch_sleeplock (SL_buf b)) s)
     \<lparr>bufs := moved b ((bufs s)(b := (bufs s b)\<lparr>b_refcnt := b_refcnt (bufs s b) - 1\<rparr>))\<rparr>)"

lemma unslept_fields [simp]:
  "bufs (unslept lk s) = bufs s" "disk (unslept lk s) = disk s" "dtrace (unslept lk s) = dtrace s"
  "procs (unslept lk s) = procs s" "slocks (unslept lk s) = (slocks s)(lk := (slocks s lk)\<lparr>slk_locked := 0, slk_pid := 0\<rparr>)"
  by (simp_all add: unslept_def upd_slock_def)

lemma woken_fields [simp]:
  "bufs (woken c s) = bufs s" "disk (woken c s) = disk s" "dtrace (woken c s) = dtrace s" "slocks (woken c s) = slocks s"
  "procs (woken c s) = wake_table c (procs s)"
  by (simp_all add: woken_def)

lemma wake_table_pid [simp]: "p_pid (wake_table c f q) = p_pid (f q)"
  by (simp add: wake_table_def wakeup_one_def)

lemma upper_unslept: "upper (unslept lk)"
  unfolding unslept_def by (rule upper_upd_slock)

lemma quiet_woken [simp]: "quiet p L (woken c s) = quiet p L s"
  using quiet_upper [of "procs_update (\<lambda>_. wake_table c (procs s))" p L "touch s"] by (simp add: woken_def upper_proc)

lemma touch_woken [simp]: "touch (woken c s) = woken c s"
  by (simp add: woken_def)

lemma brelse_run:
  assumes q: "quiet p L s" and l: "slk_locked (slocks s (SL_buf b)) \<noteq> 0" "slk_pid (slocks s (SL_buf b)) = mypid p s"
  shows "brelse b es s = Ret () es (released_buf b s)"
proof -
  let ?ch = "Ch_sleeplock (SL_buf b)" and ?f = "(bufs s)(b := (bufs s b)\<lparr>b_refcnt := b_refcnt (bufs s b) - 1\<rparr>)"
  define u where "u = unslept (SL_buf b) (woken ?ch s)"
  have hold: "holdingsleep (SL_buf b) es s = Ret True es (touch s)"
    using holdingsleep_run [OF quietD(2,4) [OF q], of "SL_buf b" es] l by simp
  have fr: "free_except L (touch s)" "L_sleep (SL_buf b) \<notin> L" "procs_free L" using q by (auto simp: quiet_def)
  have rel: "releasesleep (SL_buf b) es (touch s) = Ret () es u"
    using releasesleep_run [OF fr, of es] by (simp add: u_def woken_def)
  have "quiet p L u" using q by (simp add: u_def quiet_upper [OF upper_unslept])
  then have rdy: "lock_ready L_bcache u" by (rule quietD(1))
  define g :: "'a kbio_scheme \<Rightarrow> 'a kbio_scheme" where "g = bufs_update (\<lambda>_. moved b ?f)"
  have up: "upper g" by (simp add: g_def upper_bio)
  have mid: "bnd (gets (\<lambda>s. b_refcnt (bufs s b))) (\<lambda>r. whenk (r = 0) (modify (\<lambda>s. s\<lparr>bufs := link_front b (unlink b (bufs s))\<rparr>)))
      es (upd_buf b (\<lambda>x. x\<lparr>b_refcnt := b_refcnt x - 1\<rparr>) (acquired L_bcache u)) = Ret () es (g (acquired L_bcache u))"
    by (simp add: km_simps upd_buf_def g_def moved_def u_def)
  have "release L_bcache es (g (acquired L_bcache u)) = Ret () es (g (touch u))"
    by (rule release_upper [OF rdy up])
  moreover have "touch u = u" by (simp add: u_def upper_simps [OF upper_unslept])
  moreover have "g u = released_buf b s" by (simp add: g_def u_def released_buf_def unslept_def upd_slock_def)
  ultimately show ?thesis
    using acquire_ready [OF rdy, of es] mid
    by (simp add: brelse_def bnd_def [of "holdingsleep _"] hold)
       (simp add: sq_def bnd_def [of "releasesleep _"] bnd_def [of "acquire _"] bnd_def [of "modify _"] bnd_def [of "bnd _ _"] bnd_def [of "release _"] rel modify_run ret_run)
qed

lemma brelse_law:
  assumes inv: "binv p d L s" and v: "v = view_of d s" and h: "v_held v b = Some n"
    and clean: "v_ref v n = 1 \<Longrightarrow> v_content v n = v_disk v n"
  shows "runs (brelse b) s (\<lambda>_ t. binv p d L t \<and> bkeeps s t \<and>
    view_of d t = v\<lparr>v_ref := (v_ref v)(n := v_ref v n - 1), v_held := (v_held v)(b := None)\<rparr>)"
proof -
  note b = held_buffer [OF inv h [unfolded v]]
  note q = binvD(1) [OF inv] and u = binvD(2) [OF inv]
  obtain bl where l: "linked (bufs s) bl" using inv by (auto simp: binv_def)
  let ?x = "(bufs s b)\<lparr>b_refcnt := b_refcnt (bufs s b) - 1\<rparr>"
  let ?f = "(bufs s)(b := ?x)"
  define t where "t = released_buf b s"
  have run: "brelse b es s = Ret () es t" for es unfolding t_def by (rule brelse_run [OF q b(5,6)])
  have ft: "bufs t = moved b ?f" "disk t = disk s" "dtrace t = dtrace s" "procs t = wake_table (Ch_sleeplock (SL_buf b)) (procs s)"
      "slocks t = (slocks s)(SL_buf b := (slocks s (SL_buf b))\<lparr>slk_locked := 0, slk_pid := 0\<rparr>)"
    by (simp_all add: t_def released_buf_def)
  have hm: "home (bufs s) d n \<in> {None, Some b}" using b(7) by simp
  have x: "b_dev ?x = d" "b_blockno ?x = n" "b_valid ?x" using b by auto
  note hu = home_update(1) [OF u b(1) x(1,2) hm]
  have vu: "content_of d ?f (disk s) = (content_of d (bufs s) (disk s))(n := b_data ?x)"
    "ref_of d ?f = (ref_of d (bufs s))(n := b_refcnt ?x)"
    using view_update [OF u b(1) x hm, of "disk s"] b(7) by auto
  have lf: "linked ?f bl" by (subst linked_unchanged [of _ "bufs s"]) (use l in auto)
  have "\<exists>bl. linked (bufs t) bl"
    using lf linked_to_front [OF lf b(1)] by (auto simp: ft moved_def)
  moreover have "buf_ok d (mypid p t) (disk t) (bufs t c) (slocks t (SL_buf c))" if "c < NBUF" for c
    using binvD(3) [OF inv that] b clean by (auto simp: ft view_moved(6)) (auto simp: buf_ok_def v view_of_def)
  moreover have "quiet p L t"
    using q quiet_upper [of "\<lambda>y. unslept (SL_buf b) (y\<lparr>bufs := moved b ?f\<rparr>)" p L "woken (Ch_sleeplock (SL_buf b)) s"]
    by (simp add: t_def released_buf_def upper_def unslept_def upd_slock_def)
  ultimately have "binv p d L t" using hu by (auto simp: binv_def ft view_moved(5))
  moreover have "bkeeps s t"
    by (auto simp: bkeeps_def ft wake_table_def wakeup_one_def)
       (simp add: t_def released_buf_def unslept_def upd_slock_def woken_def touch_def upd_mycpu_def)
  moreover have "held_of (bufs t) (slocks t) = (held_of (bufs s) (slocks s))(b := None)"
    by (auto simp: ft view_moved(4) held_of_def fun_eq_iff)
  then have "view_of d t = v\<lparr>v_ref := (v_ref v)(n := v_ref v n - 1), v_held := (v_held v)(b := None)\<rparr>"
    using vu b by (simp add: v view_of_def ft view_moved(2,3))
  ultimately show ?thesis using run by (intro runs_Ret [of "brelse b" s "()" t]) auto
qed

lemma pin_law:
  assumes inv: "binv p d L s" and v: "v = view_of d s" and h: "v_held v b = Some n"
  shows "runs (bpin b) s (\<lambda>_ t. binv p d L t \<and> bkeeps s t \<and> view_of d t = v\<lparr>v_ref := (v_ref v)(n := v_ref v n + 1)\<rparr>)"
    "runs (bunpin b) s (\<lambda>_ t. binv p d L t \<and> bkeeps s t \<and> view_of d t = v\<lparr>v_ref := (v_ref v)(n := v_ref v n - 1)\<rparr>)"
proof -
  note h' = h [unfolded v] and b = held_buffer [OF inv h [unfolded v]]
  have inv': "binv p d L (touch s)" "v_held (view_of d (touch s)) b = Some n" "v = view_of d (touch s)" using inv h v by simp_all
  have step: "binv p d L (upd_buf b f (touch s)) \<and> bkeeps s (upd_buf b f (touch s)) \<and>
      view_of d (upd_buf b f (touch s)) = v\<lparr>v_ref := (v_ref v)(n := r)\<rparr>"
    if f: "f = (\<lambda>x. x\<lparr>b_refcnt := g x\<rparr>)" and r: "g (bufs s b) = r" for f g r
  proof -
    let ?x = "(bufs s b)\<lparr>b_refcnt := r\<rparr>"
    have t: "upd_buf b f (touch s) = upd_buf b (\<lambda>_. ?x) (touch s)" using r by (simp add: upd_buf_def f)
    note hu = held_update [OF inv', of ?x, OF _ _ _ _ _ t]
    have "binv p d L (upd_buf b f (touch s))" by (rule hu(1)) (simp_all add: b)
    moreover have "bkeeps (touch s) (upd_buf b f (touch s))" by (rule hu(3)) (simp_all add: b)
    then have "bkeeps s (upd_buf b f (touch s))" by (rule bkeeps_trans [OF bkeeps_touch])
    moreover have "(v_content v)(n := b_data ?x) = v_content v" using b(8) v by auto
    then have "view_of d (upd_buf b f (touch s)) = v\<lparr>v_ref := (v_ref v)(n := r)\<rparr>" using hu(2) b by simp
    ultimately show ?thesis by blast
  qed
  note sec = section_run [OF quietD(1) [OF binvD(1) [OF inv]] upper_upd_buf]
  show "runs (bpin b) s (\<lambda>_ t. binv p d L t \<and> bkeeps s t \<and> view_of d t = v\<lparr>v_ref := (v_ref v)(n := v_ref v n + 1)\<rparr>)"
    using step [OF refl, of "\<lambda>x. b_refcnt x + 1"] b(9) v by (intro runs_Ret) (auto simp: bpin_def simp del: seqs.simps intro: sec)
  show "runs (bunpin b) s (\<lambda>_ t. binv p d L t \<and> bkeeps s t \<and> view_of d t = v\<lparr>v_ref := (v_ref v)(n := v_ref v n - 1)\<rparr>)"
    using step [OF refl, of "\<lambda>x. b_refcnt x - 1"] b(9) v by (intro runs_Ret) (auto simp: bunpin_def simp del: seqs.simps intro: sec)
qed

subsection \<open>The interface\<close>

text \<open>
  What a client of the cache may rely on: the laws above, over an invariant, an abstraction and a
  frame. \<open>one_block\<close> and \<open>two_blocks\<close> are the ways the log and the file system use it.
\<close>

definition room :: "nat \<Rightarrow> bview \<Rightarrow> bool" where
  "room k v \<longleftrightarrow> card {m. v_ref v m \<noteq> 0} + k \<le> NBUF"

definition got :: "nat \<Rightarrow> u32 \<Rightarrow> bview \<Rightarrow> bview" where
  "got b n v = v\<lparr>v_ref := (v_ref v)(n := v_ref v n + 1), v_held := (v_held v)(b \<mapsto> n)\<rparr>"

definition given_back :: "nat \<Rightarrow> u32 \<Rightarrow> bview \<Rightarrow> bview" where
  "given_back b n v = v\<lparr>v_ref := (v_ref v)(n := v_ref v n - 1), v_held := (v_held v)(b := None)\<rparr>"

definition stored :: "u32 \<Rightarrow> bview \<Rightarrow> bview" where
  "stored n v = v\<lparr>v_disk := (v_disk v)(n := v_content v n), v_trace := v_trace v @ [(n, v_content v n)]\<rparr>"

definition changed :: "u32 \<Rightarrow> bytes \<Rightarrow> bview \<Rightarrow> bview" where
  "changed n y v = v\<lparr>v_content := (v_content v)(n := y)\<rparr>"

definition idle :: "bview \<Rightarrow> bool" where
  "idle v \<longleftrightarrow> v_held v = (\<lambda>_. None)"

lemma room_got: "room (Suc k) v \<Longrightarrow> room k (got b n v)"
proof -
  assume r: "room (Suc k) v"
  have "card {m. v_ref (got b n v) m \<noteq> 0} \<le> card (insert n {m. v_ref v m \<noteq> 0})"
    by (intro card_mono) (auto simp: got_def)
  also have "\<dots> \<le> Suc (card {m. v_ref v m \<noteq> 0})" by (rule card_insert_le_m1) simp_all
  finally show ?thesis using r by (simp add: room_def)
qed

locale block_store =
  fixes inv :: "'s \<Rightarrow> bool" and view :: "'s \<Rightarrow> bview" and keeps :: "'s \<Rightarrow> 's \<Rightarrow> bool"
    and rd :: "u32 \<Rightarrow> ('s, nat) km" and wr :: "nat \<Rightarrow> ('s, unit) km" and rel :: "nat \<Rightarrow> ('s, unit) km"
    and put :: "nat \<Rightarrow> bytes \<Rightarrow> 's \<Rightarrow> 's" and data :: "nat \<Rightarrow> 's \<Rightarrow> bytes"
  assumes keeps_refl: "keeps s s" and keeps_trans: "keeps s t \<Longrightarrow> keeps t u \<Longrightarrow> keeps s u"
    and rd_law: "inv s \<Longrightarrow> \<forall>b. v_held (view s) b \<noteq> Some n \<Longrightarrow> \<forall>b m. v_held (view s) b = Some m \<longrightarrow> v_ref (view s) m \<noteq> 0 \<Longrightarrow>
        v_ref (view s) n \<noteq> 0 \<or> room 1 (view s) \<Longrightarrow>
        runs (rd n) s (\<lambda>b t. inv t \<and> keeps s t \<and> v_held (view s) b = None \<and> view t = got b n (view s))"
    and wr_law: "inv s \<Longrightarrow> v_held (view s) b = Some n \<Longrightarrow>
        runs (wr b) s (\<lambda>_ t. inv t \<and> keeps s t \<and> view t = stored n (view s))"
    and rel_law: "inv s \<Longrightarrow> v_held (view s) b = Some n \<Longrightarrow> (v_ref (view s) n = 1 \<Longrightarrow> v_content (view s) n = v_disk (view s) n) \<Longrightarrow>
        runs (rel b) s (\<lambda>_ t. inv t \<and> keeps s t \<and> view t = given_back b n (view s))"
    and put_law: "inv s \<Longrightarrow> v_held (view s) b = Some n \<Longrightarrow>
        inv (put b y s) \<and> keeps s (put b y s) \<and> view (put b y s) = changed n y (view s)"
    and data_law: "inv s \<Longrightarrow> v_held (view s) b = Some n \<Longrightarrow> data b s = v_content (view s) n"
begin

lemma one_block:
  assumes "inv s" "idle (view s)" "v_ref (view s) n \<noteq> 0 \<or> room 1 (view s)"
    and "\<And>b t. inv t \<Longrightarrow> keeps s t \<Longrightarrow> view t = got b n (view s) \<Longrightarrow> runs (k b) t Q"
  shows "runs (bnd (rd n) k) s Q"
proof (rule runs_bnd)
  show "runs (rd n) s (\<lambda>b t. inv t \<and> keeps s t \<and> v_held (view s) b = None \<and> view t = got b n (view s))"
    using assms(1-3) by (intro rd_law) (auto simp: idle_def)
qed (use assms(4) in blast)

lemma two_blocks:
  assumes "inv s" "idle (view s)" "a \<noteq> n" "room 2 (view s) \<or> v_ref (view s) n \<noteq> 0 \<and> room 1 (view s)" "v_ref (view s) a + 1 \<noteq> 0"
    and "\<And>b c t. inv t \<Longrightarrow> keeps s t \<Longrightarrow> b \<noteq> c \<Longrightarrow> view t = got c n (got b a (view s)) \<Longrightarrow> runs (k b c) t Q"
  shows "runs (bnd (rd a) (\<lambda>b. bnd (rd n) (k b))) s Q"
proof (rule one_block [OF assms(1,2)])
  show "v_ref (view s) a \<noteq> 0 \<or> room 1 (view s)" using assms(4) by (auto simp: room_def)
  fix b t assume t: "inv t" "keeps s t" "view t = got b a (view s)"
  show "runs (bnd (rd n) (k b)) t Q"
  proof (rule runs_bnd)
    have "v_ref (view t) n \<noteq> 0 \<or> room 1 (view t)"
      using assms(3,4) room_got [of 1 "view s" b a] by (auto simp: t(3) got_def numeral_2_eq_2)
    then show "runs (rd n) t (\<lambda>c u. inv u \<and> keeps t u \<and> v_held (view t) c = None \<and> view u = got c n (view t))"
      using assms(2,3,5) by (intro rd_law [OF t(1)]) (auto simp: t(3) got_def idle_def)
    fix c u assume u: "inv u \<and> keeps t u \<and> v_held (view t) c = None \<and> view u = got c n (view t)"
    then have "b \<noteq> c" by (auto simp: t(3) got_def)
    with u show "runs (k b c) u Q" using assms(6) keeps_trans [OF t(2)] by (simp add: t(3))
  qed
qed

end

interpretation bc: block_store "binv p d L" "view_of d" bkeeps "bread d" bwrite brelse
    "\<lambda>b y. upd_buf b (\<lambda>x. x\<lparr>b_data := y\<rparr>)" "\<lambda>b s. b_data (bufs s b)" for p d L
proof
  fix s t u :: "'a kbio_scheme"
  show "bkeeps s s" by (rule bkeeps_refl)
  show "bkeeps s t \<Longrightarrow> bkeeps t u \<Longrightarrow> bkeeps s u" by (rule bkeeps_trans)
next
  fix s :: "'a kbio_scheme" and n
  assume "binv p d L s" "\<forall>b. v_held (view_of d s) b \<noteq> Some n" "\<forall>b m. v_held (view_of d s) b = Some m \<longrightarrow> v_ref (view_of d s) m \<noteq> 0"
    "v_ref (view_of d s) n \<noteq> 0 \<or> room 1 (view_of d s)"
  then show "runs (bread d n) s (\<lambda>b t. binv p d L t \<and> bkeeps s t \<and> v_held (view_of d s) b = None \<and> view_of d t = got b n (view_of d s))"
    by (intro runs_mono [OF bread_law [OF _ refl]]) (auto simp: room_def got_def)
next
  fix s :: "'a kbio_scheme" and b n
  assume "binv p d L s" "v_held (view_of d s) b = Some n"
  then show "runs (bwrite b) s (\<lambda>_ t. binv p d L t \<and> bkeeps s t \<and> view_of d t = stored n (view_of d s))"
    unfolding stored_def by (rule bwrite_law [OF _ refl])
next
  fix s :: "'a kbio_scheme" and b n
  assume "binv p d L s" "v_held (view_of d s) b = Some n" "v_ref (view_of d s) n = 1 \<Longrightarrow> v_content (view_of d s) n = v_disk (view_of d s) n"
  then show "runs (brelse b) s (\<lambda>_ t. binv p d L t \<and> bkeeps s t \<and> view_of d t = given_back b n (view_of d s))"
    unfolding given_back_def by (rule brelse_law [OF _ refl])
next
  fix s :: "'a kbio_scheme" and b n y
  assume "binv p d L s" "v_held (view_of d s) b = Some n"
  then show "binv p d L (upd_buf b (\<lambda>x. x\<lparr>b_data := y\<rparr>) s) \<and> bkeeps s (upd_buf b (\<lambda>x. x\<lparr>b_data := y\<rparr>) s) \<and>
      view_of d (upd_buf b (\<lambda>x. x\<lparr>b_data := y\<rparr>) s) = changed n y (view_of d s)"
    using bput_law [of p d L s _ b n y] by (simp add: changed_def)
next
  fix s :: "'a kbio_scheme" and b n
  assume "binv p d L s" "v_held (view_of d s) b = Some n"
  then show "b_data (bufs s b) = v_content (view_of d s) n" by (rule held_buffer(8))
qed

subsection \<open>Initialisation\<close>

lemma quiet_initlock: "quiet p L s \<Longrightarrow> quiet p L (upd_lock lk (\<lambda>_. \<lparr>sl_locked = 0, sl_name = n, sl_cpu = None\<rparr>) s)"
  for s :: "'z kproc_scheme"
proof -
  assume q: "quiet p L s"
  have "hart_ok s" by (rule quietD(5) [OF q])
  then have "hart_ok (upd_lock lk (\<lambda>_. \<lparr>sl_locked = 0, sl_name = n, sl_cpu = None\<rparr>) s)" by (simp add: hart_ok_def)
  with q show ?thesis by (auto simp: quiet_def free_except_def lock_ready_def)
qed

lemma bio_initlock [simp]:
  "bufs (upd_lock lk f s) = bufs s" "disk (upd_lock lk f s) = disk s" "slocks (upd_lock lk f s) = slocks s"
  by simp_all

definition fresh :: "nat \<Rightarrow> (nat \<Rightarrow> buf) \<Rightarrow> (u32 \<Rightarrow> bytes) \<Rightarrow> nat \<Rightarrow> 'z kbio_scheme \<Rightarrow> bool" where
  "fresh p f D i s \<longleftrightarrow> quiet p {} s \<and> disk s = D \<and>
     chain (\<lambda>b. b_next (bufs s b)) (\<lambda>b. b_prev (bufs s b)) HEAD (rev [0..<i] @ [HEAD]) \<and>
     (\<forall>b. b_valid (bufs s b) = b_valid (f b) \<and> b_dev (bufs s b) = b_dev (f b) \<and> b_refcnt (bufs s b) = b_refcnt (f b)) \<and>
     (\<forall>b < i. slk_locked (slocks s (SL_buf b)) = 0)"

lemma binit_step:
  assumes "fresh p f D i s" "i < NBUF"
  shows "runs (sq (initsleeplock (SL_buf i) ''buffer'') (modify (\<lambda>s. s\<lparr>bufs := link_front i (bufs s)\<rparr>))) s (\<lambda>_. fresh p f D (Suc i))"
proof -
  let ?u = "upd_slock (SL_buf i) (\<lambda>_. \<lparr>slk_locked = 0, slk_name = ''buffer'', slk_pid = 0\<rparr>)
      (upd_lock (L_sleep (SL_buf i)) (\<lambda>_. \<lparr>sl_locked = 0, sl_name = ''sleep lock'', sl_cpu = None\<rparr>) s)"
  let ?t = "?u\<lparr>bufs := link_front i (bufs s)\<rparr>"
  have ch: "chain (\<lambda>b. b_next (bufs s b)) (\<lambda>b. b_prev (bufs s b)) HEAD (rev [0..<i] @ [HEAD])"
    using assms(1) by (simp add: fresh_def)
  have "b_next (bufs s HEAD) \<in> set (rev [0..<i] @ [HEAD])"
    using ch by (cases "rev [0..<i] @ [HEAD]") auto
  then have ne: "b_next (bufs s HEAD) \<noteq> i" "i \<noteq> HEAD" using assms(2) by auto
  have "chain (\<lambda>b. b_next (link_front i (bufs s) b)) (\<lambda>b. b_prev (link_front i (bufs s) b)) HEAD (i # rev [0..<i] @ [HEAD])"
    unfolding link_front_links [where f = "bufs s" and b = i, OF ne(2,1)]
    using ch assms(2) by (intro chain_push) auto
  moreover have "quiet p {} ?t"
    by (simp only: quiet_upper [OF upper_bio(1)] quiet_upper [OF upper_upd_slock])
       (use assms(1) in \<open>simp add: fresh_def quiet_initlock\<close>)
  ultimately have "fresh p f D (Suc i) ?t"
    using assms by (auto simp: fresh_def link_front_fields upd_slock_def less_Suc_eq)
  then show ?thesis
    by (intro runs_Ret) (auto simp: initsleeplock_def initlock_def km_simps upd_slock_def)
qed

text \<open>After \<^verbatim>\<open>binit\<close> the cache is empty: every block has the content of the disk and no buffer is in use.\<close>

lemma binit_run:
  assumes "quiet p {} s" "\<And>b. b < NBUF \<Longrightarrow> b_refcnt (bufs s b) = 0 \<and> b_dev (bufs s b) \<noteq> d"
  shows "runs binit s (\<lambda>_ t. binv p d {} t \<and> idle (view_of d t) \<and> v_ref (view_of d t) = (\<lambda>_. 0) \<and>
     v_content (view_of d t) = disk s \<and> v_disk (view_of d t) = disk s \<and> linked (bufs t) (rev [0..<NBUF]) \<and>
     (\<forall>b < NBUF. b_refcnt (bufs t b) = 0 \<and> b_dev (bufs t b) \<noteq> d))"
proof -
  define s1 where "s1 = upd_buf HEAD (\<lambda>h. h\<lparr>b_prev := HEAD, b_next := HEAD\<rparr>)
     (upd_lock L_bcache (\<lambda>_. \<lparr>sl_locked = 0, sl_name = ''bcache'', sl_cpu = None\<rparr>) s)"
  have "quiet p {} s1" using quiet_initlock [OF assms(1)] by (simp add: s1_def quiet_upper [OF upper_upd_buf])
  then have "fresh p (bufs s) (disk s) 0 s1" by (auto simp: fresh_def s1_def upd_buf_def)
  then have loop: "runs (each_do [0..<NBUF] (\<lambda>b. sq (initsleeplock (SL_buf b) ''buffer'') (modify (\<lambda>s. s\<lparr>bufs := link_front b (bufs s)\<rparr>)))) s1
      (\<lambda>_. fresh p (bufs s) (disk s) (length [0..<NBUF]))"
    by (intro runs_each_do [where I = "fresh p (bufs s) (disk s)"]) (auto intro: binit_step)
  have fin: "binv p d {} t \<and> idle (view_of d t) \<and> v_ref (view_of d t) = (\<lambda>_. 0) \<and>
     v_content (view_of d t) = disk s \<and> v_disk (view_of d t) = disk s \<and> linked (bufs t) (rev [0..<NBUF]) \<and>
     (\<forall>b < NBUF. b_refcnt (bufs t b) = 0 \<and> b_dev (bufs t b) \<noteq> d)" if t: "fresh p (bufs s) (disk s) NBUF t" for t :: "'a kbio_scheme"
  proof -
    have l: "linked (bufs t) (rev [0..<NBUF])" using t by (auto simp: fresh_def linked_def atLeast0LessThan)
    have z: "b_refcnt (bufs t b) = 0 \<and> b_dev (bufs t b) \<noteq> d \<and> slk_locked (slocks t (SL_buf b)) = 0" if "b < NBUF" for b
      using t assms(2) [OF that] that by (auto simp: fresh_def)
    then have h: "home (bufs t) d n = None" for n by (simp add: home_None)
    have "binv p d {} t" using t l z by (auto simp: binv_def fresh_def uniq_def buf_ok_def)
    moreover have "idle (view_of d t)" using z by (auto simp: idle_def view_of_def held_of_def)
    moreover have "v_ref (view_of d t) = (\<lambda>_. 0)" "v_content (view_of d t) = disk s" "v_disk (view_of d t) = disk s"
      using t by (simp_all add: view_of_def ref_of_def content_of_def h fun_eq_iff fresh_def)
    ultimately show ?thesis using l z by blast
  qed
  have "runs (each_do [0..<NBUF] (\<lambda>b. sq (initsleeplock (SL_buf b) ''buffer'') (modify (\<lambda>s. s\<lparr>bufs := link_front b (bufs s)\<rparr>)))) s1
      (\<lambda>_ t. binv p d {} t \<and> idle (view_of d t) \<and> v_ref (view_of d t) = (\<lambda>_. 0) \<and>
     v_content (view_of d t) = disk s \<and> v_disk (view_of d t) = disk s \<and> linked (bufs t) (rev [0..<NBUF]) \<and>
     (\<forall>b < NBUF. b_refcnt (bufs t b) = 0 \<and> b_dev (bufs t b) \<noteq> d))"
    using runs_mono [OF loop] fin by simp
  then show ?thesis
    by (simp add: binit_def initlock_def s1_def sq_ret)
qed

subsection \<open>Properties\<close>

text \<open>Statically allocated data as C initialises it, below a cache over the disk \<open>D\<close>.\<close>

definition zero_buf :: buf where
  "zero_buf = \<lparr>b_valid = False, b_disk = False, b_dev = 0, b_blockno = 0, b_refcnt = 0, b_prev = 0, b_next = 0, b_data = (\<lambda>_. 0)\<rparr>"

definition bio_state :: "(u32 \<Rightarrow> bytes) \<Rightarrow> 'z \<Rightarrow> 'z kbio_scheme" where
  "bio_state D m = over_kmem (reset_kmem 1) (\<lambda>_. idle_proc\<lparr>p_pid := 1, p_state := RUNNING\<rparr>)
     (kuart_ext [] [] (\<lambda>_. 0) 0 0 False False (kcons_ext (\<lambda>_. 0) 0 0 0 (\<lambda>_. \<lparr>dev_read = None, dev_write = None\<rparr>)
     (ksleep_ext (\<lambda>_. \<lparr>slk_locked = 0, slk_name = [], slk_pid = 0\<rparr>) (kbio_ext (\<lambda>_. zero_buf) D [] m))))"

lemma bio_state_quiet: "quiet 0 {} (bio_state D m)"
  by (simp add: quiet_def bio_state_def free_except_def procs_free_def)

lemma disk_bio_state [simp]: "disk (bio_state D m) = D"
  by (simp add: bio_state_def over_kmem_def)

lemma bio_state_init:
  "runs binit (bio_state D m) (\<lambda>_ t. binv 0 1 {} t \<and> idle (view_of 1 t) \<and> v_ref (view_of 1 t) = (\<lambda>_. 0) \<and>
     v_content (view_of 1 t) = D \<and> v_disk (view_of 1 t) = D \<and> linked (bufs t) (rev [0..<NBUF]) \<and>
     (\<forall>b < NBUF. b_refcnt (bufs t b) = 0 \<and> b_dev (bufs t b) \<noteq> 1))"
  using binit_run [OF bio_state_quiet, where d = 1 and D1 = D and m1 = m] by (simp add: bio_state_def over_kmem_def zero_buf_def)



text \<open>
  C18: \<^verbatim>\<open>bget\<close> returns, locked by the caller, the buffer that caches the block, with one reference
  more; if no buffer does, it recycles the least recently released buffer without references; and
  only if there is none it panics.
\<close>

theorem bget_lru:
  assumes "quiet p L s" "linked (bufs s) bl"
    and "\<And>b. b < NBUF \<Longrightarrow> slk_locked (slocks s (SL_buf b)) = 0"
  shows "bget dev n es s =
    (case find (\<lambda>b. b_dev (bufs s b) = dev \<and> b_blockno (bufs s b) = n) bl of
       Some b \<Rightarrow> Ret b es (slept (SL_buf b) (mypid p s) (upd_buf b (\<lambda>x. x\<lparr>b_refcnt := b_refcnt x + 1\<rparr>) (touch s)))
     | None \<Rightarrow> (case find (\<lambda>b. b_refcnt (bufs s b) = 0) (rev bl) of
         Some b \<Rightarrow> Ret b es (slept (SL_buf b) (mypid p s) (upd_buf b (\<lambda>x. x\<lparr>b_dev := dev, b_blockno := n,
            b_valid := False, b_refcnt := 1\<rparr>) (touch s)))
       | None \<Rightarrow> Panic ''bget: no buffers''))"
proof -
  have unl: "slk_locked (slocks s (SL_buf b)) = 0" if "find P bs = Some b" "set bs = {..<NBUF}" for P bs b
    using find_SomeD [OF that(1)] that(2) assms(3) by auto
  have set: "set bl = {..<NBUF}" "set (rev bl) = {..<NBUF}" using assms(2) by (auto simp: linked_def)
  note run = bget_run [OF assms(1,2), where dev = dev and n = n and es = es]
  show ?thesis
  proof (cases "find (\<lambda>b. b_dev (bufs s b) = dev \<and> b_blockno (bufs s b) = n) bl")
    case (Some b)
    then show ?thesis using run(1) [of b] unl [OF Some set(1)] by (simp add: cached_def referenced_def [abs_def])
  next
    case None
    note miss = this
    show ?thesis
    proof (cases "find (\<lambda>b. b_refcnt (bufs s b) = 0) (rev bl)")
      case (Some b)
      then show ?thesis using run(2) [of b] miss unl [OF Some set(2)] by (simp add: cached_def lru_def recycled_def [abs_def])
    qed (use run(3) miss in \<open>simp add: cached_def lru_def\<close>)
  qed
qed

lemma example_cache:
  "\<exists>t :: kbio. binv 0 1 {} t \<and> idle (view_of 1 t) \<and> v_ref (view_of 1 t) = (\<lambda>_. 0) \<and> linked (bufs t) (rev [0..<NBUF]) \<and>
     (\<forall>b < NBUF. b_refcnt (bufs t b) = 0 \<and> b_dev (bufs t b) \<noteq> 1 \<and> slk_locked (slocks t (SL_buf b)) = 0)"
proof -
  obtain t :: kbio where t: "binv 0 1 {} t" "idle (view_of 1 t)" "v_ref (view_of 1 t) = (\<lambda>_. 0)" "linked (bufs t) (rev [0..<NBUF])"
     "\<forall>b < NBUF. b_refcnt (bufs t b) = 0 \<and> b_dev (bufs t b) \<noteq> 1"
    using bio_state_init [of "\<lambda>_ _. 7" "()"] unfolding runs_def by (elim allE [of _ "[]"]) blast
  have "slk_locked (slocks t (SL_buf b)) = 0" if "b < NBUF" for b
    using fun_cong [OF t(2) [unfolded idle_def], of b] that by (auto simp: view_of_def held_of_def split: if_splits)
  with t show ?thesis by blast
qed

theorem bget_lru_witness: "\<exists>(s :: kbio) t. bget 1 5 [] s = Ret 0 [] t \<and> b_blockno (bufs t 0) = 5"
proof -
  obtain s :: kbio where s: "binv 0 1 {} s" "linked (bufs s) (rev [0..<NBUF])"
     "\<forall>b < NBUF. b_refcnt (bufs s b) = 0 \<and> b_dev (bufs s b) \<noteq> 1 \<and> slk_locked (slocks s (SL_buf b)) = 0"
    using example_cache by blast
  have miss: "find (\<lambda>b. b_dev (bufs s b) = 1 \<and> b_blockno (bufs s b) = 5) (rev [0..<NBUF]) = None"
    using s(3) by (auto simp: find_None_iff)
  have "[0..<NBUF] = 0 # [1..<NBUF]" by (simp add: upt_conv_Cons)
  then have first: "find (\<lambda>b. b_refcnt (bufs s b) = 0) (rev (rev [0..<NBUF])) = Some 0"
    using s(3) by simp
  have unl: "slk_locked (slocks s (SL_buf b)) = 0" if "b < NBUF" for b using s(3) that by blast
  have "bget 1 5 [] s = Ret 0 [] (slept (SL_buf 0) (mypid 0 s) (upd_buf 0 (\<lambda>x. x\<lparr>b_dev := 1, b_blockno := 5,
            b_valid := False, b_refcnt := 1\<rparr>) (touch s)))"
    using bget_lru [OF binvD(1) [OF s(1)] s(2) unl, of 1 5 "[]"] by (simp only: miss first option.case)
  then show ?thesis by (intro exI conjI) (assumption, simp add: upd_buf_def)
qed

text \<open>
  C19: the cache behaves as a block store. Reading a block gives its content; changing the buffer,
  writing it and releasing it makes the change the content of that block and of the disk, with one
  write to the disk and no effect on any other block, reference or lock.
\<close>

theorem block_update:
  assumes inv: "binv p d L s" and idl: "idle (view_of d s)" and room: "v_ref (view_of d s) n \<noteq> 0 \<or> room 1 (view_of d s)"
  shows "runs (bnd (bread d n) (\<lambda>b. bnd (gets (\<lambda>s. b_data (bufs s b))) (\<lambda>x.
      sq (seqs [modify (upd_buf b (\<lambda>y. y\<lparr>b_data := f x\<rparr>)), bwrite b, brelse b]) (ret x)))) s
    (\<lambda>x t. binv p d L t \<and> x = v_content (view_of d s) n \<and>
       view_of d t = (view_of d s)\<lparr>v_content := (v_content (view_of d s))(n := f x), v_disk := (v_disk (view_of d s))(n := f x),
         v_trace := v_trace (view_of d s) @ [(n, f x)]\<rparr>)"
proof (rule bc.one_block [OF inv idl room])
  fix b t assume t: "binv p d L t" "bkeeps s t" "view_of d t = got b n (view_of d s)"
  let ?v = "view_of d s"
  let ?x = "v_content ?v n"
  have h: "v_held (view_of d t) b = Some n" by (simp add: t(3) got_def)
  have x: "b_data (bufs t b) = ?x" using bc.data_law [OF t(1) h] by (simp add: t(3) got_def)
  let ?t1 = "upd_buf b (\<lambda>y. y\<lparr>b_data := f ?x\<rparr>) t"
  have t1: "binv p d L ?t1" "view_of d ?t1 = changed n (f ?x) (got b n ?v)"
    using bc.put_law [OF t(1) h, of "f ?x"] by (simp_all add: t(3))
  have wrt: "runs (bwrite b) ?t1 (\<lambda>_ u. binv p d L u \<and> bkeeps ?t1 u \<and> view_of d u = stored n (changed n (f ?x) (got b n ?v)))"
    using bc.wr_law [OF t1(1), of b n] by (simp add: t1(2) changed_def got_def)
  have end_view: "given_back b n (stored n (changed n (f ?x) (got b n ?v))) = ?v\<lparr>v_content := (v_content ?v)(n := f ?x),
      v_disk := (v_disk ?v)(n := f ?x), v_trace := v_trace ?v @ [(n, f ?x)]\<rparr>"
    using idl by (cases "?v") (auto simp: given_back_def stored_def changed_def got_def idle_def fun_upd_idem)
  have "runs (sq (bwrite b) (brelse b)) ?t1 (\<lambda>_ u. binv p d L u \<and> view_of d u = ?v\<lparr>v_content := (v_content ?v)(n := f ?x),
         v_disk := (v_disk ?v)(n := f ?x), v_trace := v_trace ?v @ [(n, f ?x)]\<rparr>)"
  proof (rule runs_sq [OF wrt])
    fix a u assume u: "binv p d L u \<and> bkeeps ?t1 u \<and> view_of d u = stored n (changed n (f ?x) (got b n ?v))"
    then have "runs (brelse b) u (\<lambda>_ w. binv p d L w \<and> bkeeps u w \<and> view_of d w = given_back b n (view_of d u))"
      by (intro bc.rel_law) (simp_all add: stored_def changed_def got_def)
    then show "runs (brelse b) u (\<lambda>_ u. binv p d L u \<and> view_of d u = ?v\<lparr>v_content := (v_content ?v)(n := f ?x),
         v_disk := (v_disk ?v)(n := f ?x), v_trace := v_trace ?v @ [(n, f ?x)]\<rparr>)"
      by (rule runs_mono) (use u end_view in auto)
  qed
  then have all: "runs (seqs [modify (upd_buf b (\<lambda>y. y\<lparr>b_data := f ?x\<rparr>)), bwrite b, brelse b]) t
      (\<lambda>_ u. binv p d L u \<and> view_of d u = ?v\<lparr>v_content := (v_content ?v)(n := f ?x),
         v_disk := (v_disk ?v)(n := f ?x), v_trace := v_trace ?v @ [(n, f ?x)]\<rparr>)"
    by (simp add: sq_ret)
  show "runs (bnd (gets (\<lambda>s. b_data (bufs s b))) (\<lambda>x.
      sq (seqs [modify (upd_buf b (\<lambda>y. y\<lparr>b_data := f x\<rparr>)), bwrite b, brelse b]) (ret x))) t
    (\<lambda>x t. binv p d L t \<and> x = ?x \<and> view_of d t = ?v\<lparr>v_content := (v_content ?v)(n := f x), v_disk := (v_disk ?v)(n := f x),
         v_trace := v_trace ?v @ [(n, f x)]\<rparr>)"
    unfolding runs_bnd_gets x by (rule runs_sq [OF all]) (simp only: runs_ret simp_thms)
qed

theorem block_update_witness:
  "\<exists>(s :: kbio) t x. bnd (bread 1 9) (\<lambda>b. bnd (gets (\<lambda>s. b_data (bufs s b))) (\<lambda>x.
      sq (seqs [modify (upd_buf b (\<lambda>y. y\<lparr>b_data := x(3 := 8)\<rparr>)), bwrite b, brelse b]) (ret x))) [] s = Ret x [] t \<and>
     v_disk (view_of 1 t) 9 3 = 8"
proof -
  obtain s :: kbio where s: "binv 0 1 {} s" "idle (view_of 1 s)" "v_ref (view_of 1 s) = (\<lambda>_. 0)"
    using example_cache by blast
  have "room 1 (view_of 1 s)" using s(3) by (simp add: room_def)
  then have "v_ref (view_of 1 s) 9 \<noteq> 0 \<or> room 1 (view_of 1 s)" by blast
  from block_update [OF s(1,2) this, of "\<lambda>x. x(3 := 8)"] obtain x t where
    "bnd (bread 1 9) (\<lambda>b. bnd (gets (\<lambda>s. b_data (bufs s b))) (\<lambda>x.
      sq (seqs [modify (upd_buf b (\<lambda>y. y\<lparr>b_data := x(3 := 8)\<rparr>)), bwrite b, brelse b]) (ret x))) [] s = Ret x [] t"
    "v_disk (view_of 1 t) = (v_disk (view_of 1 s))(9 := x(3 := 8))"
    unfolding runs_def by (elim allE [of _ "[]"] exE conjE) simp
  then show ?thesis by (intro exI conjI) (assumption, simp)
qed

end
