(* ===== verification/LogView.thy ===== *)
theory LogView
  imports Log BioView
begin

text \<open>
  The log over the block store of \<open>BioView\<close>: the effect of writing the log, of the header, of
  installation and of recovery on contents, disk and reference counts, the sequence of disk writes
  of a commit, and what recovery makes of every prefix of that sequence.
\<close>

subsection \<open>Stepping through routines of the block store\<close>

text \<open>State \<open>t\<close> was reached from \<open>s\<close> by routines of the cache, and stands for \<open>w\<close>.\<close>

definition reached :: "nat \<Rightarrow> u32 \<Rightarrow> lockid set \<Rightarrow> 'z kbio_scheme \<Rightarrow> bview \<Rightarrow> 'z kbio_scheme \<Rightarrow> bool" where
  "reached p d L s w t \<longleftrightarrow> binv p d L t \<and> bkeeps s t \<and> view_of d t = w"

lemma reached_refl: "binv p d L s \<Longrightarrow> reached p d L s (view_of d s) s"
  by (simp add: reached_def bkeeps_refl)

lemma reached_later:
  assumes "reached p d L s w t" "runs m t (\<lambda>_. reached p d L t w')"
  shows "runs m t (\<lambda>_. reached p d L s w')"
  using assms(2) by (rule runs_mono) (use assms(1) bkeeps_trans [of s t] in \<open>auto simp: reached_def\<close>)

lemma reached_bwrite:
  assumes "reached p d L s w t" "v_held w b = Some n"
  shows "runs (bwrite b) t (\<lambda>_. reached p d L s (stored n w))"
  using bc.wr_law [of p d L t b n] assms by (intro reached_later [OF assms(1)]) (simp add: reached_def [abs_def])

lemma reached_brelse:
  assumes "reached p d L s w t" "v_held w b = Some n" "v_ref w n = 1 \<Longrightarrow> v_content w n = v_disk w n"
  shows "runs (brelse b) t (\<lambda>_. reached p d L s (given_back b n w))"
  using bc.rel_law [of p d L t b n] assms by (intro reached_later [OF assms(1)]) (simp add: reached_def [abs_def])

definition unpinned :: "u32 \<Rightarrow> bview \<Rightarrow> bview" where
  "unpinned n v = v\<lparr>v_ref := (v_ref v)(n := v_ref v n - 1)\<rparr>"

lemma reached_bunpin:
  assumes "reached p d L s w t" "v_held w b = Some n"
  shows "runs (bunpin b) t (\<lambda>_. reached p d L s (unpinned n w))"
  using pin_law(2) [of p d L t w b n] assms by (intro reached_later [OF assms(1)]) (simp add: reached_def [abs_def] unpinned_def)

lemma reached_put:
  assumes "reached p d L s w t" "v_held w b = Some n"
  shows "reached p d L s (changed n y w) (upd_buf b (\<lambda>x. x\<lparr>b_data := y\<rparr>) t)"
  using bc.put_law [of p d L t b n y] assms bkeeps_trans [of s t] by (auto simp: reached_def)

lemma reached_data: "reached p d L s w t \<Longrightarrow> v_held w b = Some n \<Longrightarrow> b_data (bufs t b) = v_content w n"
  using bc.data_law [of p d L t b n] by (simp add: reached_def)

lemmas view_defs = got_def given_back_def stored_def changed_def unpinned_def

lemma bkeeps_lg: "bkeeps s t \<Longrightarrow> lg t = lg s"
proof -
  assume "bkeeps s t"
  then have "t = s\<lparr>cpus := cpus t, procs := procs t, slocks := slocks t, bufs := bufs t, disk := disk t, dtrace := dtrace t\<rparr>"
    by (simp add: bkeeps_def)
  from arg_cong [OF this, of lg] show ?thesis by simp
qed

lemma reached_lg: "reached p d L s w t \<Longrightarrow> lg t = lg s"
  by (simp add: reached_def bkeeps_lg)

subsection \<open>The steps of the log\<close>

definition log_addr :: "log \<Rightarrow> nat \<Rightarrow> u32" where
  "log_addr l i = log_start l + word_of_nat i + 1"

definition home_addr :: "log \<Rightarrow> nat \<Rightarrow> u32" where
  "home_addr l i = lh_block (log_lh l) i"

definition count :: "log \<Rightarrow> nat" where
  "count l = nat (sint (lh_n (log_lh l)))"

text \<open>Copying the bytes of one block to another and to its place on disk.\<close>

definition move_block :: "u32 \<Rightarrow> u32 \<Rightarrow> bview \<Rightarrow> bview" where
  "move_block src dst v = stored dst (changed dst (copy 0 (v_content v src) 0 BSIZE (v_content v dst)) v)"

definition head_block :: "log \<Rightarrow> bytes \<Rightarrow> bytes" where
  "head_block l x = put_blocks (count l) (lh_block (log_lh l)) (st32 0 (lh_n (log_lh l)) x)"

definition head_written :: "log \<Rightarrow> bview \<Rightarrow> bview" where
  "head_written l v = stored (log_start l) (changed (log_start l) (head_block l (v_content v (log_start l))) v)"

lemma copy_to:
  assumes "reached p d L s w t" "v_held w b = Some n" "v_held w c = Some m"
  shows "reached p d L s (changed n (copy 0 (v_content w m) 0 BSIZE (v_content w n)) w)
    (upd_buf b (\<lambda>x. x\<lparr>b_data := copy 0 (b_data (bufs t c)) 0 BSIZE (b_data x)\<rparr>) t)"
proof -
  have "upd_buf b (\<lambda>x. x\<lparr>b_data := copy 0 (b_data (bufs t c)) 0 BSIZE (b_data x)\<rparr>) t =
      upd_buf b (\<lambda>x. x\<lparr>b_data := copy 0 (v_content w m) 0 BSIZE (v_content w n)\<rparr>) t"
    by (simp add: upd_buf_def reached_data [OF assms(1,2)] reached_data [OF assms(1,3)])
  then show ?thesis using reached_put [OF assms(1,2)] by simp
qed

lemma write_log_block_law:
  assumes now: "reached p (log_dev (lg s)) L s v t" and idl: "idle v" and i: "i < LOGSIZE"
    and a: "a = log_addr (lg s) i" and h: "h = home_addr (lg s) i" and ne: "a \<noteq> h"
    and pinned: "v_ref v h \<noteq> 0" and room: "room 1 v" and nowrap: "v_ref v a + 1 \<noteq> 0"
  shows "runs (write_log_block i) t (\<lambda>_. reached p (log_dev (lg s)) L s (move_block h a v))"
proof -
  let ?d = "log_dev (lg s)"
  have v: "view_of ?d t = v" "binv p ?d L t" using now by (simp_all add: reached_def)
  have "runs (bnd (bread ?d a) (\<lambda>tob. bnd (bread ?d h) (\<lambda>from.
     seqs [modify (\<lambda>s. upd_buf tob (\<lambda>x. x\<lparr>b_data := copy 0 (b_data (bufs s from)) 0 BSIZE (b_data x)\<rparr>) s),
           bwrite tob, brelse from, brelse tob]))) t (\<lambda>_. reached p ?d L s (move_block h a v))"
  proof (rule bc.two_blocks [OF v(2)])
    fix b c u assume u: "binv p ?d L u" "bkeeps t u" "b \<noteq> c" "view_of ?d u = got c h (got b a (view_of ?d t))"
    let ?w = "got c h (got b a v)"
    have 0: "reached p ?d L s ?w u" using u now v bkeeps_trans [of s t u] by (auto simp: reached_def)
    have hb: "v_held ?w b = Some a" "v_held ?w c = Some h" using u(3) by (simp_all add: got_def)
    have cc: "v_content ?w h = v_content v h" "v_content ?w a = v_content v a" by (simp_all add: got_def)
    note 1 = copy_to [OF 0 hb, unfolded cc]
    have fin: "given_back b a (given_back c h (stored a (changed a (copy 0 (v_content v h) 0 BSIZE (v_content v a)) ?w))) = move_block h a v"
      using ne u(3) idl by (cases v) (auto simp: view_defs move_block_def idle_def fun_upd_idem fun_upd_twist)
    show "runs (seqs [modify (\<lambda>s. upd_buf b (\<lambda>x. x\<lparr>b_data := copy 0 (b_data (bufs s c)) 0 BSIZE (b_data x)\<rparr>) s),
           bwrite b, brelse c, brelse b]) u (\<lambda>_. reached p ?d L s (move_block h a v))"
      unfolding seqs.simps sq_ret runs_sq_modify fin [symmetric]
      by (rule runs_sq [OF reached_bwrite [OF 1]], simp add: view_defs u(3), rule runs_sq [OF reached_brelse], assumption,
          simp add: view_defs u(3), simp add: view_defs ne ne [symmetric] pinned, erule reached_brelse)
         (simp_all add: view_defs u(3) u(3) [symmetric] ne ne [symmetric])
  qed (use idl ne pinned room nowrap v in auto)
  then show ?thesis
    using i by (simp add: write_log_block_def reached_lg [OF now] a [unfolded log_addr_def] h [unfolded home_addr_def])
qed

lemma install_block_law:
  assumes now: "reached p (log_dev (lg s)) L s v t" and idl: "idle v" and i: "i < LOGSIZE"
    and a: "a = log_addr (lg s) i" and h: "h = home_addr (lg s) i" and ne: "a \<noteq> h"
    and room: "room 2 v \<or> v_ref v h \<noteq> 0 \<and> room 1 v" and nowrap: "v_ref v a + 1 \<noteq> 0"
    and clean: "v_ref v a = 0 \<Longrightarrow> v_content v a = v_disk v a"
  shows "runs (install_block i) t (\<lambda>_. reached p (log_dev (lg s)) L s (unpinned h (move_block a h v)))"
proof -
  let ?d = "log_dev (lg s)"
  have v: "view_of ?d t = v" "binv p ?d L t" using now by (simp_all add: reached_def)
  have "runs (bnd (bread ?d a) (\<lambda>lbuf. bnd (bread ?d h) (\<lambda>dbuf.
     seqs [modify (\<lambda>s. upd_buf dbuf (\<lambda>x. x\<lparr>b_data := copy 0 (b_data (bufs s lbuf)) 0 BSIZE (b_data x)\<rparr>) s),
           bwrite dbuf, bunpin dbuf, brelse lbuf, brelse dbuf]))) t (\<lambda>_. reached p ?d L s (unpinned h (move_block a h v)))"
  proof (rule bc.two_blocks [OF v(2)])
    fix b c u assume u: "binv p ?d L u" "bkeeps t u" "b \<noteq> c" "view_of ?d u = got c h (got b a (view_of ?d t))"
    let ?w = "got c h (got b a v)"
    have 0: "reached p ?d L s ?w u" using u now v bkeeps_trans [of s t u] by (auto simp: reached_def)
    have hb: "v_held ?w b = Some a" "v_held ?w c = Some h" using u(3) by (simp_all add: got_def)
    have cc: "v_content ?w h = v_content v h" "v_content ?w a = v_content v a" by (simp_all add: got_def)
    note 1 = copy_to [OF 0 hb(2,1), unfolded cc]
    have fin: "given_back c h (given_back b a (unpinned h (stored h (changed h (copy 0 (v_content v a) 0 BSIZE (v_content v h)) ?w)))) =
        unpinned h (move_block a h v)"
      using ne u(3) idl by (cases v) (auto simp: view_defs move_block_def idle_def fun_upd_idem fun_upd_twist)
    show "runs (seqs [modify (\<lambda>s. upd_buf c (\<lambda>x. x\<lparr>b_data := copy 0 (b_data (bufs s b)) 0 BSIZE (b_data x)\<rparr>) s),
           bwrite c, bunpin c, brelse b, brelse c]) u (\<lambda>_. reached p ?d L s (unpinned h (move_block a h v)))"
      unfolding seqs.simps sq_ret runs_sq_modify fin [symmetric]
      by (rule runs_sq [OF reached_bwrite [OF 1]], simp add: view_defs u(3), rule runs_sq [OF reached_bunpin], assumption,
          simp add: view_defs u(3), rule runs_sq [OF reached_brelse], assumption,
          simp add: view_defs u(3), use clean ne in \<open>simp add: view_defs\<close>, erule reached_brelse)
         (simp_all add: view_defs u(3) u(3) [symmetric] ne ne [symmetric])
  qed (use idl ne room nowrap v in auto)
  then show ?thesis
    using i by (simp add: install_block_def reached_lg [OF now] a [unfolded log_addr_def] h [unfolded home_addr_def])
qed

lemma write_head_law:
  assumes now: "reached p (log_dev (lg s)) L s v t" and idl: "idle v" and n: "count (lg s) \<le> LOGSIZE"
    and room: "v_ref v (log_start (lg s)) \<noteq> 0 \<or> room 1 v"
  shows "runs write_head t (\<lambda>_. reached p (log_dev (lg s)) L s (head_written (lg s) v))"
proof -
  let ?d = "log_dev (lg s)" and ?a = "log_start (lg s)" and ?l = "lg s"
  have v: "view_of ?d t = v" "binv p ?d L t" using now by (simp_all add: reached_def)
  have "runs (bnd (bread ?d ?a) (\<lambda>b. seqs [modify (upd_buf b (\<lambda>x. x\<lparr>b_data := head_block ?l (b_data x)\<rparr>)),
                bwrite b, brelse b])) t (\<lambda>_. reached p ?d L s (head_written ?l v))"
  proof (rule bc.one_block [OF v(2)])
    fix b u assume u: "binv p ?d L u" "bkeeps t u" "view_of ?d u = got b ?a (view_of ?d t)"
    let ?w = "got b ?a v"
    have 0: "reached p ?d L s ?w u" using u now v bkeeps_trans [of s t u] by (auto simp: reached_def)
    have hb: "v_held ?w b = Some ?a" by (simp add: got_def)
    let ?y = "head_block ?l (v_content v ?a)"
    have up: "upd_buf b (\<lambda>x. x\<lparr>b_data := head_block ?l (b_data x)\<rparr>) u = upd_buf b (\<lambda>x. x\<lparr>b_data := ?y\<rparr>) u"
      by (simp add: upd_buf_def reached_data [OF 0 hb] got_def)
    note 1 = reached_put [OF 0 hb, of ?y]
    have fin: "given_back b ?a (stored ?a (changed ?a ?y ?w)) = head_written ?l v"
      using idl by (cases v) (auto simp: view_defs head_written_def idle_def fun_upd_idem)
    show "runs (seqs [modify (upd_buf b (\<lambda>x. x\<lparr>b_data := head_block ?l (b_data x)\<rparr>)), bwrite b, brelse b]) u
        (\<lambda>_. reached p ?d L s (head_written ?l v))"
      unfolding seqs.simps sq_ret runs_sq_modify fin [symmetric] up
      by (rule runs_sq [OF reached_bwrite [OF 1]], simp add: view_defs, erule reached_brelse) (simp_all add: view_defs)
  qed (use idl room v in auto)
  then show ?thesis
    using n by (simp add: write_head_def reached_lg [OF now] head_block_def count_def)
qed

subsection \<open>Replacing the header in memory\<close>

lemma upper_upd_log: "upper (upd_log f)"
  by (simp add: upper_defs upd_log_def)

lemma upd_log_fields [simp]:
  "lg (upd_log f s) = f (lg s)" "bufs (upd_log f s) = bufs s" "disk (upd_log f s) = disk s"
  "dtrace (upd_log f s) = dtrace s" "slocks (upd_log f s) = slocks s" "procs (upd_log f s) = procs s"
  by (simp_all add: upd_log_def)

lemma upd_buf_log: "upd_buf b g (upd_log f s) = upd_log f (upd_buf b g s)" "lg (upd_buf b g s) = lg s"
  by (simp_all add: upd_buf_def upd_log_def)

lemma binv_log [simp]: "binv p d L (upd_log f s) = binv p d L s"
  by (simp add: binv_def quiet_upper [OF upper_upd_log])

lemma view_log [simp]: "view_of d (upd_log f s) = view_of d s"
  by (simp add: view_of_def)

text \<open>The in-memory log after its header was read from block \<open>x\<close>.\<close>

definition loaded_log :: "log \<Rightarrow> bytes \<Rightarrow> log" where
  "loaded_log l x = l\<lparr>log_lh := \<lparr>lh_n = hdr_n x,
     lh_block = (\<lambda>i. if i < nat (sint (hdr_n x)) then hdr_block x i else lh_block (log_lh l) i)\<rparr>\<rparr>"

lemma read_head_law:
  assumes inv: "binv p (log_dev (lg s)) L s" and v: "v = view_of (log_dev (lg s)) s" and idl: "idle v"
    and x: "x = v_content v (log_start (lg s))" and n: "nat (sint (hdr_n x)) \<le> LOGSIZE"
    and room: "v_ref v (log_start (lg s)) \<noteq> 0 \<or> room 1 v"
    and clean: "v_ref v (log_start (lg s)) = 0 \<Longrightarrow> x = v_disk v (log_start (lg s))"
  shows "runs read_head s (\<lambda>_ t. binv p (log_dev (lg s)) L t \<and> view_of (log_dev (lg s)) t = v \<and>
    lg t = loaded_log (lg s) x)"
proof -
  let ?d = "log_dev (lg s)" and ?a = "log_start (lg s)"
  let ?f = "\<lambda>l :: log. l\<lparr>log_lh := \<lparr>lh_n = hdr_n x,
      lh_block = (\<lambda>i. if i < nat (sint (hdr_n x)) then hdr_block x i else lh_block (log_lh l) i)\<rparr>\<rparr>"
  have "runs (bnd (bread ?d ?a) (\<lambda>b.
     bnd (gets (\<lambda>s. b_data (bufs s b))) (\<lambda>d.
     let n = nat (sint (hdr_n d)) in
     if LOGSIZE < n then panic ''undefined: log.lh.block out of range''
     else seqs [modify (upd_log (\<lambda>l. l\<lparr>log_lh := \<lparr>lh_n = hdr_n d,
                   lh_block = (\<lambda>i. if i < n then hdr_block d i else lh_block (log_lh l) i)\<rparr>\<rparr>)),
                brelse b]))) s (\<lambda>_ t. binv p ?d L t \<and> view_of ?d t = v \<and> lg t = ?f (lg s))"
  proof (rule bc.one_block [OF inv])
    fix b t assume t: "binv p ?d L t" "bkeeps s t" "view_of ?d t = got b ?a (view_of ?d s)"
    have 0: "reached p ?d L s (got b ?a v) t" using t v by (simp add: reached_def)
    have hb: "v_held (got b ?a v) b = Some ?a" by (simp add: got_def)
    have dt: "b_data (bufs t b) = x" using reached_data [OF 0 hb] by (simp add: x got_def)
    have 1: "reached p ?d L (upd_log ?f t) (got b ?a v) (upd_log ?f t)" using 0 by (simp add: reached_def bkeeps_refl)
    have giv: "given_back b ?a (got b ?a v) = v" using idl by (cases v) (auto simp: view_defs idle_def fun_upd_idem)
    have cl: "v_ref (got b ?a v) ?a = 1 \<Longrightarrow> v_content (got b ?a v) ?a = v_disk (got b ?a v) ?a"
      using clean x by (simp add: got_def)
    have "runs (brelse b) (upd_log ?f t) (\<lambda>_ u. binv p ?d L u \<and> view_of ?d u = v \<and> lg u = ?f (lg s))"
    proof (rule runs_mono [OF reached_brelse [OF 1 hb cl]])
      fix u assume u: "reached p ?d L (upd_log ?f t) (given_back b ?a (got b ?a v)) u"
      have "lg u = ?f (lg s)" using reached_lg [OF u] unfolding upd_log_fields reached_lg [OF 0] .
      with u giv show "binv p ?d L u \<and> view_of ?d u = v \<and> lg u = ?f (lg s)" by (simp add: reached_def)
    qed
    then show "runs (bnd (gets (\<lambda>s. b_data (bufs s b))) (\<lambda>d.
     let n = nat (sint (hdr_n d)) in
     if LOGSIZE < n then panic ''undefined: log.lh.block out of range''
     else seqs [modify (upd_log (\<lambda>l. l\<lparr>log_lh := \<lparr>lh_n = hdr_n d,
                   lh_block = (\<lambda>i. if i < n then hdr_block d i else lh_block (log_lh l) i)\<rparr>\<rparr>)),
                brelse b])) t (\<lambda>_ t. binv p ?d L t \<and> view_of ?d t = v \<and> lg t = ?f (lg s))"
      unfolding runs_bnd_gets dt using n by (simp add: Let_def sq_ret)
  qed (use idl room v in auto)
  then show ?thesis by (simp only: read_head_def runs_bnd_gets loaded_log_def)
qed

subsection \<open>The loops\<close>

text \<open>Moving blocks \<open>src 0\<close>, \<open>src 1\<close>, \dots to \<open>dst 0\<close>, \<open>dst 1\<close>, \dots, one after the other.\<close>

primrec moves :: "(nat \<Rightarrow> u32) \<Rightarrow> (nat \<Rightarrow> u32) \<Rightarrow> nat \<Rightarrow> bview \<Rightarrow> bview" where
  "moves src dst 0 v = v"
| "moves src dst (Suc i) v = move_block (src i) (dst i) (moves src dst i v)"

definition block_copy :: "(nat \<Rightarrow> u32) \<Rightarrow> (nat \<Rightarrow> u32) \<Rightarrow> bview \<Rightarrow> nat \<Rightarrow> bytes" where
  "block_copy src dst v j = copy 0 (v_content v (src j)) 0 BSIZE (v_content v (dst j))"

primrec unref :: "(nat \<Rightarrow> u32) \<Rightarrow> nat \<Rightarrow> (u32 \<Rightarrow> u32) \<Rightarrow> (u32 \<Rightarrow> u32)" where
  "unref h 0 r = r"
| "unref h (Suc i) r = (unref h i r)(h i := unref h i r (h i) - 1)"

lemma moves_frame [simp]:
  "v_ref (moves src dst i v) = v_ref v" "v_held (moves src dst i v) = v_held v"
  by (induction i) (simp_all add: move_block_def view_defs)

lemma moves_out:
  "b \<notin> dst ` {..<i} \<Longrightarrow> v_content (moves src dst i v) b = v_content v b \<and> v_disk (moves src dst i v) b = v_disk v b"
  by (induction i) (auto simp: move_block_def view_defs lessThan_Suc)

lemma moves_in:
  assumes "inj_on dst {..<i}" "src ` {..<i} \<inter> dst ` {..<i} = {}" "j < i"
  shows "v_content (moves src dst i v) (dst j) = block_copy src dst v j \<and> v_disk (moves src dst i v) (dst j) = block_copy src dst v j"
  using assms
proof (induction i)
  case (Suc i)
  have inj: "inj_on dst {..<i}" and out: "dst i \<notin> dst ` {..<i}" and src: "src i \<notin> dst ` {..<i}"
    using Suc.prems(1,2) by (auto simp: lessThan_Suc)
  show ?case
  proof (cases "j = i")
    case True
    then show ?thesis using moves_out [OF out, of src v] moves_out [OF src, of src v] by (simp add: move_block_def view_defs block_copy_def)
  next
    case False
    then have "j < i" "dst j \<noteq> dst i" using Suc.prems(1,3) by (auto simp: inj_on_eq_iff)
    moreover have "src ` {..<i} \<inter> dst ` {..<i} = {}" using Suc.prems(2) by (auto simp: lessThan_Suc)
    ultimately show ?thesis using Suc.IH [OF inj] by (simp add: move_block_def view_defs)
  qed
qed simp

lemma moves_trace:
  assumes "inj_on dst {..<i}" "src ` {..<i} \<inter> dst ` {..<i} = {}"
  shows "v_trace (moves src dst i v) = v_trace v @ map (\<lambda>j. (dst j, block_copy src dst v j)) [0..<i]"
  using assms
proof (induction i)
  case (Suc i)
  have out: "dst i \<notin> dst ` {..<i}" and src: "src i \<notin> dst ` {..<i}"
    using Suc.prems by (auto simp: lessThan_Suc)
  have "inj_on dst {..<i}" "src ` {..<i} \<inter> dst ` {..<i} = {}" using Suc.prems by (auto simp: lessThan_Suc)
  then show ?case using Suc.IH moves_out [OF out, of src v] moves_out [OF src, of src v]
    by (simp add: move_block_def view_defs block_copy_def)
qed simp

lemma unref_out: "b \<notin> h ` {..<i} \<Longrightarrow> unref h i r b = r b"
  by (induction i) (auto simp: lessThan_Suc)

lemma unref_in: "inj_on h {..<i} \<Longrightarrow> j < i \<Longrightarrow> unref h i r (h j) = r (h j) - 1"
proof (induction i)
  case (Suc i)
  have out: "h i \<notin> h ` {..<i}" and "inj_on h {..<i}" using Suc.prems by (auto simp: lessThan_Suc)
  then show ?case using Suc unref_out [OF out, of r] by (cases "j = i") (auto simp: inj_on_eq_iff)
qed simp

abbreviation log_written :: "log \<Rightarrow> nat \<Rightarrow> bview \<Rightarrow> bview" where
  "log_written l \<equiv> moves (home_addr l) (log_addr l)"

definition installed :: "log \<Rightarrow> nat \<Rightarrow> bview \<Rightarrow> bview" where
  "installed l i v = (moves (log_addr l) (home_addr l) i v)\<lparr>v_ref := unref (home_addr l) i (v_ref v)\<rparr>"

lemma installed_0: "installed l 0 v = v"
  by (simp add: installed_def)

lemma installed_Suc: "installed l (Suc i) v = unpinned (home_addr l i) (move_block (log_addr l i) (home_addr l i) (installed l i v))"
  by (simp add: installed_def move_block_def view_defs)

text \<open>
  A log whose header is within bounds, names no block twice and names no block of the log itself.
\<close>

definition log_ok :: "log \<Rightarrow> bool" where
  "log_ok l \<longleftrightarrow> count l \<le> LOGSIZE \<and> inj_on (home_addr l) {..<count l} \<and>
     (\<forall>j < count l. \<forall>k \<le> count l. home_addr l j \<noteq> log_start l + word_of_nat k)"

lemma log_addr_Suc: "log_addr l i = log_start l + word_of_nat (Suc i)"
  by (simp add: log_addr_def)

lemma log_addr_inj: "i \<le> LOGSIZE \<Longrightarrow> j \<le> LOGSIZE \<Longrightarrow> log_addr l i = log_addr l j \<longleftrightarrow> i = j"
  by (simp add: log_addr_def word_of_nat_eq_iff take_bit_eq_mod)

lemma log_addr_start: "i \<le> LOGSIZE \<Longrightarrow> log_addr l i \<noteq> log_start l"
proof
  assume i: "i \<le> LOGSIZE" and "log_addr l i = log_start l"
  then have "word_of_nat (Suc i) = (0 :: u32)" by (simp only: log_addr_Suc add_cancel_left_right)
  then have "unat (word_of_nat (Suc i) :: u32) = 0" by (simp only: unat_0)
  with i show False by (simp add: unat_of_nat del: of_nat_Suc)
qed

lemma log_okD:
  assumes "log_ok l"
  shows "count l \<le> LOGSIZE" "i < count l \<Longrightarrow> j < count l \<Longrightarrow> home_addr l i = home_addr l j \<longleftrightarrow> i = j"
    "i < count l \<Longrightarrow> j < count l \<Longrightarrow> home_addr l i \<noteq> log_addr l j" "i < count l \<Longrightarrow> home_addr l i \<noteq> log_start l"
proof -
  show "count l \<le> LOGSIZE" "i < count l \<Longrightarrow> j < count l \<Longrightarrow> home_addr l i = home_addr l j \<longleftrightarrow> i = j"
    using assms by (auto simp: log_ok_def inj_on_eq_iff)
  show "i < count l \<Longrightarrow> j < count l \<Longrightarrow> home_addr l i \<noteq> log_addr l j"
    using assms Suc_leI [of j "count l"] unfolding log_ok_def log_addr_Suc by blast
  show "i < count l \<Longrightarrow> home_addr l i \<noteq> log_start l"
  proof -
    assume "i < count l"
    then have "home_addr l i \<noteq> log_start l + word_of_nat 0" using assms unfolding log_ok_def by blast
    then show ?thesis by simp
  qed
qed

lemma log_ok_moves:
  assumes "log_ok l" "i \<le> count l"
  shows "inj_on (home_addr l) {..<i}" "inj_on (log_addr l) {..<i}"
    "home_addr l ` {..<i} \<inter> log_addr l ` {..<i} = {}" "log_addr l ` {..<i} \<inter> home_addr l ` {..<i} = {}"
proof -
  show "inj_on (home_addr l) {..<i}" using log_okD(2) [OF assms(1)] assms(2) by (auto simp: inj_on_def)
  show "inj_on (log_addr l) {..<i}"
  proof (rule inj_onI)
    fix x y assume "x \<in> {..<i}" "y \<in> {..<i}" "log_addr l x = log_addr l y"
    then show "x = y" using log_addr_inj [of x y l] assms(2) log_okD(1) [OF assms(1)] by simp
  qed
  show dj: "home_addr l ` {..<i} \<inter> log_addr l ` {..<i} = {}"
  proof -
    have "home_addr l x \<noteq> log_addr l y" if "x < i" "y < i" for x y
      using that assms(2) log_okD(3) [OF assms(1), of x y] by simp
    then show ?thesis by (auto simp: disjoint_iff)
  qed
  then show "log_addr l ` {..<i} \<inter> home_addr l ` {..<i} = {}" by blast
qed

lemma room_mono: "\<forall>m. v_ref w m \<noteq> 0 \<longrightarrow> v_ref v m \<noteq> 0 \<Longrightarrow> room k v \<Longrightarrow> room k w"
proof -
  assume "\<forall>m. v_ref w m \<noteq> 0 \<longrightarrow> v_ref v m \<noteq> 0" and r: "room k v"
  then have "card {m. v_ref w m \<noteq> 0} \<le> card {m. v_ref v m \<noteq> 0}" by (intro card_mono) auto
  with r show ?thesis by (simp add: room_def)
qed

lemma log_ok_out:
  assumes "log_ok l" "i < count l"
  shows "log_addr l i \<notin> home_addr l ` {..<i}" "home_addr l i \<notin> home_addr l ` {..<i}"
proof -
  have "home_addr l j \<noteq> log_addr l i \<and> home_addr l j \<noteq> home_addr l i" if "j < i" for j
    using that assms(2) log_okD(2,3) [OF assms(1), of j i] by simp
  then show "log_addr l i \<notin> home_addr l ` {..<i}" "home_addr l i \<notin> home_addr l ` {..<i}" by force+
qed

lemma install_room:
  assumes "(\<forall>j < n. v_ref v (home_addr l j) \<noteq> 0) \<and> room 1 v \<or> room (Suc n) v" "i < n"
    "home_addr l i \<notin> home_addr l ` {..<i}"
  shows "room 2 (installed l i v) \<or> v_ref (installed l i v) (home_addr l i) \<noteq> 0 \<and> room 1 (installed l i v)"
  using assms(1)
proof
  assume pinned: "(\<forall>j < n. v_ref v (home_addr l j) \<noteq> 0) \<and> room 1 v"
  have "v_ref (installed l i v) m \<noteq> 0 \<longrightarrow> v_ref v m \<noteq> 0" for m
  proof (cases "m \<in> home_addr l ` {..<i}")
    case True
    with assms(2) pinned show ?thesis by auto
  qed (simp add: installed_def unref_out)
  then have "room 1 (installed l i v)" using pinned room_mono [of "installed l i v" v] by blast
  then show ?thesis using pinned assms(2) by (simp add: installed_def unref_out [OF assms(3)])
next
  assume r: "room (Suc n) v"
  let ?A = "{m. v_ref v m \<noteq> 0}" and ?H = "home_addr l ` {..<i}"
  have "{m. v_ref (installed l i v) m \<noteq> 0} \<subseteq> ?A \<union> ?H"
    using unref_out [of _ "home_addr l" i "v_ref v"] by (auto simp: installed_def simp del: lessThan_iff)
  then have "card {m. v_ref (installed l i v) m \<noteq> 0} \<le> card (?A \<union> ?H)" by (intro card_mono) simp_all
  also have "\<dots> \<le> card ?A + card ?H" by (rule card_Un_le)
  also have "\<dots> \<le> card ?A + i" using card_image_le [of "{..<i}" "home_addr l"] by simp
  finally show ?thesis using r assms(2) by (simp add: room_def)
qed

lemma write_log_law:
  assumes now: "reached p (log_dev (lg s)) L s v t" and idl: "idle v" and ok: "log_ok (lg s)"
    and pinned: "\<forall>j < count (lg s). v_ref v (home_addr (lg s) j) \<noteq> 0" and room: "room 1 v"
    and unref: "\<forall>j < count (lg s). v_ref v (log_addr (lg s) j) = 0"
  shows "runs write_log t (\<lambda>_. reached p (log_dev (lg s)) L s (log_written (lg s) (count (lg s)) v))"
proof -
  let ?l = "lg s" and ?d = "log_dev (lg s)"
  have "runs (each_do [0..<count ?l] write_log_block) t (\<lambda>_. reached p ?d L s (log_written ?l (length [0..<count ?l]) v))"
  proof (rule runs_each_do [where I = "\<lambda>i. reached p ?d L s (log_written ?l i v)"])
    fix i u assume i: "i < length [0..<count ?l]" and u: "reached p ?d L s (log_written ?l i v) u"
    have "runs (write_log_block i) u (\<lambda>_. reached p ?d L s (move_block (home_addr ?l i) (log_addr ?l i) (log_written ?l i v)))"
      using i pinned unref room idl log_okD(1) [OF ok] log_okD(3) [OF ok, of i i]
      by (intro write_log_block_law [OF u]) (auto simp: idle_def room_def)
    then show "runs (write_log_block ([0..<count ?l] ! i)) u (\<lambda>_. reached p ?d L s (log_written ?l (Suc i) v))" using i by simp
  qed (use now in simp)
  then show ?thesis by (simp add: write_log_def reached_lg [OF now] count_def)
qed

text \<open>
  Installation needs two buffers for each block, or one where the block is pinned; in the latter case
  it returns buffers, and in the former, as in recovery, every installed block keeps its buffer.
\<close>

lemma install_trans_law:
  assumes now: "reached p (log_dev (lg s)) L s v t" and idl: "idle v" and ok: "log_ok (lg s)"
    and room: "(\<forall>j < count (lg s). v_ref v (home_addr (lg s) j) \<noteq> 0) \<and> room 1 v \<or> room (Suc (count (lg s))) v"
    and unref: "\<forall>j < count (lg s). v_ref v (log_addr (lg s) j) = 0 \<and> v_content v (log_addr (lg s) j) = v_disk v (log_addr (lg s) j)"
  shows "runs install_trans t (\<lambda>_. reached p (log_dev (lg s)) L s (installed (lg s) (count (lg s)) v))"
proof -
  let ?l = "lg s" and ?d = "log_dev (lg s)"
  have "runs (each_do [0..<count ?l] install_block) t (\<lambda>_. reached p ?d L s (installed ?l (length [0..<count ?l]) v))"
  proof (rule runs_each_do [where I = "\<lambda>i. reached p ?d L s (installed ?l i v)"])
    fix i u assume i: "i < length [0..<count ?l]" and u: "reached p ?d L s (installed ?l i v) u"
    let ?w = "installed ?l i v"
    note out = log_ok_out [OF ok, of i]
    have "room 2 ?w \<or> v_ref ?w (home_addr ?l i) \<noteq> 0 \<and> room 1 ?w"
      using install_room [OF room _ out(2)] i by simp
    then have "runs (install_block i) u (\<lambda>_. reached p ?d L s (unpinned (home_addr ?l i) (move_block (log_addr ?l i) (home_addr ?l i) ?w)))"
      using i idl unref log_okD(1) [OF ok] log_okD(3) [OF ok, of i i] moves_out [OF out(1), of "log_addr ?l" v]
      by (intro install_block_law [OF u]) (auto simp: idle_def installed_def unref_out [OF out(1)])
    then show "runs (install_block ([0..<count ?l] ! i)) u (\<lambda>_. reached p ?d L s (installed ?l (Suc i) v))" using i by (simp add: installed_Suc)
  qed (use now in \<open>simp add: installed_0\<close>)
  then show ?thesis by (simp add: install_trans_def reached_lg [OF now] count_def)
qed

subsection \<open>Commit and recovery\<close>

definition cleared :: "log \<Rightarrow> log" where
  "cleared l = l\<lparr>log_lh := (log_lh l)\<lparr>lh_n := 0\<rparr>\<rparr>"

definition commit_ready :: "nat \<Rightarrow> lockid set \<Rightarrow> 'z klog_scheme \<Rightarrow> bool" where
  "commit_ready p L s \<longleftrightarrow> (let l = lg s; v = view_of (log_dev l) s in
     binv p (log_dev l) L s \<and> idle v \<and> log_ok l \<and> 0 < sint (lh_n (log_lh l)) \<and> room 1 v \<and>
     (\<forall>j < count l. v_ref v (home_addr l j) \<noteq> 0) \<and> v_ref v (log_start l) = 0 \<and> (\<forall>j < count l. v_ref v (log_addr l j) = 0))"

definition commit_view :: "log \<Rightarrow> bview \<Rightarrow> bview" where
  "commit_view l v = head_written (cleared l) (installed l (count l) (head_written l (log_written l (count l) v)))"

definition recover_view :: "log \<Rightarrow> bview \<Rightarrow> bview" where
  "recover_view l v = head_written (cleared l) (installed l (count l) v)"

lemma cleared_simps [simp]:
  "count (cleared l) = 0" "log_start (cleared l) = log_start l" "log_dev (cleared l) = log_dev l"
  by (simp_all add: cleared_def count_def)

lemma head_written_frame [simp]:
  "v_ref (head_written l v) = v_ref v" "v_held (head_written l v) = v_held v"
  "b \<noteq> log_start l \<Longrightarrow> v_content (head_written l v) b = v_content v b"
  "b \<noteq> log_start l \<Longrightarrow> v_disk (head_written l v) b = v_disk v b"
  by (simp_all add: head_written_def view_defs)

lemma installed_frame [simp]: "v_held (installed l i v) = v_held v"
  by (simp add: installed_def)

lemma clear_log_law:
  assumes "reached p d L s w t" "\<And>t. binv p d L t \<Longrightarrow> view_of d t = w \<Longrightarrow> lg t = cleared (lg s) \<Longrightarrow> runs m t Q"
  shows "runs (sq clear_log m) t Q"
proof -
  have "upd_log (\<lambda>l. l\<lparr>log_lh := (log_lh l)\<lparr>lh_n := 0\<rparr>\<rparr>) t = upd_log cleared t" by (simp add: upd_log_def cleared_def)
  then show ?thesis
    using assms(1) assms(2) [of "upd_log cleared t"] reached_lg [OF assms(1)] by (simp add: clear_log_def reached_def)
qed

lemma write_head_last:
  assumes "binv p (log_dev (lg s)) L s" "view_of (log_dev (lg s)) s = v" "idle v" "count (lg s) = 0" "v_ref v (log_start (lg s)) \<noteq> 0 \<or> room 1 v"
  shows "runs write_head s (\<lambda>_ t. binv p (log_dev (lg s)) L t \<and> view_of (log_dev (lg s)) t = head_written (lg s) v \<and> lg t = lg s)"
proof (rule runs_mono [OF write_head_law])
  show "reached p (log_dev (lg s)) L s v s" using assms(1,2) by (simp add: reached_def bkeeps_refl)
qed (use assms in \<open>auto simp: reached_def dest: bkeeps_lg\<close>)

lemma commit_law:
  assumes ready: "commit_ready p L s" and v: "v = view_of (log_dev (lg s)) s"
  shows "runs commit s (\<lambda>_ t. binv p (log_dev (lg s)) L t \<and> view_of (log_dev (lg s)) t = commit_view (lg s) v \<and> lg t = cleared (lg s))"
proof -
  let ?l = "lg s" and ?d = "log_dev (lg s)"
  let ?n = "count ?l"
  let ?v1 = "log_written ?l ?n v"
  let ?v2 = "head_written ?l ?v1"
  let ?v3 = "installed ?l ?n ?v2"
  have r: "binv p ?d L s" "idle v" "log_ok ?l" "0 < sint (lh_n (log_lh ?l))" "room 1 v" "\<forall>j < ?n. v_ref v (home_addr ?l j) \<noteq> 0"
      "v_ref v (log_start ?l) = 0" "\<forall>j < ?n. v_ref v (log_addr ?l j) = 0"
    using ready by (auto simp: commit_ready_def Let_def v)
  have 0: "reached p ?d L s v s" using reached_refl [OF r(1)] v by simp
  note w1 = write_log_law [OF 0 r(2,3,6,5,8)]
  have i: "idle ?v1" "idle ?v2" "room 1 ?v1" "room 1 ?v2" "idle ?v3" using r(2,5) by (simp_all add: idle_def room_def)
  have same: "v_content ?v2 (log_addr ?l j) = v_disk ?v2 (log_addr ?l j)" if "j < ?n" for j
    using moves_in [OF log_ok_moves(2,3) [OF r(3) order_refl] that, of v] that log_okD(1) [OF r(3)]
      log_addr_start [of j ?l] by simp
  have 2: "runs install_trans t (\<lambda>_. reached p ?d L s ?v3)" if "reached p ?d L s ?v2 t" for t
    using r(6,8) i(4) same by (intro install_trans_law [OF that i(2) r(3)]) (simp_all add: idle_def)
  have 3: "v_ref ?v3 (log_start ?l) \<noteq> 0 \<or> room 1 ?v3"
  proof -
    have "v_ref ?v3 m \<noteq> 0 \<longrightarrow> v_ref v m \<noteq> 0" for m
    proof (cases "m \<in> home_addr ?l ` {..<?n}")
      case True with r(6) show ?thesis by auto
    qed (simp add: installed_def unref_out)
    then show ?thesis using r(5) room_mono [of ?v3 v] by blast
  qed
  have "runs (seqs [write_log, write_head, install_trans, clear_log, write_head]) s
      (\<lambda>_ t. binv p ?d L t \<and> view_of ?d t = commit_view ?l v \<and> lg t = cleared ?l)"
    unfolding seqs.simps sq_ret
  proof (rule runs_sq [OF w1], rule runs_sq [OF write_head_law], assumption)
    fix t assume t: "reached p ?d L s ?v2 t"
    show "runs (sq install_trans (sq clear_log write_head)) t
        (\<lambda>_ t. binv p ?d L t \<and> view_of ?d t = commit_view ?l v \<and> lg t = cleared ?l)"
    proof (rule runs_sq [OF 2 [OF t]], rule clear_log_law, assumption)
      fix u :: "'a klog_scheme" assume "binv p ?d L u" "view_of ?d u = ?v3" "lg u = cleared ?l"
      then show "runs write_head u (\<lambda>_ t. binv p ?d L t \<and> view_of ?d t = commit_view ?l v \<and> lg t = cleared ?l)"
        using write_head_last [of p u L ?v3] i(5) 3 by (simp add: commit_view_def)
    qed
  qed (use i log_okD(1) [OF r(3)] in auto)
  then show ?thesis using r(4) by (simp add: commit_def whenk_def)
qed

text \<open>A freshly booted cache: no block is referenced or held, and every content is that of the disk.\<close>

definition booted :: "nat \<Rightarrow> u32 \<Rightarrow> lockid set \<Rightarrow> (u32 \<Rightarrow> bytes) \<Rightarrow> 'z kbio_scheme \<Rightarrow> bool" where
  "booted p d L D s \<longleftrightarrow> binv p d L s \<and> idle (view_of d s) \<and> v_ref (view_of d s) = (\<lambda>_. 0) \<and>
     v_content (view_of d s) = D \<and> v_disk (view_of d s) = D"

lemma recover_law:
  assumes boot: "booted p (log_dev (lg s)) L D s" and v: "v = view_of (log_dev (lg s)) s"
    and l: "l = loaded_log (lg s) (D (log_start (lg s)))" and ok: "log_ok l" and n: "count l < NBUF"
  shows "runs recover_from_log s (\<lambda>_ t. binv p (log_dev (lg s)) L t \<and> view_of (log_dev (lg s)) t = recover_view l v \<and> lg t = cleared l)"
proof -
  let ?d = "log_dev (lg s)"
  let ?v1 = "installed l (count l) v"
  have b: "binv p ?d L s" "idle v" "v_ref v = (\<lambda>_. 0)" "v_content v = D" "v_disk v = D"
    using boot by (simp_all add: booted_def v)
  have ld: "log_dev l = ?d" "log_start l = log_start (lg s)" by (simp_all add: l loaded_log_def)
  have rm: "room k v \<longleftrightarrow> k \<le> NBUF" for k by (simp add: room_def b(3))
  have rh: "runs read_head s (\<lambda>_ t. binv p ?d L t \<and> view_of ?d t = v \<and> lg t = l)"
    unfolding l
  proof (rule read_head_law [OF b(1) v b(2)])
    show "nat (sint (hdr_n (D (log_start (lg s))))) \<le> LOGSIZE"
      using log_okD(1) [OF ok] by (simp add: l loaded_log_def count_def)
  qed (simp_all add: b rm)
  have "card {m. v_ref ?v1 m \<noteq> 0} \<le> card (home_addr l ` {..<count l})"
    using unref_out [of _ "home_addr l" "count l" "v_ref v"] by (intro card_mono) (auto simp: installed_def b(3) simp del: lessThan_iff)
  also have "\<dots> \<le> count l" using card_image_le [of "{..<count l}" "home_addr l"] by simp
  finally have r1: "room 1 ?v1" using n by (simp add: room_def)
  have "runs (seqs [read_head, install_trans, clear_log, write_head]) s
    (\<lambda>_ t. binv p ?d L t \<and> view_of ?d t = recover_view l v \<and> lg t = cleared l)"
    unfolding seqs.simps sq_ret
  proof (rule runs_sq [OF rh], elim conjE)
    fix t :: "'a klog_scheme" assume t: "binv p ?d L t" "view_of ?d t = v" "lg t = l"
    have "reached p (log_dev (lg t)) L t v t" using t ld by (simp add: reached_def bkeeps_refl)
    then have 1: "runs install_trans t (\<lambda>_. reached p (log_dev (lg t)) L t (installed (lg t) (count (lg t)) v))"
      using b(2) ok n by (intro install_trans_law) (simp_all add: t(3) rm b(3-5))
    show "runs (sq install_trans (sq clear_log write_head)) t (\<lambda>_ t. binv p ?d L t \<and> view_of ?d t = recover_view l v \<and> lg t = cleared l)"
    proof (rule runs_sq [OF 1], rule clear_log_law, assumption)
      fix u :: "'a klog_scheme" assume u: "binv p (log_dev (lg t)) L u" "view_of (log_dev (lg t)) u = installed (lg t) (count (lg t)) v" "lg u = cleared (lg t)"
      then show "runs write_head u (\<lambda>_ t. binv p ?d L t \<and> view_of ?d t = recover_view l v \<and> lg t = cleared l)"
        using write_head_last [of p u L ?v1] r1 b(2) by (simp add: t(3) ld recover_view_def idle_def)
    qed
  qed
  then show ?thesis by (simp only: recover_from_log_def)
qed

subsection \<open>The header block\<close>

lemma put_blocks_n: "ld32 (put_blocks n f d) 0 = ld32 d 0"
  by (induction n) (simp_all add: bytes_simps)

lemma put_blocks_block: "i < n \<Longrightarrow> ld32 (put_blocks n f d) (4 + 4 * i) = f i"
  by (induction n) (auto simp: bytes_simps less_Suc_eq)

lemma head_block_n: "hdr_n (head_block l x) = lh_n (log_lh l)"
  by (simp add: hdr_n_def head_block_def put_blocks_n bytes_simps)

lemma head_block_block: "i < count l \<Longrightarrow> hdr_block (head_block l x) i = home_addr l i"
  by (simp add: hdr_block_def head_block_def put_blocks_block home_addr_def)

lemma cleared_head: "hdr_n (head_block (cleared l) x) = 0"
  by (simp add: head_block_n) (simp add: cleared_def)

subsection \<open>The disk after a prefix of the writes\<close>

primrec apply_writes :: "(u32 \<Rightarrow> bytes) \<Rightarrow> (u32 \<times> bytes) list \<Rightarrow> (u32 \<Rightarrow> bytes)" where
  "apply_writes D [] = D"
| "apply_writes D (w # ws) = apply_writes (D(fst w := snd w)) ws"

lemma apply_writes_append: "apply_writes D (xs @ ys) = apply_writes (apply_writes D xs) ys"
  by (induction xs arbitrary: D) simp_all

lemma apply_writes_out: "b \<notin> fst ` set ws \<Longrightarrow> apply_writes D ws b = D b"
  by (induction ws arbitrary: D) auto

lemma apply_writes_in: "distinct (map fst ws) \<Longrightarrow> (b, y) \<in> set ws \<Longrightarrow> apply_writes D ws b = y"
proof (induction ws arbitrary: D)
  case (Cons w ws)
  show ?case
  proof (cases "w = (b, y)")
    case True
    then have "b \<notin> fst ` set ws" using Cons.prems(1) by auto
    then show ?thesis using True by (simp add: apply_writes_out)
  qed (use Cons in auto)
qed simp

text \<open>The writes of a commit: the log blocks, the header, the home blocks, the cleared header.\<close>

definition commit_writes :: "log \<Rightarrow> bview \<Rightarrow> (u32 \<times> bytes) list" where
  "commit_writes l v = map (\<lambda>j. (log_addr l j, block_copy (home_addr l) (log_addr l) v j)) [0..<count l] @
     [(log_start l, head_block l (v_content v (log_start l)))] @
     map (\<lambda>j. (home_addr l j, v_content v (home_addr l j))) [0..<count l] @
     [(log_start l, head_block (cleared l) (head_block l (v_content v (log_start l))))]"

lemma head_trace: "v_trace (head_written l v) = v_trace v @ [(log_start l, head_block l (v_content v (log_start l)))]"
  by (simp add: head_written_def view_defs)

lemma copy_copy: "copy 0 (copy 0 x 0 n y) 0 n x = x"
  by (rule ext) (simp add: copy_def)

lemma log_ok_start:
  assumes "log_ok l"
  shows "log_start l \<notin> log_addr l ` {..<count l}" "log_start l \<notin> home_addr l ` {..<count l}"
proof -
  have "log_start l \<noteq> log_addr l j \<and> log_start l \<noteq> home_addr l j" if "j < count l" for j
    using that log_okD(1) [OF assms] log_okD(4) [OF assms that] log_addr_start [of j l] by auto
  then show "log_start l \<notin> log_addr l ` {..<count l}" "log_start l \<notin> home_addr l ` {..<count l}" by force+
qed

lemma commit_trace:
  assumes ok: "log_ok l"
  shows "v_trace (commit_view l v) = v_trace v @ commit_writes l v"
proof -
  let ?n = "count l"
  let ?v1 = "log_written l ?n v"
  let ?v2 = "head_written l ?v1"
  note mv = log_ok_moves [OF ok order_refl]
  note start = log_ok_start [OF ok]
  have home: "block_copy (log_addr l) (home_addr l) ?v2 j = v_content v (home_addr l j)" if j: "j < ?n" for j
  proof -
    have h: "home_addr l j \<notin> log_addr l ` {..<?n}" using mv(3) j by auto
    have ne: "home_addr l j \<noteq> log_start l" "log_addr l j \<noteq> log_start l"
      using log_okD(1) [OF ok] log_okD(4) [OF ok j] log_addr_start [of j l] j by simp_all
    have "v_content ?v2 (home_addr l j) = v_content v (home_addr l j)" using moves_out [OF h] ne by simp
    moreover have "v_content ?v2 (log_addr l j) = block_copy (home_addr l) (log_addr l) v j"
      using moves_in [OF mv(2,3) j] ne by simp
    ultimately show ?thesis by (simp add: block_copy_def copy_copy)
  qed
  have inst: "v_trace (installed l ?n ?v2) = v_trace ?v2 @ map (\<lambda>j. (home_addr l j, v_content v (home_addr l j))) [0..<?n]"
    using moves_trace [OF mv(1,4), of ?v2] home by (simp add: installed_def)
  have c: "v_content (installed l ?n ?v2) (log_start l) = head_block l (v_content v (log_start l))"
    using moves_out [OF start(2), of "log_addr l" ?v2] moves_out [OF start(1), of "home_addr l" v]
    by (simp add: installed_def head_written_def view_defs)
  show ?thesis
    unfolding commit_view_def head_trace inst cleared_simps c
    using moves_trace [OF mv(2,3), of v] moves_out [OF start(1), of "home_addr l" v] by (simp add: commit_writes_def)
qed

text \<open>
  The three phases: before the header is written nothing outside the log has changed; from then on
  the log holds the transaction, whatever has been installed; at the end it has been installed.
\<close>

lemma phase_log:
  assumes "k \<le> count l" "b \<notin> log_addr l ` {..<count l}"
  shows "apply_writes D (take k (commit_writes l v)) b = D b"
proof -
  have "b \<notin> fst ` set (take k (commit_writes l v))"
    using assms by (auto simp: commit_writes_def take_map dest!: in_set_takeD)
  then show ?thesis by (rule apply_writes_out)
qed

lemma phase_install:
  assumes ok: "log_ok l" and k: "count l < k" "k \<le> 2 * count l + 1" and E: "E = apply_writes D (take k (commit_writes l v))"
  shows "E (log_start l) = head_block l (v_content v (log_start l))"
    "j < count l \<Longrightarrow> E (log_addr l j) = block_copy (home_addr l) (log_addr l) v j"
    "b \<notin> log_addr l ` {..<count l} \<Longrightarrow> b \<notin> home_addr l ` {..<count l} \<Longrightarrow> b \<noteq> log_start l \<Longrightarrow> E b = D b"
proof -
  let ?n = "count l"
  let ?A = "map (\<lambda>j. (log_addr l j, block_copy (home_addr l) (log_addr l) v j)) [0..<?n] @
     [(log_start l, head_block l (v_content v (log_start l)))]"
  let ?I = "take (k - (?n + 1)) (map (\<lambda>j. (home_addr l j, v_content v (home_addr l j))) [0..<?n])"
  have "take k (commit_writes l v) = ?A @ ?I" using k by (simp add: commit_writes_def take_Cons')
  then have E': "E = apply_writes (apply_writes D ?A) ?I" by (simp only: E apply_writes_append)
  note start = log_ok_start [OF ok] and mv = log_ok_moves [OF ok order_refl]
  have I: "fst ` set ?I \<subseteq> home_addr l ` {..<?n}" by (auto dest!: in_set_takeD)
  have dA: "distinct (map fst ?A)" using mv(2) start(1) by (auto simp: distinct_map comp_def atLeast0LessThan)
  have out: "b \<notin> home_addr l ` {..<?n} \<Longrightarrow> E b = apply_writes D ?A b" for b
    unfolding E' using I by (intro apply_writes_out) blast
  show "E (log_start l) = head_block l (v_content v (log_start l))"
    unfolding out [OF start(2)] by (rule apply_writes_in [OF dA]) simp
  show "E (log_addr l j) = block_copy (home_addr l) (log_addr l) v j" if "j < ?n"
  proof -
    have "log_addr l j \<notin> home_addr l ` {..<?n}" using mv(4) that by auto
    from out [OF this] show ?thesis using that apply_writes_in [OF dA] by simp
  qed
  show "E b = D b" if b: "b \<notin> log_addr l ` {..<?n}" "b \<notin> home_addr l ` {..<?n}" "b \<noteq> log_start l"
    unfolding out [OF b(2)] using b(1,3) by (intro apply_writes_out) auto
qed

lemma phase_done:
  assumes ok: "log_ok l" and E: "E = apply_writes D (commit_writes l v)"
  shows "hdr_n (E (log_start l)) = 0" "j < count l \<Longrightarrow> E (home_addr l j) = v_content v (home_addr l j)"
    "b \<notin> log_addr l ` {..<count l} \<Longrightarrow> b \<notin> home_addr l ` {..<count l} \<Longrightarrow> b \<noteq> log_start l \<Longrightarrow> E b = D b"
proof -
  let ?n = "count l"
  let ?I = "map (\<lambda>j. (home_addr l j, v_content v (home_addr l j))) [0..<?n]"
  let ?T = "?I @ [(log_start l, head_block (cleared l) (head_block l (v_content v (log_start l))))]"
  let ?A = "map (\<lambda>j. (log_addr l j, block_copy (home_addr l) (log_addr l) v j)) [0..<?n] @
     [(log_start l, head_block l (v_content v (log_start l)))]"
  have "commit_writes l v = ?A @ ?T" by (simp add: commit_writes_def)
  then have E': "E = apply_writes (apply_writes D ?A) ?T" by (simp only: E apply_writes_append)
  note start = log_ok_start [OF ok] and mv = log_ok_moves [OF ok order_refl]
  have dT: "distinct (map fst ?T)" using mv(1) start(2) by (auto simp: distinct_map comp_def atLeast0LessThan)
  have "E (log_start l) = head_block (cleared l) (head_block l (v_content v (log_start l)))"
    unfolding E' by (rule apply_writes_in [OF dT]) simp
  then show "hdr_n (E (log_start l)) = 0" by (simp add: cleared_head)
  show "E (home_addr l j) = v_content v (home_addr l j)" if "j < ?n"
    unfolding E' using that by (intro apply_writes_in [OF dT]) simp
  show "E b = D b" if b: "b \<notin> log_addr l ` {..<?n}" "b \<notin> home_addr l ` {..<?n}" "b \<noteq> log_start l"
    unfolding E using b by (intro apply_writes_out) (auto simp: commit_writes_def)
qed

subsection \<open>What recovery makes of a disk\<close>

text \<open>The disk that recovery leaves, outside the log.\<close>

lemma recover_disk:
  assumes ok: "log_ok l" and v: "v_content v = E" "v_disk v = E"
  shows "hdr_n (v_disk (recover_view l v) (log_start l)) = 0"
    "b \<noteq> log_start l \<Longrightarrow> v_content (recover_view l v) b = v_disk (recover_view l v) b"
    "b \<noteq> log_start l \<Longrightarrow> b \<notin> home_addr l ` {..<count l} \<Longrightarrow> v_disk (recover_view l v) b = E b"
    "j < count l \<Longrightarrow> i < BSIZE \<Longrightarrow> v_disk (recover_view l v) (home_addr l j) i = E (log_addr l j) i"
proof -
  let ?n = "count l"
  let ?m = "moves (log_addr l) (home_addr l) ?n v"
  note mv = log_ok_moves [OF ok order_refl]
  show "hdr_n (v_disk (recover_view l v) (log_start l)) = 0"
    by (simp add: recover_view_def head_written_def view_defs cleared_head)
  have d: "b \<noteq> log_start l \<Longrightarrow> v_disk (recover_view l v) b = v_disk ?m b \<and> v_content (recover_view l v) b = v_content ?m b" for b
    by (simp add: recover_view_def installed_def)
  show "v_content (recover_view l v) b = v_disk (recover_view l v) b" if b: "b \<noteq> log_start l"
  proof (cases "b \<in> home_addr l ` {..<?n}")
    case True
    then obtain j where "j < ?n" "b = home_addr l j" by auto
    then show ?thesis using moves_in [OF mv(1,4), of j v] d [OF b] by simp
  next
    case False
    from moves_out [OF this, of "log_addr l" v] show ?thesis using d [OF b] by (simp add: v)
  qed
  show "v_disk (recover_view l v) b = E b" if b: "b \<noteq> log_start l" "b \<notin> home_addr l ` {..<?n}"
    using moves_out [OF b(2), of "log_addr l" v] d [OF b(1)] by (simp add: v)
  show "v_disk (recover_view l v) (home_addr l j) i = E (log_addr l j) i" if j: "j < ?n" "i < BSIZE"
    using moves_in [OF mv(1,4) j(1), of v] d [OF log_okD(4) [OF ok j(1)]] j(2) by (simp add: block_copy_def copy_def v)
qed

lemma log_ok_cong:
  "log_ok l \<Longrightarrow> log_start l' = log_start l \<Longrightarrow> count l' = count l \<Longrightarrow> (\<And>j. j < count l \<Longrightarrow> home_addr l' j = home_addr l j) \<Longrightarrow> log_ok l'"
  unfolding log_ok_def inj_on_def by simp

lemma log_ok_empty: "count l = 0 \<Longrightarrow> log_ok l"
  by (simp add: log_ok_def)

lemma log_addr_cong: "log_start l' = log_start l \<Longrightarrow> log_addr l' = log_addr l"
  by (rule ext) (simp add: log_addr_def)

text \<open>What a committed transaction makes of the disk.\<close>

definition transacted :: "log \<Rightarrow> bview \<Rightarrow> u32 \<Rightarrow> bytes" where
  "transacted l v b = (if b \<in> home_addr l ` {..<count l} then v_content v b else v_disk v b)"

lemma recovered:
  assumes ok: "log_ok l" and empty: "hdr_n (v_disk v (log_start l)) = 0"
    and k: "k \<le> length (commit_writes l v)" and E: "E = apply_writes (v_disk v) (take k (commit_writes l v))"
    and l': "log_start l0 = log_start l" "l' = loaded_log l0 (E (log_start l))"
    and w: "v_content w = E" "v_disk w = E" and i: "i < BSIZE" and b: "b \<notin> log_addr l ` {..<count l}" "b \<noteq> log_start l"
  shows "log_ok l'" "count l' \<le> count l"
    "v_disk (recover_view l' w) b i = (if k \<le> count l then v_disk v else transacted l v) b i"
proof -
  let ?n = "count l"
  have st: "log_start l' = log_start l" by (simp add: l' loaded_log_def)
  note start = log_ok_start [OF ok]
  have none: "log_ok l' \<and> count l' \<le> ?n \<and> v_disk (recover_view l' w) b = E b" if "hdr_n (E (log_start l)) = 0"
  proof -
    have c: "count l' = 0" using that by (simp add: l' loaded_log_def count_def)
    then show ?thesis using recover_disk(3) [OF log_ok_empty [OF c] w, of b] b(2) st by (simp add: log_ok_empty)
  qed
  have "log_ok l' \<and> count l' \<le> ?n \<and> v_disk (recover_view l' w) b i = (if k \<le> ?n then v_disk v else transacted l v) b i"
  proof -
    consider "k \<le> ?n" | "?n < k" "k \<le> 2 * ?n + 1" | "k = length (commit_writes l v)" "?n < k"
      using k by (force simp: commit_writes_def)
    then show ?thesis
    proof cases
      case 1
      have "hdr_n (E (log_start l)) = 0" using phase_log [OF 1 start(1)] empty by (simp add: E)
      from none [OF this] show ?thesis using 1 phase_log [OF 1 b(1), of "v_disk v" v] by (simp add: E)
    next
      case 3
      note E' = E [unfolded 3(1) take_all_iff [THEN iffD2, OF order_refl]]
      note fin = phase_done [OF ok E']
      have "E b = transacted l v b" using fin(2,3) b by (auto simp: transacted_def)
      then show ?thesis using none [OF fin(1)] 3 by simp
    next
      case 2
      note inst = phase_install [OF ok 2 E]
      have c: "count l' = ?n" by (simp add: l' loaded_log_def count_def inst(1) head_block_n)
      have h: "home_addr l' j = home_addr l j" if "j < ?n" for j
        using that head_block_block [OF that, of "v_content v (log_start l)"]
        by (simp add: l' loaded_log_def inst(1) head_block_n home_addr_def count_def)
      have hs: "home_addr l' ` {..<?n} = home_addr l ` {..<?n}" using h by force
      have ok': "log_ok l'" by (rule log_ok_cong [OF ok st c h])
      note rd = recover_disk [OF ok' w, unfolded c hs st log_addr_cong [OF st]]
      have "v_disk (recover_view l' w) b i = transacted l v b i"
      proof (cases "b \<in> home_addr l ` {..<?n}")
        case True
        then obtain j where j: "j < ?n" "b = home_addr l j" by auto
        then show ?thesis using rd(4) [OF j(1) i] h [OF j(1)] i True
          by (simp add: inst(2) [OF j(1)] transacted_def block_copy_def copy_def)
      next
        case False
        then show ?thesis using rd(3) [OF b(2) False] inst(3) [OF b(1) False b(2)] by (simp add: transacted_def)
      qed
      then show ?thesis using ok' c 2(1) by simp
    qed
  qed
  then show "log_ok l'" "count l' \<le> ?n"
    "v_disk (recover_view l' w) b i = (if k \<le> ?n then v_disk v else transacted l v) b i" by blast+
qed

subsection \<open>Recording a block\<close>

lemma log_slot_find: "log_slot i n blk x = (case find (\<lambda>j. blk j = x) [i..<i + n] of Some j \<Rightarrow> j | None \<Rightarrow> i + n)"
proof (induction n arbitrary: i)
  case (Suc n)
  have "[i..<i + Suc n] = i # [Suc i..<Suc i + n]" by (simp add: upt_conv_Cons del: upt_Suc)
  then show ?case using Suc.IH [of "Suc i"] by (simp split: option.split del: upt_Suc)
qed simp

lemma log_slot_cases:
  shows "\<exists>j < n. blk j = x \<Longrightarrow> log_slot 0 n blk x < n \<and> blk (log_slot 0 n blk x) = x"
    "\<not> (\<exists>j < n. blk j = x) \<Longrightarrow> log_slot 0 n blk x = n"
proof -
  show "log_slot 0 n blk x < n \<and> blk (log_slot 0 n blk x) = x" if "\<exists>j < n. blk j = x"
  proof (cases "find (\<lambda>j. blk j = x) [0..<n]")
    case None
    then show ?thesis using that by (auto simp: find_None_iff)
  next
    case (Some j)
    then show ?thesis using find_SomeD [OF Some] by (simp add: log_slot_find)
  qed
  show "log_slot 0 n blk x = n" if "\<not> (\<exists>j < n. blk j = x)"
  proof -
    have "find (\<lambda>j. blk j = x) [0..<n] = None" using that by (auto simp: find_None_iff)
    then show ?thesis by (simp add: log_slot_find)
  qed
qed

text \<open>Whether a block is in the log, and the log with a block added.\<close>

definition in_log :: "log \<Rightarrow> u32 \<Rightarrow> bool" where
  "in_log l n \<longleftrightarrow> (\<exists>j < count l. home_addr l j = n)"

definition log_add :: "log \<Rightarrow> u32 \<Rightarrow> log" where
  "log_add l n = (if in_log l n then l
     else l\<lparr>log_lh := \<lparr>lh_n = lh_n (log_lh l) + 1, lh_block = (lh_block (log_lh l))(count l := n)\<rparr>\<rparr>)"

text \<open>What \<^verbatim>\<open>log_write\<close> leaves alone.\<close>

definition log_kept :: "'z klog_scheme \<Rightarrow> 'z klog_scheme \<Rightarrow> bool" where
  "log_kept s t \<longleftrightarrow> t = s\<lparr>cpus := cpus t, bufs := bufs t, lg := lg t\<rparr>"

lemma log_write_frame:
  assumes inv: "binv p d L s" and log: "L_log \<notin> L" and v: "v = view_of d s" and h: "v_held v b = Some n"
    and space: "sint (lh_n (log_lh (lg s))) < int LOGSIZE" "sint (lh_n (log_lh (lg s))) < sint (log_size (lg s)) - 1"
    and trans: "1 \<le> log_outstanding (lg s)"
  shows "runs (log_write b) s (\<lambda>_ t. binv p d L t \<and> lg t = log_add (lg s) n \<and>
    view_of d t = (if in_log (lg s) n then v else v\<lparr>v_ref := (v_ref v)(n := v_ref v n + 1)\<rparr>) \<and>
    log_kept s t)"
proof -
  let ?l = "lg s"
  define i where "i = log_slot 0 (count ?l) (lh_block (log_lh ?l)) n"
  note hb = held_buffer [OF inv h [unfolded v]]
  note q = binvD(1) [OF inv]
  have rdy: "lock_ready L_log s" "lock_ready L_bcache (acquired L_log s)" "hart_ok s"
    using q log quietD(1) [OF quiet_acquired [OF q log]] by (auto simp: quiet_def free_except_def lock_ready_def)
  let ?g1 = "upd_log (\<lambda>l. l\<lparr>log_lh := (log_lh l)\<lparr>lh_block := (lh_block (log_lh l))(i := n)\<rparr>\<rparr>)"
  let ?g2 = "upd_buf b (\<lambda>x. x\<lparr>b_refcnt := b_refcnt x + 1\<rparr>)"
  let ?g3 = "upd_log (\<lambda>l. l\<lparr>log_lh := (log_lh l)\<lparr>lh_n := lh_n (log_lh l) + 1\<rparr>\<rparr>)"
  let ?a = "acquired L_log s"
  have up: "upper (\<lambda>s. ?g3 (?g2 (?g1 s)))"
    by (rule upper_comp [OF upper_upd_log upper_comp [OF upper_upd_buf upper_upd_log]])
  have pin: "bpin b es (?g1 ?a) = Ret () es (?g2 (?g1 ?a))" for es
    using section_run [OF _ upper_upd_buf, of L_bcache "?g1 ?a"] rdy
    by (simp add: bpin_def upper_simps [OF upper_upd_log] lock_ready_def del: seqs.simps)
  have nl: "nat (sint (lh_n (log_lh (lg s)))) = count (lg s)" by (simp add: count_def)
  have run: "log_write b es s = Ret () es (if i = count ?l then ?g3 (?g2 (?g1 (touch s))) else ?g1 (touch s))" for es
    using space trans release_upper [OF rdy(1) up] release_upper [OF rdy(1) upper_upd_log] pin
    by (cases "i = count ?l")
      (simp_all add: log_write_def km_simps acquire_ready [OF rdy(1)] whenk_def hb(2) nl i_def [symmetric])
  have frame: "log_kept s (touch s)" "log_kept s (?g3 (?g1 (?g2 (touch s))))"
    by (simp_all add: log_kept_def touch_def upd_mycpu_def upd_log_def upd_buf_def)
  show ?thesis
  proof (cases "in_log ?l n")
    case True
    then have i: "i < count ?l" "lh_block (log_lh ?l) i = n"
      using log_slot_cases(1) [of "count ?l" "lh_block (log_lh ?l)" n] by (auto simp: in_log_def home_addr_def i_def)
    then have g1: "?g1 (touch s) = touch s"
      by (simp add: upd_log_def fun_upd_idem [of "lh_block (log_lh ?l)" i n])
    show ?thesis
      using True i inv by (simp add: runs_def run g1 v log_add_def frame)
  next
    case False
    then have i: "i = count ?l"
      using log_slot_cases(2) [of "count ?l" "lh_block (log_lh ?l)" n] by (auto simp: in_log_def home_addr_def i_def)
    have lt: "lg (?g3 (?g1 (?g2 (touch s)))) = log_add ?l n"
      using False by (simp add: log_add_def i upd_buf_log)
    have "runs (bpin b) s (\<lambda>_ t. binv p d L t \<and> bkeeps s t \<and> view_of d t = v\<lparr>v_ref := (v_ref v)(n := v_ref v n + 1)\<rparr>)"
      by (rule pin_law(1) [OF inv v h])
    moreover have "bpin b es s = Ret () es (?g2 (touch s))" for es
      unfolding bpin_def by (rule section_run [OF quietD(1) [OF q] upper_upd_buf])
    ultimately have "binv p d L (?g2 (touch s)) \<and> view_of d (?g2 (touch s)) = v\<lparr>v_ref := (v_ref v)(n := v_ref v n + 1)\<rparr>"
      by (simp add: runs_def)
    then show ?thesis
      using False lt frame(2) by (simp add: runs_def run i upd_buf_log)
  qed
qed

lemma log_write_law:
  assumes inv: "binv p d L s" and log: "L_log \<notin> L" and v: "v = view_of d s" and h: "v_held v b = Some n"
    and space: "sint (lh_n (log_lh (lg s))) < int LOGSIZE" "sint (lh_n (log_lh (lg s))) < sint (log_size (lg s)) - 1"
    and trans: "1 \<le> log_outstanding (lg s)"
  shows "runs (log_write b) s (\<lambda>_ t. binv p d L t \<and> lg t = log_add (lg s) n \<and>
    view_of d t = (if in_log (lg s) n then v else v\<lparr>v_ref := (v_ref v)(n := v_ref v n + 1)\<rparr>))"
  by (rule runs_mono [OF log_write_frame [OF assms]]) blast

subsection \<open>A transaction on an empty disk\<close>

text \<open>
  A log that starts at block 2, in the transaction that has changed block 50 to sevens and recorded it.
\<close>

definition new_log :: log where
  "new_log = \<lparr>log_start = 2, log_size = 30, log_outstanding = 1, log_committing = False, log_dev = 1,
     log_lh = \<lparr>lh_n = 0, lh_block = (\<lambda>_. 0)\<rparr>\<rparr>"

lemma boot_state: "\<exists>t :: klog. booted 0 1 {} D t \<and> lg t = l"
proof -
  obtain t :: klog where t: "binv 0 1 {} t" "idle (view_of 1 t)" "v_ref (view_of 1 t) = (\<lambda>_. 0)"
     "v_content (view_of 1 t) = D" "v_disk (view_of 1 t) = D"
    using bio_state_init [of D "klog_ext l ()"] unfolding runs_def by (elim allE [of _ "[]"]) blast
  then show ?thesis by (intro exI [of _ "upd_log (\<lambda>_. l) t"]) (simp add: booted_def)
qed

lemma new_log_simps [simp]:
  "count new_log = 0" "log_dev new_log = 1" "log_start new_log = 2" "log_size new_log = 30"
  "log_outstanding new_log = 1" "lh_n (log_lh new_log) = 0"
  by (simp_all add: new_log_def count_def)

lemma one_logged [simp]:
  "count (log_add new_log 50) = 1" "log_dev (log_add new_log 50) = 1" "log_start (log_add new_log 50) = 2"
  "home_addr (log_add new_log 50) 0 = 50" "log_addr (log_add new_log 50) 0 = 3" "log_ok (log_add new_log 50)"
  "lh_n (log_lh (log_add new_log 50)) = 1"
proof -
  show 1: "count (log_add new_log 50) = 1" "log_dev (log_add new_log 50) = 1" "log_start (log_add new_log 50) = 2"
    "home_addr (log_add new_log 50) 0 = 50" "log_addr (log_add new_log 50) 0 = 3" "lh_n (log_lh (log_add new_log 50)) = 1"
    by (simp_all add: log_add_def in_log_def) (simp_all add: new_log_def count_def home_addr_def log_addr_def)
  show "log_ok (log_add new_log 50)"
    unfolding log_ok_def 1 inj_on_def by (auto simp: 1 le_Suc_eq less_Suc_eq)
qed

lemma example_transaction:
  "\<exists>s :: klog. commit_ready 0 {} s \<and> lg s = log_add new_log 50 \<and> v_disk (view_of 1 s) = (\<lambda>_ _. 0) \<and>
     v_content (view_of 1 s) = (\<lambda>_ _. 0)(50 := (\<lambda>_. 7))"
proof -
  obtain t :: klog where t: "booted 0 1 {} (\<lambda>_ _. 0) t" "lg t = new_log" using boot_state by blast
  let ?v = "view_of 1 t"
  have v: "binv 0 1 {} t" "idle ?v" "v_ref ?v = (\<lambda>_. 0)" "v_content ?v = (\<lambda>_ _. 0)" "v_disk ?v = (\<lambda>_ _. 0)"
    using t(1) by (simp_all add: booted_def)
  have "runs (bnd (bread 1 50) (\<lambda>b. seqs [modify (upd_buf b (\<lambda>x. x\<lparr>b_data := (\<lambda>_. 7)\<rparr>)), log_write b, brelse b])) t
    (\<lambda>_ u. binv 0 1 {} u \<and> lg u = log_add new_log 50 \<and>
       view_of 1 u = ?v\<lparr>v_content := (\<lambda>_ _. 0)(50 := (\<lambda>_. 7)), v_ref := (\<lambda>_. 0)(50 := 1)\<rparr>)"
  proof (rule bc.one_block [OF v(1,2)])
    show "v_ref ?v 50 \<noteq> 0 \<or> room 1 ?v" by (simp add: room_def v)
    fix b u assume u: "binv 0 1 {} u" "bkeeps t u" "view_of 1 u = got b 50 ?v"
    let ?x = "upd_buf b (\<lambda>x. x\<lparr>b_data := (\<lambda>_. 7)\<rparr>) u"
    have hb: "v_held (view_of 1 u) b = Some 50" by (simp add: u(3) got_def)
    note x = bc.put_law [OF u(1) hb, of "\<lambda>_. 7"]
    have lx: "lg ?x = new_log" using bkeeps_lg [OF u(2)] t(2) by (simp add: upd_buf_log)
    have vx: "view_of 1 ?x = ?v\<lparr>v_content := (\<lambda>_ _. 0)(50 := (\<lambda>_. 7)), v_ref := (\<lambda>_. 0)(50 := 1), v_held := (\<lambda>_. None)(b := Some 50)\<rparr>"
      using x v(2) by (simp add: u(3) got_def changed_def v(3,4) idle_def)
    have lw: "runs (log_write b) ?x (\<lambda>_ y. binv 0 1 {} y \<and> lg y = log_add (lg ?x) 50 \<and>
        view_of 1 y = (if in_log (lg ?x) 50 then view_of 1 ?x else (view_of 1 ?x)\<lparr>v_ref := (v_ref (view_of 1 ?x))(50 := v_ref (view_of 1 ?x) 50 + 1)\<rparr>))"
      by (rule log_write_law [OF conjunct1 [OF x]]) (simp_all add: lx vx)
    show "runs (seqs [modify (upd_buf b (\<lambda>x. x\<lparr>b_data := (\<lambda>_. 7)\<rparr>)), log_write b, brelse b]) u
      (\<lambda>_ u. binv 0 1 {} u \<and> lg u = log_add new_log 50 \<and>
       view_of 1 u = ?v\<lparr>v_content := (\<lambda>_ _. 0)(50 := (\<lambda>_. 7)), v_ref := (\<lambda>_. 0)(50 := 1)\<rparr>)"
      unfolding seqs.simps sq_ret runs_sq_modify
    proof (rule runs_sq [OF lw])
      fix y :: klog assume y: "binv 0 1 {} y \<and> lg y = log_add (lg ?x) 50 \<and>
        view_of 1 y = (if in_log (lg ?x) 50 then view_of 1 ?x else (view_of 1 ?x)\<lparr>v_ref := (v_ref (view_of 1 ?x))(50 := v_ref (view_of 1 ?x) 50 + 1)\<rparr>)"
      have vy: "view_of 1 y = ?v\<lparr>v_content := (\<lambda>_ _. 0)(50 := (\<lambda>_. 7)), v_ref := (\<lambda>_. 0)(50 := 2), v_held := (\<lambda>_. None)(b := Some 50)\<rparr>"
        using y by (simp add: lx vx in_log_def)
      have "reached 0 1 {} y (view_of 1 y) y" using y by (simp add: reached_def bkeeps_refl)
      from reached_brelse [OF this, of b 50]
      have "runs (brelse b) y (\<lambda>_. reached 0 1 {} y (given_back b 50 (view_of 1 y)))" by (simp add: vy)
      moreover have "given_back b 50 (view_of 1 y) = ?v\<lparr>v_content := (\<lambda>_ _. 0)(50 := (\<lambda>_. 7)), v_ref := (\<lambda>_. 0)(50 := 1)\<rparr>"
        using v(2) by (cases ?v) (simp add: vy given_back_def idle_def)
      ultimately show "runs (brelse b) y (\<lambda>_ u. binv 0 1 {} u \<and> lg u = log_add new_log 50 \<and>
          view_of 1 u = ?v\<lparr>v_content := (\<lambda>_ _. 0)(50 := (\<lambda>_. 7)), v_ref := (\<lambda>_. 0)(50 := 1)\<rparr>)"
        using y lx by (elim runs_mono) (auto simp: reached_def dest: bkeeps_lg)
    qed
  qed
  then obtain s :: klog where s: "binv 0 1 {} s" "lg s = log_add new_log 50"
      "view_of 1 s = ?v\<lparr>v_content := (\<lambda>_ _. 0)(50 := (\<lambda>_. 7)), v_ref := (\<lambda>_. 0)(50 := 1)\<rparr>"
    unfolding runs_def by (elim allE [of _ "[]"]) blast
  have "commit_ready 0 {} s"
    using s(1) v(2) by (auto simp: commit_ready_def Let_def s(2,3) idle_def room_def)
  then show ?thesis using s v by (intro exI [of _ s]) simp
qed

subsection \<open>Properties\<close>

lemma ld_zero: "ld k (\<lambda>_. 0) a = 0"
  by (induction k arbitrary: a) simp_all

lemma ready_count:
  assumes "commit_ready p L s"
  shows "count (lg s) < NBUF"
proof -
  let ?l = "lg s" and ?v = "view_of (log_dev (lg s)) s"
  have ok: "log_ok ?l" and r: "room 1 ?v" and pin: "\<forall>j < count ?l. v_ref ?v (home_addr ?l j) \<noteq> 0"
    using assms by (auto simp: commit_ready_def Let_def)
  have "card (home_addr ?l ` {..<count ?l}) = count ?l"
    by (subst card_image [OF log_ok_moves(1) [OF ok order_refl]]) simp
  moreover have "home_addr ?l ` {..<count ?l} \<subseteq> {m. v_ref ?v m \<noteq> 0}" using pin by auto
  then have "card (home_addr ?l ` {..<count ?l}) \<le> card {m. v_ref ?v m \<noteq> 0}" by (intro card_mono) simp_all
  ultimately show ?thesis using r by (simp add: room_def)
qed

text \<open>
  C20: crash safety. A commit writes the disk in the order of \<open>commit_writes\<close>: log, header, home
  blocks, cleared header. If the machine stops after any number \<open>k\<close> of these writes and boots again,
  recovery ends with an empty log and with a disk that outside the log is the disk before the
  transaction, if the header had not been written, and the disk with all blocks of the transaction
  otherwise.
\<close>

theorem commit_crash_safe:
  assumes ready: "commit_ready p L s" and l: "l = lg s" and v: "v = view_of (log_dev l) s"
    and empty: "hdr_n (v_disk v (log_start l)) = 0" and k: "k \<le> length (commit_writes l v)"
    and boot: "booted q (log_dev l) M (apply_writes (v_disk v) (take k (commit_writes l v))) r"
    and same: "log_start (lg r) = log_start l" "log_dev (lg r) = log_dev l"
  shows "runs commit s (\<lambda>_ t. v_trace (view_of (log_dev l) t) = v_trace v @ commit_writes l v) \<and>
    runs recover_from_log r (\<lambda>_ t. let w = view_of (log_dev l) t in
      hdr_n (v_disk w (log_start l)) = 0 \<and>
      (\<forall>b i. i < BSIZE \<and> b \<noteq> log_start l \<and> b \<notin> log_addr l ` {..<count l} \<longrightarrow>
         v_content w b = v_disk w b \<and> v_disk w b i = (if k \<le> count l then v_disk v else transacted l v) b i))"
proof
  have ok: "log_ok l" using ready by (simp add: commit_ready_def Let_def l)
  show "runs commit s (\<lambda>_ t. v_trace (view_of (log_dev l) t) = v_trace v @ commit_writes l v)"
    using commit_law [OF ready refl] commit_trace [OF ok] by (elim runs_mono) (simp add: l v)
  define E where "E = apply_writes (v_disk v) (take k (commit_writes l v))"
  define l' where "l' = loaded_log (lg r) (E (log_start l))"
  let ?w = "view_of (log_dev l) r"
  have w: "v_content ?w = E" "v_disk ?w = E" using boot by (simp_all add: booted_def E_def)
  note rec = recovered [OF ok empty k E_def same(1) l'_def w]
  obtain b0 where b0: "b0 \<notin> log_addr l ` {..<count l}" "b0 \<noteq> log_start l"
  proof -
    have "card (insert (log_start l) (log_addr l ` {..<count l})) \<le> Suc (card (log_addr l ` {..<count l}))"
      by (rule card_insert_le_m1) simp_all
    also have "\<dots> \<le> Suc (count l)" using card_image_le [of "{..<count l}" "log_addr l"] by simp
    also have "\<dots> < card (UNIV :: u32 set)" using log_okD(1) [OF ok] by (simp add: card_word)
    finally have "insert (log_start l) (log_addr l ` {..<count l}) \<noteq> UNIV" by auto
    then show thesis using that by blast
  qed
  have ok': "log_ok l'" and c: "count l' < NBUF"
    using rec(1,2) [of 0, OF _ b0] ready_count [OF ready] by (auto simp: l)
  have st: "log_start l' = log_start l" by (simp add: l'_def loaded_log_def same)
  note rd = recover_disk [OF ok' w, unfolded st]
  have "runs recover_from_log r (\<lambda>_ t. binv q (log_dev (lg r)) M t \<and> view_of (log_dev (lg r)) t = recover_view l' ?w \<and> lg t = cleared l')"
    by (rule recover_law [OF _ _ _ ok' c]) (use boot same in \<open>simp_all add: E_def [symmetric] l'_def\<close>)
  then show "runs recover_from_log r (\<lambda>_ t. let w = view_of (log_dev l) t in
      hdr_n (v_disk w (log_start l)) = 0 \<and>
      (\<forall>b i. i < BSIZE \<and> b \<noteq> log_start l \<and> b \<notin> log_addr l ` {..<count l} \<longrightarrow>
         v_content w b = v_disk w b \<and> v_disk w b i = (if k \<le> count l then v_disk v else transacted l v) b i))"
    by (rule runs_mono) (simp add: Let_def rd(1,2) rec(3) same)
qed

theorem commit_crash_safe_witness:
  "\<exists>(s :: klog) r t. v_disk (view_of 1 r) 50 0 = 0 \<and> v_content (view_of 1 s) 50 0 = 7 \<and>
     apply_writes (v_disk (view_of 1 s)) (take 2 (commit_writes (lg s) (view_of 1 s))) = v_disk (view_of 1 r) \<and>
     recover_from_log [] (r :: klog) = Ret () [] t \<and> v_disk (view_of 1 t) 50 0 = 7"
proof -
  obtain s :: klog where s: "commit_ready 0 {} s" "lg s = log_add new_log 50" "v_disk (view_of 1 s) = (\<lambda>_ _. 0)"
      "v_content (view_of 1 s) = (\<lambda>_ _. 0)(50 := (\<lambda>_. 7))"
    using example_transaction by blast
  let ?l = "log_add new_log 50"
  let ?D = "apply_writes (v_disk (view_of 1 s)) (take 2 (commit_writes ?l (view_of 1 s)))"
  obtain r :: klog where r: "booted 0 1 {} ?D r" "lg r = ?l" using boot_state by blast
  have len: "2 \<le> length (commit_writes ?l (view_of 1 s))" by (simp add: commit_writes_def)
  have e: "hdr_n (v_disk (view_of 1 s) 2) = 0" by (simp add: s(3) hdr_n_def ld32_def ld_zero)
  have D50: "?D 50 = (\<lambda>_. 0)"
    by (subst apply_writes_out) (auto simp: commit_writes_def s(3) take_Cons')
  have b: "(50 :: u32) \<notin> log_addr ?l ` {..<1}" by auto
  note c = commit_crash_safe [OF s(1) refl refl, unfolded s(2) one_logged(1-3), OF e len, where r = r and q = 0 and M = "{}"]
  have "runs recover_from_log r (\<lambda>_ t. v_disk (view_of 1 t) 50 0 = 7)"
    using c [unfolded Let_def] r b by (auto simp: transacted_def s(4) elim!: runs_mono)
  then obtain t where "recover_from_log [] r = Ret () [] t" "v_disk (view_of 1 t) 50 0 = 7"
    unfolding runs_def by (elim allE [of _ "[]"]) auto
  moreover have "v_disk (view_of 1 r) = ?D" using r(1) by (simp add: booted_def)
  ultimately show ?thesis using D50 s(2,4) by (intro exI [of _ s] exI [of _ r] exI [of _ t]) simp
qed

text \<open>
  C21: recovery drops a reference it never took. \<^verbatim>\<open>install_trans\<close> unpins every block it installs, also
  when it runs at boot, where no block was pinned: the reference count of each recovered block wraps
  around to \<open>2 ^ 32 - 1\<close>, so that its buffer counts as in use from then on.
\<close>

theorem recovery_wraps_refcnt:
  assumes boot: "booted p (log_dev (lg s)) L D s" and l: "l = loaded_log (lg s) (D (log_start (lg s)))"
    and ok: "log_ok l" and n: "count l < NBUF" and j: "j < count l"
  shows "runs recover_from_log s (\<lambda>_ t. v_ref (view_of (log_dev (lg s)) t) (home_addr l j) = 2 ^ 32 - 1)"
proof (rule runs_mono [OF recover_law [OF boot refl l ok n]])
  fix t :: "'a klog_scheme" assume t: "binv p (log_dev (lg s)) L t \<and> view_of (log_dev (lg s)) t = recover_view l (view_of (log_dev (lg s)) s) \<and> lg t = cleared l"
  have "v_ref (view_of (log_dev (lg s)) s) = (\<lambda>_. 0)" using boot by (simp add: booted_def)
  then show "v_ref (view_of (log_dev (lg s)) t) (home_addr l j) = 2 ^ 32 - 1"
    using t unref_in [OF log_ok_moves(1) [OF ok order_refl] j] by (simp add: recover_view_def installed_def)
qed

theorem recovery_wraps_refcnt_witness:
  "\<exists>(s :: klog) t. recover_from_log [] s = Ret () [] t \<and> v_ref (view_of 1 s) 50 = 0 \<and> v_ref (view_of 1 t) 50 = 4294967295"
proof -
  let ?l = "log_add new_log 50"
  let ?D = "(\<lambda>_ _. 0)(2 := head_block ?l (\<lambda>_. 0))"
  obtain s :: klog where s: "booted 0 1 {} ?D s" "lg s = ?l" using boot_state by blast
  define l where "l = loaded_log ?l (head_block ?l (\<lambda>_. 0))"
  have st: "log_start l = 2" and c: "count l = 1" by (simp_all add: l_def loaded_log_def count_def head_block_n)
  have h: "home_addr l 0 = 50"
    unfolding home_addr_def [of l] using head_block_block [of 0 ?l "\<lambda>_. 0"]
    by (simp add: l_def loaded_log_def head_block_n)
  have ok: "log_ok l" by (rule log_ok_cong [OF one_logged(6)]) (simp_all add: st c h)
  have "runs recover_from_log s (\<lambda>_ t. v_ref (view_of (log_dev (lg s)) t) (home_addr l 0) = 2 ^ 32 - 1)"
    by (rule recovery_wraps_refcnt [where L = "{}" and p = 0 and D = ?D]) (use s ok in \<open>simp_all add: l_def [symmetric] c\<close>)
  then obtain t where "recover_from_log [] s = Ret () [] t" "v_ref (view_of 1 t) 50 = 4294967295"
    unfolding runs_def by (elim allE [of _ "[]"]) (auto simp: s(2) h)
  then show ?thesis using s(1) by (intro exI [of _ s] exI [of _ t]) (simp add: booted_def)
qed

text \<open>
  C22: \<^verbatim>\<open>log_write\<close> records a block once. A block that is already in the log is absorbed; another one
  is appended and its buffer pinned. In both cases nothing is written to the disk. Outside a
  transaction, or when the log is full, it panics.
\<close>

theorem log_write_correct:
  assumes inv: "binv p d L s" and log: "L_log \<notin> L" and h: "v_held (view_of d s) b = Some n"
  shows "(sint (lh_n (log_lh (lg s))) \<ge> min (int LOGSIZE) (sint (log_size (lg s)) - 1) \<longrightarrow>
      log_write b es s = Panic ''too big a transaction'') \<and>
    (sint (lh_n (log_lh (lg s))) < min (int LOGSIZE) (sint (log_size (lg s)) - 1) \<and> log_outstanding (lg s) < 1 \<longrightarrow>
      log_write b es s = Panic ''log_write outside of trans'') \<and>
    (sint (lh_n (log_lh (lg s))) < min (int LOGSIZE) (sint (log_size (lg s)) - 1) \<and> 1 \<le> log_outstanding (lg s) \<longrightarrow>
      (\<exists>t. log_write b es s = Ret () es t \<and> binv p d L t \<and> lg t = log_add (lg s) n \<and>
        view_of d t = (if in_log (lg s) n then view_of d s
          else (view_of d s)\<lparr>v_ref := (v_ref (view_of d s))(n := v_ref (view_of d s) n + 1)\<rparr>)))"
proof (intro conjI impI)
  show "log_write b es s = Panic ''too big a transaction''"
    if "sint (lh_n (log_lh (lg s))) \<ge> min (int LOGSIZE) (sint (log_size (lg s)) - 1)"
    using that by (auto simp: log_write_def km_simps min_def split: if_splits)
  show "log_write b es s = Panic ''log_write outside of trans''"
    if "sint (lh_n (log_lh (lg s))) < min (int LOGSIZE) (sint (log_size (lg s)) - 1) \<and> log_outstanding (lg s) < 1"
    using that by (auto simp: log_write_def km_simps)
  show "\<exists>t. log_write b es s = Ret () es t \<and> binv p d L t \<and> lg t = log_add (lg s) n \<and>
        view_of d t = (if in_log (lg s) n then view_of d s
          else (view_of d s)\<lparr>v_ref := (v_ref (view_of d s))(n := v_ref (view_of d s) n + 1)\<rparr>)"
    if "sint (lh_n (log_lh (lg s))) < min (int LOGSIZE) (sint (log_size (lg s)) - 1) \<and> 1 \<le> log_outstanding (lg s)"
    using log_write_law [OF inv log refl h] that unfolding runs_def by simp
qed

lemma held_example: "\<exists>(s :: klog) b. binv 0 1 {} s \<and> v_held (view_of 1 s) b = Some 50 \<and> lg s = new_log"
proof -
  obtain t :: klog where t: "booted 0 1 {} (\<lambda>_ _. 0) t" "lg t = new_log" using boot_state by blast
  have "runs (bnd (bread 1 50) ret) t (\<lambda>b u. binv 0 1 {} u \<and> v_held (view_of 1 u) b = Some 50 \<and> lg u = new_log)"
    by (rule bc.one_block) (use t in \<open>auto simp: booted_def room_def got_def dest: bkeeps_lg\<close>)
  then show ?thesis unfolding runs_def by (elim allE [of _ "[]"]) blast
qed

theorem log_write_correct_witness:
  "\<exists>(s :: klog) b t. log_write b [] s = Ret () [] t \<and> lg s = new_log \<and> lg t = log_add new_log 50"
proof -
  obtain s :: klog and b where s: "binv 0 1 {} s" "v_held (view_of 1 s) b = Some 50" "lg s = new_log" using held_example by blast
  obtain t where "log_write b [] s = Ret () [] t" "lg t = log_add new_log 50"
    using log_write_correct [OF s(1) _ s(2), of "[]"] by (auto simp: s(3))
  then show ?thesis using s(3) by blast
qed

end
