(* ===== verification/PipeQueue.thy ===== *)
theory PipeQueue
  imports Pipe Ring LogView
begin

text \<open>
  A pipe as a bounded queue of bytes: the abstraction of the ring buffer with its wrapping 32-bit
  counters, the laws of its operations, and the effect of \<^verbatim>\<open>pipewrite\<close> and \<^verbatim>\<open>piperead\<close> on the queue
  and on user memory.
\<close>

subsection \<open>The queue of a pipe\<close>

definition pipe_len :: "pipe \<Rightarrow> nat" where
  "pipe_len p = unat (pi_nwrite p - pi_nread p)"

definition pipe_ok :: "pipe \<Rightarrow> bool" where
  "pipe_ok p \<longleftrightarrow> pipe_len p \<le> 512"

definition pipe_queue :: "pipe \<Rightarrow> byte list" where
  "pipe_queue p = ring 512 (pi_data p) (unat (pi_nread p)) (pipe_len p)"

definition pipe_empty :: "pipe \<Rightarrow> bool" where
  "pipe_empty p \<longleftrightarrow> pi_nread p = pi_nwrite p"

lemma u32_succ: "unat x < 512 \<Longrightarrow> unat (x + 1) = Suc (unat x)" for x :: u32
  by (simp add: unat_word_ariths)

lemma u32_pred: "x \<noteq> 0 \<Longrightarrow> unat x = Suc (unat (x - 1))" for x :: u32
  using unat_minus_one [of x] by (simp add: unat_gt_0)

lemma u32_512: "x = 512 \<longleftrightarrow> unat x = 512" for x :: u32
  by (simp add: word_unat_eq_iff)

lemma unat_add_u32: "unat (x + y) = (unat x + unat y) mod 2 ^ 32" for x y :: u32
  by (simp add: unat_word_ariths)

lemma pipe_index: "unat (pi_nwrite p mod 512) = (unat (pi_nread p) + pipe_len p) mod 512"
proof -
  have "unat (pi_nwrite p) = (unat (pi_nread p) + pipe_len p) mod 2 ^ 32"
    using unat_add_u32 [of "pi_nread p" "pi_nwrite p - pi_nread p"] by (simp add: pipe_len_def)
  then show ?thesis by (simp add: unat_mod mod_mod_cancel)
qed

lemma pipe_fields [simp]:
  "pi_nwrite (pipe_put c p) = pi_nwrite p + 1" "pi_nread (pipe_put c p) = pi_nread p"
  "pi_nwrite (pipe_drop p) = pi_nwrite p" "pi_nread (pipe_drop p) = pi_nread p + 1" "pi_data (pipe_drop p) = pi_data p"
  by (simp_all add: pipe_put_def pipe_drop_def)

lemma pipe_put_len: "pipe_len p < 512 \<Longrightarrow> pipe_len (pipe_put c p) = Suc (pipe_len p)"
proof -
  assume l: "pipe_len p < 512"
  have "pi_nwrite p + 1 - pi_nread p = (pi_nwrite p - pi_nread p) + 1" by simp
  then show ?thesis using u32_succ [OF l [unfolded pipe_len_def]] by (simp only: pipe_len_def pipe_fields)
qed

lemma pipe_drop_len: "pi_nread p \<noteq> pi_nwrite p \<Longrightarrow> pipe_len p = Suc (pipe_len (pipe_drop p))"
proof -
  assume "pi_nread p \<noteq> pi_nwrite p"
  then have ne: "pi_nwrite p - pi_nread p \<noteq> 0" by auto
  have "pi_nwrite p - (pi_nread p + 1) = (pi_nwrite p - pi_nread p) - 1" by simp
  then show ?thesis using u32_pred [OF ne] by (simp only: pipe_len_def pipe_fields)
qed

lemma pipe_full_len: "pipe_full p \<longleftrightarrow> pipe_len p = 512"
proof -
  have "pi_nwrite p = pi_nread p + 512 \<longleftrightarrow> pi_nwrite p - pi_nread p = 512" by (auto simp: algebra_simps)
  then show ?thesis by (simp only: pipe_full_def pipe_len_def u32_512)
qed

interpretation pq: bounded_queue pipe_ok pipe_queue 512 pipe_full pipe_empty pipe_put pipe_next pipe_drop
proof
  fix p :: pipe and c assume ok: "pipe_ok p"
  show "length (pipe_queue p) \<le> 512" using ok by (simp add: pipe_queue_def pipe_ok_def)
  show "pipe_full p \<longleftrightarrow> length (pipe_queue p) = 512" by (simp add: pipe_full_len pipe_queue_def)
  show "pipe_empty p \<longleftrightarrow> pipe_queue p = []"
    by (auto simp: pipe_empty_def pipe_queue_def pipe_len_def ring_def unat_eq_zero)
next
  fix p :: pipe and c assume ok: "pipe_ok p" and nf: "\<not> pipe_full p"
  have l: "pipe_len p < 512" using ok nf by (simp add: pipe_ok_def pipe_full_len)
  then show "pipe_ok (pipe_put c p) \<and> pipe_queue (pipe_put c p) = pipe_queue p @ [c]"
    using ring_put [OF l, of "pi_data p" "unat (pi_nread p)" c] pipe_put_len [OF l, of c]
    by (simp add: pipe_ok_def pipe_queue_def) (simp add: pipe_put_def pipe_index)
next
  fix p assume ok: "pipe_ok p" and ne: "\<not> pipe_empty p"
  have n: "pi_nread p \<noteq> pi_nwrite p" using ne by (simp add: pipe_empty_def)
  have m: "unat (pi_nread (pipe_drop p)) mod 512 = Suc (unat (pi_nread p)) mod 512"
    by (simp add: unat_word_ariths mod_mod_cancel)
  have "pipe_queue p = pi_data p (unat (pi_nread p) mod 512) # ring 512 (pi_data p) (Suc (unat (pi_nread p))) (pipe_len (pipe_drop p))"
    unfolding pipe_queue_def pipe_drop_len [OF n] by (rule ring_get)
  moreover have "pipe_queue (pipe_drop p) = ring 512 (pi_data p) (Suc (unat (pi_nread p))) (pipe_len (pipe_drop p))"
    unfolding pipe_queue_def by (subst ring_cong [OF m]) simp
  ultimately show "pipe_ok (pipe_drop p) \<and> pipe_queue p = pipe_next p # pipe_queue (pipe_drop p)"
    using pipe_drop_len [OF n] ok by (simp add: pipe_ok_def pipe_next_def unat_mod)
qed

subsection \<open>Writing\<close>

lemma each_next: "f x es s = Ret None es' s' \<Longrightarrow> each (x # xs) f es s = each xs f es' s'"
  by (simp add: bnd_Ret)

lemma each_stop: "f x es s = Ret (Some v) es' s' \<Longrightarrow> each (x # xs) f es s = Ret (Some v) es' s'"
  by (simp add: bnd_Ret km_simps)

lemma wait_room_now: "\<not> pipe_full (pipes s pip) \<Longrightarrow> pipe_wait_room pip pr es s = Ret True es s"
  unfolding pipe_wait_room_def by (rule wait_loop_done) (simp add: km_simps)

lemma copyin_byte:
  assumes "pt_wf e (pmem s) pt" "0 < e" "unat va + 1 < 2 ^ 64"
  shows "\<exists>ch. copyin pt (\<lambda>_. 0) 0 va 1 es s = Ret (if uok (pmem s) pt va then 0 else -1, ch) es s \<and>
     (uok (pmem s) pt va \<longrightarrow> ch 0 = ubyte (pmem s) pt va)"
proof -
  have "unat va + unat (1 :: u64) < 2 ^ 64" using assms(3) by simp
  from copyin_run [OF assms(1,2) this, of "\<lambda>_. 0" 0 es] show ?thesis
    by (auto simp: uok_range_def copy_def ubytes_def)
qed

abbreviation write_body :: "u64 \<Rightarrow> u64 \<Rightarrow> nat \<Rightarrow> nat \<Rightarrow> ('z kfile_scheme, nat option option) km" where
  "write_body pip addr pr i \<equiv>
     bnd (pipe_wait_room pip pr) (\<lambda>ok.
        if \<not> ok then ret (Some None)
        else
          bnd (gets (\<lambda>s. p_pagetable (procs s pr))) (\<lambda>pt.
          bnd (copyin pt (\<lambda>_. 0) 0 (addr + word_of_nat i) 1) (\<lambda>(r, ch).
          if r = -1 then ret (Some (Some i))
          else sq (modify (upd_pipe pip (pipe_put (ch 0)))) (ret None))))"

lemma write_step:
  assumes "pt_wf e (pmem s) (p_pagetable (procs s pr))" "0 < e" "unat addr + i + 1 < 2 ^ 64" "\<not> pipe_full (pipes s pip)"
  shows "write_body pip addr pr i es s =
    (if uok (pmem s) (p_pagetable (procs s pr)) (voff addr i)
     then Ret None es (upd_pipe pip (pipe_put (ubyte (pmem s) (p_pagetable (procs s pr)) (voff addr i))) s)
     else Ret (Some (Some i)) es s)"
proof -
  let ?pt = "p_pagetable (procs s pr)"
  have "unat (voff addr i) = unat addr + i" using assms(3) by (intro unat_off) simp
  then have "unat (voff addr i) + 1 < 2 ^ 64" using assms(3) by simp
  from copyin_byte [OF assms(1,2) this, of es] obtain ch where
    "copyin ?pt (\<lambda>_. 0) 0 (voff addr i) 1 es s = Ret (if uok (pmem s) ?pt (voff addr i) then 0 else -1, ch) es s"
    "uok (pmem s) ?pt (voff addr i) \<longrightarrow> ch 0 = ubyte (pmem s) ?pt (voff addr i)" by blast
  then show ?thesis using wait_room_now [OF assms(4), of pr es] by (simp add: km_simps)
qed

lemma write_loop:
  assumes "pt_wf e (pmem s) (p_pagetable (procs s pr))" "0 < e" "unat addr + i + m < 2 ^ 64"
    "pipe_ok (pipes s pip)" "length (pipe_queue (pipes s pip)) + k \<le> 512" "k \<le> m"
    "\<And>j. j < k \<Longrightarrow> uok (pmem s) (p_pagetable (procs s pr)) (voff addr (i + j))"
    "k < m \<Longrightarrow> length (pipe_queue (pipes s pip)) + k < 512 \<and> \<not> uok (pmem s) (p_pagetable (procs s pr)) (voff addr (i + k))"
  shows "each [i..<i + m] (write_body pip addr pr) es s =
    Ret (if k < m then Some (Some (i + k)) else None) es
      (upd_pipe pip (fold pipe_put (map (ubytes (pmem s) (p_pagetable (procs s pr)) addr) [i..<i + k])) s)"
  using assms
proof (induction k arbitrary: i m s)
  case 0
  show ?case
  proof (cases m)
    case 0
    then show ?thesis by (simp add: km_simps upd_pipe_def)
  next
    case (Suc n)
    then have nf: "\<not> pipe_full (pipes s pip)" using "0.prems"(4,8) pq.full_law by fastforce
    have "unat addr + i + 1 < 2 ^ 64" using "0.prems"(3) Suc by simp
    note st = write_step [OF "0.prems"(1,2) this nf, of es]
    show ?thesis
      using st "0.prems"(8) Suc by (simp add: upt_conv_Cons bnd_Ret upd_pipe_def km_simps del: upt_Suc)
  qed
next
  case (Suc k)
  then obtain n where m: "m = Suc n" by (cases m) auto
  let ?pt = "p_pagetable (procs s pr)" and ?m = "pmem s"
  have nf: "\<not> pipe_full (pipes s pip)" using Suc.prems(4,5) pq.full_law by fastforce
  have a: "unat addr + i + 1 < 2 ^ 64" using Suc.prems(3) m by simp
  have u: "uok ?m ?pt (voff addr i)" using Suc.prems(7) [of 0] by simp
  define c where "c = ubyte ?m ?pt (voff addr i)"
  define t where "t = upd_pipe pip (pipe_put c) s"
  have st: "write_body pip addr pr i es s = Ret None es t" using write_step [OF Suc.prems(1,2) a nf, of es] u by (simp add: t_def c_def)
  have f: "pmem t = ?m" "procs t = procs s" "pipes t pip = pipe_put c (pipes s pip)" by (simp_all add: t_def upd_pipe_def)
  note put = pq.put_law [OF Suc.prems(4) nf, of c]
  have "each [Suc i..<Suc i + n] (write_body pip addr pr) es t =
    Ret (if k < n then Some (Some (Suc i + k)) else None) es
      (upd_pipe pip (fold pipe_put (map (ubytes (pmem t) (p_pagetable (procs t pr)) addr) [Suc i..<Suc i + k])) t)"
  proof (rule Suc.IH)
    show "uok (pmem t) (p_pagetable (procs t pr)) (voff addr (Suc i + j))" if "j < k" for j
      using Suc.prems(7) [of "Suc j"] that by (simp add: f)
  qed (use Suc.prems m put in \<open>simp_all add: f\<close>)
  moreover have "[i..<i + m] = i # [Suc i..<Suc i + n]" by (simp add: m upt_conv_Cons del: upt_Suc)
  moreover have "[i..<i + Suc k] = i # [Suc i..<Suc i + k]" by (simp add: upt_conv_Cons del: upt_Suc)
  ultimately show ?case
    by (simp add: each_next [of "write_body pip addr pr" i es s, OF st] m f del: upt_Suc each.simps) (simp add: t_def upd_pipe_def c_def ubytes_def comp_def)
qed

text \<open>What \<^verbatim>\<open>pipewrite\<close> leaves behind: the pipe with the bytes, and its readers woken.\<close>

definition pipe_wrote :: "u64 \<Rightarrow> byte list \<Rightarrow> 'z kfile_scheme \<Rightarrow> 'z kfile_scheme" where
  "pipe_wrote pip xs s = upd_pipe pip (fold pipe_put xs) ((touch s)\<lparr>procs := wake_table (Ch_nread pip) (procs s)\<rparr>)"

lemma pipewrite_run:
  assumes q: "quiet pr {} s" and wf: "pt_wf e (pmem s) (p_pagetable (procs s pr))" "0 < e" "unat addr + nat (sint n) < 2 ^ 64"
    and ok: "pipe_ok (pipes s pip)" "length (pipe_queue (pipes s pip)) + k \<le> 512" "k \<le> nat (sint n)"
    and u: "\<And>j. j < k \<Longrightarrow> uok (pmem s) (p_pagetable (procs s pr)) (voff addr j)"
    and stop: "k < nat (sint n) \<Longrightarrow> length (pipe_queue (pipes s pip)) + k < 512 \<and> \<not> uok (pmem s) (p_pagetable (procs s pr)) (voff addr k)"
  shows "pipewrite pip addr n es s =
    Ret (int k) es (pipe_wrote pip (map (ubytes (pmem s) (p_pagetable (procs s pr)) addr) [0..<k]) s)"
proof -
  let ?lk = "L_pipe pip" and ?pt = "p_pagetable (procs s pr)"
  let ?xs = "map (ubytes (pmem s) ?pt addr) [0..<k]"
  let ?a = "acquired ?lk (touch s)"
  have cur: "curproc es s = Ret pr es (touch s)" by (rule curproc_run [OF quietD(5,4) [OF q]])
  have rdy: "lock_ready ?lk (touch s)" using q by (simp add: quiet_def free_except_def)
  have loop: "each [0..<nat (sint n)] (write_body pip addr pr) es ?a =
      Ret (if k < nat (sint n) then Some (Some k) else None) es (upd_pipe pip (fold pipe_put ?xs) ?a)"
    using write_loop [of e ?a pr addr 0 "nat (sint n)" pip k es] wf ok u stop by simp
  let ?u = "upd_pipe pip (fold pipe_put ?xs) ?a"
  have "quiet pr {?lk} ?a" by (rule quiet_acquired) (use q in simp_all)
  then have "procs_ready ?a" by (rule quietD(3))
  then have pr: "procs_ready ?u"
    by (simp add: procs_ready_def upd_pipe_def)
  let ?g = "\<lambda>s. upd_pipe pip (fold pipe_put ?xs) (s\<lparr>procs := wake_table (Ch_nread pip) (procs s)\<rparr>)"
  have h: "hart_ok (touch s)" using quietD(5) [OF q] by simp
  have wk: "wakeup (Ch_nread pip) es ?u = Ret () es (?g ?a)"
    unfolding wakeup_run [OF pr] woken_def using touch_acquired [OF h] by (simp add: upd_pipe_def)
  have "release ?lk es (?g ?a) = Ret () es (?g (touch (touch s)))"
    by (rule release_upper [OF rdy]) (simp add: upper_defs upd_pipe_def)
  then have rel: "release ?lk es (?g ?a) = Ret () es (?g (touch s))" by simp
  have val: "(case if k < nat (sint n) then Some (Some k) else None of Some (Some i) \<Rightarrow> int i | _ \<Rightarrow> max 0 (sint n)) = int k"
    using ok(3) by (auto simp: max_def)
  show ?thesis
    unfolding pipewrite_def
    using loop wk rel ok(3) by (cases "k < nat (sint n)") (simp_all add: km_simps cur acquire_ready [OF rdy] pipe_wrote_def max_def)
qed

subsection \<open>Reading\<close>

lemma as_ok_pipe [simp]: "as_ok xs pt lim (upd_pipe pip f s) = as_ok xs pt lim s"
  by (simp add: as_ok_def pt_ok_def kmem_ok_def upd_pipe_def)

lemma as_ok_acquired: "as_ok xs pt lim s \<Longrightarrow> lk \<noteq> L_kmem \<Longrightarrow> hart_ok s \<Longrightarrow> as_ok xs pt lim (acquired lk s)"
  by (simp add: as_ok_def pt_ok_def kmem_ok_def lock_ready_def hart_ok_acquired)

lemma wait_data_now: "\<not> pipe_empty (pipes s pip) \<or> \<not> pi_writeopen (pipes s pip) \<Longrightarrow> pipe_wait_data pip pr es s = Ret True es s"
  unfolding pipe_wait_data_def by (rule wait_loop_done) (auto simp: km_simps pipe_empty_def)

abbreviation read_body :: "u64 \<Rightarrow> u64 \<Rightarrow> nat \<Rightarrow> nat \<Rightarrow> ('z kfile_scheme, nat option) km" where
  "read_body pip addr pr i \<equiv>
     bnd (gets (\<lambda>s. pipes s pip)) (\<lambda>p.
          if pi_nread p = pi_nwrite p then ret (Some i)
          else
            sq (modify (upd_pipe pip pipe_drop))
            (bnd (gets (\<lambda>s. p_pagetable (procs s pr))) (\<lambda>pt.
             bnd (copyout pt (addr + word_of_nat i) (\<lambda>_. pipe_next p) 0 1) (\<lambda>r.
             if r = -1 then ret (Some i) else ret None))))"

lemma read_step:
  assumes ok: "as_ok xs (p_pagetable (procs s pr)) lim s" "user_below (pmem s) (p_pagetable (procs s pr)) lim"
    "unat addr + i + 1 < 2 ^ 64" and ne: "\<not> pipe_empty (pipes s pip)" and u: "uok (pmem s) (p_pagetable (procs s pr)) (voff addr i)"
  shows "\<exists>m'. read_body pip addr pr i es s = Ret None es (upd_pipe pip pipe_drop (s\<lparr>pmem := m'\<rparr>)) \<and>
    wrote xs (p_pagetable (procs s pr)) lim s m' (unat addr + i) (\<lambda>_. pipe_next (pipes s pip)) 0 1"
proof -
  let ?pt = "p_pagetable (procs s pr)" and ?t = "upd_pipe pip pipe_drop s" and ?c = "pipe_next (pipes s pip)"
  have v: "unat (voff addr i) = unat addr + i" using assms(3) by (intro unat_off) simp
  have t: "pmem ?t = pmem s" by (simp add: upd_pipe_def)
  have r: "uok_range (pmem s) ?pt (voff addr i) (unat (1 :: u64))" using u by (simp add: uok_range_def)
  obtain m' n where m: "copyout ?pt (voff addr i) (\<lambda>_. ?c) 0 1 es ?t =
        Ret (if uok_range (pmem ?t) ?pt (voff addr i) (unat (1 :: u64)) then 0 else -1) es (?t\<lparr>pmem := m'\<rparr>)"
      "wrote xs ?pt lim ?t m' (unat (voff addr i)) (\<lambda>_. ?c) 0 n" "uok_range (pmem ?t) ?pt (voff addr i) (unat (1 :: u64)) \<longrightarrow> n = unat (1 :: u64)"
    using copyout_run [of xs ?pt lim ?t "voff addr i" 1 "\<lambda>_. ?c" 0 es] ok v t by auto
  have sw: "?t\<lparr>pmem := m'\<rparr> = upd_pipe pip pipe_drop (s\<lparr>pmem := m'\<rparr>)" by (simp add: upd_pipe_def)
  have "wrote xs ?pt lim s m' (unat addr + i) (\<lambda>_. ?c) 0 1" using m(2,3) r t v unfolding wrote_def sw by simp
  moreover have "read_body pip addr pr i es s = Ret None es (?t\<lparr>pmem := m'\<rparr>)"
    using m(1) r ne by (simp add: km_simps pipe_empty_def t) (simp add: upd_pipe_def ret_def)
  ultimately show ?thesis unfolding sw by blast
qed

lemma read_loop:
  assumes "as_ok xs (p_pagetable (procs s pr)) lim s" "user_below (pmem s) (p_pagetable (procs s pr)) lim"
    "unat addr + i + m < 2 ^ 64" "pipe_ok (pipes s pip)" "k = min m (length (pipe_queue (pipes s pip)))"
    "\<And>j. j < k \<Longrightarrow> uok (pmem s) (p_pagetable (procs s pr)) (voff addr (i + j))"
  shows "\<exists>m'. each [i..<i + m] (read_body pip addr pr) es s =
      Ret (if k < m then Some (i + k) else None) es (upd_pipe pip (pipe_drop ^^ k) (s\<lparr>pmem := m'\<rparr>)) \<and>
    wrote xs (p_pagetable (procs s pr)) lim s m' (unat addr + i) (\<lambda>j. pipe_queue (pipes s pip) ! j) 0 k"
  using assms
proof (induction k arbitrary: i m s)
  case 0
  have w: "wrote xs (p_pagetable (procs s pr)) lim s (pmem s) (unat addr + i) (\<lambda>j. pipe_queue (pipes s pip) ! j) 0 0"
    using "0.prems"(1) by (simp add: wrote_def)
  show ?case
  proof (cases m)
    case 0
    then show ?thesis using w by (intro exI [of _ "pmem s"]) (simp add: km_simps upd_pipe_def)
  next
    case (Suc n)
    then have "pipe_empty (pipes s pip)" using "0.prems"(4,5) pq.empty_law by (auto simp: min_def split: if_splits)
    then have "read_body pip addr pr i es s = Ret (Some i) es s" by (simp add: km_simps pipe_empty_def)
    from each_stop [of "read_body pip addr pr" i es s, OF this] show ?thesis
      using w Suc by (intro exI [of _ "pmem s"]) (simp add: upt_conv_Cons upd_pipe_def del: upt_Suc each.simps)
  qed
next
  case (Suc k)
  then obtain n where m: "m = Suc n" by (cases m) auto
  let ?pt = "p_pagetable (procs s pr)" and ?q = "pipes s pip"
  have len: "0 < length (pipe_queue ?q)" using Suc.prems(5) by (auto simp: min_def split: if_splits)
  then have ne: "\<not> pipe_empty ?q" using Suc.prems(4) pq.empty_law by auto
  have a: "unat addr + i + 1 < 2 ^ 64" using Suc.prems(3) m by simp
  have u: "uok (pmem s) ?pt (voff addr i)" using Suc.prems(6) [of 0] by simp
  obtain m1 where st: "read_body pip addr pr i es s = Ret None es (upd_pipe pip pipe_drop (s\<lparr>pmem := m1\<rparr>))"
      and w1: "wrote xs ?pt lim s m1 (unat addr + i) (\<lambda>_. pipe_next ?q) 0 1"
    using read_step [OF Suc.prems(1,2) a ne u] by blast
  define t where "t = upd_pipe pip pipe_drop (s\<lparr>pmem := m1\<rparr>)"
  have f: "pmem t = m1" "procs t = procs s" "pipes t pip = pipe_drop ?q" by (simp_all add: t_def upd_pipe_def)
  note pop = pq.pop_law [OF Suc.prems(4) ne]
  have pte: "pte_of m1 ?pt = pte_of (pmem s) ?pt" and as: "as_ok xs ?pt lim t" using w1 by (simp_all add: wrote_def t_def)
  have "\<exists>m'. each [Suc i..<Suc i + n] (read_body pip addr pr) es t =
      Ret (if k < n then Some (Suc i + k) else None) es (upd_pipe pip (pipe_drop ^^ k) (t\<lparr>pmem := m'\<rparr>)) \<and>
    wrote xs (p_pagetable (procs t pr)) lim t m' (unat addr + Suc i) (\<lambda>j. pipe_queue (pipes t pip) ! j) 0 k"
  proof (rule Suc.IH)
    show "uok (pmem t) (p_pagetable (procs t pr)) (voff addr (Suc i + j))" if "j < k" for j
      using Suc.prems(6) [of "Suc j"] that pte by (simp add: f uok_def uaddr_def)
    show "user_below (pmem t) (p_pagetable (procs t pr)) lim" using Suc.prems(2) user_below_pte [OF pte] by (simp add: f)
    show "k = min n (length (pipe_queue (pipes t pip)))" using Suc.prems(5) pop m by (simp add: f)
  qed (use Suc.prems m pop as in \<open>simp_all add: f\<close>)
  then obtain m2 where l: "each [Suc i..<Suc i + n] (read_body pip addr pr) es t =
      Ret (if k < n then Some (Suc i + k) else None) es (upd_pipe pip (pipe_drop ^^ k) (t\<lparr>pmem := m2\<rparr>))"
    and w2: "wrote xs ?pt lim t m2 (unat addr + Suc i) (\<lambda>j. pipe_queue (pipe_drop ?q) ! j) 0 k"
    by (auto simp: f)
  have t2: "upd_pipe pip (pipe_drop ^^ k) (t\<lparr>pmem := m2\<rparr>) = upd_pipe pip (pipe_drop ^^ Suc k) (s\<lparr>pmem := m2\<rparr>)"
    by (simp add: t_def upd_pipe_def funpow_swap1)
  have as2: "as_ok xs ?pt lim (s\<lparr>pmem := m2\<rparr>)"
  proof -
    have "as_ok xs ?pt lim (t\<lparr>pmem := m2\<rparr>)" using w2 by (simp add: wrote_def)
    moreover have "t\<lparr>pmem := m2\<rparr> = upd_pipe pip pipe_drop (s\<lparr>pmem := m2\<rparr>)" by (simp add: t_def upd_pipe_def)
    ultimately show ?thesis by simp
  qed
  have "uview m2 ?pt = copy (unat addr + Suc i) (\<lambda>j. pipe_queue (pipe_drop ?q) ! j) 0 k
      (copy (unat addr + i) (\<lambda>_. pipe_next ?q) 0 1 (uview (pmem s) ?pt))"
    using w1 w2 by (simp add: wrote_def f)
  also have "\<dots> = copy (unat addr + i) (\<lambda>j. pipe_queue ?q ! j) 0 (Suc k) (uview (pmem s) ?pt)"
    using pop by (auto simp: copy_def fun_eq_iff nth_Cons' Suc_diff_le)
  finally have "wrote xs ?pt lim s m2 (unat addr + i) (\<lambda>j. pipe_queue ?q ! j) 0 (Suc k)"
    using w1 w2 as2 by (simp add: wrote_def f)
  moreover have "[i..<i + m] = i # [Suc i..<Suc i + n]" by (simp add: m upt_conv_Cons del: upt_Suc)
  ultimately show ?case
    using l t2 by (intro exI [of _ m2]) (simp add: each_next [of "read_body pip addr pr" i es s, OF st] t_def [symmetric] m del: upt_Suc each.simps funpow.simps)
qed

definition pipe_read :: "u64 \<Rightarrow> nat \<Rightarrow> bytes \<Rightarrow> 'z kfile_scheme \<Rightarrow> 'z kfile_scheme" where
  "pipe_read pip k m' s = upd_pipe pip (pipe_drop ^^ k) ((touch s)\<lparr>pmem := m', procs := wake_table (Ch_nwrite pip) (procs s)\<rparr>)"

lemma piperead_run:
  assumes q: "quiet pr {} s" and pt: "pt = p_pagetable (procs s pr)" and as: "as_ok xs pt lim s" "user_below (pmem s) pt lim"
    and len: "unat addr + nat (sint n) < 2 ^ 64" and ok: "pipe_ok (pipes s pip)"
    and now: "\<not> pipe_empty (pipes s pip) \<or> \<not> pi_writeopen (pipes s pip)"
    and k: "k = min (nat (sint n)) (length (pipe_queue (pipes s pip)))"
    and u: "\<And>j. j < k \<Longrightarrow> uok (pmem s) pt (voff addr j)"
  shows "\<exists>m'. piperead pip addr n es s = Ret (int k) es (pipe_read pip k m' s) \<and>
    wrote xs pt lim s m' (unat addr) (\<lambda>j. pipe_queue (pipes s pip) ! j) 0 k"
proof -
  let ?lk = "L_pipe pip"
  let ?a = "acquired ?lk (touch s)"
  have cur: "curproc es s = Ret pr es (touch s)" by (rule curproc_run [OF quietD(5,4) [OF q]])
  have rdy: "lock_ready ?lk (touch s)" using q by (simp add: quiet_def free_except_def)
  have h: "hart_ok (touch s)" using quietD(5) [OF q] by simp
  have ast: "as_ok xs pt lim (touch s)" using as(1) by (simp add: as_ok_def pt_ok_def kmem_ok_def)
  have asa: "as_ok xs pt lim ?a" by (rule as_ok_acquired [OF ast _ h]) simp
  have wd: "pipe_wait_data pip pr es ?a = Ret True es ?a" using now by (intro wait_data_now) simp
  obtain m' where loop: "each [0..<nat (sint n)] (read_body pip addr pr) es ?a =
      Ret (if k < nat (sint n) then Some k else None) es (upd_pipe pip (pipe_drop ^^ k) (?a\<lparr>pmem := m'\<rparr>))"
    and w: "wrote xs pt lim ?a m' (unat addr) (\<lambda>j. pipe_queue (pipes s pip) ! j) 0 k"
    using read_loop [of xs ?a pr lim addr 0 "nat (sint n)" pip k es, unfolded add_0_left add_0_right] asa as len ok k u
    unfolding pt by auto
  let ?u = "upd_pipe pip (pipe_drop ^^ k) (?a\<lparr>pmem := m'\<rparr>)"
  have "quiet pr {?lk} ?a" by (rule quiet_acquired) (use q in simp_all)
  then have "procs_ready ?a" by (rule quietD(3))
  then have pr: "procs_ready ?u" by (simp add: procs_ready_def upd_pipe_def)
  let ?g = "\<lambda>s. upd_pipe pip (pipe_drop ^^ k) (s\<lparr>pmem := m', procs := wake_table (Ch_nwrite pip) (procs s)\<rparr>)"
  have wk: "wakeup (Ch_nwrite pip) es ?u = Ret () es (?g ?a)"
    unfolding wakeup_run [OF pr] woken_def using touch_acquired [OF h] by (simp add: upd_pipe_def)
  have "release ?lk es (?g ?a) = Ret () es (?g (touch (touch s)))"
    by (rule release_upper [OF rdy]) (simp add: upper_defs upd_pipe_def)
  then have rel: "release ?lk es (?g ?a) = Ret () es (?g (touch s))" by simp
  have "k \<le> nat (sint n)" using k by simp
  then have "piperead pip addr n es s = Ret (int k) es (pipe_read pip k m' s)"
    unfolding piperead_def
    using loop wk rel wd by (cases "k < nat (sint n)") (simp_all add: km_simps cur acquire_ready [OF rdy] pipe_read_def max_def)
  moreover have "as_ok xs pt lim (s\<lparr>pmem := m'\<rparr>)"
  proof -
    have "as_ok xs pt lim (?a\<lparr>pmem := m'\<rparr>)" using w by (simp add: wrote_def)
    then show ?thesis using as(1) by (auto simp: as_ok_def pt_ok_def kmem_ok_def)
  qed
  then have "wrote xs pt lim s m' (unat addr) (\<lambda>j. pipe_queue (pipes s pip) ! j) 0 k"
    using w by (simp add: wrote_def)
  ultimately show ?thesis by blast
qed

subsection \<open>Properties\<close>

text \<open>A process with three pages of zeroes, in a kernel without held locks.\<close>

definition user_proc :: "u64 \<Rightarrow> nat \<Rightarrow> proc" where
  "user_proc pt _ = idle_proc\<lparr>p_pid := 1, p_state := RUNNING, p_pagetable := pt\<rparr>"

lemma example_process:
  "\<exists>(k :: kmem) xs pt. (\<forall>m :: 'z. quiet 0 {} (over_kmem k (user_proc pt) m) \<and> as_ok xs pt 100 (over_kmem k (user_proc pt) m)) \<and>
     user_below (pmem k) pt 100 \<and> uok_range (pmem k) pt 0 10000 \<and> uview (pmem k) pt = (\<lambda>_. 0)"
proof -
  obtain s :: kmem and xs pt where s: "as_ok xs pt 100 s" "user_below (pmem s) pt 100" "uok_range (pmem s) pt 0 10000"
      "uview (pmem s) pt = (\<lambda>_. 0)"
    using example_user by blast
  define k where "k = (reset_kmem (kend s))\<lparr>pmem := pmem s, freelist := freelist s\<rparr>"
  have k: "pmem k = pmem s" "freelist k = freelist s" "kend k = kend s" "lock_ready lk k" "cpuid k = 0" "mycpu k = mycpu (reset_kmem (kend s))" for lk
    by (simp_all add: k_def)
  have "quiet 0 {} (over_kmem k (user_proc pt) m)" for m :: 'z
    by (simp add: quiet_def free_except_def procs_free_def k)
  moreover have "as_ok xs pt 100 (over_kmem k (user_proc pt) m)" for m :: 'z
    using s(1) by (simp add: as_ok_def pt_ok_def kmem_ok_def k)
  ultimately show ?thesis using s(2-4) by (intro exI [of _ k] exI [of _ xs] exI [of _ pt]) (simp add: k)
qed

definition zero_inode :: inode where
  "zero_inode = \<lparr>i_dev = 0, i_inum = 0, i_ref = 0, i_valid = False, i_type = 0, i_major = 0, i_minor = 0, i_nlink = 0, i_size = 0, i_addrs = (\<lambda>_. 0)\<rparr>"

definition zero_file :: ofile where
  "zero_file = \<lparr>f_type = FD_NONE, f_ref = 0, f_readable = False, f_writable = False, f_pipe = 0, f_ip = 0, f_off = 0, f_major = 0\<rparr>"

definition pipe_state :: "kmem \<Rightarrow> u64 \<Rightarrow> (u64 \<Rightarrow> pipe) \<Rightarrow> kfile" where
  "pipe_state k pt P = over_kmem k (user_proc pt)
     (kuart_ext [] [] (\<lambda>_. 0) 0 0 False False (kcons_ext (\<lambda>_. 0) 0 0 0 (\<lambda>_. \<lparr>dev_read = None, dev_write = None\<rparr>)
     (ksleep_ext (\<lambda>_. \<lparr>slk_locked = 0, slk_name = [], slk_pid = 0\<rparr>) (kbio_ext (\<lambda>_. zero_buf) (\<lambda>_ _. 0) []
     (klog_ext new_log (kfs_ext \<lparr>sb_magic = 0, sb_size = 0, sb_nblocks = 0, sb_ninodes = 0, sb_nlog = 0, sb_logstart = 0, sb_inodestart = 0, sb_bmapstart = 0\<rparr>
       (\<lambda>_. zero_inode) (kfile_ext (\<lambda>_. zero_file) P ())))))))"

lemma pipes_state [simp]: "pipes (pipe_state k pt P) = P"
  by (simp add: pipe_state_def over_kmem_def)

lemma pipe_state_process:
  "\<exists>k xs pt. \<forall>P. quiet 0 {} (pipe_state k pt P) \<and> as_ok xs pt 100 (pipe_state k pt P) \<and> p_pagetable (procs (pipe_state k pt P) 0) = pt \<and>
     user_below (pmem (pipe_state k pt P)) pt 100 \<and> uok_range (pmem (pipe_state k pt P)) pt 0 10000 \<and> uview (pmem (pipe_state k pt P)) pt = (\<lambda>_. 0)"
proof -
  obtain k xs pt where k: "\<forall>m :: (unit kfile_ext kfs_ext klog_ext kbio_ext ksleep_ext kcons_ext kuart_ext).
      quiet 0 {} (over_kmem k (user_proc pt) m) \<and> as_ok xs pt 100 (over_kmem k (user_proc pt) m)"
     "user_below (pmem k) pt 100" "uok_range (pmem k) pt 0 10000" "uview (pmem k) pt = (\<lambda>_. 0)"
    using example_process by (elim exE conjE) (rule that)
  then show ?thesis by (intro exI [of _ k] exI [of _ xs] exI [of _ pt]) (simp add: pipe_state_def user_proc_def)
qed

text \<open>
  C25: \<^verbatim>\<open>pipewrite\<close> appends to a bounded queue. If there is room for the \<open>k\<close> bytes at \<open>addr\<close> that are
  readable user memory, up to \<open>n\<close>, it returns \<open>k\<close> without waiting, the queue of the pipe has grown by
  these bytes in order and is still within its 512 bytes, also when the counters wrap around, and
  whoever waits for data has been woken.
\<close>

theorem pipewrite_appends:
  assumes "quiet pr {} s" "pt = p_pagetable (procs s pr)" "pt_wf e (pmem s) pt" "0 < e" "unat addr + nat (sint n) < 2 ^ 64"
    "pipe_ok (pipes s pip)" "length (pipe_queue (pipes s pip)) + k \<le> 512" "k \<le> nat (sint n)"
    "\<forall>j < k. uok (pmem s) pt (voff addr j)"
    "k < nat (sint n) \<Longrightarrow> length (pipe_queue (pipes s pip)) + k < 512 \<and> \<not> uok (pmem s) pt (voff addr k)"
  shows "\<exists>t. pipewrite pip addr n es s = Ret (int k) es t \<and> pipe_ok (pipes t pip) \<and>
    pipe_queue (pipes t pip) = pipe_queue (pipes s pip) @ map (ubytes (pmem s) pt addr) [0..<k] \<and>
    (\<forall>q \<noteq> pip. pipes t q = pipes s q) \<and> procs t = wake_table (Ch_nread pip) (procs s) \<and> pmem t = pmem s"
proof -
  let ?xs = "map (ubytes (pmem s) pt addr) [0..<k]"
  have "pipewrite pip addr n es s = Ret (int k) es (pipe_wrote pip ?xs s)"
    unfolding assms(2) by (rule pipewrite_run [where e = e]) (use assms in simp_all)
  moreover have "pipe_ok (fold pipe_put ?xs (pipes s pip)) \<and> pipe_queue (fold pipe_put ?xs (pipes s pip)) = pipe_queue (pipes s pip) @ ?xs"
    using assms(7) by (intro pq.put_all [OF assms(6)]) simp
  ultimately show ?thesis by (simp add: pipe_wrote_def upd_pipe_def)
qed

theorem pipewrite_appends_witness:
  "\<exists>(s :: kfile) t. pipewrite 7 5000 3 [] s = Ret 3 [] t \<and> pi_nwrite (pipes s 7) = 4294967295 \<and>
     pipe_queue (pipes s 7) = [9] \<and> pipe_queue (pipes t 7) = [9, 0, 0, 0]"
proof -
  obtain k xs pt where ex: "\<forall>P. quiet 0 {} (pipe_state k pt P) \<and> as_ok xs pt 100 (pipe_state k pt P) \<and> p_pagetable (procs (pipe_state k pt P) 0) = pt \<and>
     user_below (pmem (pipe_state k pt P)) pt 100 \<and> uok_range (pmem (pipe_state k pt P)) pt 0 10000 \<and> uview (pmem (pipe_state k pt P)) pt = (\<lambda>_. 0)"
    using pipe_state_process by (elim exE) (rule that)
  have k: "quiet 0 {} (pipe_state k pt P)" "as_ok xs pt 100 (pipe_state k pt P)" "p_pagetable (procs (pipe_state k pt P) 0) = pt" "uok_range (pmem (pipe_state k pt P)) pt 0 10000" "uview (pmem (pipe_state k pt P)) pt = (\<lambda>_. 0)" for P
    using ex [rule_format, of P] by simp_all
  let ?p = "\<lparr>pi_data = (\<lambda>_. 9), pi_nread = 4294967294, pi_nwrite = 4294967295, pi_readopen = True, pi_writeopen = True\<rparr>"
  let ?s = "pipe_state k pt (\<lambda>_. ?p)"
  have p: "pipe_ok ?p" "pipe_queue ?p = [9]" by (simp_all add: pipe_ok_def pipe_len_def pipe_queue_def ring_def)
  have wf: "pt_wf (kend ?s) (pmem ?s) pt" "0 < kend ?s"
    using pt_ok_kend [OF as_ok_pt [OF k(2)]] k(2) by (auto simp: as_ok_def pt_ok_def)
  have u: "uok (pmem ?s) pt (voff 5000 j)" if "j < 3" for j
    using k(4) [of "\<lambda>_. ?p"] that unfolding uok_range_def by (elim allE [of _ "5000 + j"] impE) simp_all
  then have r: "uok_range (pmem ?s) pt 5000 3" by (simp add: uok_range_def)
  have z: "ubytes (pmem ?s) pt 5000 j = 0" if "j < 3" for j
    using ubytes_view [OF r _ that] k(5) by simp
  obtain t where "pipewrite 7 5000 3 [] ?s = Ret (int 3) [] t"
      "pipe_queue (pipes t 7) = pipe_queue (pipes ?s 7) @ map (ubytes (pmem ?s) pt 5000) [0..<3]"
    using pipewrite_appends [OF k(1) k(3) [symmetric] wf, where addr = 5000 and n = 3 and pip = 7 and k = 3 and es = "[]"] u p by auto
  moreover have "map (ubytes (pmem ?s) pt 5000) [0..<3] = [0, 0, 0]" using z by (simp add: upt_rec)
  ultimately show ?thesis using p by (intro exI [of _ ?s] exI [of _ t]) simp
qed

text \<open>
  C26: \<^verbatim>\<open>piperead\<close> takes from the front of the queue. With data or without a writer it returns the
  number of bytes taken, which is \<open>n\<close> or all there are; user memory has these bytes at \<open>addr\<close>, in the
  order they were written, and is otherwise unchanged; the queue has lost just these bytes.
\<close>

theorem piperead_takes:
  assumes "quiet pr {} s" "pt = p_pagetable (procs s pr)" "as_ok xs pt lim s" "user_below (pmem s) pt lim"
    "unat addr + nat (sint n) < 2 ^ 64" "pipe_ok (pipes s pip)" "\<not> pipe_empty (pipes s pip) \<or> \<not> pi_writeopen (pipes s pip)"
    "k = min (nat (sint n)) (length (pipe_queue (pipes s pip)))" "\<forall>j < k. uok (pmem s) pt (voff addr j)"
  shows "\<exists>t. piperead pip addr n es s = Ret (int k) es t \<and> pipe_ok (pipes t pip) \<and>
    pipe_queue (pipes s pip) = take k (pipe_queue (pipes s pip)) @ pipe_queue (pipes t pip) \<and>
    uview (pmem t) pt = copy (unat addr) (\<lambda>j. pipe_queue (pipes s pip) ! j) 0 k (uview (pmem s) pt) \<and>
    (\<forall>q \<noteq> pip. pipes t q = pipes s q) \<and> procs t = wake_table (Ch_nwrite pip) (procs s)"
proof -
  obtain m' where m: "piperead pip addr n es s = Ret (int k) es (pipe_read pip k m' s)"
      "wrote xs pt lim s m' (unat addr) (\<lambda>j. pipe_queue (pipes s pip) ! j) 0 k"
    using piperead_run [OF assms(1-8), of es] assms(9) by auto
  have "pipe_ok ((pipe_drop ^^ k) (pipes s pip)) \<and> pipe_queue ((pipe_drop ^^ k) (pipes s pip)) = drop k (pipe_queue (pipes s pip))"
    using assms(8) by (intro pq.pop_all [OF assms(6)]) simp
  then show ?thesis using m by (simp add: pipe_read_def upd_pipe_def wrote_def)
qed

theorem piperead_takes_witness:
  "\<exists>(s :: kfile) t pt. piperead 7 5000 3 [] s = Ret 2 [] t \<and> pipe_queue (pipes s 7) = [9, 8] \<and>
     uview (pmem t) pt 5000 = 9 \<and> uview (pmem t) pt 5001 = 8 \<and> pipe_queue (pipes t 7) = []"
proof -
  obtain k xs pt where ex: "\<forall>P. quiet 0 {} (pipe_state k pt P) \<and> as_ok xs pt 100 (pipe_state k pt P) \<and> p_pagetable (procs (pipe_state k pt P) 0) = pt \<and>
     user_below (pmem (pipe_state k pt P)) pt 100 \<and> uok_range (pmem (pipe_state k pt P)) pt 0 10000 \<and> uview (pmem (pipe_state k pt P)) pt = (\<lambda>_. 0)"
    using pipe_state_process by (elim exE) (rule that)
  have k: "quiet 0 {} (pipe_state k pt P)" "as_ok xs pt 100 (pipe_state k pt P)" "p_pagetable (procs (pipe_state k pt P) 0) = pt" "uok_range (pmem (pipe_state k pt P)) pt 0 10000" "user_below (pmem (pipe_state k pt P)) pt 100" for P
    using ex [rule_format, of P] by simp_all
  let ?p = "\<lparr>pi_data = (\<lambda>i. if i = 0 then 8 else 9), pi_nread = 4294967295, pi_nwrite = 1, pi_readopen = True, pi_writeopen = True\<rparr>"
  let ?s = "pipe_state k pt (\<lambda>_. ?p)"
  have p: "pipe_ok ?p" "pipe_queue ?p = [9, 8]" "\<not> pipe_empty ?p"
    by (simp_all add: pipe_ok_def pipe_len_def pipe_queue_def ring_def pipe_empty_def upt_rec)
  have u: "uok (pmem ?s) pt (voff 5000 j)" if "j < 2" for j
    using k(4) [of "\<lambda>_. ?p"] that unfolding uok_range_def by (elim allE [of _ "5000 + j"] impE) simp_all
  have us: "\<forall>j < 2. uok (pmem ?s) pt (voff 5000 j)" using u by blast
  have h: "unat (5000 :: u64) + nat (sint (3 :: i32)) < 2 ^ 64" "pipe_ok (pipes ?s 7)" "\<not> pipe_empty (pipes ?s 7) \<or> \<not> pi_writeopen (pipes ?s 7)"
      "2 = min (nat (sint (3 :: i32))) (length (pipe_queue (pipes ?s 7)))"
    using p by simp_all
  obtain t where "piperead 7 5000 3 [] ?s = Ret (int 2) [] t"
      "pipe_queue (pipes ?s 7) = take 2 (pipe_queue (pipes ?s 7)) @ pipe_queue (pipes t 7)"
      "uview (pmem t) pt = copy (unat (5000 :: u64)) (\<lambda>j. pipe_queue (pipes ?s 7) ! j) 0 2 (uview (pmem ?s) pt)"
    using piperead_takes [OF k(1) k(3) [symmetric] k(2,5) h us, of "[]"] by (elim exE conjE) (rule that)
  then show ?thesis using p by (intro exI [of _ ?s] exI [of _ t] exI [of _ pt]) (simp add: copy_def)
qed

end
