(* ===== verification/User.thy ===== *)
theory User
  imports Prelude
begin

text \<open>
  User programs: the monad they run in and the C library (\<^verbatim>\<open>user/ulib.c\<close>, \<^verbatim>\<open>user/printf.c\<close>,
  \<^verbatim>\<open>user/usys.pl\<close>).

  A process sees the rest of the system through its system calls only. A run is therefore given the
  answers it will get, one for each call in order, whatever they are, and produces the calls it makes.
  A program whose next call has no answer waits in that call (\<open>Blocked\<close>); one that calls
  \<^verbatim>\<open>exit\<close> ends (\<open>Exited\<close>); and one that does something C leaves undefined ends with
  \<open>Undef\<close>. A loop around a system call ends at the latest with the answers.

  A NUL-terminated string is the list of its bytes. A list that stands for a buffer may contain NULs, and
  the string functions stop at the first.
\<close>

subsection \<open>System calls\<close>

datatype call =
    C_fork | C_exit int | C_wait | C_pipe | C_read int nat | C_write int "byte list" | C_close int | C_kill int
  | C_exec "byte list" "byte list list" | C_open "byte list" nat | C_mknod "byte list" nat nat | C_unlink "byte list"
  | C_fstat int | C_link "byte list" "byte list" | C_mkdir "byte list" | C_chdir "byte list" | C_dup int
  | C_getpid | C_sbrk i32 | C_sleep int | C_uptime

record stat =
  st_dev :: i32
  st_ino :: u32
  st_type :: u16
  st_nlink :: u16
  st_size :: u64

datatype answer = A_ret int | A_data "byte list" | A_fds int int | A_stat stat | A_addr u64

record world =
  answers :: "answer list"
  calls :: "call list"

datatype 'a ures = Go 'a world | Exited int world | Blocked world | Undef string

type_synonym 'a um = "world \<Rightarrow> 'a ures"

definition uret :: "'a \<Rightarrow> 'a um" where
  "uret a w = Go a w"

definition ubind :: "'a um \<Rightarrow> ('a \<Rightarrow> 'b um) \<Rightarrow> 'b um" where
  "ubind m f w = (case m w of Go a w' \<Rightarrow> f a w' | Exited n w' \<Rightarrow> Exited n w' | Blocked w' \<Rightarrow> Blocked w' | Undef msg \<Rightarrow> Undef msg)"

definition useq :: "'a um \<Rightarrow> 'b um \<Rightarrow> 'b um" where
  "useq m n = ubind m (\<lambda>_. n)"

definition uundef :: "string \<Rightarrow> 'a um" where
  "uundef msg w = Undef msg"

fun ueach :: "'i list \<Rightarrow> ('i \<Rightarrow> unit um) \<Rightarrow> unit um" where
  "ueach [] f = uret ()"
| "ueach (x # xs) f = useq (f x) (ueach xs f)"

definition sys :: "call \<Rightarrow> answer um" where
  "sys c w = (case answers w of
     [] \<Rightarrow> Blocked (w\<lparr>calls := calls w @ [c]\<rparr>)
   | a # as \<Rightarrow> Go a \<lparr>answers = as, calls = calls w @ [c]\<rparr>)"

definition exit :: "int \<Rightarrow> 'a um" where
  "exit n w = Exited n (w\<lparr>calls := calls w @ [C_exit n]\<rparr>)"

text \<open>The value in \<^verbatim>\<open>a0\<close>: an answer of the wrong kind is a failed call.\<close>

fun ret_of :: "answer \<Rightarrow> int" where
  "ret_of (A_ret n) = n"
| "ret_of (A_data d) = int (length d)"
| "ret_of (A_fds a b) = 0"
| "ret_of (A_stat x) = 0"
| "ret_of (A_addr a) = -1"

definition syscall :: "call \<Rightarrow> int um" where
  "syscall c = ubind (sys c) (\<lambda>a. uret (ret_of a))"

definition read :: "int \<Rightarrow> nat \<Rightarrow> (int \<times> byte list) um" where
  "read fd n = ubind (sys (C_read fd n)) (\<lambda>a. case a of
     A_data d \<Rightarrow> uret (int (length (take n d)), take n d)
   | _ \<Rightarrow> uret (-1, []))"

definition uwrite :: "int \<Rightarrow> byte list \<Rightarrow> int um" where
  "uwrite fd d = syscall (C_write fd d)"

definition fstat :: "int \<Rightarrow> stat option um" where
  "fstat fd = ubind (sys (C_fstat fd)) (\<lambda>a. case a of A_stat x \<Rightarrow> uret (Some x) | _ \<Rightarrow> uret None)"

definition pipe :: "(int \<times> int) option um" where
  "pipe = ubind (sys C_pipe) (\<lambda>a. case a of A_fds r w \<Rightarrow> uret (Some (r, w)) | _ \<Rightarrow> uret None)"

definition sbrk :: "i32 \<Rightarrow> u64 um" where
  "sbrk n = ubind (sys (C_sbrk n)) (\<lambda>a. case a of A_addr p \<Rightarrow> uret p | _ \<Rightarrow> uret (-1))"

subsection \<open>ulib.c\<close>

fun strlen :: "byte list \<Rightarrow> nat" where
  "strlen [] = 0"
| "strlen (c # s) = (if c = 0 then 0 else Suc (strlen s))"

fun strcpy :: "byte list \<Rightarrow> byte list" where
  "strcpy [] = []"
| "strcpy (c # t) = (if c = 0 then [] else c # strcpy t)"

fun strcmp :: "byte list \<Rightarrow> byte list \<Rightarrow> int" where
  "strcmp [] q = 0 - uint (case q of [] \<Rightarrow> 0 | d # _ \<Rightarrow> d)"
| "strcmp (c # p) q =
     (case q of
        [] \<Rightarrow> uint c
      | d # q' \<Rightarrow> if c \<noteq> 0 \<and> c = d then strcmp p q' else uint c - uint d)"

fun strchr :: "byte list \<Rightarrow> byte \<Rightarrow> nat option" where
  "strchr [] c = None"
| "strchr (x # s) c = (if x = 0 then None else if x = c then Some 0 else map_option Suc (strchr s c))"

fun memset :: "nat \<Rightarrow> byte \<Rightarrow> nat \<Rightarrow> bytes \<Rightarrow> bytes" where
  "memset dst c 0 m = m"
| "memset dst c (Suc n) m = (memset dst c n m)(dst + n := c)"

text \<open>The loop of \<^verbatim>\<open>gets\<close>: \<open>n\<close> bytes of room left, \<open>buf\<close> read so far.\<close>

fun gets_loop :: "nat \<Rightarrow> byte list \<Rightarrow> byte list um" where
  "gets_loop 0 buf = uret buf"
| "gets_loop (Suc n) buf =
     ubind (read 0 1) (\<lambda>(cc, d).
     if cc < 1 then uret buf
     else let c = hd d in
       if c = 10 \<or> c = 13 then uret (buf @ [c]) else gets_loop n (buf @ [c]))"

definition gets :: "nat \<Rightarrow> byte list um" where
  "gets mx = gets_loop (mx - 1) []"

definition stat_of :: "byte list \<Rightarrow> stat option um" where
  "stat_of n =
     ubind (syscall (C_open n 0)) (\<lambda>fd.
     if fd < 0 then uret None
     else ubind (fstat fd) (\<lambda>r. useq (syscall (C_close fd)) (uret r)))"

text \<open>\<^verbatim>\<open>atoi\<close> computes in \<^verbatim>\<open>int\<close>; a number that does not fit is undefined behaviour in C and wraps on the machine.\<close>

fun atoi_loop :: "i32 \<Rightarrow> byte list \<Rightarrow> i32" where
  "atoi_loop n [] = n"
| "atoi_loop n (c # s) = (if 48 \<le> c \<and> c \<le> 57 then atoi_loop (n * 10 + ucast c - 48) s else n)"

definition atoi :: "byte list \<Rightarrow> i32" where
  "atoi s = atoi_loop 0 s"

text \<open>
  \<^verbatim>\<open>itoa\<close>: the digits, least significant first, then the sign, then the reversal in place. Negating the
  smallest \<^verbatim>\<open>int\<close> is undefined, and then so is the result.
\<close>

function itoa_digits :: "nat \<Rightarrow> nat \<Rightarrow> bytes \<Rightarrow> bytes \<times> nat" where
  "itoa_digits n i s =
     (let s' = s(i := word_of_nat (n mod 10 + 48))
      in if n div 10 > 0 then itoa_digits (n div 10) (Suc i) s' else (s', Suc i))"
  by pat_completeness auto
termination
  by (relation "measure (\<lambda>(n, i, s). n)") auto

declare itoa_digits.simps [simp del]

fun itoa_swap :: "nat \<Rightarrow> nat \<Rightarrow> nat \<Rightarrow> bytes \<Rightarrow> bytes" where
  "itoa_swap 0 j i s = s"
| "itoa_swap (Suc k) j i s = itoa_swap k (Suc j) i (s(j := s (i - j - 1), i - j - 1 := s j))"

definition itoa :: "i32 \<Rightarrow> bytes \<Rightarrow> bytes option" where
  "itoa n s =
     (if sint n = - (2 ^ 31) then None
      else
        let is_negative = (sint n < 0);
            (s1, i1) = itoa_digits (nat \<bar>sint n\<bar>) 0 s;
            (s2, i2) = (if is_negative then (s1(i1 := 45), Suc i1) else (s1, i1));
            s3 = s2(i2 := 0)
        in Some (itoa_swap (i2 div 2) 0 i2 s3))"

fun move_up :: "nat \<Rightarrow> nat \<Rightarrow> nat \<Rightarrow> bytes \<Rightarrow> bytes" where
  "move_up d s 0 m = m"
| "move_up d s (Suc n) m = move_up (Suc d) (Suc s) n (m(d := m s))"

fun move_down :: "nat \<Rightarrow> nat \<Rightarrow> nat \<Rightarrow> bytes \<Rightarrow> bytes" where
  "move_down d s 0 m = m"
| "move_down d s (Suc n) m = move_down (d - 1) (s - 1) n (m(d - 1 := m (s - 1)))"

definition memmove :: "nat \<Rightarrow> nat \<Rightarrow> int \<Rightarrow> bytes \<Rightarrow> bytes" where
  "memmove dst src n m =
     (if src > dst then move_up dst src (nat n) m
      else move_down (nat (int dst + n)) (nat (int src + n)) (nat n) m)"

fun memcmp :: "nat \<Rightarrow> nat \<Rightarrow> nat \<Rightarrow> bytes \<Rightarrow> int" where
  "memcmp s1 s2 0 m = 0"
| "memcmp s1 s2 (Suc n) m = (if m s1 \<noteq> m s2 then uint (m s1) - uint (m s2) else memcmp (Suc s1) (Suc s2) n m)"

definition memcpy :: "nat \<Rightarrow> nat \<Rightarrow> u32 \<Rightarrow> bytes \<Rightarrow> bytes" where
  "memcpy dst src n m = memmove dst src (sint n) m"

subsection \<open>printf.c\<close>

definition str :: "string \<Rightarrow> byte list" where
  "str s = map of_char s"

definition digits :: "byte list" where
  "digits = str ''0123456789ABCDEF''"

definition putc :: "int \<Rightarrow> byte \<Rightarrow> unit um" where
  "putc fd c = useq (uwrite fd [c]) (uret ())"

text \<open>The bytes that \<^verbatim>\<open>printint\<close> puts into its buffer, least significant digit first.\<close>

function int_digits :: "nat \<Rightarrow> nat \<Rightarrow> byte list" where
  "int_digits base x =
     (if x div base = 0 \<or> base < 2 then [digits ! (x mod base)]
      else digits ! (x mod base) # int_digits base (x div base))"
  by pat_completeness auto
termination
  by (relation "measure (\<lambda>(base, x). x)") (auto intro!: div_less_dividend gr0I)

declare int_digits.simps [simp del]

definition printint :: "int \<Rightarrow> i32 \<Rightarrow> nat \<Rightarrow> bool \<Rightarrow> unit um" where
  "printint fd xx base sg =
     (let neg = (sg \<and> sint xx < 0);
          x = (if neg then - xx else xx)
      in ueach (rev (int_digits base (unat x) @ (if neg then [45] else []))) (putc fd))"

definition printptr :: "int \<Rightarrow> u64 \<Rightarrow> unit um" where
  "printptr fd x =
     useq (putc fd 48) (useq (putc fd 120)
       (ueach [0..<16] (\<lambda>i. putc fd (digits ! unat (drop_bit 60 (push_bit (4 * i) x))))))"

datatype uarg = U_int i32 | U_long u64 | U_ptr u64 | U_str "byte list option" | U_chr u32

text \<open>An argument that is missing or of another type is undefined behaviour.\<close>

fun vprintf :: "int \<Rightarrow> byte list \<Rightarrow> uarg list \<Rightarrow> unit um" where
  "vprintf fd [] ap = uret ()"
| "vprintf fd (c # fmt) ap =
     (if c \<noteq> 37 then useq (putc fd c) (vprintf fd fmt ap)
      else case fmt of
        [] \<Rightarrow> uret ()
      | d # fmt' \<Rightarrow>
          if d = 100 then
            (case ap of U_int x # as \<Rightarrow> useq (printint fd x 10 True) (vprintf fd fmt' as) | _ \<Rightarrow> uundef ''va_arg'')
          else if d = 108 then
            (case ap of U_long x # as \<Rightarrow> useq (printint fd (ucast x) 10 False) (vprintf fd fmt' as) | _ \<Rightarrow> uundef ''va_arg'')
          else if d = 120 then
            (case ap of U_int x # as \<Rightarrow> useq (printint fd x 16 False) (vprintf fd fmt' as) | _ \<Rightarrow> uundef ''va_arg'')
          else if d = 112 then
            (case ap of U_ptr x # as \<Rightarrow> useq (printptr fd x) (vprintf fd fmt' as) | _ \<Rightarrow> uundef ''va_arg'')
          else if d = 115 then
            (case ap of
               U_str so # as \<Rightarrow> useq (ueach (strcpy (case so of None \<Rightarrow> str ''(null)'' | Some t \<Rightarrow> t)) (putc fd)) (vprintf fd fmt' as)
             | _ \<Rightarrow> uundef ''va_arg'')
          else if d = 99 then
            (case ap of U_chr x # as \<Rightarrow> useq (putc fd (ucast x)) (vprintf fd fmt' as) | _ \<Rightarrow> uundef ''va_arg'')
          else if d = 37 then useq (putc fd d) (vprintf fd fmt' ap)
          else useq (putc fd 37) (useq (putc fd d) (vprintf fd fmt' ap)))"

definition fprintf :: "int \<Rightarrow> byte list \<Rightarrow> uarg list \<Rightarrow> unit um" where
  "fprintf fd fmt ap = vprintf fd fmt ap"

definition printf :: "byte list \<Rightarrow> uarg list \<Rightarrow> unit um" where
  "printf fmt ap = vprintf 1 fmt ap"

abbreviation ln :: "string \<Rightarrow> byte list" where
  "ln s \<equiv> str s @ [10]"

end
