(* ===== verification/Progs.thy ===== *)
theory Progs
  imports User
begin

text \<open>
  The small user programs (\<^verbatim>\<open>user/cat.c\<close>, \<^verbatim>\<open>user/echo.c\<close>, \<^verbatim>\<open>user/wc.c\<close>, \<^verbatim>\<open>user/ls.c\<close>,
  \<^verbatim>\<open>user/find.c\<close>, \<^verbatim>\<open>user/kill.c\<close>, \<^verbatim>\<open>user/ln.c\<close>, \<^verbatim>\<open>user/mkdir.c\<close>, \<^verbatim>\<open>user/rm.c\<close>, \<^verbatim>\<open>user/sleep.c\<close>,
  \<^verbatim>\<open>user/pingpong.c\<close>, \<^verbatim>\<open>user/init.c\<close>, \<^verbatim>\<open>user/zombie.c\<close>, \<^verbatim>\<open>user/forktest.c\<close>, \<^verbatim>\<open>user/stressfs.c\<close>).
  The arguments of \<^verbatim>\<open>main\<close> are the list \<^verbatim>\<open>argv\<close>; \<^verbatim>\<open>argc\<close> is its length.
\<close>

subsection \<open>Loops\<close>

text \<open>
  A loop whose every iteration makes a system call: it ends with the answers. The test that the answers
  got fewer holds for the bodies below and makes the recursion well-founded.
\<close>

function uloop :: "('s \<Rightarrow> ('s + 'r) um) \<Rightarrow> 's \<Rightarrow> 'r um" where
  "uloop body s w =
     (case body s w of
        Go (Inr r) w' \<Rightarrow> Go r w'
      | Go (Inl s') w' \<Rightarrow> if length (answers w') < length (answers w) then uloop body s' w' else Undef ''no progress''
      | Exited n w' \<Rightarrow> Exited n w'
      | Blocked w' \<Rightarrow> Blocked w'
      | Undef msg \<Rightarrow> Undef msg)"
  by pat_completeness auto
termination
  by (relation "measure (\<lambda>(body, s, w). length (answers w))") auto

declare uloop.simps [simp del]

lemma uloop_next:
  "body s w = Go (Inl s') w' \<Longrightarrow> length (answers w') < length (answers w) \<Longrightarrow> uloop body s w = uloop body s' w'"
  by (subst uloop.simps) simp

lemma uloop_done: "body s w = Go (Inr r) w' \<Longrightarrow> uloop body s w = Go r w'"
  by (subst uloop.simps) simp

text \<open>\<^verbatim>\<open>for\<close> over the arguments, left by \<open>False\<close>.\<close>

fun uwhile :: "'i list \<Rightarrow> ('i \<Rightarrow> bool um) \<Rightarrow> unit um" where
  "uwhile [] f = uret ()"
| "uwhile (x # xs) f = ubind (f x) (\<lambda>go. if go then uwhile xs f else uret ())"

subsection \<open>cat.c\<close>

definition cat :: "int \<Rightarrow> unit um" where
  "cat fd =
     ubind (uloop (\<lambda>_. ubind (read fd 512) (\<lambda>(n, d).
              if n > 0 then
                ubind (uwrite 1 d) (\<lambda>m.
                if m \<noteq> n then useq (fprintf 2 (ln ''cat: write error'') []) (exit 1) else uret (Inl ()))
              else uret (Inr n))) ()) (\<lambda>n.
     if n < 0 then useq (fprintf 2 (ln ''cat: read error'') []) (exit 1) else uret ())"

definition cat_main :: "byte list list \<Rightarrow> unit um" where
  "cat_main argv =
     (if length argv \<le> 1 then useq (cat 0) (exit 0)
      else useq (ueach (drop 1 argv) (\<lambda>a.
             ubind (syscall (C_open a 0)) (\<lambda>fd.
             if fd < 0 then useq (fprintf 2 (ln ''cat: cannot open %s'') [U_str (Some a)]) (exit 1)
             else useq (cat fd) (useq (syscall (C_close fd)) (uret ())))))
           (exit 0))"

subsection \<open>echo.c\<close>

fun echo_args :: "byte list list \<Rightarrow> unit um" where
  "echo_args [] = uret ()"
| "echo_args (a # as) =
     useq (uwrite 1 (strcpy a))
     (useq (uwrite 1 (if as \<noteq> [] then [32] else [10])) (echo_args as))"

definition echo_main :: "byte list list \<Rightarrow> unit um" where
  "echo_main argv = useq (echo_args (drop 1 argv)) (exit 0)"

subsection \<open>wc.c\<close>

record counts =
  c_l :: i32
  c_w :: i32
  c_c :: i32
  c_inword :: bool

definition wc_byte :: "byte \<Rightarrow> counts \<Rightarrow> counts" where
  "wc_byte b k =
     (let k1 = k\<lparr>c_c := c_c k + 1\<rparr>;
          k2 = (if b = 10 then k1\<lparr>c_l := c_l k1 + 1\<rparr> else k1)
      in if strchr [32, 13, 9, 10, 11] b \<noteq> None then k2\<lparr>c_inword := False\<rparr>
         else if \<not> c_inword k2 then k2\<lparr>c_w := c_w k2 + 1, c_inword := True\<rparr>
         else k2)"

definition wc :: "int \<Rightarrow> byte list \<Rightarrow> unit um" where
  "wc fd name =
     ubind (uloop (\<lambda>k. ubind (read fd 512) (\<lambda>(n, d).
              if n > 0 then uret (Inl (fold wc_byte d k)) else uret (Inr (n, k))))
            \<lparr>c_l = 0, c_w = 0, c_c = 0, c_inword = False\<rparr>) (\<lambda>(n, k).
     if n < 0 then useq (printf (ln ''wc: read error'') []) (exit 1)
     else printf (ln ''%d %d %d %s'') [U_int (c_l k), U_int (c_w k), U_int (c_c k), U_str (Some name)])"

definition wc_main :: "byte list list \<Rightarrow> unit um" where
  "wc_main argv =
     (if length argv \<le> 1 then useq (wc 0 []) (exit 0)
      else useq (ueach (drop 1 argv) (\<lambda>a.
             ubind (syscall (C_open a 0)) (\<lambda>fd.
             if fd < 0 then useq (printf (ln ''wc: cannot open %s'') [U_str (Some a)]) (exit 1)
             else useq (wc fd a) (useq (syscall (C_close fd)) (uret ())))))
           (exit 0))"

subsection \<open>kill.c, ln.c, mkdir.c, rm.c, sleep.c, zombie.c\<close>

definition kill_main :: "byte list list \<Rightarrow> unit um" where
  "kill_main argv =
     (if length argv < 2 then useq (fprintf 2 (ln ''usage: kill pid...'') []) (exit 1)
      else useq (ueach (drop 1 argv) (\<lambda>a. useq (syscall (C_kill (sint (atoi a)))) (uret ()))) (exit 0))"

definition ln_main :: "byte list list \<Rightarrow> unit um" where
  "ln_main argv =
     (if length argv \<noteq> 3 then useq (fprintf 2 (ln ''Usage: ln old new'') []) (exit 1)
      else
        ubind (syscall (C_link (argv ! 1) (argv ! 2))) (\<lambda>r.
        useq (if r < 0 then fprintf 2 (ln ''link %s %s: failed'') [U_str (Some (argv ! 1)), U_str (Some (argv ! 2))] else uret ())
             (exit 0)))"

definition mkdir_main :: "byte list list \<Rightarrow> unit um" where
  "mkdir_main argv =
     (if length argv < 2 then useq (fprintf 2 (ln ''Usage: mkdir files...'') []) (exit 1)
      else useq (uwhile (drop 1 argv) (\<lambda>a.
             ubind (syscall (C_mkdir a)) (\<lambda>r.
             if r < 0 then useq (fprintf 2 (ln ''mkdir: %s failed to create'') [U_str (Some a)]) (uret False) else uret True)))
           (exit 0))"

definition rm_main :: "byte list list \<Rightarrow> unit um" where
  "rm_main argv =
     (if length argv < 2 then useq (fprintf 2 (ln ''Usage: rm files...'') []) (exit 1)
      else useq (uwhile (drop 1 argv) (\<lambda>a.
             ubind (syscall (C_unlink a)) (\<lambda>r.
             if r < 0 then useq (fprintf 2 (ln ''rm: %s failed to delete'') [U_str (Some a)]) (uret False) else uret True)))
           (exit 0))"

definition sleep_main :: "byte list list \<Rightarrow> unit um" where
  "sleep_main argv =
     (if length argv \<noteq> 2 then useq (printf (ln ''Sleep needs one argument'') []) (exit 1)
      else
        useq (syscall (C_sleep (sint (atoi (argv ! 1)))))
        (useq (printf (ln ''nothing happens for a little while)'') []) (exit 0)))"

definition zombie_main :: "unit um" where
  "zombie_main =
     ubind (syscall C_fork) (\<lambda>pid.
     useq (if pid > 0 then useq (syscall (C_sleep 5)) (uret ()) else uret ()) (exit 0))"

subsection \<open>pingpong.c\<close>

definition int_bytes :: "int \<Rightarrow> byte list" where
  "int_bytes n = map (\<lambda>i. word_of_int (n div 256 ^ i)) [0..<4]"

definition bytes_int :: "byte list \<Rightarrow> i32" where
  "bytes_int d = word_of_nat (\<Sum>i<4. unat (d ! i) * 256 ^ i)"

definition pingpong_main :: "unit um" where
  "pingpong_main =
     ubind pipe (\<lambda>f2c.
     ubind (case f2c of None \<Rightarrow> uret None | Some _ \<Rightarrow> pipe) (\<lambda>c2f.
     case (f2c, c2f) of
       (Some (f2c0, f2c1), Some (c2f0, c2f1)) \<Rightarrow>
         ubind (syscall C_getpid) (\<lambda>father_pid.
         ubind (syscall C_fork) (\<lambda>pid.
         if pid < 0 then useq (fprintf 2 (ln ''pingpong: fork failed'') []) (exit 1)
         else if pid = 0 then
           useq (syscall (C_close f2c1))
           (useq (syscall (C_close c2f0))
           (ubind (read f2c0 4) (\<lambda>(n, d).
            if n \<noteq> 4 then useq (fprintf 2 (ln ''child: read failed'') []) (exit 1)
            else
              ubind (syscall C_getpid) (\<lambda>me.
              useq (printf (ln ''%d: received ping from pid %d'') [U_int (word_of_int me), U_int (bytes_int d)])
              (ubind (syscall C_getpid) (\<lambda>child_pid.
               ubind (uwrite c2f1 (int_bytes child_pid)) (\<lambda>m.
               if m \<noteq> 4 then useq (fprintf 2 (ln ''child: write failed'') []) (exit 1)
               else
                 useq (syscall (C_close f2c0))
                 (useq (syscall (C_close c2f1)) (exit 0)))))))))
         else
           useq (syscall (C_close f2c0))
           (useq (syscall (C_close c2f1))
           (ubind (uwrite f2c1 (int_bytes father_pid)) (\<lambda>m.
            if m \<noteq> 4 then useq (fprintf 2 (ln ''parent: write failed'') []) (exit 1)
            else
              useq (syscall (C_close f2c1))
              (ubind (read c2f0 4) (\<lambda>(n, d).
               if n \<noteq> 4 then useq (fprintf 2 (ln ''parent: read failed'') []) (exit 1)
               else
                 ubind (syscall C_getpid) (\<lambda>me.
                 useq (printf (ln ''%d: received pong from pid %d'') [U_int (word_of_int me), U_int (bytes_int d)])
                 (useq (syscall (C_close c2f0))
                 (useq (syscall C_wait) (exit 0)))))))))))
     | _ \<Rightarrow> useq (fprintf 2 (ln ''pingpong: pipe failed'') []) (exit 1)))"

subsection \<open>init.c\<close>

text \<open>The inner loop waits until the shell with process number \<open>pid\<close> has exited.\<close>

definition init_wait :: "int \<Rightarrow> unit um" where
  "init_wait pid =
     uloop (\<lambda>_. ubind (syscall C_wait) (\<lambda>wpid.
       if wpid = pid then uret (Inr ())
       else if wpid < 0 then useq (printf (ln ''init: wait returned an error'') []) (exit 1)
       else uret (Inl ()))) ()"

definition init_main :: "unit um" where
  "init_main =
     ubind (syscall (C_open (str ''console'') 2)) (\<lambda>fd.
     useq (if fd < 0
           then useq (syscall (C_mknod (str ''console'') 1 0)) (useq (syscall (C_open (str ''console'') 2)) (uret ()))
           else uret ())
     (useq (syscall (C_dup 0))
     (useq (syscall (C_dup 0))
     (uloop (\<lambda>_.
        useq (printf (ln ''init: starting sh'') [])
        (ubind (syscall C_fork) (\<lambda>pid.
         if pid < 0 then useq (printf (ln ''init: fork failed'') []) (exit 1)
         else if pid = 0 then
           useq (syscall (C_exec (str ''sh'') [str ''sh'']))
           (useq (printf (ln ''init: exec sh failed'') []) (exit 1))
         else useq (init_wait pid) (uret (Inl ()))))) ()))))"

text \<open>\<^verbatim>\<open>user/initcode.S\<close>: the first program, which the first process is created with.\<close>

definition initcode_main :: "unit um" where
  "initcode_main = ubind (syscall (C_exec (str ''/init'') [str ''/init''])) (\<lambda>r. exit r)"

subsection \<open>forktest.c\<close>

definition print :: "byte list \<Rightarrow> unit um" where
  "print s = useq (uwrite 1 (strcpy s)) (uret ())"

text \<open>The fork loop returns \<^verbatim>\<open>n\<close>; its child exits at once.\<close>

fun forktest_loop :: "nat \<Rightarrow> nat \<Rightarrow> nat um" where
  "forktest_loop 0 n = uret n"
| "forktest_loop (Suc k) n =
     ubind (syscall C_fork) (\<lambda>pid.
     if pid < 0 then uret n else if pid = 0 then exit 0 else forktest_loop k (Suc n))"

definition forktest :: "unit um" where
  "forktest =
     useq (print (ln ''fork test''))
     (ubind (forktest_loop 1000 0) (\<lambda>n.
      if n = 1000 then useq (print (ln ''fork claimed to work N times!'')) (exit 1)
      else
        useq (ueach [0..<n] (\<lambda>_. ubind (syscall C_wait) (\<lambda>r.
                if r < 0 then useq (print (ln ''wait stopped early'')) (exit 1) else uret ())))
        (ubind (syscall C_wait) (\<lambda>r.
         if r \<noteq> -1 then useq (print (ln ''wait got too many'')) (exit 1)
         else print (ln ''fork test OK'')))))"

definition forktest_main :: "unit um" where
  "forktest_main = useq forktest (exit 0)"

subsection \<open>stressfs.c\<close>

fun stressfs_forks :: "nat \<Rightarrow> nat \<Rightarrow> nat um" where
  "stressfs_forks 0 i = uret i"
| "stressfs_forks (Suc k) i =
     ubind (syscall C_fork) (\<lambda>pid. if pid > 0 then uret i else stressfs_forks k (Suc i))"

definition stressfs_main :: "unit um" where
  "stressfs_main =
     useq (printf (ln ''stressfs starting'') [])
     (ubind (stressfs_forks 4 0) (\<lambda>i.
      useq (printf (ln ''write %d'') [U_int (word_of_nat i)])
      (let path = str ''stressfs'' @ [48 + word_of_nat i]; data = replicate 512 97 in
       ubind (syscall (C_open path 0x202)) (\<lambda>fd.
       useq (ueach [0..<20] (\<lambda>_. useq (uwrite fd data) (uret ())))
       (useq (syscall (C_close fd))
       (useq (printf (ln ''read'') [])
       (ubind (syscall (C_open path 0)) (\<lambda>fd.
        useq (ueach [0..<20] (\<lambda>_. useq (read fd 512) (uret ())))
        (useq (syscall (C_close fd))
        (useq (syscall C_wait) (exit 0)))))))))))"

subsection \<open>Directory entries\<close>

definition de_inum :: "byte list \<Rightarrow> nat" where
  "de_inum d = unat (d ! 0) + 256 * unat (d ! 1)"

text \<open>The name as a string: \<^verbatim>\<open>DIRSIZ\<close> bytes with a NUL put behind them.\<close>

definition de_name :: "byte list \<Rightarrow> byte list" where
  "de_name d = strcpy (take 14 (drop 2 d))"

abbreviation (input) T_DIR :: u16 where "T_DIR \<equiv> 1"
abbreviation (input) T_FILE :: u16 where "T_FILE \<equiv> 2"

subsection \<open>ls.c\<close>

text \<open>The part of a path after its last slash, and that part padded with blanks.\<close>

definition last_part :: "byte list \<Rightarrow> byte list" where
  "last_part path = rev (takeWhile (\<lambda>c. c \<noteq> 47) (rev path))"

definition fmtname :: "byte list \<Rightarrow> byte list" where
  "fmtname path =
     (let p = last_part (strcpy path)
      in if length p \<ge> 14 then p else p @ replicate (14 - length p) 32)"

definition ls :: "byte list \<Rightarrow> unit um" where
  "ls path =
     ubind (syscall (C_open path 0)) (\<lambda>fd.
     if fd < 0 then fprintf 2 (ln ''ls: cannot open %s'') [U_str (Some path)]
     else
       ubind (fstat fd) (\<lambda>r.
       case r of
         None \<Rightarrow> useq (fprintf 2 (ln ''ls: cannot stat %s'') [U_str (Some path)]) (useq (syscall (C_close fd)) (uret ()))
       | Some x \<Rightarrow>
           useq
             (if st_type x = T_FILE then
                printf (ln ''%s %d %d %l'') [U_str (Some (fmtname path)), U_int (scast (st_type x)), U_int (st_ino x), U_long (st_size x)]
              else if st_type x = T_DIR then
                (if strlen path + 1 + 14 + 1 > 512 then printf (ln ''ls: path too long'') []
                 else
                   uloop (\<lambda>_. ubind (read fd 16) (\<lambda>(n, d).
                     if n \<noteq> 16 then uret (Inr ())
                     else if de_inum d = 0 then uret (Inl ())
                     else
                       (let buf = strcpy path @ [47] @ de_name d in
                        ubind (stat_of buf) (\<lambda>r.
                        case r of
                          None \<Rightarrow> useq (printf (ln ''ls: cannot stat %s'') [U_str (Some buf)]) (uret (Inl ()))
                        | Some y \<Rightarrow>
                            useq (printf (ln ''%s %d %d %d'')
                                   [U_str (Some (fmtname buf)), U_int (scast (st_type y)), U_int (st_ino y), U_int (ucast (st_size y))])
                                 (uret (Inl ())))))) ())
              else uret ())
             (useq (syscall (C_close fd)) (uret ()))))"

definition ls_main :: "byte list list \<Rightarrow> unit um" where
  "ls_main argv =
     (if length argv < 2 then useq (ls (str ''.'')) (exit 0)
      else useq (ueach (drop 1 argv) ls) (exit 0))"

subsection \<open>find.c\<close>

definition basename_trim :: "byte list \<Rightarrow> byte list" where
  "basename_trim path =
     (let r = dropWhile (\<lambda>c. c = 47) (rev (strcpy path))
      in if r = [] then [47] else take 14 (rev (takeWhile (\<lambda>c. c \<noteq> 47) r)))"

definition print_match :: "byte list \<Rightarrow> unit um" where
  "print_match fullpath = printf (ln ''%s'') [U_str (Some fullpath)]"

text \<open>
  \<^verbatim>\<open>do_find\<close> calls itself for every directory. Each level lengthens the path by at least a slash and a name,
  and a path that leaves no room in the buffer of 512 bytes is not entered, so that 512 levels are more
  than enough; running out of them is reported as such.
\<close>

fun do_find :: "nat \<Rightarrow> byte list \<Rightarrow> byte list \<Rightarrow> unit um" where
  "do_find 0 path target = uundef ''stack''"
| "do_find (Suc k) path target =
     ubind (syscall (C_open path 0)) (\<lambda>fd.
     if fd < 0 then uret ()
     else
       ubind (fstat fd) (\<lambda>r.
       case r of
         None \<Rightarrow> useq (syscall (C_close fd)) (uret ())
       | Some x \<Rightarrow>
           if st_type x = T_FILE then
             useq (if strcmp (basename_trim path) target = 0 then print_match path else uret ())
                  (useq (syscall (C_close fd)) (uret ()))
           else if st_type x = T_DIR then
             (if strlen path + 1 + 14 + 1 > 512 then useq (syscall (C_close fd)) (uret ())
              else
                (let prefix = (if strcpy path = [] \<or> last (strcpy path) \<noteq> 47 then strcpy path @ [47] else strcpy path) in
                 useq
                   (uloop (\<lambda>_. ubind (read fd 16) (\<lambda>(n, d).
                      if n \<noteq> 16 then uret (Inr ())
                      else if de_inum d = 0 then uret (Inl ())
                      else
                        (let name = de_name d in
                         if strcmp name [46] = 0 \<or> strcmp name [46, 46] = 0 then uret (Inl ())
                         else
                           (let buf = prefix @ name in
                            ubind (stat_of buf) (\<lambda>r2.
                            case r2 of
                              None \<Rightarrow> uret (Inl ())
                            | Some y \<Rightarrow>
                                useq (if strcmp name target = 0 then print_match buf else uret ())
                                (useq (if st_type y = T_DIR then do_find k buf target else uret ())
                                      (uret (Inl ())))))))) ())
                   (useq (syscall (C_close fd)) (uret ()))))
           else useq (syscall (C_close fd)) (uret ())))"

definition find_main :: "byte list list \<Rightarrow> unit um" where
  "find_main argv =
     (if length argv \<noteq> 3 then useq (fprintf 2 (ln ''usage: find <path> <name>'') []) (exit 1)
      else useq (do_find 512 (argv ! 1) (argv ! 2)) (exit 0))"

end
