(* ===== verification/Grep.thy ===== *)
theory Grep
  imports Progs
begin

text \<open>
  \<^verbatim>\<open>user/grep.c\<close>: the matcher of Kernighan and Pike, and the loop that reads a file in pieces and writes
  the lines that match. Pattern and line are strings without NULs. The lemmas relate the matcher to the
  language of the pattern.
\<close>

subsection \<open>The matcher\<close>

text \<open>The loop of \<^verbatim>\<open>matchstar\<close> is given the match of the rest of the pattern.\<close>

fun star_loop :: "byte \<Rightarrow> (byte list \<Rightarrow> bool) \<Rightarrow> byte list \<Rightarrow> bool" where
  "star_loop c rest [] = rest []"
| "star_loop c rest (t # text) = (if rest (t # text) then True else if t = c \<or> c = 46 then star_loop c rest text else False)"

fun matchhere :: "byte list \<Rightarrow> byte list \<Rightarrow> bool" where
  "matchhere [] text = True"
| "matchhere (r0 # re) text =
     (case re of
        r1 # re' \<Rightarrow>
          if r1 = 42 then star_loop r0 (matchhere re') text
          else (case text of t # text' \<Rightarrow> (r0 = 46 \<or> r0 = t) \<and> matchhere re text' | [] \<Rightarrow> False)
      | [] \<Rightarrow>
          if r0 = 36 then text = []
          else (case text of t # text' \<Rightarrow> (r0 = 46 \<or> r0 = t) \<and> matchhere re text' | [] \<Rightarrow> False))"

definition matchstar :: "byte \<Rightarrow> byte list \<Rightarrow> byte list \<Rightarrow> bool" where
  "matchstar c re text = star_loop c (matchhere re) text"

fun match_loop :: "byte list \<Rightarrow> byte list \<Rightarrow> bool" where
  "match_loop re [] = matchhere re []"
| "match_loop re (t # text) = (if matchhere re (t # text) then True else match_loop re text)"

definition match :: "byte list \<Rightarrow> byte list \<Rightarrow> bool" where
  "match re text = (case re of [] \<Rightarrow> match_loop re text | r0 # re' \<Rightarrow> if r0 = 94 then matchhere re' text else match_loop re text)"

subsection \<open>The program\<close>

text \<open>
  One pass over the bytes in the buffer: every complete line is matched, and written with its newline if
  it matches; what is left is returned. A NUL hides the rest of the buffer from \<^verbatim>\<open>strchr\<close>.
\<close>

function grep_lines :: "byte list \<Rightarrow> byte list \<Rightarrow> byte list um" where
  "grep_lines pattern p =
     (case strchr p 10 of
        None \<Rightarrow> uret p
      | Some q \<Rightarrow>
          if q < length p then
            useq (if match pattern (take q p) then useq (uwrite 1 (take (Suc q) p)) (uret ()) else uret ())
                 (grep_lines pattern (drop (Suc q) p))
          else uundef ''strchr'')"
  by pat_completeness auto
termination
  by (relation "measure (\<lambda>(pattern, p). length p)") auto

declare grep_lines.simps [simp del]

text \<open>One iteration of the reading loop, with the bytes of an incomplete line at the start of the buffer.\<close>

definition grep_step :: "byte list \<Rightarrow> int \<Rightarrow> byte list \<Rightarrow> (byte list + unit) um" where
  "grep_step pattern fd buf =
     ubind (read fd (1024 - length buf - 1)) (\<lambda>(n, d).
     if n > 0 then ubind (grep_lines pattern (buf @ d)) (\<lambda>rest. uret (Inl rest))
     else uret (Inr ()))"

definition grep :: "byte list \<Rightarrow> int \<Rightarrow> unit um" where
  "grep pattern fd = uloop (grep_step pattern fd) []"

definition grep_main :: "byte list list \<Rightarrow> unit um" where
  "grep_main argv =
     (if length argv \<le> 1 then useq (fprintf 2 (ln ''usage: grep pattern [file ...]'') []) (exit 1)
      else
        (let pattern = argv ! 1 in
         if length argv \<le> 2 then useq (grep pattern 0) (exit 0)
         else
           useq (ueach (drop 2 argv) (\<lambda>a.
                   ubind (syscall (C_open a 0)) (\<lambda>fd.
                   if fd < 0 then useq (printf (ln ''grep: cannot open %s'') [U_str (Some a)]) (exit 1)
                   else useq (grep pattern fd) (useq (syscall (C_close fd)) (uret ())))))
                (exit 0)))"

subsection \<open>The language of a pattern\<close>

text \<open>One character: a literal or any.\<close>

definition char_ok :: "byte \<Rightarrow> byte \<Rightarrow> bool" where
  "char_ok r t \<longleftrightarrow> r = 46 \<or> r = t"

text \<open>
  A pattern as a sequence of items: \<open>One r\<close>, \<open>Many r\<close> for \<open>r*\<close>, and \<open>End\<close> for a final \<open>$\<close>. An item
  denotes the set of pairs of what it consumes and what may follow.
\<close>

datatype item = One byte | Many byte | End

fun items :: "byte list \<Rightarrow> item list" where
  "items [] = []"
| "items [r] = (if r = 36 then [End] else [One r])"
| "items (r # r1 # re) = (if r1 = 42 then Many r # items re else One r # items (r1 # re))"

inductive denotes :: "item list \<Rightarrow> byte list \<Rightarrow> byte list \<Rightarrow> bool" where
  empty: "denotes [] [] rest"
| one: "char_ok r t \<Longrightarrow> denotes is u rest \<Longrightarrow> denotes (One r # is) (t # u) rest"
| many: "list_all (char_ok r) xs \<Longrightarrow> denotes is u rest \<Longrightarrow> denotes (Many r # is) (xs @ u) rest"
| ending: "denotes [End] [] []"

inductive_simps denotes_Nil: "denotes [] u rest"
inductive_simps denotes_One: "denotes (One r # is) u rest"
inductive_simps denotes_Many: "denotes (Many r # is) u rest"
inductive_simps denotes_End: "denotes [End] u rest"

lemmas denotes_simps = denotes_Nil denotes_One denotes_Many denotes_End

definition starts :: "item list \<Rightarrow> byte list \<Rightarrow> bool" where
  "starts is tx \<longleftrightarrow> (\<exists>u rest. tx = u @ rest \<and> denotes is u rest)"

lemma starts_simps:
  "starts [] tx" "starts [End] tx \<longleftrightarrow> tx = []" "\<not> starts (One r # is) []"
  "starts (One r # is) (t # tx) \<longleftrightarrow> char_ok r t \<and> starts is tx"
  "starts (Many r # is) tx \<longleftrightarrow> (\<exists>xs u. tx = xs @ u \<and> list_all (char_ok r) xs \<and> starts is u)"
proof -
  show "starts [] tx" "starts [End] tx \<longleftrightarrow> tx = []" "\<not> starts (One r # is) []"
    by (auto simp: starts_def denotes_simps)
  show "starts (One r # is) (t # tx) \<longleftrightarrow> char_ok r t \<and> starts is tx"
    unfolding starts_def denotes_One by (metis append_Cons list.inject)
  show "starts (Many r # is) tx \<longleftrightarrow> (\<exists>xs u. tx = xs @ u \<and> list_all (char_ok r) xs \<and> starts is u)"
    unfolding starts_def denotes_Many by (metis append.assoc)
qed

lemma star_loop_iff:
  "star_loop c rest text \<longleftrightarrow> (\<exists>xs u. text = xs @ u \<and> list_all (char_ok c) xs \<and> rest u)"
proof (induction "text")
  case (Cons t tx)
  have "(\<exists>xs u. t # tx = xs @ u \<and> list_all (char_ok c) xs \<and> rest u) \<longleftrightarrow>
      rest (t # tx) \<or> char_ok c t \<and> (\<exists>xs u. tx = xs @ u \<and> list_all (char_ok c) xs \<and> rest u)"
  proof -
    have "(\<exists>xs u. t # tx = xs @ u \<and> list_all (char_ok c) xs \<and> rest u) \<longleftrightarrow>
      (\<exists>u. t # tx = u \<and> rest u) \<or> (\<exists>x xs u. t # tx = (x # xs) @ u \<and> list_all (char_ok c) (x # xs) \<and> rest u)"
      by (metis append_Nil list.exhaust list.pred_inject(1))
    then show ?thesis by auto
  qed
  moreover have "star_loop c rest (t # tx) \<longleftrightarrow> rest (t # tx) \<or> char_ok c t \<and> star_loop c rest tx"
    by (auto simp: char_ok_def)
  ultimately show ?case using Cons.IH by simp
qed auto

lemma matchhere_iff: "matchhere re tx \<longleftrightarrow> starts (items re) tx"
proof (induction re tx rule: matchhere.induct)
  case (2 r0 re tx)
  show ?case
  proof (cases re)
    case Nil
    then show ?thesis by (cases tx) (auto simp: starts_simps char_ok_def)
  next
    case (Cons r1 re')
    show ?thesis
    proof (cases "r1 = 42")
      case True
      then show ?thesis using 2(2) [OF Cons True] by (simp add: Cons star_loop_iff starts_simps)
    next
      case False
      then show ?thesis using 2(3) [OF Cons False] by (cases tx) (auto simp: Cons starts_simps char_ok_def)
    qed
  qed
qed (simp add: starts_simps)

lemma match_loop_iff: "match_loop re text \<longleftrightarrow> (\<exists>pre post. text = pre @ post \<and> matchhere re post)"
proof (induction "text")
  case (Cons t tx)
  have "(\<exists>pre post. t # tx = pre @ post \<and> matchhere re post) \<longleftrightarrow>
      matchhere re (t # tx) \<or> (\<exists>pre post. tx = pre @ post \<and> matchhere re post)"
    by (metis append_Nil append_eq_Cons_conv)
  then show ?case using Cons.IH by auto
qed simp

subsection \<open>The lines of a file\<close>

fun lines_of :: "byte list \<Rightarrow> byte list \<Rightarrow> byte list list" where
  "lines_of cur [] = []"
| "lines_of cur (c # s) = (if c = 10 then cur # lines_of [] s else lines_of (cur @ [c]) s)"

fun partial_line :: "byte list \<Rightarrow> byte list \<Rightarrow> byte list" where
  "partial_line cur [] = cur"
| "partial_line cur (c # s) = (if c = 10 then partial_line [] s else partial_line (cur @ [c]) s)"

lemma lines_of_append: "lines_of cur (s @ t) = lines_of cur s @ lines_of (partial_line cur s) t"
  by (induction cur s rule: lines_of.induct) auto

lemma partial_line_append: "partial_line cur (s @ t) = partial_line (partial_line cur s) t"
  by (induction cur s rule: partial_line.induct) auto

lemma lines_of_cur: "10 \<notin> set cur \<Longrightarrow> lines_of [] (cur @ s) = lines_of cur s" "10 \<notin> set cur \<Longrightarrow> partial_line [] (cur @ s) = partial_line cur s"
proof -
  have "lines_of k cur = [] \<and> partial_line k cur = k @ cur" if "10 \<notin> set cur" for k
    using that by (induction cur arbitrary: k) auto
  then show "10 \<notin> set cur \<Longrightarrow> lines_of [] (cur @ s) = lines_of cur s" "10 \<notin> set cur \<Longrightarrow> partial_line [] (cur @ s) = partial_line cur s"
    by (simp_all add: lines_of_append partial_line_append)
qed

lemma partial_line_free: "10 \<notin> set cur \<Longrightarrow> 10 \<notin> set (partial_line cur s)"
  by (induction cur s rule: partial_line.induct) auto

lemma strchr_None: "0 \<notin> set s \<Longrightarrow> strchr s c = None \<longleftrightarrow> c \<notin> set s"
  by (induction s) auto

lemma strchr_Some: "strchr s c = Some i \<Longrightarrow> i < length s \<and> s ! i = c \<and> c \<notin> set (take i s)"
  by (induction s arbitrary: i) (auto split: if_splits)

lemma strchr_split: "strchr s c = Some i \<Longrightarrow> s = take i s @ [c] @ drop (Suc i) s"
  using strchr_Some [of s c i] id_take_nth_drop [of i s] by auto

subsection \<open>Runs\<close>

definition put_line :: "byte list \<Rightarrow> call" where
  "put_line l = C_write 1 (l @ [10])"

abbreviation selected :: "byte list \<Rightarrow> byte list \<Rightarrow> byte list list" where
  "selected pattern s \<equiv> filter (match pattern) (lines_of [] s)"

lemma grep_lines_run:
  assumes "0 \<notin> set p" "length acks = length (selected pattern p)"
  shows "grep_lines pattern p \<lparr>answers = acks @ rest, calls = cs\<rparr> =
    Go (partial_line [] p) \<lparr>answers = rest, calls = cs @ map put_line (selected pattern p)\<rparr>"
  using assms
proof (induction pattern p arbitrary: acks cs rule: grep_lines.induct)
  case (1 pattern p)
  show ?case
  proof (cases "strchr p 10")
    case None
    then have "10 \<notin> set p" using strchr_None [OF "1.prems"(1)] by simp
    then have "lines_of [] p = []" "partial_line [] p = p" using lines_of_cur [of p "[]"] by simp_all
    with "1.prems"(2) None show ?thesis by (simp add: grep_lines.simps uret_def)
  next
    case (Some q)
    note q = strchr_Some [OF Some] strchr_split [OF Some]
    let ?l = "take q p" and ?p = "drop (Suc q) p"
    have eq: "lines_of [] p = ?l # lines_of [] ?p" "partial_line [] p = partial_line [] ?p"
      using lines_of_cur [of ?l "[10] @ ?p"] q by auto
    have nz: "0 \<notin> set ?p" using "1.prems"(1) by (auto dest: in_set_dropD)
    have tk: "take (Suc q) p = ?l @ [10]" using q by (simp add: take_Suc_conv_app_nth)
    show ?thesis
    proof (cases "match pattern ?l")
      case True
      then obtain a acks' where a: "acks = a # acks'" using "1.prems"(2) eq(1) by (cases acks) auto
      have len: "length acks' = length (selected pattern ?p)" using "1.prems"(2) True by (simp add: eq(1) a)
      show ?thesis
        using "1.IH" [OF Some _ nz len] q(1) True
        by (subst grep_lines.simps) (simp add: Some eq a useq_def ubind_def uwrite_def syscall_def sys_def uret_def tk put_line_def)
    next
      case False
      then have len: "length acks = length (selected pattern ?p)" using "1.prems"(2) by (simp add: eq(1))
      show ?thesis
        using "1.IH" [OF Some _ nz len] q(1) False
        by (subst grep_lines.simps) (simp add: Some eq useq_def ubind_def uret_def)
    qed
  qed
qed

text \<open>
  A file that arrives in pieces: each piece with the answers to the writes that it causes. A piece fits
  when it is not empty, has no NULs and finds room behind the incomplete line before it.
\<close>

definition feed :: "(byte list \<times> answer list) list \<Rightarrow> answer list" where
  "feed xs = concat (map (\<lambda>(c, acks). A_data c # acks) xs) @ [A_data []]"

fun fits :: "byte list \<Rightarrow> byte list \<Rightarrow> (byte list \<times> answer list) list \<Rightarrow> bool" where
  "fits pattern buf [] = True"
| "fits pattern buf ((c, acks) # xs) =
     (c \<noteq> [] \<and> 0 \<notin> set c \<and> length buf + length c \<le> 1023 \<and> length acks = length (selected pattern (buf @ c)) \<and>
      fits pattern (partial_line [] (buf @ c)) xs)"

fun grep_calls :: "byte list \<Rightarrow> int \<Rightarrow> byte list \<Rightarrow> (byte list \<times> answer list) list \<Rightarrow> call list" where
  "grep_calls pattern fd buf [] = [C_read fd (1024 - length buf - 1)]"
| "grep_calls pattern fd buf ((c, acks) # xs) =
     C_read fd (1024 - length buf - 1) # map put_line (selected pattern (buf @ c)) @ grep_calls pattern fd (partial_line [] (buf @ c)) xs"

definition is_write :: "call \<Rightarrow> bool" where
  "is_write c \<longleftrightarrow> (case c of C_write _ _ \<Rightarrow> True | _ \<Rightarrow> False)"

lemma is_write_simps [simp]: "\<not> is_write (C_read fd n)" "is_write (put_line l)"
  by (simp_all add: is_write_def put_line_def)

lemma partial_line_sub: "set (partial_line cur s) \<subseteq> set cur \<union> set s"
  by (induction cur s rule: partial_line.induct) auto

lemma grep_loop:
  assumes "fits pattern buf xs" "0 \<notin> set buf" "10 \<notin> set buf"
  shows "uloop (grep_step pattern fd) buf \<lparr>answers = feed xs @ rest, calls = cs\<rparr> =
     Go () \<lparr>answers = rest, calls = cs @ grep_calls pattern fd buf xs\<rparr>"
  using assms
proof (induction xs arbitrary: buf cs)
  case Nil
  show ?case by (rule uloop_done) (simp add: grep_step_def feed_def read_def sys_def ubind_def uret_def)
next
  case (Cons x xs)
  obtain c acks where x: "x = (c, acks)" by force
  have f: "c \<noteq> []" "0 \<notin> set c" "length buf + length c \<le> 1023" "length acks = length (selected pattern (buf @ c))"
      "fits pattern (partial_line [] (buf @ c)) xs"
    using Cons.prems(1) by (simp_all add: x)
  have tk: "take (1024 - length buf - 1) c = c" using f(3) by simp
  have nz: "0 \<notin> set (buf @ c)" using Cons.prems(2) f(2) by simp
  note lines = grep_lines_run [OF nz f(4)]
  have fd: "feed (x # xs) @ rest = A_data c # acks @ feed xs @ rest" by (simp add: feed_def x)
  have nz': "0 \<notin> set (partial_line [] (buf @ c))" using partial_line_sub [of "[]" "buf @ c"] nz by auto
  have nl: "10 \<notin> set (partial_line [] (buf @ c))" by (rule partial_line_free) simp
  let ?w = "\<lparr>answers = feed xs @ rest, calls = (cs @ [C_read fd (1024 - length buf - 1)]) @ map put_line (selected pattern (buf @ c))\<rparr>"
  have st: "grep_step pattern fd buf \<lparr>answers = feed (x # xs) @ rest, calls = cs\<rparr> = Go (Inl (partial_line [] (buf @ c))) ?w"
    using lines f(1) tk by (simp add: grep_step_def fd read_def sys_def ubind_def uret_def)
  have less: "length (feed xs) < length (feed (x # xs))" by (simp add: feed_def x)
  show ?case
    using Cons.IH [OF f(5) nz' nl] less by (subst uloop_next [of "grep_step pattern fd" buf, OF st]) (simp_all add: x)
qed

lemma grep_calls_writes:
  assumes "10 \<notin> set buf"
  shows "filter is_write (grep_calls pattern fd buf xs) = map put_line (selected pattern (buf @ concat (map fst xs)))"
  using assms
proof (induction xs arbitrary: buf)
  case Nil
  then have "lines_of [] buf = []" using lines_of_cur [of buf "[]"] by simp
  then show ?case by simp
next
  case (Cons x xs)
  obtain c acks where x: "x = (c, acks)" by force
  let ?p = "partial_line [] (buf @ c)"
  have nl: "10 \<notin> set ?p" by (rule partial_line_free) simp
  have w: "filter is_write (map put_line ls) = map put_line ls" for ls by (simp add: filter_map comp_def)
  have "lines_of [] (buf @ c @ concat (map fst xs)) = lines_of [] (buf @ c) @ lines_of [] (?p @ concat (map fst xs))"
    using lines_of_append [of "[]" "buf @ c" "concat (map fst xs)"] lines_of_cur(1) [OF nl] by simp
  then show ?case using Cons.IH [OF nl] w by (simp add: x)
qed

subsection \<open>Properties\<close>

text \<open>
  C27: the matcher decides the language of its patterns. \<^verbatim>\<open>match\<close> is true of a text just when the pattern
  denotes a part of it: \<open>r*\<close> any number of characters that \<open>r\<close> matches, \<open>.\<close> any character, a final \<open>$\<close>
  the end of the text, and every other character itself; with \<open>^\<close> in front, a part at the start.
\<close>

theorem match_correct:
  "match re tx \<longleftrightarrow>
     (\<exists>pre u rest. tx = pre @ u @ rest \<and>
        (if re \<noteq> [] \<and> hd re = 94 then pre = [] \<and> denotes (items (tl re)) u rest else denotes (items re) u rest))"
proof (cases "re \<noteq> [] \<and> hd re = 94")
  case True
  then obtain re' where "re = 94 # re'" by (cases re) auto
  then show ?thesis by (simp add: match_def matchhere_iff starts_def)
next
  case False
  then have "match re tx = match_loop re tx" by (cases re) (auto simp: match_def)
  also have "\<dots> \<longleftrightarrow> (\<exists>pre u rest. tx = pre @ u @ rest \<and> denotes (items re) u rest)"
    unfolding match_loop_iff matchhere_iff starts_def by blast
  finally show ?thesis using False by auto
qed

text \<open>
  C28: \<^verbatim>\<open>grep\<close> writes the lines that match, each with its newline, once and in order, and nothing else,
  however the file is cut into pieces by the reads, as long as no line is too long for the buffer.
  A last line without a newline is not written.
\<close>

theorem grep_prints:
  assumes "fits pattern [] xs"
  shows "\<exists>tr. grep pattern fd \<lparr>answers = feed xs @ rest, calls = cs\<rparr> = Go () \<lparr>answers = rest, calls = cs @ tr\<rparr> \<and>
    filter is_write tr = map (\<lambda>l. C_write 1 (l @ [10])) (filter (match pattern) (lines_of [] (concat (map fst xs))))"
  using grep_loop [OF assms, of fd rest cs] grep_calls_writes [of "[]" pattern fd xs]
  by (simp add: grep_def put_line_def [abs_def])

theorem grep_prints_witness:
  "\<exists>tr. grep (str ''b$'') 3 \<lparr>answers = feed [(str ''ab'', []), (10 # str ''cd'', [A_ret 3]), (10 # str ''b'', [])], calls = []\<rparr> =
      Go () \<lparr>answers = [], calls = tr\<rparr> \<and> filter is_write tr = [C_write 1 (str ''ab'' @ [10])]"
proof -
  have f: "fits (str ''b$'') [] [(str ''ab'', []), (10 # str ''cd'', [A_ret 3]), (10 # str ''b'', [])]"
    by (simp add: str_def match_def)
  have l: "filter (match (str ''b$'')) (lines_of [] (concat (map fst [(str ''ab'', []), (10 # str ''cd'', [A_ret 3]), (10 # str ''b'', [])]))) = [str ''ab'']"
    by (simp add: str_def match_def)
  show ?thesis using grep_prints [OF f, of 3 "[]" "[]"] unfolding l by simp
qed

end
