(* ===== verification/ProgsRun.thy ===== *)
theory ProgsRun
  imports Progs
begin

text \<open>
  What \<^verbatim>\<open>cat\<close> and \<^verbatim>\<open>wc\<close> do to a file that arrives in pieces.
\<close>

subsection \<open>cat\<close>

definition cat_step :: "int \<Rightarrow> unit \<Rightarrow> (unit + int) um" where
  "cat_step fd _ = ubind (read fd 512) (\<lambda>(n, d).
              if n > 0 then
                ubind (uwrite 1 d) (\<lambda>m.
                if m \<noteq> n then useq (fprintf 2 (ln ''cat: write error'') []) (exit 1) else uret (Inl ()))
              else uret (Inr n))"

definition piece :: "byte list \<Rightarrow> bool" where
  "piece c \<longleftrightarrow> c \<noteq> [] \<and> length c \<le> 512"

definition cat_answers :: "byte list list \<Rightarrow> answer list" where
  "cat_answers cs = concat (map (\<lambda>c. [A_data c, A_ret (int (length c))]) cs) @ [A_data []]"

lemma cat_loop:
  assumes "list_all piece cs"
  shows "uloop (cat_step fd) () \<lparr>answers = cat_answers cs @ rest, calls = ks\<rparr> =
    Go 0 \<lparr>answers = rest, calls = ks @ concat (map (\<lambda>c. [C_read fd 512, C_write 1 c]) cs) @ [C_read fd 512]\<rparr>"
  using assms
proof (induction cs arbitrary: ks)
  case Nil
  show ?case by (rule uloop_done) (simp add: cat_answers_def cat_step_def read_def sys_def ubind_def uret_def)
next
  case (Cons c cs)
  then have c: "c \<noteq> []" "take 512 c = c" by (simp_all add: piece_def)
  have st: "cat_step fd () \<lparr>answers = cat_answers (c # cs) @ rest, calls = ks\<rparr> =
      Go (Inl ()) \<lparr>answers = cat_answers cs @ rest, calls = ks @ [C_read fd 512, C_write 1 c]\<rparr>"
    using c by (simp add: cat_answers_def cat_step_def read_def uwrite_def syscall_def sys_def ubind_def uret_def)
  have less: "length (cat_answers cs) < length (cat_answers (c # cs))" by (simp add: cat_answers_def)
  show ?case
    using Cons less by (subst uloop_next [of "cat_step fd" "()", OF st]) simp_all
qed

subsection \<open>wc\<close>

definition blank :: "byte \<Rightarrow> bool" where
  "blank b \<longleftrightarrow> b \<in> {32, 13, 9, 10, 11}"

text \<open>The words of a text: its maximal sequences of bytes that are not blank.\<close>

fun words_from :: "byte list \<Rightarrow> byte list \<Rightarrow> byte list list" where
  "words_from cur [] = (if cur = [] then [] else [cur])"
| "words_from cur (b # s) =
     (if blank b then (if cur = [] then words_from [] s else cur # words_from [] s) else words_from (cur @ [b]) s)"

abbreviation words :: "byte list \<Rightarrow> byte list list" where
  "words s \<equiv> words_from [] s"

lemma strchr_blank: "strchr [32, 13, 9, 10, 11] b \<noteq> None \<longleftrightarrow> blank b"
  by (auto simp: blank_def)

lemma wc_byte_simps:
  "c_c (wc_byte b k) = c_c k + 1" "c_l (wc_byte b k) = c_l k + (if b = 10 then 1 else 0)"
  "c_inword (wc_byte b k) = (\<not> blank b)" "c_w (wc_byte b k) = c_w k + (if \<not> blank b \<and> \<not> c_inword k then 1 else 0)"
  using strchr_blank [of b] by (auto simp: wc_byte_def Let_def)

lemma wc_fold:
  "c_c (fold wc_byte s k) = c_c k + word_of_nat (length s)"
  "c_l (fold wc_byte s k) = c_l k + word_of_nat (count_list s 10)"
  by (induction s arbitrary: k) (simp_all add: wc_byte_simps)

lemma wc_words:
  "c_inword k = (cur \<noteq> []) \<Longrightarrow> c_w (fold wc_byte s k) + (if c_inword k then 1 else 0) = c_w k + word_of_nat (length (words_from cur s))"
proof (induction s arbitrary: k cur)
  case (Cons b s)
  have "c_w (fold wc_byte s (wc_byte b k)) + (if c_inword (wc_byte b k) then 1 else 0) =
      c_w (wc_byte b k) + word_of_nat (length (words_from (if blank b then [] else cur @ [b]) s))"
    by (rule Cons.IH) (simp add: wc_byte_simps)
  then show ?case using Cons.prems by (cases "blank b"; cases "cur = []") (simp_all add: wc_byte_simps)
qed simp

lemma words_count: "c_w (fold wc_byte s \<lparr>c_l = 0, c_w = 0, c_c = 0, c_inword = False\<rparr>) = word_of_nat (length (words s))"
  using wc_words [of "\<lparr>c_l = 0, c_w = 0, c_c = 0, c_inword = False\<rparr>" "[]" s] by simp

definition wc_step :: "int \<Rightarrow> counts \<Rightarrow> (counts + int \<times> counts) um" where
  "wc_step fd k = ubind (read fd 512) (\<lambda>(n, d).
              if n > 0 then uret (Inl (fold wc_byte d k)) else uret (Inr (n, k)))"

lemma wc_loop:
  assumes "list_all piece cs"
  shows "uloop (wc_step fd) k \<lparr>answers = map A_data cs @ A_data [] # rest, calls = ks\<rparr> =
    Go (0, fold wc_byte (concat cs) k) \<lparr>answers = rest, calls = ks @ replicate (Suc (length cs)) (C_read fd 512)\<rparr>"
  using assms
proof (induction cs arbitrary: ks k)
  case Nil
  show ?case by (rule uloop_done) (simp add: wc_step_def read_def sys_def ubind_def uret_def)
next
  case (Cons c cs)
  then have c: "c \<noteq> []" "take 512 c = c" by (simp_all add: piece_def)
  have st: "wc_step fd k \<lparr>answers = map A_data (c # cs) @ A_data [] # rest, calls = ks\<rparr> =
      Go (Inl (fold wc_byte c k)) \<lparr>answers = map A_data cs @ A_data [] # rest, calls = ks @ [C_read fd 512]\<rparr>"
    using c by (simp add: wc_step_def read_def sys_def ubind_def uret_def)
  show ?case
    using Cons by (subst uloop_next [of "wc_step fd" k, OF st]) simp_all
qed

lemma length_str [simp]: "length (str x) = length x"
  by (simp add: str_def)

subsection \<open>Properties\<close>

text \<open>
  C29: \<^verbatim>\<open>cat\<close> copies: however a file arrives, in non-empty pieces of at most 512 bytes up to the end of
  the file, it writes just these bytes, in order, and ends normally when every write is complete.
\<close>

theorem cat_copies:
  assumes "list_all piece cs"
  shows "cat fd \<lparr>answers = cat_answers cs @ rest, calls = ks\<rparr> =
    Go () \<lparr>answers = rest, calls = ks @ concat (map (\<lambda>c. [C_read fd 512, C_write 1 c]) cs) @ [C_read fd 512]\<rparr>"
proof -
  have c: "cat fd = ubind (uloop (cat_step fd) ()) (\<lambda>n. if n < 0 then useq (fprintf 2 (ln ''cat: read error'') []) (exit 1) else uret ())"
    by (simp add: cat_def cat_step_def [abs_def])
  show ?thesis unfolding c by (simp add: cat_loop [OF assms] ubind_def uret_def)
qed

theorem cat_copies_witness:
  "cat 3 \<lparr>answers = [A_data [1, 2], A_ret 2, A_data [3], A_ret 1, A_data []], calls = []\<rparr> =
    Go () \<lparr>answers = [], calls = [C_read 3 512, C_write 1 [1, 2], C_read 3 512, C_write 1 [3], C_read 3 512]\<rparr>"
  using cat_copies [of "[[1, 2], [3]]" 3 "[]" "[]"] by (simp add: piece_def cat_answers_def)

text \<open>
  C30: \<^verbatim>\<open>wc\<close> counts the newlines, the words and the bytes of a file, modulo \<open>2 ^ 32\<close>, however the file
  is cut into pieces, even inside a word.
\<close>

theorem wc_counts:
  assumes "list_all piece cs" "s = concat cs"
  shows "wc fd name \<lparr>answers = map A_data cs @ A_data [] # rest, calls = ks\<rparr> =
    printf (ln ''%d %d %d %s'')
      [U_int (word_of_nat (count_list s 10)), U_int (word_of_nat (length (words s))), U_int (word_of_nat (length s)), U_str (Some name)]
      \<lparr>answers = rest, calls = ks @ replicate (Suc (length cs)) (C_read fd 512)\<rparr>"
proof -
  have c: "wc fd name = ubind (uloop (wc_step fd) \<lparr>c_l = 0, c_w = 0, c_c = 0, c_inword = False\<rparr>) (\<lambda>(n, k).
     if n < 0 then useq (printf (ln ''wc: read error'') []) (exit 1)
     else printf (ln ''%d %d %d %s'') [U_int (c_l k), U_int (c_w k), U_int (c_c k), U_str (Some name)])"
    by (simp add: wc_def wc_step_def [abs_def])
  show ?thesis unfolding c by (simp add: wc_loop [OF assms(1)] ubind_def wc_fold words_count assms(2))
qed

theorem wc_counts_witness:
  "wc 0 [] \<lparr>answers = [A_data (str ''a b''), A_data (str ''c'' @ [10]), A_data []], calls = []\<rparr> =
    printf (ln ''%d %d %d %s'') [U_int 1, U_int 2, U_int 5, U_str (Some [])]
      \<lparr>answers = [], calls = [C_read 0 512, C_read 0 512, C_read 0 512]\<rparr>"
proof -
  let ?s = "str ''a b'' @ str ''c'' @ [10]"
  have n: "count_list ?s 10 = 1" "length (words ?s) = 2" "length ?s = 5" by (simp_all add: str_def blank_def)
  have p: "list_all piece [str ''a b'', str ''c'' @ [10]]" by (simp add: piece_def str_def)
  show ?thesis
    using wc_counts [OF p refl, of 0 "[]" "[]" "[]"] n by simp
qed

end
