(* ===== verification/Ulib.thy ===== *)
theory Ulib
  imports User
begin

text \<open>
  The conversions and the copying of \<^verbatim>\<open>user/ulib.c\<close>: \<^verbatim>\<open>itoa\<close> produces the decimal notation and \<^verbatim>\<open>atoi\<close>
  reads it, and \<^verbatim>\<open>memmove\<close> copies also between overlapping ranges.
\<close>

subsection \<open>Decimal notation\<close>

definition digit :: "nat \<Rightarrow> byte" where
  "digit d = word_of_nat (d + 48)"

fun dec :: "nat \<Rightarrow> byte list" where
  "dec n = (if n < 10 then [digit n] else dec (n div 10) @ [digit (n mod 10)])"

declare dec.simps [simp del]

lemma digit_range: "d < 10 \<Longrightarrow> 48 \<le> digit d \<and> digit d \<le> 57 \<and> ucast (digit d) - 48 = (word_of_nat d :: i32)"
proof -
  assume d: "d < 10"
  have "d \<in> {0, 1, 2, 3, 4, 5, 6, 7, 8, 9}" using d by auto
  then show ?thesis by (auto simp: digit_def)
qed

lemma atoi_step: "d < 10 \<Longrightarrow> atoi_loop n (digit d # s) = atoi_loop (n * 10 + word_of_nat d) s"
  using digit_range [of d] by (simp add: add_diff_eq [symmetric])

lemma atoi_dec: "atoi_loop 0 (dec n @ s) = atoi_loop (word_of_nat n) s"
proof (induction n arbitrary: s rule: dec.induct)
  case (1 n)
  show ?case
  proof (cases "n < 10")
    case True
    then show ?thesis using atoi_step [of n 0 s] by (simp add: dec.simps [of n] del: atoi_loop.simps)
  next
    case False
    have "(word_of_nat (n div 10) * 10 + word_of_nat (n mod 10) :: i32) = word_of_nat (n div 10 * 10 + n mod 10)"
      by (simp only: of_nat_add of_nat_mult of_nat_numeral)
    then have w: "(word_of_nat (n div 10) * 10 + word_of_nat (n mod 10) :: i32) = word_of_nat n" by simp
    show ?thesis
      using False 1 [of "digit (n mod 10) # s"] by (simp add: dec.simps [of n] atoi_step w del: atoi_loop.simps)
  qed
qed

subsection \<open>itoa\<close>

definition put :: "nat \<Rightarrow> byte list \<Rightarrow> bytes \<Rightarrow> bytes" where
  "put i xs s = (\<lambda>k. if i \<le> k \<and> k < i + length xs then xs ! (k - i) else s k)"

lemma put_Cons: "put (Suc i) xs (s(i := x)) = put i (x # xs) s"
  by (auto simp: put_def fun_eq_iff nth_Cons' Suc_diff_Suc)

lemma put_Nil [simp]: "put i [] s = s"
  by (auto simp: put_def fun_eq_iff)

lemma itoa_digits_step:
  "n < 10 \<Longrightarrow> itoa_digits n i s = (s(i := digit n), Suc i)"
  "\<not> n < 10 \<Longrightarrow> itoa_digits n i s = itoa_digits (n div 10) (Suc i) (s(i := digit (n mod 10)))"
  by (subst itoa_digits.simps, simp add: digit_def Let_def div_greater_zero_iff)+

lemma itoa_digits_dec: "itoa_digits n i s = (put i (rev (dec n)) s, i + length (dec n))"
proof (induction n arbitrary: i s rule: dec.induct)
  case (1 n)
  show ?case
  proof (cases "n < 10")
    case True
    then show ?thesis using put_Cons [of i "[]" s "digit n"] by (simp add: itoa_digits_step(1) dec.simps [of n])
  next
    case False
    show ?thesis unfolding itoa_digits_step(2) [OF False] 1 [OF False] put_Cons using False by (simp add: dec.simps [of n])
  qed
qed

lemma itoa_swap_rev:
  "2 * (j + k) \<le> i \<Longrightarrow> itoa_swap k j i s =
     (\<lambda>m. if j \<le> m \<and> m < j + k \<or> i - j - k \<le> m \<and> m < i - j then s (i - 1 - m) else s m)"
proof (induction k arbitrary: j s)
  case (Suc k)
  let ?s = "s(j := s (i - j - 1), i - j - 1 := s j)"
  have "itoa_swap (Suc k) j i s m = (if j \<le> m \<and> m < j + Suc k \<or> i - j - Suc k \<le> m \<and> m < i - j then s (i - 1 - m) else s m)" for m
  proof -
    have r: "itoa_swap (Suc k) j i s m =
        (if Suc j \<le> m \<and> m < Suc j + k \<or> i - Suc j - k \<le> m \<and> m < i - Suc j then ?s (i - 1 - m) else ?s m)"
    proof -
      have "2 * (Suc j + k) \<le> i" using Suc.prems by simp
      from Suc.IH [OF this, of ?s] show ?thesis by (simp only: itoa_swap.simps)
    qed
    consider "m = j" | "m \<noteq> j" "m = i - j - 1" | "m \<noteq> j" "m \<noteq> i - j - 1" by blast
    then show ?thesis
    proof cases
      case 3
      have c: "(Suc j \<le> m \<and> m < Suc j + k \<or> i - Suc j - k \<le> m \<and> m < i - Suc j) =
          (j \<le> m \<and> m < j + Suc k \<or> i - j - Suc k \<le> m \<and> m < i - j)"
        using 3 Suc.prems by linarith
      show ?thesis
      proof (cases "j \<le> m \<and> m < j + Suc k \<or> i - j - Suc k \<le> m \<and> m < i - j")
        case True
        then have "m < i" "j < i" using Suc.prems by auto
        then have "i - 1 - m \<noteq> j" "i - 1 - m \<noteq> i - j - 1" using 3 by auto
        then show ?thesis unfolding r c using True by simp
      next
        case False
        show ?thesis unfolding r c if_not_P [OF False] using 3 by simp
      qed
    qed (use Suc.prems r in \<open>auto simp del: itoa_swap.simps\<close>)
  qed
  then show ?case by blast
qed (auto simp: fun_eq_iff)

lemma itoa_reversed:
  assumes "length xs = i"
  shows "map (itoa_swap (i div 2) 0 i ((put 0 xs s)(i := 0))) [0..<i] = rev xs" "itoa_swap (i div 2) 0 i ((put 0 xs s)(i := 0)) i = 0"
proof -
  let ?s = "(put 0 xs s)(i := 0)"
  have sw: "itoa_swap (i div 2) 0 i ?s = (\<lambda>m. if m < i div 2 \<or> i - i div 2 \<le> m \<and> m < i then ?s (i - 1 - m) else ?s m)"
    by (subst itoa_swap_rev) auto
  have "itoa_swap (i div 2) 0 i ?s m = rev xs ! m" if "m < i" for m
  proof -
    have "m < i div 2 \<or> i - i div 2 \<le> m \<or> i = 2 * m + 1" using that by presburger
    then show ?thesis unfolding sw using that assms by (auto simp: put_def rev_nth)
  qed
  then show "map (itoa_swap (i div 2) 0 i ?s) [0..<i] = rev xs" using assms by (intro nth_equalityI) auto
  show "itoa_swap (i div 2) 0 i ?s i = 0" unfolding sw using div_le_dividend [of i 2] by auto
qed

subsection \<open>memmove\<close>

lemma umove_up_copy: "d < s \<Longrightarrow> move_up d s n m = copy d m s n m"
proof (induction n arbitrary: d s m)
  case (Suc n)
  then show ?case by (auto simp: copy_def fun_eq_iff Suc_diff_Suc)
qed simp

lemma umove_down_copy: "s \<le> d \<Longrightarrow> move_down (d + n) (s + n) n m = copy d m s n m"
proof (induction n arbitrary: m)
  case (Suc n)
  then show ?case by (auto simp: copy_def fun_eq_iff)
qed simp

subsection \<open>Properties\<close>


text \<open>
  \<^verbatim>\<open>memmove\<close> stores at its destination the bytes its source had before, also where the ranges overlap, and
  changes nothing else; a count that is not positive copies nothing. \<^verbatim>\<open>memcpy\<close> is the same routine on the count as a
  signed number.
\<close>

lemma memmove_copies:
  "memmove d s n m = copy d m s (nat n) m \<and> memcpy d s k m = copy d m s (nat (sint k)) m"
proof -
  have "memmove d s n m = copy d m s (nat n) m" for n
  proof (cases "s > d")
    case True
    then show ?thesis by (simp add: memmove_def umove_up_copy)
  next
    case False
    then show ?thesis
    proof (cases "n \<le> 0")
      case False
      then have "nat (int d + n) = d + nat n" "nat (int s + n) = s + nat n" by auto
      then show ?thesis using \<open>\<not> s > d\<close> by (simp add: memmove_def umove_down_copy)
    qed (auto simp: memmove_def copy_def fun_eq_iff)
  qed
  then show ?thesis by (simp add: memcpy_def)
qed

end
