(* ===== verification/Shell.thy ===== *)
theory Shell
  imports Progs
begin

text \<open>
  The shell (\<^verbatim>\<open>user/sh.c\<close>): the parser of command lines, the execution of a parsed command and the loop that
  reads lines.

  A line is the list of its bytes up to the terminating NUL; \<^verbatim>\<open>es\<close> is its length, a pointer into it a
  position, and reading at \<^verbatim>\<open>es\<close> gives the NUL. A parsed command is a tree whose words are pairs of
  positions (\<^verbatim>\<open>q\<close>, \<^verbatim>\<open>eq\<close>); the objects that \<^verbatim>\<open>malloc\<close> returns for its nodes are the constructors.
  The number of allocations that will succeed is an argument of the parser, and the node that finds no memory
  ends the program, because \<^verbatim>\<open>memset\<close> is then called with a null pointer.
\<close>

subsection \<open>Commands\<close>

datatype 'w cmd =
    EXEC "'w list"
  | REDIR "'w cmd" 'w nat int
  | PIPE "'w cmd" "'w cmd"
  | LIST "'w cmd" "'w cmd"
  | BACK "'w cmd"

definition panic :: "string \<Rightarrow> 'a um" where
  "panic s = useq (fprintf 2 (ln ''%s'') [U_str (Some (str s))]) (exit 1)"

definition fork1 :: "int um" where
  "fork1 = ubind (syscall C_fork) (\<lambda>pid. if pid = -1 then panic ''fork'' else uret pid)"

text \<open>\<^verbatim>\<open>runcmd\<close> never returns; the statements behind a call of it for a child are those of the parent.\<close>

fun runcmd :: "byte list cmd \<Rightarrow> unit um" where
  "runcmd (EXEC argv) =
     (case argv of
        [] \<Rightarrow> exit 1
      | a # _ \<Rightarrow>
          useq (syscall (C_exec a argv))
          (useq (fprintf 2 (ln ''exec %s failed'') [U_str (Some a)]) (exit 0)))"
| "runcmd (REDIR c file mode fd) =
     useq (syscall (C_close fd))
     (ubind (syscall (C_open file mode)) (\<lambda>r.
      if r < 0 then useq (fprintf 2 (ln ''open %s failed'') [U_str (Some file)]) (exit 1)
      else useq (runcmd c) (exit 0)))"
| "runcmd (LIST l r) =
     ubind fork1 (\<lambda>pid.
     useq (if pid = 0 then runcmd l else uret ())
     (useq (syscall C_wait)
     (useq (runcmd r) (exit 0))))"
| "runcmd (PIPE l r) =
     ubind pipe (\<lambda>p.
     case p of
       None \<Rightarrow> panic ''pipe''
     | Some (p0, p1) \<Rightarrow>
         ubind fork1 (\<lambda>pid.
         useq (if pid = 0 then
                 useq (syscall (C_close 1)) (useq (syscall (C_dup p1))
                 (useq (syscall (C_close p0)) (useq (syscall (C_close p1)) (runcmd l))))
               else uret ())
         (ubind fork1 (\<lambda>pid.
          useq (if pid = 0 then
                  useq (syscall (C_close 0)) (useq (syscall (C_dup p0))
                  (useq (syscall (C_close p0)) (useq (syscall (C_close p1)) (runcmd r))))
                else uret ())
          (useq (syscall (C_close p0)) (useq (syscall (C_close p1))
          (useq (syscall C_wait) (useq (syscall C_wait) (exit 0)))))))))"
| "runcmd (BACK c) =
     ubind fork1 (\<lambda>pid. useq (if pid = 0 then runcmd c else uret ()) (exit 0))"

subsection \<open>Tokens\<close>

definition whitespace :: "byte list" where
  "whitespace = [32, 9, 13, 10, 11]"

definition symbols :: "byte list" where
  "symbols = [60, 124, 62, 38, 59, 40, 41]"

definition deref :: "byte list \<Rightarrow> nat \<Rightarrow> byte" where
  "deref l s = (if s < length l then l ! s else 0)"

function skip_space :: "byte list \<Rightarrow> nat \<Rightarrow> nat" where
  "skip_space l s = (if s < length l \<and> strchr whitespace (deref l s) \<noteq> None then skip_space l (Suc s) else s)"
  by pat_completeness auto
termination
  by (relation "measure (\<lambda>(l, s). length l - s)") auto

function skip_word :: "byte list \<Rightarrow> nat \<Rightarrow> nat" where
  "skip_word l s =
     (if s < length l \<and> strchr whitespace (deref l s) = None \<and> strchr symbols (deref l s) = None
      then skip_word l (Suc s) else s)"
  by pat_completeness auto
termination
  by (relation "measure (\<lambda>(l, s). length l - s)") auto

declare skip_space.simps [simp del] skip_word.simps [simp del]

text \<open>The token, its start \<^verbatim>\<open>q\<close>, its end \<^verbatim>\<open>eq\<close> and the new position.\<close>

definition gettoken :: "byte list \<Rightarrow> nat \<Rightarrow> byte \<times> nat \<times> nat \<times> nat" where
  "gettoken l ps =
     (let q = skip_space l ps;
          c = deref l q;
          (ret, e) =
            (if c = 0 then (c, q)
             else if c \<in> {124, 40, 41, 59, 38, 60} then (c, Suc q)
             else if c = 62 then (if deref l (Suc q) = 62 then (43, Suc (Suc q)) else (c, Suc q))
             else (97, skip_word l q))
      in (ret, q, e, skip_space l e))"

definition peek :: "byte list \<Rightarrow> nat \<Rightarrow> byte list \<Rightarrow> bool \<times> nat" where
  "peek l ps toks =
     (let s = skip_space l ps in (deref l s \<noteq> 0 \<and> strchr toks (deref l s) \<noteq> None, s))"

subsection \<open>The parser\<close>

text \<open>
  \<open>Ok c s n\<close>: the result, the position behind it and the allocations left; otherwise the message
  of \<^verbatim>\<open>panic\<close>, a null pointer, or that the depth of recursion was not enough.
\<close>

datatype 'a parsed = Ok 'a nat nat | Panics string | Null | No_fuel

fun pbind :: "'a parsed \<Rightarrow> ('a \<Rightarrow> nat \<Rightarrow> nat \<Rightarrow> 'b parsed) \<Rightarrow> 'b parsed" where
  "pbind (Ok a s n) f = f a s n"
| "pbind (Panics m) f = Panics m"
| "pbind Null f = Null"
| "pbind No_fuel f = No_fuel"

type_synonym span = "nat \<times> nat"

fun new_cmd :: "'w cmd \<Rightarrow> nat \<Rightarrow> nat \<Rightarrow> 'w cmd parsed" where
  "new_cmd c s 0 = Null"
| "new_cmd c s (Suc n) = Ok c s n"

definition execcmd :: "nat \<Rightarrow> nat \<Rightarrow> span cmd parsed" where
  "execcmd s n = new_cmd (EXEC []) s n"

definition redircmd :: "span cmd \<Rightarrow> span \<Rightarrow> nat \<Rightarrow> int \<Rightarrow> nat \<Rightarrow> nat \<Rightarrow> span cmd parsed" where
  "redircmd subcmd file mode fd s n = new_cmd (REDIR subcmd file mode fd) s n"

definition pipecmd :: "span cmd \<Rightarrow> span cmd \<Rightarrow> nat \<Rightarrow> nat \<Rightarrow> span cmd parsed" where
  "pipecmd left right s n = new_cmd (PIPE left right) s n"

definition listcmd :: "span cmd \<Rightarrow> span cmd \<Rightarrow> nat \<Rightarrow> nat \<Rightarrow> span cmd parsed" where
  "listcmd left right s n = new_cmd (LIST left right) s n"

definition backcmd :: "span cmd \<Rightarrow> nat \<Rightarrow> nat \<Rightarrow> span cmd parsed" where
  "backcmd subcmd s n = new_cmd (BACK subcmd) s n"

lemma strchr_not_in: "0 \<notin> set xs \<Longrightarrow> strchr xs c = None \<longleftrightarrow> c \<notin> set xs"
  by (induction xs) auto

lemma strchr_sets:
  "strchr whitespace c = None \<longleftrightarrow> c \<notin> set whitespace" "strchr symbols c = None \<longleftrightarrow> c \<notin> set symbols"
  by (rule strchr_not_in, simp add: whitespace_def symbols_def)+

lemma skip_space_stop: "\<not> (s < length l \<and> strchr whitespace (deref l s) \<noteq> None) \<Longrightarrow> skip_space l s = s"
  by (subst skip_space.simps) auto

lemma skip_space_at: "s \<le> skip_space l s \<and> \<not> (skip_space l s < length l \<and> strchr whitespace (deref l (skip_space l s)) \<noteq> None)"
proof (induction l s rule: skip_space.induct)
  case (1 l s)
  show ?case
  proof (cases "s < length l \<and> strchr whitespace (deref l s) \<noteq> None")
    case True
    then have "skip_space l s = skip_space l (Suc s)" by (subst skip_space.simps) simp
    then show ?thesis using 1 [OF True] by simp
  next
    case False
    then show ?thesis using skip_space_stop [OF False] by simp
  qed
qed

lemmas skip_space_ge = skip_space_at [THEN conjunct1]

lemma skip_space_idem [simp]: "skip_space l (skip_space l s) = skip_space l s"
  by (rule skip_space_stop) (use skip_space_at [of s l] in blast)

lemma skip_word_ge: "s \<le> skip_word l s"
proof (induction l s rule: skip_word.induct)
  case (1 l s)
  then show ?case by (subst skip_word.simps) auto
qed

lemma gettoken_ge: "gettoken l s = (t, q, e, s') \<Longrightarrow> q = skip_space l s \<and> s \<le> q \<and> q \<le> e \<and> e \<le> s' \<and> s' = skip_space l e"
  using skip_space_ge [of s l] skip_space_ge [of e l] skip_word_ge [of "skip_space l s" l]
  by (auto simp: gettoken_def Let_def split: if_splits)

lemma gettoken_zero: "gettoken l s = (t, q, e, s') \<Longrightarrow> t = 0 \<longleftrightarrow> deref l (skip_space l s) = 0"
  by (auto simp: gettoken_def Let_def split: if_splits)

text \<open>A token that is not the end of the line takes at least one byte.\<close>

lemma gettoken_progress:
  assumes g: "gettoken l s = (t, q, e, s')" and t: "t \<noteq> 0"
  shows "s < s'" "q < e"
proof -
  let ?q = "skip_space l s" let ?c = "deref l ?q"
  have c: "?c \<noteq> 0" using gettoken_zero [OF g] t by simp
  then have q: "?q < length l" by (auto simp: deref_def split: if_splits)
  have "q < e"
  proof (cases "?c \<in> {124, 40, 41, 59, 38, 60, 62}")
    case True
    then show ?thesis using g c by (auto simp: gettoken_def Let_def split: if_splits)
  next
    case False
    then have "strchr symbols ?c = None" "strchr whitespace ?c = None"
      using skip_space_at [of s l] q by (auto simp: strchr_sets symbols_def)
    then have "skip_word l ?q = skip_word l (Suc ?q)" using q by (subst skip_word.simps) simp
    then have "?q < skip_word l ?q" using skip_word_ge [of "Suc ?q" l] by simp
    then show ?thesis using g c False by (auto simp: gettoken_def Let_def)
  qed
  then show "s < s'" "q < e" using gettoken_ge [OF g] by auto
qed

lemma peek_gettoken:
  assumes "peek l s toks = (True, s1)" "gettoken l s1 = (t, q, e, s')"
  shows "s \<le> s1 \<and> s1 < s' \<and> s1 < length l"
  using gettoken_progress(1) [OF assms(2)] gettoken_zero [OF assms(2)] assms(1) skip_space_ge [of s l]
  by (auto simp: peek_def Let_def deref_def split: if_splits)

lemma two_tokens:
  assumes "(True, s1) = peek l s toks" "(t, q, e, s2) = gettoken l s1" "(t', q', e', s3) = gettoken l s2"
  shows "length l - s3 < length l - s"
  using peek_gettoken [OF assms(1,2) [symmetric]] gettoken_ge [OF assms(3) [symmetric]] by linarith

text \<open>
  \<^verbatim>\<open>parseredirs\<close> wraps the command; its loop goes on at a later position.
\<close>

function parseredirs :: "byte list \<Rightarrow> span cmd \<Rightarrow> nat \<Rightarrow> nat \<Rightarrow> span cmd parsed" where
  "parseredirs l c s n =
     (case peek l s [60, 62] of (found, s1) \<Rightarrow>
      if \<not> found then Ok c s1 n
      else
        (case gettoken l s1 of (tok, _, _, s2) \<Rightarrow>
         case gettoken l s2 of (t, q, eq, s3) \<Rightarrow>
         if t \<noteq> 97 then Panics ''missing file for redirection''
         else
           (case (if tok = 60 then redircmd c (q, eq) 0 0 s3 n
                  else if tok = 62 then redircmd c (q, eq) 1537 1 s3 n
                  else if tok = 43 then redircmd c (q, eq) 513 1 s3 n
                  else Ok c s3 n) of
              Ok c' s' n' \<Rightarrow> parseredirs l c' s3 n'
            | e \<Rightarrow> e)))"
  by pat_completeness auto
termination
  by (relation "measure (\<lambda>(l, c, s, n). length l - s)") (auto dest: two_tokens)

declare parseredirs.simps [simp del]

text \<open>
  \<^verbatim>\<open>parseexec\<close> keeps a pointer to the \<^verbatim>\<open>execcmd\<close> at the bottom of the redirections wrapped around it so
  far, and stores each argument there.
\<close>

fun add_arg :: "'w \<Rightarrow> 'w cmd \<Rightarrow> 'w cmd" where
  "add_arg w (EXEC ws) = EXEC (ws @ [w])"
| "add_arg w (REDIR c f m d) = REDIR (add_arg w c) f m d"
| "add_arg w c = c"

function parse_args :: "byte list \<Rightarrow> nat \<Rightarrow> span cmd \<Rightarrow> nat \<Rightarrow> nat \<Rightarrow> span cmd parsed" where
  "parse_args l argc c s n =
     (case peek l s [124, 41, 38, 59] of (found, s1) \<Rightarrow>
      if found then Ok c s1 n
      else
        (case gettoken l s1 of (tok, q, eq, s2) \<Rightarrow>
         if tok = 0 then Ok c s2 n
         else if tok \<noteq> 97 then Panics ''syntax''
         else if argc + 1 \<ge> 10 then Panics ''too many args''
         else
           (case parseredirs l (add_arg (q, eq) c) s2 n of
              Ok c' s3 n' \<Rightarrow> parse_args l (argc + 1) c' s3 n'
            | e \<Rightarrow> e)))"
  by pat_completeness auto
termination
  by (relation "measure (\<lambda>(l, argc, c, s, n). 10 - argc)") auto

declare parse_args.simps [simp del]

text \<open>The loop of \<^verbatim>\<open>parseline\<close> over \<^verbatim>\<open>&\<close>.\<close>

function parse_backs :: "byte list \<Rightarrow> span cmd \<Rightarrow> nat \<Rightarrow> nat \<Rightarrow> span cmd parsed" where
  "parse_backs l c s n =
     (case peek l s [38] of (found, s1) \<Rightarrow>
      if \<not> found then Ok c s1 n
      else
        (case gettoken l s1 of (_, _, _, s2) \<Rightarrow>
         (case backcmd c s2 n of
            Ok c' s' n' \<Rightarrow> parse_backs l c' s2 n'
          | e \<Rightarrow> e)))"
  by pat_completeness auto
termination
  by (relation "measure (\<lambda>(l, c, s, n). length l - s)") (auto dest: peek_gettoken [OF sym sym])

declare parse_backs.simps [simp del]

text \<open>The mutually recursive routines; the first argument bounds the depth of their calls.\<close>

function (sequential) parseline :: "nat \<Rightarrow> byte list \<Rightarrow> nat \<Rightarrow> nat \<Rightarrow> span cmd parsed"
  and parsepipe :: "nat \<Rightarrow> byte list \<Rightarrow> nat \<Rightarrow> nat \<Rightarrow> span cmd parsed"
  and parseblock :: "nat \<Rightarrow> byte list \<Rightarrow> nat \<Rightarrow> nat \<Rightarrow> span cmd parsed"
  and parseexec :: "nat \<Rightarrow> byte list \<Rightarrow> nat \<Rightarrow> nat \<Rightarrow> span cmd parsed" where
  "parseline 0 l s n = No_fuel"
| "parseline (Suc k) l s n =
     pbind (parsepipe k l s n) (\<lambda>c s n.
     pbind (parse_backs l c s n) (\<lambda>c s n.
     case peek l s [59] of (found, s) \<Rightarrow>
     if found then
       (case gettoken l s of (_, _, _, s) \<Rightarrow> pbind (parseline k l s n) (\<lambda>r s n. listcmd c r s n))
     else Ok c s n))"
| "parsepipe 0 l s n = No_fuel"
| "parsepipe (Suc k) l s n =
     pbind (parseexec k l s n) (\<lambda>c s n.
     case peek l s [124] of (found, s) \<Rightarrow>
     if found then
       (case gettoken l s of (_, _, _, s) \<Rightarrow> pbind (parsepipe k l s n) (\<lambda>r s n. pipecmd c r s n))
     else Ok c s n)"
| "parseblock 0 l s n = No_fuel"
| "parseblock (Suc k) l s n =
     (case peek l s [40] of (found, s) \<Rightarrow>
      if \<not> found then Panics ''parseblock''
      else
        (case gettoken l s of (_, _, _, s) \<Rightarrow>
         pbind (parseline k l s n) (\<lambda>c s n.
         case peek l s [41] of (found, s) \<Rightarrow>
         if \<not> found then Panics ''syntax - missing )''
         else (case gettoken l s of (_, _, _, s) \<Rightarrow> parseredirs l c s n))))"
| "parseexec 0 l s n = No_fuel"
| "parseexec (Suc k) l s n =
     (case peek l s [40] of (found, s) \<Rightarrow>
      if found then parseblock k l s n
      else
        pbind (execcmd s n) (\<lambda>c s n.
        pbind (parseredirs l c s n) (\<lambda>c s n. parse_args l 0 c s n)))"
  by pat_completeness auto
termination
  by (relation "measure (case_sum (case_sum fst fst) (case_sum fst fst))") auto

text \<open>\<^verbatim>\<open>nulterminate\<close> ends every word of the command in place.\<close>

fun nulterminate :: "span cmd \<Rightarrow> byte list \<Rightarrow> byte list" where
  "nulterminate (EXEC ws) b = fold (\<lambda>(q, eq) b. b[eq := 0]) ws b"
| "nulterminate (REDIR c (q, eq) m d) b = (nulterminate c b)[eq := 0]"
| "nulterminate (PIPE l r) b = nulterminate r (nulterminate l b)"
| "nulterminate (LIST l r) b = nulterminate r (nulterminate l b)"
| "nulterminate (BACK c) b = nulterminate c b"

text \<open>The words as \<^verbatim>\<open>runcmd\<close> reads them: the strings that begin at \<^verbatim>\<open>q\<close>.\<close>

definition string_at :: "byte list \<Rightarrow> nat \<Rightarrow> byte list" where
  "string_at b q = takeWhile (\<lambda>c. c \<noteq> 0) (drop q b)"

definition parse_fuel :: "byte list \<Rightarrow> nat" where
  "parse_fuel l = 4 * length l + 4"

definition parsecmd :: "nat \<Rightarrow> byte list \<Rightarrow> byte list cmd um" where
  "parsecmd n s =
     (let l = strcpy s in
      case parseline (parse_fuel l) l 0 n of
        Ok c p _ \<Rightarrow>
          (case peek l p [] of (_, p) \<Rightarrow>
           if p \<noteq> length l then
             useq (fprintf 2 (ln ''leftovers: %s'') [U_str (Some (drop p l))]) (panic ''syntax'')
           else uret (map_cmd (\<lambda>(q, eq). string_at (nulterminate c (l @ [0])) q) c))
      | Panics m \<Rightarrow> panic m
      | Null \<Rightarrow> uundef ''null pointer''
      | No_fuel \<Rightarrow> uundef ''stack'')"

subsection \<open>The loop of the shell\<close>

text \<open>\<open>None\<close> at the end of the input, where the buffer stays empty.\<close>

definition getcmd :: "nat \<Rightarrow> byte list option um" where
  "getcmd nbuf =
     useq (fprintf 2 (str ''$ '') [])
     (ubind (gets nbuf) (\<lambda>buf. uret (if strcpy buf = [] then None else Some (strcpy buf))))"

definition sh_main :: "nat \<Rightarrow> unit um" where
  "sh_main n =
     useq (uloop (\<lambda>_. ubind (syscall (C_open (str ''console'') 2)) (\<lambda>fd.
             if fd < 0 then uret (Inr ())
             else if fd \<ge> 3 then useq (syscall (C_close fd)) (uret (Inr ()))
             else uret (Inl ()))) ())
     (useq (uloop (\<lambda>_. ubind (getcmd 100) (\<lambda>r.
              case r of
                None \<Rightarrow> uret (Inr ())
              | Some buf \<Rightarrow>
                  if take 3 buf = str ''cd '' then
                    (let dir = drop 3 (butlast buf) in
                     ubind (syscall (C_chdir dir)) (\<lambda>r.
                     useq (if r < 0 then fprintf 2 (ln ''cannot cd %s'') [U_str (Some dir)] else uret ())
                     (uret (Inl ()))))
                  else
                    ubind fork1 (\<lambda>pid.
                    useq (if pid = 0 then ubind (parsecmd n buf) runcmd else uret ())
                    (useq (syscall C_wait) (uret (Inl ())))))) ())
     (exit 0))"

end
