(* ===== verification/ShellRun.thy ===== *)
theory ShellRun
  imports Shell
begin

text \<open>
  The parser of the shell: it always returns, it reads back every command printed in the syntax of the shell,
  and ending its words in place never damages another word.
\<close>

subsection \<open>The parser returns\<close>

lemma pbind_No_fuel:
  "pbind m f = No_fuel \<longleftrightarrow> m = No_fuel \<or> (\<exists>a s n. m = Ok a s n \<and> f a s n = No_fuel)"
  by (cases m) auto

lemma pbind_Ok: "pbind m f = Ok a s n \<longleftrightarrow> (\<exists>b t k. m = Ok b t k \<and> f b t k = Ok a s n)"
  by (cases m) auto

lemma new_cmd_cases [simp]:
  "new_cmd c s n \<noteq> No_fuel" "new_cmd c s n \<noteq> Panics x" "new_cmd c s n = Ok d t k \<longleftrightarrow> d = c \<and> t = s \<and> n = Suc k"
  by (cases n; auto)+

lemmas new_defs = execcmd_def redircmd_def pipecmd_def listcmd_def backcmd_def

lemma peek_ge: "peek l s toks = (b, s1) \<Longrightarrow> s \<le> s1"
  using skip_space_ge [of s l] by (simp add: peek_def Let_def)

text \<open>A word: bytes that are neither NUL nor blank nor a symbol, as many as there are.\<close>

definition ordinary :: "byte \<Rightarrow> bool" where
  "ordinary c \<longleftrightarrow> c \<noteq> 0 \<and> c \<notin> set whitespace \<and> c \<notin> set symbols"

fun word_at :: "byte list \<Rightarrow> span \<Rightarrow> bool" where
  "word_at l (q, e) \<longleftrightarrow>
     q < e \<and> e \<le> length l \<and> (\<forall>i. q \<le> i \<and> i < e \<longrightarrow> ordinary (l ! i)) \<and> \<not> ordinary (deref l e)"

lemma skip_word_at:
  assumes "0 \<notin> set l" "q \<le> length l"
  shows "skip_word l q \<le> length l \<and> (\<forall>i. q \<le> i \<and> i < skip_word l q \<longrightarrow> ordinary (l ! i)) \<and> \<not> ordinary (deref l (skip_word l q))"
  using assms
proof (induction l q rule: skip_word.induct)
  case (1 l s)
  show ?case
  proof (cases "s < length l \<and> strchr whitespace (deref l s) = None \<and> strchr symbols (deref l s) = None")
    case True
    then have r: "skip_word l s = skip_word l (Suc s)" by (subst skip_word.simps) simp
    have o: "ordinary (l ! s)" using True 1(2) nth_mem [of s l] by (auto simp: ordinary_def strchr_sets deref_def simp del: nth_mem)
    have IH: "skip_word l (Suc s) \<le> length l \<and> (\<forall>i. Suc s \<le> i \<and> i < skip_word l (Suc s) \<longrightarrow> ordinary (l ! i)) \<and>
        \<not> ordinary (deref l (skip_word l (Suc s)))"
      using 1(1) [OF True 1(2)] True by simp
    have "ordinary (l ! i)" if "s \<le> i" "i < skip_word l (Suc s)" for i
      using that IH o by (cases "i = s") auto
    then show ?thesis unfolding r using IH by blast
  next
    case False
    then have r: "skip_word l s = s" by (subst skip_word.simps) auto
    have "\<not> ordinary (deref l s)" using False 1(3) by (auto simp: ordinary_def strchr_sets deref_def split: if_splits)
    then show ?thesis unfolding r using 1(3) by auto
  qed
qed

lemma gettoken_word:
  assumes l: "0 \<notin> set l" and g: "gettoken l s = (97, q, e, s')"
  shows "word_at l (q, e)"
proof -
  have qe: "q < e" "q = skip_space l s" using gettoken_progress(2) [OF g] gettoken_ge [OF g] by auto
  have "deref l q \<noteq> 0" using gettoken_zero [OF g] qe by simp
  then have "q < length l" by (auto simp: deref_def split: if_splits)
  moreover have "e = skip_word l q" using g qe by (auto simp: gettoken_def Let_def split: if_splits)
  ultimately show ?thesis using skip_word_at [OF l, of q] qe by simp
qed

text \<open>One round of the loop of \<^verbatim>\<open>parseredirs\<close>.\<close>

lemma parseredirs_cases:
  obtains (stop) s1 where "parseredirs l c s n = Ok c s1 n" "s \<le> s1"
  | (panic) x where "parseredirs l c s n = Panics x"
  | (null) "parseredirs l c s n = Null"
  | (redir) w m d s' n' where "n = Suc n'" "s \<le> s'" "0 \<notin> set l \<Longrightarrow> word_at l w"
      "parseredirs l c s n = parseredirs l (REDIR c w m d) s' n'"
proof -
  obtain found s1 where p: "peek l s [60, 62] = (found, s1)" by force
  obtain tok q e s2 where g: "gettoken l s1 = (tok, q, e, s2)" by (cases "gettoken l s1")
  obtain t q' e' s3 where h: "gettoken l s2 = (t, q', e', s3)" by (cases "gettoken l s2")
  have le: "s \<le> s1" "s \<le> s3" using peek_ge [OF p] gettoken_ge [OF g] gettoken_ge [OF h] by linarith+
  note r = parseredirs.simps [of l c s n, unfolded p g h prod.case]
  consider "\<not> found" | "found" "t \<noteq> 97" | "found" "t = 97" "n = 0" | n' where "found" "t = 97" "n = Suc n'"
    by (cases n) auto
  then show thesis
  proof cases
    case 1
    then show thesis using r le stop by simp
  next
    case 2
    then show thesis using r panic by simp
  next
    case 3
    have "deref l s1 = 60 \<or> deref l s1 = 62" "s1 = skip_space l s" using p 3 by (auto simp: peek_def Let_def split: if_splits)
    then have "tok \<in> {60, 62, 43}" using g by (auto simp: gettoken_def Let_def split: if_splits)
    then show thesis using r 3 null by (auto simp: new_defs)
  next
    case (4 n')
    have "deref l s1 = 60 \<or> deref l s1 = 62" "s1 = skip_space l s" using p 4 by (auto simp: peek_def Let_def split: if_splits)
    then have "tok \<in> {60, 62, 43}" using g by (auto simp: gettoken_def Let_def split: if_splits)
    then obtain m d where "parseredirs l c s n = parseredirs l (REDIR c (q', e') m d) s3 n'" using r 4 by (auto simp: new_defs)
    then show thesis using redir [of n' s3 "(q', e')" m d] gettoken_word [of l s2 q' e' s3] h 4 le by blast
  qed
qed

text \<open>
  What a routine of the parser returns: never the lack of fuel, a later position, and a command all of whose
  words are words of the line.
\<close>

definition words_ok :: "byte list \<Rightarrow> span cmd \<Rightarrow> bool" where
  "words_ok l c \<longleftrightarrow> (0 \<notin> set l \<longrightarrow> (\<forall>w\<in>set_cmd c. word_at l w))"

definition good :: "byte list \<Rightarrow> nat \<Rightarrow> span cmd parsed \<Rightarrow> bool" where
  "good l s r \<longleftrightarrow> (case r of Ok c s' n \<Rightarrow> s \<le> s' \<and> words_ok l c | No_fuel \<Rightarrow> False | _ \<Rightarrow> True)"

lemma good_simps [simp]:
  "good l s (Ok c s' n) \<longleftrightarrow> s \<le> s' \<and> words_ok l c" "\<not> good l s No_fuel" "good l s Null" "good l s (Panics x)"
  by (simp_all add: good_def)

lemma words_ok_simps [simp]:
  "words_ok l (EXEC [])" "words_ok l (BACK c) \<longleftrightarrow> words_ok l c"
  "words_ok l (LIST c d) \<longleftrightarrow> words_ok l c \<and> words_ok l d" "words_ok l (PIPE c d) \<longleftrightarrow> words_ok l c \<and> words_ok l d"
  "words_ok l (REDIR c w m k) \<longleftrightarrow> words_ok l c \<and> (0 \<notin> set l \<longrightarrow> word_at l w)"
  by (auto simp: words_ok_def)

lemma words_ok_add_arg: "words_ok l c \<Longrightarrow> (0 \<notin> set l \<Longrightarrow> word_at l w) \<Longrightarrow> words_ok l (add_arg w c)"
  by (induction w c rule: add_arg.induct) (auto simp: words_ok_def)

lemma good_new [simp]: "good l s (new_cmd c s' n) \<longleftrightarrow> n = 0 \<or> s \<le> s' \<and> words_ok l c"
  by (cases n) auto

lemma good_bind:
  "good l s m \<Longrightarrow> (\<And>c s' n. m = Ok c s' n \<Longrightarrow> s \<le> s' \<Longrightarrow> words_ok l c \<Longrightarrow> good l s (f c s' n)) \<Longrightarrow> good l s (pbind m f)"
  by (cases m) auto

lemma good_le: "good l s r \<Longrightarrow> s0 \<le> s \<Longrightarrow> good l s0 r"
  by (auto simp: good_def split: parsed.splits)

lemma good_parseredirs: "words_ok l c \<Longrightarrow> good l s (parseredirs l c s n)"
proof (induction n arbitrary: c s)
  case 0
  then show ?case by (cases rule: parseredirs_cases [of l c s 0]) auto
next
  case (Suc n)
  show ?case
  proof (cases rule: parseredirs_cases [of l c s "Suc n"])
    case (redir w m d s' n')
    then show ?thesis using Suc.IH [of "REDIR c w m d" s'] Suc.prems good_le by auto
  qed (use Suc.prems in auto)
qed

lemma good_parse_args: "words_ok l c \<Longrightarrow> good l s (parse_args l argc c s n)"
proof (induction l argc c s n rule: parse_args.induct)
  case (1 l argc c s n)
  obtain found s1 where p: "peek l s [124, 41, 38, 59] = (found, s1)" by force
  obtain tok q e s2 where g: "gettoken l s1 = (tok, q, e, s2)" by (cases "gettoken l s1")
  have le: "s \<le> s1" "s \<le> s2" using peek_ge [OF p] gettoken_ge [OF g] by linarith+
  note r = parse_args.simps [of l argc c s n, unfolded p g prod.case]
  show ?case
  proof (cases "found \<or> tok \<noteq> 97 \<or> argc + 1 \<ge> 10")
    case True
    then show ?thesis unfolding r using le 1(2) by auto
  next
    case False
    have w: "words_ok l (add_arg (q, e) c)" using words_ok_add_arg [OF 1(2)] gettoken_word [of l s1 q e s2] g False by simp
    have rr: "parse_args l argc c s n = pbind (parseredirs l (add_arg (q, e) c) s2 n) (parse_args l (argc + 1))"
      unfolding r using False by (simp split: parsed.splits)
    show ?thesis unfolding rr
    proof (rule good_bind)
      show "good l s (parseredirs l (add_arg (q, e) c) s2 n)" using good_le [OF good_parseredirs [OF w] le(2)] .
      fix c' s' n' assume "parseredirs l (add_arg (q, e) c) s2 n = Ok c' s' n'" "s \<le> s'" "words_ok l c'"
      then show "good l s (parse_args l (argc + 1) c' s' n')"
        using 1(1) [OF p [symmetric] _ g [symmetric] refl refl] False good_le by auto
    qed
  qed
qed

lemma good_parse_backs: "words_ok l c \<Longrightarrow> good l s (parse_backs l c s n)"
proof (induction n arbitrary: c s)
  case 0
  then show ?case
    using peek_ge [of l s "[38]"] by (subst parse_backs.simps) (auto split: prod.splits simp: new_defs)
next
  case (Suc n)
  obtain found s1 where p: "peek l s [38] = (found, s1)" by force
  obtain tok q e s2 where g: "gettoken l s1 = (tok, q, e, s2)" by (cases "gettoken l s1")
  have le: "s \<le> s1" "s \<le> s2" using peek_ge [OF p] gettoken_ge [OF g] by linarith+
  show ?case
    using Suc.IH [of "BACK c" s2] Suc.prems le good_le [of l s2 _ s]
    by (subst parse_backs.simps) (simp add: p g new_defs)
qed

lemma parse_good:
  "(4 * (length l - s) + 4 \<le> k \<longrightarrow> good l s (parseline k l s n)) \<and>
   (4 * (length l - s) + 3 \<le> k \<longrightarrow> good l s (parsepipe k l s n)) \<and>
   (4 * (length l - s) + 2 \<le> k \<longrightarrow> good l s (parseexec k l s n)) \<and>
   (4 * (length l - s) + 1 \<le> k \<longrightarrow> good l s (parseblock k l s n))"
proof (induction k arbitrary: s n)
  case (Suc k)
  note IH = Suc.IH
  have line: "good l s (parseline (Suc k) l s n)" if k: "4 * (length l - s) + 4 \<le> Suc k"
    unfolding parseline.simps
  proof (intro good_bind)
    show "good l s (parsepipe k l s n)" using IH k by auto
    fix c1 s1 n1 assume 1: "s \<le> s1" "words_ok l c1"
    show "good l s (parse_backs l c1 s1 n1)" using good_le [OF good_parse_backs] 1 by blast
    fix c2 s2 n2 assume 2: "s \<le> s2" "words_ok l c2"
    obtain b s3 where p: "peek l s2 [59] = (b, s3)" by force
    obtain t q e s4 where g: "gettoken l s3 = (t, q, e, s4)" by (cases "gettoken l s3")
    show "good l s (case peek l s2 [59] of (found, s) \<Rightarrow>
        if found then (case gettoken l s of (_, _, _, s) \<Rightarrow> pbind (parseline k l s n2) (\<lambda>r s n. listcmd c2 r s n))
        else Ok c2 s n2)"
    proof (cases b)
      case True
      then have "s < s4" "s < length l" using peek_gettoken [of l s2 "[59]" s3 t q e s4] p g True 2 by auto
      then have "good l s4 (parseline k l s4 n2)" using IH [of s4 n2] k by auto
      then show ?thesis using p g True 2 \<open>s < s4\<close>
        by (auto simp: new_defs intro!: good_bind intro: good_le)
    qed (use p peek_ge [OF p] 2 in auto)
  qed
  have pipe: "good l s (parsepipe (Suc k) l s n)" if k: "4 * (length l - s) + 3 \<le> Suc k"
    unfolding parsepipe.simps
  proof (intro good_bind)
    show "good l s (parseexec k l s n)" using IH k by auto
    fix c2 s2 n2 assume 2: "s \<le> s2" "words_ok l c2"
    obtain b s3 where p: "peek l s2 [124] = (b, s3)" by force
    obtain t q e s4 where g: "gettoken l s3 = (t, q, e, s4)" by (cases "gettoken l s3")
    show "good l s (case peek l s2 [124] of (found, s) \<Rightarrow>
        if found then (case gettoken l s of (_, _, _, s) \<Rightarrow> pbind (parsepipe k l s n2) (\<lambda>r s n. pipecmd c2 r s n))
        else Ok c2 s n2)"
    proof (cases b)
      case True
      then have "s < s4" "s < length l" using peek_gettoken [of l s2 "[124]" s3 t q e s4] p g 2 by auto
      then have "good l s4 (parsepipe k l s4 n2)" using IH [of s4 n2] k by auto
      then show ?thesis using p g True 2 \<open>s < s4\<close>
        by (auto simp: new_defs intro!: good_bind intro: good_le)
    qed (use p peek_ge [OF p] 2 in auto)
  qed
  have "good l s (parseexec (Suc k) l s n)" if k: "4 * (length l - s) + 2 \<le> Suc k"
  proof -
    obtain b s1 where p: "peek l s [40] = (b, s1)" by force
    have le: "s \<le> s1" using peek_ge [OF p] .
    show ?thesis
    proof (cases b)
      case True
      have "good l s1 (parseblock k l s1 n)" using IH [of s1 n] k le by auto
      then show ?thesis using True p le good_le by auto
    next
      case False
      then show ?thesis using p le good_le [OF good_parseredirs] good_le [OF good_parse_args]
        by (auto simp: new_defs intro!: good_bind)
    qed
  qed
  moreover have "good l s (parseblock (Suc k) l s n)" if k: "4 * (length l - s) + 1 \<le> Suc k"
  proof -
    obtain b s1 where p: "peek l s [40] = (b, s1)" by force
    obtain t q e s2 where g: "gettoken l s1 = (t, q, e, s2)" by (cases "gettoken l s1")
    show ?thesis
    proof (cases b)
      case True
      then have "s < s2" "s < length l" using peek_gettoken [of l s "[40]" s1 t q e s2] p g by auto
      then have line: "good l s2 (parseline k l s2 n)" using IH [of s2 n] k by auto
      have "good l s (pbind (parseline k l s2 n) (\<lambda>c s n.
         case peek l s [41] of (found, s) \<Rightarrow>
         if \<not> found then Panics ''syntax - missing )''
         else (case gettoken l s of (_, _, _, s) \<Rightarrow> parseredirs l c s n)))"
      proof (rule good_bind)
        show "good l s (parseline k l s2 n)" using good_le [OF line] \<open>s < s2\<close> by simp
        fix c3 s3 n3 assume 3: "s \<le> s3" "words_ok l c3"
        obtain b' s4 where p': "peek l s3 [41] = (b', s4)" by force
        obtain t' q' e' s5 where g': "gettoken l s4 = (t', q', e', s5)" by (cases "gettoken l s4")
        have "s \<le> s5" using peek_ge [OF p'] gettoken_ge [OF g'] 3 by linarith
        then show "good l s (case peek l s3 [41] of (found, s) \<Rightarrow>
            if \<not> found then Panics ''syntax - missing )''
            else (case gettoken l s of (_, _, _, s) \<Rightarrow> parseredirs l c3 s n3))"
          using good_le [OF good_parseredirs [OF 3(2)]] by (simp add: p' g')
      qed
      then show ?thesis using True p g by simp
    qed (use p in simp)
  qed
  ultimately show ?case using line pipe by blast
qed simp

subsection \<open>More fuel changes nothing\<close>

lemma pbind_more:
  "pbind m f \<noteq> No_fuel \<Longrightarrow> (m \<noteq> No_fuel \<Longrightarrow> m' = m) \<Longrightarrow>
    (\<And>c s n. m = Ok c s n \<Longrightarrow> f c s n \<noteq> No_fuel \<Longrightarrow> f' c s n = f c s n) \<Longrightarrow> pbind m' f' = pbind m f"
  by (cases m) auto

lemma parse_more:
  "(parseline k l s n \<noteq> No_fuel \<longrightarrow> parseline (Suc k) l s n = parseline k l s n) \<and>
   (parsepipe k l s n \<noteq> No_fuel \<longrightarrow> parsepipe (Suc k) l s n = parsepipe k l s n) \<and>
   (parseexec k l s n \<noteq> No_fuel \<longrightarrow> parseexec (Suc k) l s n = parseexec k l s n) \<and>
   (parseblock k l s n \<noteq> No_fuel \<longrightarrow> parseblock (Suc k) l s n = parseblock k l s n)"
proof (induction k arbitrary: s n)
  case (Suc k)
  note IH = Suc.IH
  have IH1: "parseline k l s n \<noteq> No_fuel \<Longrightarrow> parseline (Suc k) l s n = parseline k l s n" for s n using IH by blast
  have IH4: "parseblock k l s n \<noteq> No_fuel \<Longrightarrow> parseblock (Suc k) l s n = parseblock k l s n" for s n using IH by blast
  have "parseline (Suc (Suc k)) l s n = parseline (Suc k) l s n" if "parseline (Suc k) l s n \<noteq> No_fuel"
    using that unfolding parseline.simps(2) [of "Suc k"] parseline.simps(2) [of k]
    by (intro pbind_more) (use IH in \<open>auto split: prod.splits if_splits intro!: pbind_more\<close>)
  moreover have "parsepipe (Suc (Suc k)) l s n = parsepipe (Suc k) l s n" if "parsepipe (Suc k) l s n \<noteq> No_fuel"
    using that unfolding parsepipe.simps(2) [of "Suc k"] parsepipe.simps(2) [of k]
    by (intro pbind_more) (use IH in \<open>auto split: prod.splits if_splits intro!: pbind_more\<close>)
  moreover have "parseexec (Suc (Suc k)) l s n = parseexec (Suc k) l s n" if "parseexec (Suc k) l s n \<noteq> No_fuel"
    using that IH4 unfolding parseexec.simps(2) [of "Suc k"] parseexec.simps(2) [of k]
    by (auto split: prod.splits if_splits simp del: parseblock.simps)
  moreover have "parseblock (Suc (Suc k)) l s n = parseblock (Suc k) l s n" if "parseblock (Suc k) l s n \<noteq> No_fuel"
    using that unfolding parseblock.simps(2) [of "Suc k"] parseblock.simps(2) [of k]
    by (auto split: prod.splits if_splits intro!: pbind_more IH1 simp del: parseline.simps)
  ultimately show ?case by blast
qed simp

lemma parseline_more: "parseline k l s n \<noteq> No_fuel \<Longrightarrow> parseline (k + j) l s n = parseline k l s n"
proof (induction j)
  case (Suc j)
  then show ?case using parse_more [of "k + j" l s n] by simp
qed simp

lemma parseline_enough: "good l 0 (parseline (parse_fuel l) l 0 n)"
  using parse_good [of l 0 "parse_fuel l" n] by (simp add: parse_fuel_def)

subsection \<open>Words ended in place\<close>

definition word_text :: "byte list \<Rightarrow> span \<Rightarrow> byte list" where
  "word_text l w = take (snd w - fst w) (drop (fst w) l)"

lemma fold_zero_nth:
  "length (fold (\<lambda>(q, eq) b. b[eq := 0]) ws b) = length b \<and>
   (\<forall>i<length b. fold (\<lambda>(q, eq) b. b[eq := 0]) ws b ! i = (if i \<in> snd ` set ws then 0 else b ! i))"
proof (induction ws arbitrary: b)
  case (Cons w ws)
  obtain q e where w: "w = (q, e)" by force
  show ?case using Cons unfolding w by (cases "e < length b") (auto simp: nth_list_update list_update_beyond)
qed simp

lemma nulterminate_nth:
  "length (nulterminate c b) = length b \<and>
   (\<forall>i<length b. nulterminate c b ! i = (if i \<in> snd ` set_cmd c then 0 else b ! i))"
proof (induction c b rule: nulterminate.induct)
  case (1 ws b)
  then show ?case using fold_zero_nth [of ws b] by simp
next
  case (2 c q eq m d b)
  then show ?case by (cases "eq < length b") (auto simp: nth_list_update list_update_beyond)
next
  case (3 l r b)
  then show ?case by (auto simp: image_Un)
next
  case (4 l r b)
  then show ?case by (auto simp: image_Un)
qed auto

lemma string_at_word:
  assumes l: "0 \<notin> set l" and c: "words_ok l c" and w: "(q, e) \<in> set_cmd c"
  shows "string_at (nulterminate c (l @ [0])) q = word_text l (q, e)"
proof -
  let ?b = "nulterminate c (l @ [0])"
  have ok: "\<forall>v\<in>set_cmd c. word_at l v" using c l by (simp add: words_ok_def)
  have qe: "q < e" "e \<le> length l" "\<And>i. q \<le> i \<Longrightarrow> i < e \<Longrightarrow> ordinary (l ! i)" using bspec [OF ok w] by auto
  have b: "length ?b = Suc (length l)" "\<And>i. i \<le> length l \<Longrightarrow> ?b ! i = (if i \<in> snd ` set_cmd c then 0 else (l @ [0]) ! i)"
    using nulterminate_nth [of c "l @ [0]"] by auto
  have inside: "?b ! i = l ! i \<and> l ! i \<noteq> 0" if "q \<le> i" "i < e" for i
  proof -
    have "i \<notin> snd ` set_cmd c" using ok qe(2,3) that by (force simp: deref_def)
    then show ?thesis using b(2) [of i] qe that by (auto simp: nth_append ordinary_def)
  qed
  have "?b ! e = 0" using b(2) [of e] w qe by force
  then have "takeWhile (\<lambda>c. c \<noteq> 0) (drop q ?b) = take (e - q) (drop q ?b)"
    using b(1) qe inside by (intro takeWhile_eq_take_P_nth) auto
  also have "\<dots> = take (e - q) (drop q l)"
    using b(1) qe inside by (intro nth_equalityI) auto
  finally show ?thesis by (simp add: string_at_def word_text_def)
qed

lemma map_string_at:
  "0 \<notin> set l \<Longrightarrow> words_ok l c \<Longrightarrow>
    map_cmd (\<lambda>(q, e). string_at (nulterminate c (l @ [0])) q) c = map_cmd (word_text l) c"
  using string_at_word [of l c] by (auto intro!: cmd.map_cong)

subsection \<open>Printing and parsing\<close>

text \<open>A command in the syntax of the shell, with every part of a compound command in parentheses.\<close>

definition redir_op :: "nat \<Rightarrow> byte list" where
  "redir_op m = (if m = 0 then [60] else if m = 1537 then [62] else [62, 62])"

fun show_cmd :: "byte list cmd \<Rightarrow> byte list" where
  "show_cmd (EXEC ws) = concat (map (\<lambda>w. w @ [32]) ws)"
| "show_cmd (REDIR c f m d) = 40 # show_cmd c @ 41 # redir_op m @ f @ [32]"
| "show_cmd (PIPE l r) = 40 # show_cmd l @ 41 # 124 # 40 # show_cmd r @ [41]"
| "show_cmd (LIST l r) = 40 # show_cmd l @ 41 # 59 # 40 # show_cmd r @ [41]"
| "show_cmd (BACK c) = 40 # show_cmd c @ [41, 38]"

definition is_word :: "byte list \<Rightarrow> bool" where
  "is_word w \<longleftrightarrow> w \<noteq> [] \<and> list_all ordinary w"

fun wf_cmd :: "byte list cmd \<Rightarrow> bool" where
  "wf_cmd (EXEC ws) \<longleftrightarrow> length ws < 10 \<and> list_all is_word ws"
| "wf_cmd (REDIR c f m d) \<longleftrightarrow> wf_cmd c \<and> is_word f \<and> (m, d) \<in> {(0, 0), (1537, 1), (513, 1)}"
| "wf_cmd (PIPE l r) \<longleftrightarrow> wf_cmd l \<and> wf_cmd r"
| "wf_cmd (LIST l r) \<longleftrightarrow> wf_cmd l \<and> wf_cmd r"
| "wf_cmd (BACK c) \<longleftrightarrow> wf_cmd c"

fun nodes :: "'w cmd \<Rightarrow> nat" where
  "nodes (EXEC ws) = 1"
| "nodes (REDIR c f m d) = Suc (nodes c)"
| "nodes (PIPE l r) = Suc (nodes l + nodes r)"
| "nodes (LIST l r) = Suc (nodes l + nodes r)"
| "nodes (BACK c) = Suc (nodes c)"

text \<open>The same command with the positions of its words, when the text of it begins at \<open>s\<close>.\<close>

fun word_spans :: "nat \<Rightarrow> byte list list \<Rightarrow> span list" where
  "word_spans s [] = []"
| "word_spans s (w # ws) = (s, s + length w) # word_spans (s + length w + 1) ws"

fun spans :: "nat \<Rightarrow> byte list cmd \<Rightarrow> span cmd" where
  "spans s (EXEC ws) = EXEC (word_spans s ws)"
| "spans s (REDIR c f m d) =
     (let q = s + length (show_cmd c) + 2 + length (redir_op m) in REDIR (spans (Suc s) c) (q, q + length f) m d)"
| "spans s (PIPE l r) = PIPE (spans (Suc s) l) (spans (s + length (show_cmd l) + 4) r)"
| "spans s (LIST l r) = LIST (spans (Suc s) l) (spans (s + length (show_cmd l) + 4) r)"
| "spans s (BACK c) = BACK (spans (Suc s) c)"

text \<open>What is left of the line at a position.\<close>

definition rests :: "byte list \<Rightarrow> nat \<Rightarrow> byte list \<Rightarrow> bool" where
  "rests l s xs \<longleftrightarrow> s \<le> length l \<and> drop s l = xs"

definition nonblank :: "byte list \<Rightarrow> bool" where
  "nonblank xs \<longleftrightarrow> xs = [] \<or> hd xs \<notin> set whitespace"

lemma rests_append: "rests l s (xs @ ys) \<Longrightarrow> rests l (s + length xs) ys"
proof -
  assume a: "rests l s (xs @ ys)"
  then have "length (drop s l) = length xs + length ys" by (simp add: rests_def)
  then show ?thesis using a by (auto simp: rests_def drop_drop [symmetric] add.commute [of s] simp del: drop_drop)
qed

lemma rests_Cons: "rests l s (x # ys) \<Longrightarrow> rests l (Suc s) ys"
  using rests_append [of l s "[x]" ys] by simp

lemma rests_deref: "rests l s xs \<Longrightarrow> deref l s = (case xs of [] \<Rightarrow> 0 | x # _ \<Rightarrow> x)"
  by (cases xs) (auto simp: rests_def deref_def hd_drop_conv_nth [symmetric] drop_Cons')

lemma rests_skip: "rests l s xs \<Longrightarrow> nonblank xs \<Longrightarrow> skip_space l s = s"
  using rests_deref [of l s xs]
  by (intro skip_space_stop) (auto simp: nonblank_def strchr_sets rests_def split: list.splits)

lemma rests_less: "rests l s (x # xs) \<Longrightarrow> s < length l"
  by (cases "s = length l") (auto simp: rests_def)

lemma rests_skip_blank: "rests l s (32 # xs) \<Longrightarrow> nonblank xs \<Longrightarrow> skip_space l s = Suc s"
  using rests_skip [OF rests_Cons, of l s 32 xs] rests_deref [of l s "32 # xs"] rests_less [of l s 32 xs]
  by (subst skip_space.simps) (auto simp: strchr_sets whitespace_def)

lemma rests_peek:
  "rests l s xs \<Longrightarrow> nonblank xs \<Longrightarrow> 0 \<notin> set toks \<Longrightarrow> peek l s toks = (xs \<noteq> [] \<and> hd xs \<in> set toks, s)"
  using rests_deref [of l s xs] by (auto simp: peek_def rests_skip strchr_not_in split: list.splits)

lemma rests_symbol:
  "rests l s (c # xs) \<Longrightarrow> c \<in> {124, 40, 41, 59, 38, 60} \<Longrightarrow> nonblank xs \<Longrightarrow> gettoken l s = (c, s, Suc s, Suc s)"
  using rests_deref [of l s "c # xs"] rests_skip [of l s "c # xs"] rests_skip [OF rests_Cons [of l s c xs]]
  by (auto simp: gettoken_def nonblank_def whitespace_def)

lemma rests_skip_word:
  "rests l s (w @ xs) \<Longrightarrow> list_all ordinary w \<Longrightarrow> xs = [] \<or> \<not> ordinary (hd xs) \<Longrightarrow> hd xs \<noteq> 0 \<Longrightarrow> skip_word l s = s + length w"
proof (induction w arbitrary: s)
  case Nil
  then show ?case using rests_deref [of l s xs] by (subst skip_word.simps) (auto simp: ordinary_def strchr_sets rests_def split: list.splits)
next
  case (Cons c w)
  then have "skip_word l (Suc s) = s + length (c # w)" using Cons.IH [of "Suc s"] rests_Cons [of l s c "w @ xs"] by simp
  then show ?case using Cons.prems rests_deref [of l s "c # w @ xs"] rests_less [of l s c "w @ xs"]
    by (subst skip_word.simps) (auto simp: ordinary_def strchr_sets)
qed

lemma rests_word:
  assumes r: "rests l s (w @ 32 # xs)" and w: "is_word w" and x: "nonblank xs"
  shows "gettoken l s = (97, s, s + length w, s + length w + 1)"
proof -
  obtain c v where cv: "w = c # v" "ordinary c" using w by (cases w) (auto simp: is_word_def)
  have d: "deref l s = c" "skip_space l s = s"
    using r rests_deref [OF r] rests_skip [OF r] cv by (auto simp: nonblank_def ordinary_def)
  have c: "c \<noteq> 0" "c \<notin> {124, 40, 41, 59, 38, 60}" "c \<noteq> 62" using cv by (auto simp: ordinary_def symbols_def)
  have "skip_word l s = s + length w" using rests_skip_word [OF r] w by (auto simp: is_word_def ordinary_def whitespace_def)
  moreover have "skip_space l (s + length w) = s + length w + 1" using rests_skip_blank [OF rests_append [OF r] x] by simp
  ultimately show ?thesis using d c by (simp add: gettoken_def)
qed

lemma rests_redir_op:
  assumes "rests l s (redir_op m @ f @ xs)" "is_word f"
  shows "gettoken l s = (if m = 0 then 60 else if m = 1537 then 62 else 43, s, s + length (redir_op m), s + length (redir_op m))"
proof -
  obtain c v where cv: "f = c # v" "ordinary c" using assms(2) by (cases f) (auto simp: is_word_def)
  have nb: "nonblank (f @ xs)" "c \<noteq> 62" using cv by (auto simp: nonblank_def ordinary_def symbols_def)
  have end1: "skip_space l (s + length (redir_op m)) = s + length (redir_op m)"
    using rests_skip [OF rests_append [OF assms(1)] nb(1)] .
  have d: "deref l s = hd (redir_op m)" "skip_space l s = s"
    using rests_deref [OF assms(1)] rests_skip [OF assms(1)] by (auto simp: redir_op_def nonblank_def whitespace_def)
  have "deref l (Suc s) = (if m = 0 \<or> m = 1537 then c else 62)"
    using rests_Cons [of l s "hd (redir_op m)" "tl (redir_op m) @ f @ xs"] assms(1) rests_deref cv
    by (force simp: redir_op_def)
  then show ?thesis using d end1 nb by (auto simp: gettoken_def redir_op_def)
qed

lemma nonblank_show: "wf_cmd c \<Longrightarrow> nonblank xs \<Longrightarrow> nonblank (show_cmd c @ xs)"
proof (cases c)
  case (EXEC ws)
  then show "wf_cmd c \<Longrightarrow> nonblank xs \<Longrightarrow> nonblank (show_cmd c @ xs)"
    by (cases ws; cases "hd ws") (auto simp: nonblank_def is_word_def ordinary_def)
qed (auto simp: nonblank_def whitespace_def)

text \<open>The result of a routine for every sufficient depth of recursion.\<close>

definition settles :: "(nat \<Rightarrow> 'a) \<Rightarrow> 'a \<Rightarrow> bool" where
  "settles f r \<longleftrightarrow> (\<exists>k. \<forall>j\<ge>k. f j = r)"

lemma settles_Suc: "settles f r \<Longrightarrow> (\<And>k. f k = r \<Longrightarrow> g (Suc k) = r') \<Longrightarrow> settles g r'"
  unfolding settles_def by (metis Suc_le_D Suc_le_mono)

lemma settles_Suc2:
  "settles f r \<Longrightarrow> settles f' r2 \<Longrightarrow> (\<And>k. f k = r \<Longrightarrow> f' k = r2 \<Longrightarrow> g (Suc k) = r') \<Longrightarrow> settles g r'"
proof -
  assume f: "settles f r" "settles f' r2" and g: "\<And>k. f k = r \<Longrightarrow> f' k = r2 \<Longrightarrow> g (Suc k) = r'"
  have "settles (\<lambda>k. (f k, f' k)) (r, r2)" using f unfolding settles_def by (metis max.cobounded1 max.cobounded2 order_trans)
  then show ?thesis by (rule settles_Suc) (use g in auto)
qed

definition closing :: "byte list \<Rightarrow> bool" where
  "closing xs \<longleftrightarrow> xs = [] \<or> hd xs = 41"

lemma closing_nonblank: "closing xs \<Longrightarrow> nonblank xs"
  by (auto simp: closing_def nonblank_def whitespace_def)

lemma redirs_none:
  "rests l s xs \<Longrightarrow> nonblank xs \<Longrightarrow> xs = [] \<or> hd xs \<noteq> 60 \<and> hd xs \<noteq> 62 \<Longrightarrow> parseredirs l c s n = Ok c s n"
  by (subst parseredirs.simps) (auto simp: rests_peek)

lemma redirs_one:
  assumes r: "rests l s (redir_op m @ f @ 32 # xs)" and f: "is_word f" and x: "closing xs"
    and m: "(m, d) \<in> {(0, 0), (1537, 1), (513, 1)}"
  shows "parseredirs l c s (Suc n) =
    (let q = s + length (redir_op m) in Ok (REDIR c (q, q + length f) m d) (q + length f + 1) n)"
proof -
  let ?q = "s + length (redir_op m)"
  note x' = closing_nonblank [OF x]
  have p: "peek l s [60, 62] = (True, s)"
    using rests_peek [OF r, of "[60, 62]"] by (auto simp: redir_op_def nonblank_def whitespace_def)
  have rf: "rests l ?q (f @ 32 # xs)" using rests_append [OF r] .
  have g: "gettoken l ?q = (97, ?q, ?q + length f, ?q + length f + 1)" using rests_word [OF rf f x'] .
  have "rests l (?q + length (f @ [32])) xs" using rests_append [of l ?q "f @ [32]" xs] rf by simp
  then have "parseredirs l c' (?q + length f + 1) n' = Ok c' (?q + length f + 1) n'" for c' n'
    using redirs_none [of l _ xs] x x' by (auto simp: closing_def)
  then show ?thesis
    using m by (subst parseredirs.simps) (auto simp: p rests_redir_op [OF r f] g new_defs Let_def)
qed

lemma backs_none: "rests l s xs \<Longrightarrow> nonblank xs \<Longrightarrow> xs = [] \<or> hd xs \<noteq> 38 \<Longrightarrow> parse_backs l c s n = Ok c s n"
  by (subst parse_backs.simps) (auto simp: rests_peek)

lemma backs_one: "rests l s (38 # xs) \<Longrightarrow> closing xs \<Longrightarrow> parse_backs l c s (Suc n) = Ok (BACK c) (Suc s) n"
  using backs_none [OF rests_Cons, of l s 38 xs] rests_peek [of l s "38 # xs" "[38]"] rests_symbol [of l s 38 xs]
    closing_nonblank [of xs]
  by (subst parse_backs.simps) (auto simp: new_defs closing_def nonblank_def whitespace_def)

lemma pipe_none:
  assumes "settles (\<lambda>k. parseexec k l s n) (Ok c s1 n1)" "rests l s1 xs" "nonblank xs" "xs = [] \<or> hd xs \<noteq> 124"
  shows "settles (\<lambda>k. parsepipe k l s n) (Ok c s1 n1)"
  using assms(1) by (rule settles_Suc) (use rests_peek [OF assms(2,3), of "[124]"] assms(4) in auto)

lemma line_none:
  assumes "settles (\<lambda>k. parsepipe k l s n) (Ok c s1 n1)" "parse_backs l c s1 n1 = Ok c' s2 n2" "rests l s2 xs" "closing xs"
  shows "settles (\<lambda>k. parseline k l s n) (Ok c' s2 n2)"
  using assms(1) by (rule settles_Suc)
    (use assms(2) rests_peek [OF assms(3) closing_nonblank [OF assms(4)], of "[59]"] assms(4) in \<open>auto simp: closing_def\<close>)

text \<open>A command in parentheses.\<close>

lemma block_parses:
  assumes line: "settles (\<lambda>k. parseline k l (Suc s) n) (Ok c' (Suc s + length (show_cmd c)) n')"
    and r: "rests l s (40 # show_cmd c @ 41 # xs)" and wf: "wf_cmd c" and x: "nonblank xs"
  shows "settles (\<lambda>k. parseexec k l s n) (parseredirs l c' (s + length (show_cmd c) + 2) n')"
proof -
  let ?e = "Suc s + length (show_cmd c)"
  have nb: "nonblank (41 # xs)" "nonblank (40 # show_cmd c @ 41 # xs)" by (auto simp: nonblank_def whitespace_def)
  have p: "peek l s [40] = (True, s)" using rests_peek [OF r nb(2), of "[40]"] by simp
  have g: "gettoken l s = (40, s, Suc s, Suc s)" using rests_symbol [OF r _ nonblank_show [OF wf nb(1)]] by simp
  have re: "rests l ?e (41 # xs)" using rests_append [OF rests_Cons [OF r]] .
  have p': "peek l ?e [41] = (True, ?e)" using rests_peek [OF re nb(1), of "[41]"] by simp
  have g': "gettoken l ?e = (41, ?e, Suc ?e, Suc ?e)" using rests_symbol [OF re _ x] by simp
  have "settles (\<lambda>k. parseblock k l s n) (parseredirs l c' (Suc ?e) n')"
    using line by (rule settles_Suc) (simp add: p g p' [simplified] g' [simplified])
  then have "settles (\<lambda>k. parseexec k l s n) (parseredirs l c' (Suc ?e) n')"
    by (rule settles_Suc) (simp add: p)
  then show ?thesis by simp
qed

lemma args_parse:
  assumes "rests l s (concat (map (\<lambda>w. w @ [32]) ws) @ xs)" "list_all is_word ws" "argc + length ws < 10" "closing xs"
  shows "parse_args l argc (EXEC vs) s n = Ok (EXEC (vs @ word_spans s ws)) (s + length (concat (map (\<lambda>w. w @ [32]) ws))) n"
  using assms
proof (induction ws arbitrary: s argc vs)
  case Nil
  then have p: "peek l s [124, 41, 38, 59] = (xs \<noteq> [], s)"
    using rests_peek [of l s xs "[124, 41, 38, 59]"] closing_nonblank [of xs] by (auto simp: closing_def)
  show ?case
  proof (cases "xs = []")
    case True
    then have "gettoken l s = (0, s, s, s)"
      using Nil rests_deref [of l s xs] rests_skip [of l s xs] by (simp add: gettoken_def nonblank_def)
    then show ?thesis using p True by (subst parse_args.simps) simp
  qed (subst parse_args.simps, simp add: p)
next
  case (Cons w ws)
  let ?ys = "concat (map (\<lambda>w. w @ [32]) ws) @ xs"
  have r: "rests l s (w @ 32 # ?ys)" and w: "is_word w" using Cons.prems by simp_all
  have "wf_cmd (EXEC ws)" using Cons.prems by simp
  from nonblank_show [OF this closing_nonblank [OF Cons.prems(4)]] have nb: "nonblank ?ys" by simp
  obtain c v where cv: "w = c # v" "ordinary c" using w by (cases w) (auto simp: is_word_def)
  have p: "peek l s [124, 41, 38, 59] = (False, s)"
    using rests_peek [OF r, of "[124, 41, 38, 59]"] cv by (auto simp: nonblank_def ordinary_def symbols_def)
  have g: "gettoken l s = (97, s, s + length w, s + length w + 1)" using rests_word [OF r w nb] .
  have r': "rests l (s + length w + 1) ?ys" using rests_append [of l s "w @ [32]" ?ys] r by simp
  have "?ys = [] \<or> hd ?ys \<noteq> 60 \<and> hd ?ys \<noteq> 62"
    using Cons.prems by (cases ws; cases "hd ws") (auto simp: closing_def is_word_def ordinary_def symbols_def)
  then have red: "parseredirs l c (s + length w + 1) n = Ok c (s + length w + 1) n" for c
    using redirs_none [OF r' nb] by blast
  show ?case
    using Cons.IH [OF r', of "argc + 1" "vs @ [(s, s + length w)]"] Cons.prems
    by (subst parse_args.simps) (simp add: p g red [simplified])
qed

lemma settles_const: "(\<And>k. g (Suc k) = r) \<Longrightarrow> settles g r"
  unfolding settles_def by (metis Suc_le_D)

lemma block_alone:
  assumes "settles (\<lambda>k. parseline k l (Suc s) n) (Ok c' (Suc s + length (show_cmd c)) n')"
    "rests l s (40 # show_cmd c @ 41 # xs)" "wf_cmd c" "xs = [] \<or> hd xs \<in> {41, 124, 59, 38}"
  shows "settles (\<lambda>k. parseexec k l s n) (Ok c' (s + length (show_cmd c) + 2) n')" "rests l (s + length (show_cmd c) + 2) xs"
proof -
  have x: "nonblank xs" using assms(4) by (auto simp: nonblank_def whitespace_def)
  show r: "rests l (s + length (show_cmd c) + 2) xs" using rests_append [of l s "40 # show_cmd c @ [41]" xs] assms(2) by simp
  have "parseredirs l c' (s + length (show_cmd c) + 2) n' = Ok c' (s + length (show_cmd c) + 2) n'"
    using redirs_none [OF r x] assms(4) by auto
  then show "settles (\<lambda>k. parseexec k l s n) (Ok c' (s + length (show_cmd c) + 2) n')"
    using block_parses [OF assms(1-3) x] by simp
qed

lemma exec_parses:
  assumes "wf_cmd (EXEC ws)" "rests l s (show_cmd (EXEC ws) @ xs)" "closing xs"
  shows "settles (\<lambda>k. parseexec k l s (Suc n)) (Ok (spans s (EXEC ws)) (s + length (show_cmd (EXEC ws))) n)"
proof (rule settles_const)
  fix k
  let ?ys = "show_cmd (EXEC ws) @ xs"
  note nb = nonblank_show [OF assms(1) closing_nonblank [OF assms(3)]]
  have h: "?ys = [] \<or> hd ?ys \<notin> {40, 60, 62}"
    using assms by (cases ws; cases "hd ws") (auto simp: closing_def is_word_def ordinary_def symbols_def)
  then have p: "peek l s [40] = (False, s)" using rests_peek [OF assms(2) nb, of "[40]"] by auto
  have red: "parseredirs l c s n = Ok c s n" for c using redirs_none [OF assms(2) nb] h by auto
  show "parseexec (Suc k) l s (Suc n) = Ok (spans s (EXEC ws)) (s + length (show_cmd (EXEC ws))) n"
    using args_parse [of l s ws xs 0 "[]" n] assms by (simp add: p new_defs red)
qed

lemma show_parses:
  "wf_cmd c \<Longrightarrow> rests l s (show_cmd c @ xs) \<Longrightarrow> closing xs \<Longrightarrow>
    settles (\<lambda>k. parseline k l s (nodes c + n)) (Ok (spans s c) (s + length (show_cmd c)) n)"
proof (induction c arbitrary: s xs n)
  case (EXEC ws)
  note nb = closing_nonblank [OF EXEC.prems(3)]
  have r: "rests l (s + length (show_cmd (EXEC ws))) xs" using rests_append [OF EXEC.prems(2)] .
  have "settles (\<lambda>k. parsepipe k l s (Suc n)) (Ok (spans s (EXEC ws)) (s + length (show_cmd (EXEC ws))) n)"
    using pipe_none [OF exec_parses [OF EXEC.prems] r nb] EXEC.prems by (auto simp: closing_def)
  then show ?case using line_none [OF _ backs_none [OF r nb] r] EXEC.prems by (auto simp: closing_def)
next
  case (REDIR c f m d)
  let ?s = "s + length (show_cmd c) + 2" and ?t = "s + length (show_cmd (REDIR c f m d))"
  have r: "rests l s (40 # show_cmd c @ 41 # redir_op m @ f @ 32 # xs)" using REDIR.prems(2) by simp
  note nb = closing_nonblank [OF REDIR.prems(3)]
  have nb': "nonblank (redir_op m @ f @ 32 # xs)" by (simp add: redir_op_def nonblank_def whitespace_def)
  have r': "rests l ?t xs" using rests_append [OF REDIR.prems(2)] .
  have r2: "rests l ?s (redir_op m @ f @ 32 # xs)" using rests_append [of l s "40 # show_cmd c @ [41]"] r by simp
  have IH: "settles (\<lambda>k. parseline k l (Suc s) (nodes c + Suc n)) (Ok (spans (Suc s) c) (Suc s + length (show_cmd c)) (Suc n))"
    using REDIR.IH [OF _ rests_Cons [OF r], of "Suc n"] REDIR.prems by (simp add: closing_def)
  have "parseredirs l (spans (Suc s) c) ?s (Suc n) = Ok (spans s (REDIR c f m d)) ?t n"
    using redirs_one [OF r2, of d "spans (Suc s) c" n] REDIR.prems by (simp add: Let_def)
  then have "settles (\<lambda>k. parseexec k l s (nodes c + Suc n)) (Ok (spans s (REDIR c f m d)) ?t n)"
    using block_parses [OF IH r _ nb'] REDIR.prems by simp
  from line_none [OF pipe_none [OF this r' nb] backs_none [OF r' nb] r'] show ?case using REDIR.prems by (auto simp: closing_def)
next
  case (PIPE c1 c2)
  let ?s = "s + length (show_cmd c1) + 2" and ?t = "s + length (show_cmd (PIPE c1 c2))"
  have r: "rests l s (40 # show_cmd c1 @ 41 # 124 # 40 # show_cmd c2 @ 41 # xs)" using PIPE.prems(2) by simp
  note nb = closing_nonblank [OF PIPE.prems(3)]
  have IH1: "settles (\<lambda>k. parseline k l (Suc s) (nodes c1 + (nodes c2 + Suc n)))
      (Ok (spans (Suc s) c1) (Suc s + length (show_cmd c1)) (nodes c2 + Suc n))"
    using PIPE.IH(1) [OF _ rests_Cons [OF r], of "nodes c2 + Suc n"] PIPE.prems by (simp add: closing_def)
  note b1 = block_alone [OF IH1 r]
  have r2: "rests l ?s (124 # 40 # show_cmd c2 @ 41 # xs)" using b1(2) PIPE.prems by simp
  note r3 = rests_Cons [OF r2]
  have IH2: "settles (\<lambda>k. parseline k l (Suc (Suc ?s)) (nodes c2 + Suc n))
      (Ok (spans (Suc (Suc ?s)) c2) (Suc (Suc ?s) + length (show_cmd c2)) (Suc n))"
    using PIPE.IH(2) [OF _ rests_Cons [OF r3], of "Suc n"] PIPE.prems by (simp add: closing_def)
  have x: "xs = [] \<or> hd xs \<in> {41, 124, 59, 38}" "xs = [] \<or> hd xs \<noteq> 124" "xs = [] \<or> hd xs \<noteq> 38"
    using PIPE.prems by (auto simp: closing_def)
  have w: "wf_cmd c1" "wf_cmd c2" using PIPE.prems by auto
  note b2 = block_alone [OF IH2 r3 w(2) x(1)]
  have p: "peek l ?s [124] = (True, ?s)" using rests_peek [OF r2, of "[124]"] by (simp add: nonblank_def whitespace_def)
  have g: "gettoken l ?s = (124, ?s, Suc ?s, Suc ?s)" using rests_symbol [OF r2] by (simp add: nonblank_def whitespace_def)
  have t: "Suc ?s + length (show_cmd c2) + 2 = ?t" by simp
  have "settles (\<lambda>k. parsepipe k l s (nodes c1 + (nodes c2 + Suc n))) (Ok (spans s (PIPE c1 c2)) ?t n)"
    using b1(1) [OF w(1)] pipe_none [OF b2(1) b2(2) nb x(2)] unfolding t
    by (rule settles_Suc2) (simp_all add: p [simplified] g [simplified] new_defs numeral_eq_Suc)
  from line_none [OF this backs_none [OF b2(2) [unfolded t] nb x(3)] b2(2) [unfolded t] PIPE.prems(3)] show ?case by (simp add: add.assoc)
next
  case (LIST c1 c2)
  let ?s = "s + length (show_cmd c1) + 2" and ?t = "s + length (show_cmd (LIST c1 c2))"
  have r: "rests l s (40 # show_cmd c1 @ 41 # 59 # 40 # show_cmd c2 @ 41 # xs)" using LIST.prems(2) by simp
  note nb = closing_nonblank [OF LIST.prems(3)]
  have IH1: "settles (\<lambda>k. parseline k l (Suc s) (nodes c1 + (nodes c2 + Suc n)))
      (Ok (spans (Suc s) c1) (Suc s + length (show_cmd c1)) (nodes c2 + Suc n))"
    using LIST.IH(1) [OF _ rests_Cons [OF r], of "nodes c2 + Suc n"] LIST.prems by (simp add: closing_def)
  note b1 = block_alone [OF IH1 r]
  have r2: "rests l ?s (59 # 40 # show_cmd c2 @ 41 # xs)" using b1(2) LIST.prems by simp
  note r3 = rests_Cons [OF r2]
  have IH2: "settles (\<lambda>k. parseline k l (Suc (Suc ?s)) (nodes c2 + Suc n))
      (Ok (spans (Suc (Suc ?s)) c2) (Suc (Suc ?s) + length (show_cmd c2)) (Suc n))"
    using LIST.IH(2) [OF _ rests_Cons [OF r3], of "Suc n"] LIST.prems by (simp add: closing_def)
  have x: "xs = [] \<or> hd xs \<in> {41, 124, 59, 38}" "xs = [] \<or> hd xs \<noteq> 124" "xs = [] \<or> hd xs \<noteq> 38"
    using LIST.prems by (auto simp: closing_def)
  have w: "wf_cmd c1" "wf_cmd c2" using LIST.prems by auto
  note b2 = block_alone [OF IH2 r3 w(2) x(1)]
  have p: "peek l ?s [59] = (True, ?s)" using rests_peek [OF r2, of "[59]"] by (simp add: nonblank_def whitespace_def)
  have g: "gettoken l ?s = (59, ?s, Suc ?s, Suc ?s)" using rests_symbol [OF r2] by (simp add: nonblank_def whitespace_def)
  have t: "Suc ?s + length (show_cmd c2) + 2 = ?t" by simp
  have r1: "settles (\<lambda>k. parsepipe k l s (nodes c1 + (nodes c2 + Suc n))) (Ok (spans (Suc s) c1) ?s (nodes c2 + Suc n))"
    using pipe_none [OF b1(1) [OF w(1)] r2] by (simp add: nonblank_def whitespace_def)
  have bk: "parse_backs l (spans (Suc s) c1) ?s (nodes c2 + Suc n) = Ok (spans (Suc s) c1) ?s (nodes c2 + Suc n)"
    using backs_none [OF r2] by (simp add: nonblank_def whitespace_def)
  have "settles (\<lambda>k. parseline k l s (nodes c1 + (nodes c2 + Suc n))) (Ok (spans s (LIST c1 c2)) ?t n)"
    using r1 line_none [OF pipe_none [OF b2(1) b2(2) nb x(2)] backs_none [OF b2(2) nb x(3)] b2(2) LIST.prems(3)] unfolding t
    by (rule settles_Suc2) (simp_all add: p [simplified] g [simplified] bk [simplified] new_defs numeral_eq_Suc)
  then show ?case by (simp add: add.assoc)
next
  case (BACK c)
  let ?s = "s + length (show_cmd c) + 2"
  have r: "rests l s (40 # show_cmd c @ 41 # 38 # xs)" using BACK.prems(2) by simp
  have IH: "settles (\<lambda>k. parseline k l (Suc s) (nodes c + Suc n)) (Ok (spans (Suc s) c) (Suc s + length (show_cmd c)) (Suc n))"
    using BACK.IH [OF _ rests_Cons [OF r], of "Suc n"] BACK.prems by (simp add: closing_def)
  note b = block_alone [OF IH r]
  have r2: "rests l ?s (38 # xs)" using b(2) BACK.prems by simp
  have "settles (\<lambda>k. parsepipe k l s (nodes c + Suc n)) (Ok (spans (Suc s) c) ?s (Suc n))"
    using pipe_none [OF b(1) r2] BACK.prems by (simp add: nonblank_def whitespace_def)
  from line_none [OF this backs_one [OF r2 BACK.prems(3)] rests_Cons [OF r2] BACK.prems(3)] show ?case by simp
qed

subsection \<open>The words of a printed command\<close>

lemma word_text_at: "rests l s (w @ xs) \<Longrightarrow> word_text l (s, s + length w) = w"
  by (auto simp: rests_def word_text_def)

lemma word_text_spans: "rests l s (show_cmd c @ xs) \<Longrightarrow> map_cmd (word_text l) (spans s c) = c"
proof (induction c arbitrary: s xs)
  case (EXEC ws)
  then show ?case
  proof (induction ws arbitrary: s)
    case (Cons w ws)
    let ?ys = "concat (map (\<lambda>w. w @ [32]) ws) @ xs"
    have r: "rests l s (w @ 32 # ?ys)" using Cons.prems by simp
    have "rests l (s + length w + 1) ?ys" using rests_append [of l s "w @ [32]" ?ys] r by simp
    then show ?case using Cons.IH [of "s + length w + 1"] word_text_at [OF r] by simp
  qed simp
next
  case (REDIR c f m d)
  have r: "rests l s (40 # show_cmd c @ 41 # redir_op m @ f @ 32 # xs)" using REDIR.prems by simp
  have "rests l (s + length (show_cmd c) + 2 + length (redir_op m)) (f @ 32 # xs)"
    using rests_append [of l s "40 # show_cmd c @ 41 # redir_op m"] r by (simp add: algebra_simps)
  from word_text_at [OF this] show ?case using REDIR.IH [OF rests_Cons [OF r]] by (simp add: Let_def)
next
  case (PIPE c1 c2)
  have r: "rests l s (40 # show_cmd c1 @ 41 # 124 # 40 # show_cmd c2 @ 41 # xs)" using PIPE.prems by simp
  have "rests l (s + length (show_cmd c1) + 4) (show_cmd c2 @ 41 # xs)"
    using rests_append [of l s "40 # show_cmd c1 @ [41, 124, 40]"] r by (simp add: numeral_eq_Suc)
  then show ?case using PIPE.IH(1) [OF rests_Cons [OF r]] PIPE.IH(2) by simp
next
  case (LIST c1 c2)
  have r: "rests l s (40 # show_cmd c1 @ 41 # 59 # 40 # show_cmd c2 @ 41 # xs)" using LIST.prems by simp
  have "rests l (s + length (show_cmd c1) + 4) (show_cmd c2 @ 41 # xs)"
    using rests_append [of l s "40 # show_cmd c1 @ [41, 59, 40]"] r by (simp add: numeral_eq_Suc)
  then show ?case using LIST.IH(1) [OF rests_Cons [OF r]] LIST.IH(2) by simp
next
  case (BACK c)
  have "rests l s (40 # show_cmd c @ 41 # 38 # xs)" using BACK.prems by simp
  then show ?case using BACK.IH [OF rests_Cons] by simp
qed

lemma show_no_nul: "wf_cmd c \<Longrightarrow> 0 \<notin> set (show_cmd c)"
  by (induction c) (auto simp: redir_op_def is_word_def ordinary_def list_all_iff)

lemma strcpy_id: "0 \<notin> set s \<Longrightarrow> strcpy s = s"
  by (induction s) auto

subsection \<open>Properties\<close>

text \<open>
  C32: The parser of the shell returns on every line, whatever bytes it has and however many nodes can be allocated:
  the depth of recursion it is given suffices, and a greater one gives the same result.
\<close>

theorem parser_terminates:
  "parseline (parse_fuel l + j) l 0 n = parseline (parse_fuel l) l 0 n \<and> parseline (parse_fuel l) l 0 n \<noteq> No_fuel"
  using parseline_enough [of l n] parseline_more [of "parse_fuel l" l 0 n j] by (metis good_simps(2))

text \<open>
  C33: The words of a parsed line lie inside the line and consist of the bytes up to the next blank, symbol or the
  end. \<^verbatim>\<open>nulterminate\<close> ends all of them in place, and the strings that \<^verbatim>\<open>runcmd\<close> then finds are exactly these words:
  no terminating byte falls into another word.
\<close>

theorem nulterminate_words:
  assumes "0 \<notin> set l" "parseline (parse_fuel l) l 0 n = Ok c s m"
  shows "map_cmd (\<lambda>(q, e). string_at (nulterminate c (l @ [0])) q) c = map_cmd (word_text l) c \<and> (\<forall>w\<in>set_cmd c. word_at l w)"
  using parseline_enough [of l n] assms map_string_at [OF assms(1), of c] by (simp add: words_ok_def)

theorem nulterminate_words_witness:
  "map_cmd (\<lambda>(q, e). string_at (nulterminate (REDIR (EXEC [(0, 4), (5, 6)]) (7, 8) 1537 1) (str ''echo a>b'' @ [0])) q)
     (REDIR (EXEC [(0, 4), (5, 6)]) (7, 8) 1537 1) = REDIR (EXEC [str ''echo'', str ''a'']) (str ''b'') 1537 1"
proof -
  have "parseline (parse_fuel (str ''echo a>b'')) (str ''echo a>b'') 0 2 = Ok (REDIR (EXEC [(0, 4), (5, 6)]) (7, 8) 1537 1) 8 0"
    by code_simp
  moreover have "0 \<notin> set (str ''echo a>b'')" by code_simp
  ultimately show ?thesis using nulterminate_words [of "str ''echo a>b''" 2 "REDIR (EXEC [(0, 4), (5, 6)]) (7, 8) 1537 1" 8 0]
    by (auto simp: word_text_def str_def)
qed

text \<open>
  C31: The shell reads back what is written in its syntax: \<^verbatim>\<open>parsecmd\<close> of the text of a command, with every part of
  a compound command in parentheses, gives \<^verbatim>\<open>runcmd\<close> this command, with the words as strings. The words are
  non-empty and have no blanks, symbols or NULs; there are fewer than \<^verbatim>\<open>MAXARGS\<close> of them, and memory for the nodes.
\<close>

theorem parse_show:
  assumes "wf_cmd c" "nodes c \<le> n"
  shows "parsecmd n (show_cmd c) w = Go c w"
proof -
  let ?l = "show_cmd c"
  have nz: "0 \<notin> set ?l" using show_no_nul [OF assms(1)] .
  have r: "rests ?l 0 (show_cmd c @ [])" by (simp add: rests_def)
  have "settles (\<lambda>k. parseline k ?l 0 n) (Ok (spans 0 c) (length ?l) (n - nodes c))"
    using show_parses [OF assms(1) r, of "n - nodes c"] assms(2) by (simp add: closing_def)
  then obtain k where "\<forall>j\<ge>k. parseline j ?l 0 n = Ok (spans 0 c) (length ?l) (n - nodes c)" by (auto simp: settles_def)
  then have "parseline (parse_fuel ?l + k) ?l 0 n = Ok (spans 0 c) (length ?l) (n - nodes c)" by simp
  then have p: "parseline (parse_fuel ?l) ?l 0 n = Ok (spans 0 c) (length ?l) (n - nodes c)"
    using parseline_enough [of ?l n] parseline_more [of "parse_fuel ?l" ?l 0 n k] by (metis good_simps(2))
  then have "words_ok ?l (spans 0 c)" using parseline_enough [of ?l n] by simp
  from map_string_at [OF nz this] word_text_spans [OF r]
  have "map_cmd (\<lambda>(q, e). string_at (nulterminate (spans 0 c) (?l @ [0])) q) (spans 0 c) = c" by simp
  moreover have "peek ?l (length ?l) [] = (False, length ?l)"
    using rests_peek [of ?l "length ?l" "[]" "[]"] by (simp add: rests_def nonblank_def)
  ultimately show ?thesis by (simp add: parsecmd_def strcpy_id [OF nz] p uret_def)
qed

theorem parse_show_witness:
  "parsecmd 4 (str ''((cat f )<g )|(wc )'') \<lparr>answers = [], calls = []\<rparr> = Go (PIPE (REDIR (EXEC [str ''cat'', str ''f'']) (str ''g'') 0 0) (EXEC [str ''wc''])) \<lparr>answers = [], calls = []\<rparr>"
  using parse_show [of "PIPE (REDIR (EXEC [str ''cat'', str ''f'']) (str ''g'') 0 0) (EXEC [str ''wc''])" 4 "\<lparr>answers = [], calls = []\<rparr>"]
  by (simp add: str_def redir_op_def is_word_def ordinary_def whitespace_def symbols_def)

end
