(* ===== verification/Malloc.thy ===== *)
theory Malloc
  imports User
begin

text \<open>
  The memory allocator of user programs (\<^verbatim>\<open>user/umalloc.c\<close>): a circular list of free blocks in the order of
  their addresses, each with a header of 16 bytes that has the link and the size in units of 16 bytes.

  The headers are functions of their address; \<^verbatim>\<open>base\<close>, the header that the linker places in the data of the
  program, is an argument. Pointer arithmetic on \<^verbatim>\<open>Header *\<close> counts units. The loops walk the list: they
  get a bound on their steps, \<^verbatim>\<open>free\<close> returns \<open>None\<close> and \<^verbatim>\<open>malloc\<close> is undefined when it is used up.
\<close>

subsection \<open>The allocator\<close>

record heap =
  h_ptr :: "u64 \<Rightarrow> u64"
  h_size :: "u64 \<Rightarrow> u32"
  freep :: u64

definition units :: "u32 \<Rightarrow> u64" where
  "units n = 16 * ucast n"

definition set_ptr :: "u64 \<Rightarrow> u64 \<Rightarrow> heap \<Rightarrow> heap" where
  "set_ptr a v h = h\<lparr>h_ptr := (h_ptr h)(a := v)\<rparr>"

definition set_size :: "u64 \<Rightarrow> u32 \<Rightarrow> heap \<Rightarrow> heap" where
  "set_size a v h = h\<lparr>h_size := (h_size h)(a := v)\<rparr>"

text \<open>The search of \<^verbatim>\<open>free\<close> for the block behind which \<open>bp\<close> belongs.\<close>

fun find_slot :: "nat \<Rightarrow> heap \<Rightarrow> u64 \<Rightarrow> u64 \<Rightarrow> u64 option" where
  "find_slot 0 h bp p = None"
| "find_slot (Suc k) h bp p =
     (if bp > p \<and> bp < h_ptr h p then Some p
      else if p \<ge> h_ptr h p \<and> (bp > p \<or> bp < h_ptr h p) then Some p
      else find_slot k h bp (h_ptr h p))"

definition join :: "u64 \<Rightarrow> u64 \<Rightarrow> heap \<Rightarrow> heap" where
  "join bp p h =
     (let h1 = (if bp + units (h_size h bp) = h_ptr h p
                then set_ptr bp (h_ptr h (h_ptr h p)) (set_size bp (h_size h bp + h_size h (h_ptr h p)) h)
                else set_ptr bp (h_ptr h p) h);
          h2 = (if p + units (h_size h1 p) = bp
                then set_ptr p (h_ptr h1 bp) (set_size p (h_size h1 p + h_size h1 bp) h1)
                else set_ptr p bp h1)
      in h2\<lparr>freep := p\<rparr>)"

definition free :: "nat \<Rightarrow> heap \<Rightarrow> u64 \<Rightarrow> heap option" where
  "free k h ap = (let bp = ap - 16 in map_option (\<lambda>p. join bp p h) (find_slot k h bp (freep h)))"

text \<open>\<^verbatim>\<open>sbrk\<close> takes an \<^verbatim>\<open>int\<close>: the product is cut to 32 bits.\<close>

definition morecore :: "nat \<Rightarrow> heap \<Rightarrow> u32 \<Rightarrow> (u64 \<times> heap) um" where
  "morecore k h nu0 =
     (let nu = (if nu0 < 4096 then 4096 else nu0) in
      ubind (sbrk (ucast (units nu))) (\<lambda>p.
      if p = -1 then uret (0, h)
      else
        (case free k (set_size p nu h) (p + 16) of
           None \<Rightarrow> uundef ''no fuel''
         | Some h' \<Rightarrow> uret (freep h', h'))))"

text \<open>A block that fits: the whole of it, or its end.\<close>

definition take_block :: "heap \<Rightarrow> u64 \<Rightarrow> u64 \<Rightarrow> u32 \<Rightarrow> u64 \<times> heap" where
  "take_block h prevp p nunits =
     (let (p', h') =
        (if h_size h p = nunits then (p, set_ptr prevp (h_ptr h p) h)
         else
           let n = h_size h p - nunits; q = p + units n
           in (q, set_size q nunits (set_size p n h)))
      in (p' + 16, h'\<lparr>freep := prevp\<rparr>))"

fun malloc_loop :: "nat \<Rightarrow> heap \<Rightarrow> u32 \<Rightarrow> u64 \<Rightarrow> u64 \<Rightarrow> (u64 \<times> heap) um" where
  "malloc_loop 0 h nunits prevp p = uundef ''no fuel''"
| "malloc_loop (Suc k) h nunits prevp p =
     (if h_size h p \<ge> nunits then uret (take_block h prevp p nunits)
      else if p = freep h then
        ubind (morecore k h nunits) (\<lambda>(p, h).
        if p = 0 then uret (0, h) else malloc_loop k h nunits p (h_ptr h p))
      else malloc_loop k h nunits p (h_ptr h p))"

definition nunits_of :: "u32 \<Rightarrow> u32" where
  "nunits_of nbytes = ucast (((ucast nbytes :: u64) + 16 - 1) div 16 + 1)"

text \<open>The first call makes the list of the empty block \<^verbatim>\<open>base\<close> alone.\<close>

definition started :: "u64 \<Rightarrow> heap \<Rightarrow> heap" where
  "started base h = (if freep h = 0 then (set_size base 0 (set_ptr base base h))\<lparr>freep := base\<rparr> else h)"

definition malloc :: "nat \<Rightarrow> u64 \<Rightarrow> heap \<Rightarrow> u32 \<Rightarrow> (u64 \<times> heap) um" where
  "malloc k base h nbytes =
     (let nunits = nunits_of nbytes; h = started base h
      in malloc_loop k h nunits (freep h) (h_ptr h (freep h)))"

subsection \<open>The list of free blocks\<close>

lemma heap_simps [simp]:
  "h_ptr (set_ptr a v h) = (h_ptr h)(a := v)" "h_size (set_ptr a v h) = h_size h" "freep (set_ptr a v h) = freep h"
  "h_ptr (set_size a n h) = h_ptr h" "h_size (set_size a n h) = (h_size h)(a := n)" "freep (set_size a n h) = freep h"
  by (simp_all add: set_ptr_def set_size_def)

text \<open>Each address of the list is linked to the next, and the last one to \<open>q\<close>.\<close>

fun links :: "heap \<Rightarrow> u64 list \<Rightarrow> u64 \<Rightarrow> bool" where
  "links h [] q \<longleftrightarrow> True"
| "links h (x # xs) q \<longleftrightarrow> h_ptr h x = hd (xs @ [q]) \<and> links h xs q"

lemma links_append [simp]: "links h (xs @ ys) q \<longleftrightarrow> links h xs (hd (ys @ [q])) \<and> links h ys q"
  by (induction xs) (auto simp: hd_append)

lemma links_cong: "(\<And>a. a \<in> set xs \<Longrightarrow> h_ptr h' a = h_ptr h a) \<Longrightarrow> links h' xs q = links h xs q"
  by (induction xs) auto

definition endof :: "heap \<Rightarrow> u64 \<Rightarrow> nat" where
  "endof h a = unat a + 16 * unat (h_size h a)"

definition below :: "heap \<Rightarrow> u64 \<Rightarrow> u64 \<Rightarrow> bool" where
  "below h a b \<longleftrightarrow> endof h a < unat b"

text \<open>A block that the allocator manages: beyond \<^verbatim>\<open>base\<close>, not empty, and below \<open>2\<^sup>3\<^sup>6\<close>, so that no size overflows.\<close>

definition block :: "u64 \<Rightarrow> heap \<Rightarrow> u64 \<Rightarrow> bool" where
  "block base h a \<longleftrightarrow> unat base + 16 \<le> unat a \<and> 0 < h_size h a \<and> endof h a < 2 ^ 36"

text \<open>The addresses of the list, \<^verbatim>\<open>base\<close> first, in increasing order, with a gap between any two blocks.\<close>

definition ring_ok :: "u64 \<Rightarrow> heap \<Rightarrow> u64 list \<Rightarrow> bool" where
  "ring_ok base h as \<longleftrightarrow>
     as \<noteq> [] \<and> hd as = base \<and> base \<noteq> 0 \<and> h_size h base = 0 \<and> links h as base \<and> sorted_wrt (below h) as \<and>
     (\<forall>a\<in>set as. a \<noteq> base \<longrightarrow> block base h a) \<and> freep h \<in> set as"

definition extent :: "heap \<Rightarrow> u64 \<Rightarrow> nat set" where
  "extent h a = {unat a ..< endof h a}"

definition free_space :: "heap \<Rightarrow> u64 list \<Rightarrow> nat set" where
  "free_space h as = (\<Union>a\<in>set as. extent h a)"

lemma unat_up: "unat (ucast n :: u64) = unat n" for n :: u32
  using unat_u32 [of n] by (simp add: unsigned_ucast_eq take_bit_nat_eq_self)

lemma unat_units: "unat (units n) = 16 * unat n"
proof -
  have "unat (16 :: u64) * unat (ucast n :: u64) < 2 ^ LENGTH(64)" using unat_u32 [of n] by (simp add: unat_up)
  then have "unat (16 * ucast n :: u64) = unat (16 :: u64) * unat (ucast n :: u64)" by (simp only: unat_mult_lem [THEN iffD1])
  then show ?thesis by (simp add: units_def unat_up)
qed

lemma unat_end: "endof h a < 2 ^ 64 \<Longrightarrow> unat (a + units (h_size h a)) = endof h a"
  using unat_add_lem [of a "units (h_size h a)"] by (simp add: endof_def unat_units)

lemma end_eq: "endof h a < 2 ^ 64 \<Longrightarrow> a + units (h_size h a) = b \<longleftrightarrow> endof h a = unat b"
  using unat_end [of h a] by (metis word_unat_eq_iff)

lemma sorted_below_less: "sorted_wrt (below h) as \<Longrightarrow> sorted_wrt (<) as"
  by (rule sorted_wrt_mono_rel) (auto simp: below_def endof_def word_less_nat_alt)

lemma ring_distinct: "ring_ok base h as \<Longrightarrow> distinct as"
  using sorted_below_less [of h as] by (auto simp: ring_ok_def strict_sorted_iff)

text \<open>Where a block that is not in the list belongs.\<close>

lemma slot_exists:
  assumes r: "ring_ok base h as" and b: "base < bp" "bp \<notin> set as"
  obtains us p ys where "as = us @ p # ys" "\<forall>x\<in>set us. x < p" "p < bp" "\<forall>y\<in>set ys. bp < y"
proof -
  let ?P = "\<lambda>a. a < bp"
  have so: "sorted_wrt (<) as" using r sorted_below_less by (auto simp: ring_ok_def)
  have ne: "takeWhile ?P as \<noteq> []" using r b by (cases as) (auto simp: ring_ok_def)
  define us where "us = butlast (takeWhile ?P as)"
  define p where "p = last (takeWhile ?P as)"
  define ys where "ys = dropWhile ?P as"
  have t: "takeWhile ?P as = us @ [p]" using ne by (simp add: us_def p_def)
  have as: "as = us @ p # ys" using takeWhile_dropWhile_id [of ?P as] t by (simp add: ys_def)
  have "p < bp" using set_takeWhileD [of p ?P as] t by simp
  moreover have "\<forall>x\<in>set us. x < p" using so unfolding as by (simp add: sorted_wrt_append)
  moreover have "bp < y" if "y \<in> set ys" for y
  proof -
    have "ys \<noteq> []" using that by auto
    then have "\<not> hd ys < bp" "hd ys \<in> set as" using hd_dropWhile [of ?P as] set_dropWhileD [OF hd_in_set, of ?P as] unfolding ys_def by auto
    then have h: "bp < hd ys" using b by (metis linorder_less_linear)
    show ?thesis using so that h \<open>ys \<noteq> []\<close> unfolding as by (cases ys) (auto simp: sorted_wrt_append intro: less_trans)
  qed
  ultimately show thesis using that as by blast
qed

text \<open>The test of the search.\<close>

definition stops :: "heap \<Rightarrow> u64 \<Rightarrow> u64 \<Rightarrow> bool" where
  "stops h bp p \<longleftrightarrow> bp > p \<and> bp < h_ptr h p \<or> p \<ge> h_ptr h p \<and> (bp > p \<or> bp < h_ptr h p)"

lemma find_slot_stops: "find_slot (Suc k) h bp p = (if stops h bp p then Some p else find_slot k h bp (h_ptr h p))"
  by (auto simp: stops_def)

lemma next_in_ring:
  assumes "links h (us @ z # ys) base" shows "h_ptr h z = hd (ys @ [base])"
  using assms by simp

lemma stops_iff:
  assumes r: "ring_ok base h as" and b: "base < bp"
    and as: "as = us @ p # ys" "p < bp" "\<forall>y\<in>set ys. bp < y" and z: "z \<in> set as"
  shows "stops h bp z \<longleftrightarrow> z = p"
proof -
  have so: "sorted_wrt (<) as" and l: "links h as base" and hd: "hd as = base"
    using r sorted_below_less by (auto simp: ring_ok_def)
  obtain cs ds where z2: "as = cs @ z # ds" using z by (auto dest: split_list)
  have nz: "h_ptr h z = hd (ds @ [base])" using l unfolding z2 by simp
  consider "z = p" | "z \<in> set us" | "z \<in> set ys" using z as by auto
  then show ?thesis
  proof cases
    case 1
    have "h_ptr h p = hd (ys @ [base])" using l unfolding as(1) by simp
    moreover have "base \<le> p" using so hd z as(1) by (cases us) auto
    ultimately show ?thesis using 1 as b by (cases ys) (auto simp: stops_def)
  next
    case 2
    then obtain vs ws where us: "us = vs @ z # ws" by (auto dest: split_list)
    have "h_ptr h z = hd (ws @ [p])" using l unfolding as(1) us by (simp add: hd_append)
    moreover have "z < hd (ws @ [p])" "hd (ws @ [p]) \<le> p"
      using so unfolding as(1) us by (cases ws; auto simp: sorted_wrt_append)+
    ultimately show ?thesis using as(2) so 2 unfolding as(1) by (auto simp: stops_def sorted_wrt_append)
  next
    case 3
    then obtain vs ws where ys: "ys = vs @ z # ws" by (auto dest: split_list)
    have "h_ptr h z = hd (ws @ [base])" using l unfolding as(1) ys by (simp add: hd_append)
    moreover have "bp < z" using 3 as(3) by simp
    moreover have "ws \<noteq> [] \<Longrightarrow> z < hd ws" using so unfolding as(1) ys by (cases ws) (auto simp: sorted_wrt_append)
    ultimately show ?thesis using as(2) b by (cases ws) (auto simp: stops_def)
  qed
qed


lemma links_tail: "links h (as @ x # bs) q \<Longrightarrow> links h (x # bs) q"
  by simp

text \<open>Following the links from anywhere in the list, every other block is reached.\<close>

lemma find_slot_links:
  assumes "links h (zs @ [z]) p" "\<forall>x\<in>set (zs @ [z]). \<not> stops h bp x" "stops h bp p" "length zs + 2 \<le> k"
  shows "find_slot k h bp (hd (zs @ [z])) = Some p"
  using assms
proof (induction zs arbitrary: k)
  case Nil
  then obtain k' where "k = Suc (Suc k')" by (metis add_2_eq_Suc le_Suc_ex list.size(3) plus_nat.simps(1))
  then show ?case using Nil by (simp only: find_slot_stops) simp
next
  case (Cons x zs)
  then obtain k' where k: "k = Suc k'" by (cases k) auto
  have "find_slot k' h bp (hd (zs @ [z])) = Some p" using Cons k by simp
  moreover have "h_ptr h x = hd (zs @ [z])" using Cons.prems(1) by (cases zs) auto
  ultimately show ?case using Cons.prems(2) unfolding k by (simp only: find_slot_stops) simp
qed

lemma find_slot_correct:
  assumes r: "ring_ok base h as" and b: "base < bp"
    and as: "as = us @ p # ys" "p < bp" "\<forall>y\<in>set ys. bp < y" and k: "length as < k"
  shows "find_slot k h bp (freep h) = Some p"
proof -
  note st = stops_iff [OF r b as]
  have f: "freep h \<in> set as" and l: "links h as base" and hd: "hd as = base" using r by (auto simp: ring_ok_def)
  have d: "distinct as" using ring_distinct [OF r] .
  obtain k' where k': "k = Suc k'" using k by (cases k) auto
  consider "freep h = p" | "freep h \<in> set us" | "freep h \<in> set ys" using f as(1) by auto
  then show ?thesis
  proof cases
    case 1
    then show ?thesis using st [of p] as(1) unfolding k' by (simp only: find_slot_stops) simp
  next
    case 2
    then obtain vs ws where us: "us = vs @ freep h # ws" by (auto dest: split_list)
    have "links h (freep h # ws) p" using l unfolding as(1) us by (simp add: hd_append)
    moreover have "freep h # ws = butlast (freep h # ws) @ [last (freep h # ws)]" by (metis append_butlast_last_id list.discI)
    moreover have "\<forall>x\<in>set (freep h # ws). \<not> stops h bp x" using st d unfolding as(1) us by auto
    moreover have "stops h bp p" using st [of p] as(1) by simp
    moreover have "length (butlast (freep h # ws)) + 2 \<le> k" using k unfolding as(1) us by simp
    ultimately show ?thesis using find_slot_links [of h "butlast (freep h # ws)" "last (freep h # ws)" p bp k] by (metis list.sel(1))
  next
    case 3
    then obtain vs ws where ys: "ys = vs @ freep h # ws" by (auto dest: split_list)
    let ?zs = "freep h # ws @ us"
    have "hd (us @ [p]) = base" using hd unfolding as(1) by (cases us) auto
    then have "links h ?zs p" using l unfolding as(1) ys by (cases us) (auto simp: hd_append)
    moreover have "?zs = butlast ?zs @ [last ?zs]" by (metis append_butlast_last_id list.discI)
    moreover have "\<forall>x\<in>set ?zs. \<not> stops h bp x" using st d unfolding as(1) ys by auto
    moreover have "stops h bp p" using st [of p] as(1) by simp
    moreover have "length (butlast ?zs) + 2 \<le> k" using k unfolding as(1) ys by simp
    ultimately show ?thesis using find_slot_links [of h "butlast ?zs" "last ?zs" p bp k] by (metis list.sel(1))
  qed
qed

subsection \<open>Freeing a block\<close>

text \<open>A block that is to be freed, with the place where it belongs.\<close>

definition fits_at :: "u64 \<Rightarrow> heap \<Rightarrow> u64 \<Rightarrow> u64 list \<Rightarrow> u64 \<Rightarrow> u64 list \<Rightarrow> bool" where
  "fits_at base h bp us p ys \<longleftrightarrow>
     ring_ok base h (us @ p # ys) \<and> block base h bp \<and> p < bp \<and> (\<forall>y\<in>set ys. bp < y) \<and>
     extent h bp \<inter> free_space h (us @ p # ys) = {}"

lemma block_extent: "block base h a \<Longrightarrow> unat a < endof h a \<and> endof h a < 2 ^ 64"
proof -
  assume b: "block base h a"
  then have "0 < unat (h_size h a)" by (simp add: block_def word_gt_0 unat_gt_0)
  then show ?thesis using b by (auto simp: block_def endof_def)
qed

lemma apart:
  assumes "unat a < endof h a" "unat b < endof h b" "extent h a \<inter> extent h b = {}" "a < b"
  shows "endof h a \<le> unat b"
proof (rule ccontr)
  assume "\<not> endof h a \<le> unat b"
  then have "unat b \<in> extent h a \<inter> extent h b" using assms by (auto simp: extent_def word_less_nat_alt)
  then show False using assms(3) by blast
qed

lemma fits_gaps:
  assumes "fits_at base h bp us p ys"
  shows "endof h p \<le> unat bp" "\<forall>y\<in>set ys. endof h bp \<le> unat y \<and> block base h y" "p = base \<Longrightarrow> endof h p < unat bp"
    "p \<noteq> base \<Longrightarrow> block base h p" "bp \<notin> set (us @ p # ys)" "base < bp"
proof -
  have r: "ring_ok base h (us @ p # ys)" and b: "block base h bp" and p: "p < bp" and ys: "\<forall>y\<in>set ys. bp < y"
    and d: "\<And>a. a \<in> set (us @ p # ys) \<Longrightarrow> extent h bp \<inter> extent h a = {}"
    using assms unfolding fits_at_def free_space_def by blast+
  have base: "endof h base = unat base" using r by (simp add: ring_ok_def endof_def)
  show bb: "base < bp" using b by (simp add: block_def word_less_nat_alt)
  show "p = base \<Longrightarrow> endof h p < unat bp" using base bb by (simp add: word_less_nat_alt)
  show pb: "p \<noteq> base \<Longrightarrow> block base h p" using r by (simp add: ring_ok_def)
  have yb: "y \<noteq> base" if "y \<in> set ys" for y using ys bb that by (metis not_less_iff_gr_or_eq)
  show "endof h p \<le> unat bp"
  proof (cases "p = base")
    case False
    then show ?thesis using apart [of p h bp] block_extent pb b d [of p] p by (auto simp: Int_commute)
  qed (use base bb in \<open>simp add: word_less_nat_alt\<close>)
  show "\<forall>y\<in>set ys. endof h bp \<le> unat y \<and> block base h y"
  proof
    fix y assume y: "y \<in> set ys"
    have "block base h y" using r y yb by (simp add: ring_ok_def)
    then show "endof h bp \<le> unat y \<and> block base h y" using apart [of bp h y] block_extent b d [of y] y ys by auto
  qed
  show "bp \<notin> set (us @ p # ys)"
  proof
    assume "bp \<in> set (us @ p # ys)"
    from d [OF this] have "extent h bp = {}" by simp
    then show False using block_extent [OF b] by (simp add: extent_def)
  qed
qed

definition merge_right :: "heap \<Rightarrow> u64 \<Rightarrow> u64 list \<Rightarrow> bool" where
  "merge_right h bp ys \<longleftrightarrow> ys \<noteq> [] \<and> endof h bp = unat (hd ys)"

definition merge_left :: "heap \<Rightarrow> u64 \<Rightarrow> u64 \<Rightarrow> bool" where
  "merge_left h bp p \<longleftrightarrow> endof h p = unat bp"

definition rest_of :: "heap \<Rightarrow> u64 \<Rightarrow> u64 list \<Rightarrow> u64 list" where
  "rest_of h bp ys = (if merge_right h bp ys then tl ys else ys)"

definition join_size :: "heap \<Rightarrow> u64 \<Rightarrow> u64 list \<Rightarrow> u32" where
  "join_size h bp ys = (if merge_right h bp ys then h_size h bp + h_size h (hd ys) else h_size h bp)"

lemma join_fields:
  assumes f: "fits_at base h bp us p ys"
  shows "h_ptr (join bp p h) = (h_ptr h)(bp := hd (rest_of h bp ys @ [base]),
            p := (if merge_left h bp p then hd (rest_of h bp ys @ [base]) else bp))"
    "h_size (join bp p h) = (h_size h)(bp := join_size h bp ys,
            p := (if merge_left h bp p then h_size h p + join_size h bp ys else h_size h p))"
    "freep (join bp p h) = p"
proof -
  note g = fits_gaps [OF f]
  have l: "links h (us @ p # ys) base" and b: "block base h bp" using f by (auto simp: fits_at_def ring_ok_def)
  have np: "h_ptr h p = hd (ys @ [base])" using l by simp
  have e: "endof h bp < 2 ^ 64" "unat bp < endof h bp" using block_extent [OF b] by auto
  have R: "bp + units (h_size h bp) = h_ptr h p \<longleftrightarrow> merge_right h bp ys"
    using g(6) e unfolding np end_eq [OF e(1)] by (cases ys) (auto simp: merge_right_def word_less_nat_alt)
  have "endof h p < 2 ^ 64" using g(1) unat_u64 [of bp] by simp
  then have L: "p + units (h_size h p) = bp \<longleftrightarrow> merge_left h bp p" by (simp add: end_eq merge_left_def)
  have ne: "p \<noteq> bp" using f by (auto simp: fits_at_def)
  have nn: "merge_right h bp ys \<Longrightarrow> h_ptr h (hd ys) = hd (tl ys @ [base])" using l by (cases ys) (auto simp: merge_right_def)
  show "freep (join bp p h) = p" by (simp add: join_def Let_def)
  have fields: "h_ptr (join bp p h) = (h_ptr h)(bp := hd (rest_of h bp ys @ [base]),
        p := (if merge_left h bp p then hd (rest_of h bp ys @ [base]) else bp)) \<and>
      h_size (join bp p h) = (h_size h)(bp := join_size h bp ys,
        p := (if merge_left h bp p then h_size h p + join_size h bp ys else h_size h p))"
  proof (cases "merge_right h bp ys")
    case True
    then have hp: "h_ptr h p = hd ys" using np by (auto simp: merge_right_def)
    have R': "bp + units (h_size h bp) = hd ys" using R True hp by simp
    show ?thesis using ne nn [OF True] hp
      by (simp add: join_def Let_def R' L True rest_of_def join_size_def fun_upd_twist)
  next
    case False
    have R': "bp + units (h_size h bp) \<noteq> hd (ys @ [base])" using R False np by simp
    show ?thesis using ne np
      by (simp add: join_def Let_def R' L False rest_of_def join_size_def fun_upd_twist)
  qed
  then show "h_ptr (join bp p h) = (h_ptr h)(bp := hd (rest_of h bp ys @ [base]),
            p := (if merge_left h bp p then hd (rest_of h bp ys @ [base]) else bp))"
    "h_size (join bp p h) = (h_size h)(bp := join_size h bp ys,
            p := (if merge_left h bp p then h_size h p + join_size h bp ys else h_size h p))" by blast+
qed

text \<open>The ends of the blocks after the join; all others are as before.\<close>

lemma unat_add_sizes: "16 * (unat m + unat n) < 2 ^ 36 \<Longrightarrow> unat (m + n) = unat m + unat n" for m n :: u32
  by (subst unat_add_lem [THEN iffD1]) auto

lemma join_ends:
  assumes f: "fits_at base h bp us p ys"
  defines "E \<equiv> (if merge_right h bp ys then endof h (hd ys) else endof h bp)"
  shows "endof (join bp p h) p = (if merge_left h bp p then E else endof h p)" "endof (join bp p h) bp = E"
    "E < 2 ^ 36" "unat bp < E" "a \<noteq> p \<Longrightarrow> a \<noteq> bp \<Longrightarrow> endof (join bp p h) a = endof h a"
proof -
  note g = fits_gaps [OF f] and j = join_fields [OF f]
  have b: "block base h bp" and ne: "p \<noteq> bp" using f by (auto simp: fits_at_def)
  have q: "merge_right h bp ys \<Longrightarrow> block base h (hd ys)" using g(2) by (auto simp: merge_right_def)
  show E: "E < 2 ^ 36" using b q by (auto simp: E_def block_def)
  show "unat bp < E" using block_extent [OF b] block_extent [OF q] by (auto simp: E_def merge_right_def)
  have S: "16 * unat (join_size h bp ys) = E - unat bp"
  proof (cases "merge_right h bp ys")
    case True
    then have "endof h (hd ys) = unat bp + 16 * (unat (h_size h bp) + unat (h_size h (hd ys)))"
      by (simp add: merge_right_def endof_def)
    moreover have "endof h (hd ys) < 2 ^ 36" using q [OF True] by (simp add: block_def)
    ultimately show ?thesis using True unat_add_sizes [of "h_size h bp" "h_size h (hd ys)"] by (simp add: join_size_def E_def)
  qed (simp add: join_size_def E_def endof_def)
  have le: "unat bp \<le> E" using \<open>unat bp < E\<close> by simp
  show "endof (join bp p h) bp = E" using S le ne by (simp add: endof_def j)
  show "endof (join bp p h) p = (if merge_left h bp p then E else endof h p)"
  proof (cases "merge_left h bp p")
    case True
    then have "unat p + 16 * (unat (h_size h p) + unat (join_size h bp ys)) = E"
      using S le by (simp add: merge_left_def endof_def)
    then show ?thesis using True E unat_add_sizes [of "h_size h p" "join_size h bp ys"] by (simp add: endof_def j)
  qed (simp add: endof_def j)
  show "a \<noteq> p \<Longrightarrow> a \<noteq> bp \<Longrightarrow> endof (join bp p h) a = endof h a" by (simp add: endof_def j)
qed

definition joined :: "heap \<Rightarrow> u64 \<Rightarrow> u64 list \<Rightarrow> u64 \<Rightarrow> u64 list \<Rightarrow> u64 list" where
  "joined h bp us p ys = us @ p # (if merge_left h bp p then [] else [bp]) @ rest_of h bp ys"

lemma rest_of_beyond:
  assumes f: "fits_at base h bp us p ys" and y: "y \<in> set (rest_of h bp ys)"
  shows "(if merge_right h bp ys then endof h (hd ys) else endof h bp) < unat y" "y \<in> set ys"
proof -
  have so: "sorted_wrt (below h) ys" using f by (simp add: fits_at_def ring_ok_def sorted_wrt_append)
  show m: "y \<in> set ys" using y by (cases ys) (auto simp: rest_of_def merge_right_def split: if_splits)
  then obtain q zs where ys: "ys = q # zs" by (cases ys) auto
  have "endof h bp \<le> unat q" using fits_gaps(2) [OF f] ys by simp
  moreover have "endof h q < unat z" "unat q < unat z" if "z \<in> set zs" for z
    using so that unfolding ys by (auto simp: below_def endof_def)
  moreover have "endof h bp < unat z" if "z \<in> set zs" for z using calculation that by fastforce
  ultimately show "(if merge_right h bp ys then endof h (hd ys) else endof h bp) < unat y"
    using m y ys by (auto simp: rest_of_def merge_right_def split: if_splits)
qed

lemma joined_ring:
  assumes f: "fits_at base h bp us p ys"
  shows "ring_ok base (join bp p h) (joined h bp us p ys)"
proof -
  let ?h = "join bp p h" and ?rest = "rest_of h bp ys"
  let ?E = "if merge_right h bp ys then endof h (hd ys) else endof h bp"
  note g = fits_gaps [OF f] and j = join_fields [OF f] and e = join_ends [OF f] and y = rest_of_beyond [OF f]
  have r: "ring_ok base h (us @ p # ys)" and b: "block base h bp" and ne: "p < bp" using f by (auto simp: fits_at_def)
  have so: "sorted_wrt (below h) (us @ p # ys)" and l: "links h (us @ p # ys) base" using r by (auto simp: ring_ok_def)
  have d: "distinct (us @ p # ys)" using ring_distinct [OF r] .
  have other: "a \<noteq> p \<and> a \<noteq> bp" if "a \<in> set us \<union> set ?rest" for a using that g(5) d y(2) by auto
  have same: "endof ?h a = endof h a" "h_size ?h a = h_size h a" if "a \<in> set us \<union> set ?rest" for a
    using other [OF that] e(5) [of a] by (simp_all add: j)
  have hd: "hd (joined h bp us p ys) = base" using r by (cases us) (auto simp: joined_def ring_ok_def)
  have size: "h_size ?h base = 0" using r g(3,6) by (auto simp: j ring_ok_def merge_left_def)
  have "links ?h us p" using l g(5) d by (subst links_cong [of us _ h]) (auto simp: j)
  moreover have "links ?h ?rest base"
  proof (subst links_cong)
    show "links h ?rest base" using l by (cases ys) (auto simp: rest_of_def)
  qed (use y(2) g(5) d in \<open>auto simp: j\<close>)
  ultimately have links: "links ?h (joined h bp us p ys) base" using ne by (auto simp: joined_def j)
  have us: "endof h a < unat p" if "a \<in> set us" for a using so that by (auto simp: sorted_wrt_append below_def)
  have "sorted_wrt (below ?h) us"
    using so by (auto simp: sorted_wrt_append below_def same intro: sorted_wrt_mono_rel [of us "below h"])
  moreover have "sorted_wrt (below ?h) ?rest"
  proof -
    have "sorted_wrt (below h) ?rest" using so by (cases ys) (auto simp: rest_of_def sorted_wrt_append)
    then show ?thesis by (rule sorted_wrt_mono_rel [rotated]) (auto simp: below_def same)
  qed
  moreover have "below ?h a x" if "a \<in> set us" "x \<in> set (p # bp # ?rest)" for a x
  proof -
    have "x \<in> set ys \<Longrightarrow> unat p \<le> unat x" using so by (auto simp: sorted_wrt_append below_def endof_def)
    then have "unat p \<le> unat x" using that(2) y(2) [of x] ne by (auto simp: word_less_nat_alt)
    then show ?thesis using us [OF that(1)] same(1) [of a] that(1) by (simp add: below_def)
  qed
  moreover have "below ?h bp x" if "x \<in> set ?rest" for x using y(1) [OF that] e(2) by (simp add: below_def)
  moreover have "below ?h p x" if "x \<in> set ?rest" for x
    using y [OF that] e(1) so by (auto simp: below_def sorted_wrt_append)
  moreover have "\<not> merge_left h bp p \<Longrightarrow> below ?h p bp" using g(1) e(1) by (simp add: below_def merge_left_def)
  ultimately have sorted: "sorted_wrt (below ?h) (joined h bp us p ys)" by (auto simp: joined_def sorted_wrt_append)
  have pos: "0 < h_size ?h a" if "unat a < endof ?h a" for a
    using that by (cases "h_size ?h a = 0") (auto simp: endof_def word_gt_0)
  have blocks: "block base ?h a" if a: "a \<in> set (joined h bp us p ys)" "a \<noteq> base" for a
  proof -
    consider "a \<in> set us \<union> set ?rest" | "a = p" | "a = bp" using a by (auto simp: joined_def split: if_splits)
    then show ?thesis
    proof cases
      case 1
      then have "block base h a" using r a(2) y(2) by (auto simp: ring_ok_def)
      then show ?thesis using same 1 by (simp add: block_def)
    next
      case 2
      have bp: "block base h p" using g(4) a 2 by blast
      have "unat p < endof ?h p" using e(1,4) ne block_extent [OF bp] by (auto simp: word_less_nat_alt)
      then show ?thesis using 2 bp e(1,3) pos [of p] by (auto simp: block_def)
    next
      case 3
      then show ?thesis using b e(2-4) pos [of bp] by (auto simp: block_def)
    qed
  qed
  show ?thesis using r hd size links sorted blocks by (auto simp: ring_ok_def j joined_def)
qed

lemma joined_space:
  assumes f: "fits_at base h bp us p ys"
  shows "free_space (join bp p h) (joined h bp us p ys) = free_space h (us @ p # ys) \<union> extent h bp"
proof -
  let ?h = "join bp p h" and ?rest = "rest_of h bp ys"
  note g = fits_gaps [OF f] and e = join_ends [OF f] and y = rest_of_beyond [OF f]
  have r: "ring_ok base h (us @ p # ys)" and b: "block base h bp" using f by (auto simp: fits_at_def)
  have d: "distinct (us @ p # ys)" using ring_distinct [OF r] .
  have "extent ?h a = extent h a" if "a \<in> set us \<union> set ?rest" for a
  proof -
    have "a \<noteq> p \<and> a \<noteq> bp" using that g(5) d y(2) by auto
    then show ?thesis using e(5) [of a] by (simp add: extent_def)
  qed
  then have u: "free_space ?h us = free_space h us" "free_space ?h ?rest = free_space h ?rest" by (auto simp: free_space_def)
  have app: "free_space k (xs @ ys) = free_space k xs \<union> free_space k ys" "free_space k (x # xs) = extent k x \<union> free_space k xs"
    "free_space k [] = {}" for k xs ys x by (auto simp: free_space_def)
  let ?E = "if merge_right h bp ys then endof h (hd ys) else endof h bp"
  have bend: "unat bp \<le> endof h bp" "unat p \<le> endof h p" "unat bp \<le> ?E" using e(4) by (simp_all add: endof_def)
  have right: "{unat bp..<?E} \<union> free_space h ?rest = extent h bp \<union> free_space h ys"
  proof (cases "merge_right h bp ys")
    case True
    then have "{unat bp..<?E} = extent h bp \<union> extent h (hd ys)"
      using ivl_disj_un_two(3) [of "unat bp" "endof h bp" "endof h (hd ys)"] bend(1)
      by (simp add: extent_def merge_right_def endof_def [of h "hd ys"])
    moreover have "free_space h ys = extent h (hd ys) \<union> free_space h ?rest"
      using True by (cases ys) (auto simp: rest_of_def merge_right_def app)
    ultimately show ?thesis by blast
  qed (auto simp: rest_of_def extent_def)
  have left: "extent ?h p \<union> (if merge_left h bp p then {} else extent ?h bp) = extent h p \<union> {unat bp..<?E}"
  proof (cases "merge_left h bp p")
    case True
    then show ?thesis using ivl_disj_un_two(3) [of "unat p" "unat bp" ?E] bend(2,3) e(1) by (simp add: extent_def merge_left_def)
  qed (simp add: extent_def e(1,2))
  have "free_space ?h (joined h bp us p ys) =
      free_space h us \<union> ((extent ?h p \<union> (if merge_left h bp p then {} else extent ?h bp)) \<union> free_space h ?rest)"
    by (auto simp: joined_def app u)
  also have "\<dots> = free_space h us \<union> (extent h p \<union> ({unat bp..<?E} \<union> free_space h ?rest))"
    unfolding left by (simp only: Un_assoc)
  also have "\<dots> = free_space h (us @ p # ys) \<union> extent h bp" unfolding right by (auto simp: app)
  finally show ?thesis .
qed

text \<open>What \<^verbatim>\<open>free\<close> does, for any block that is disjoint from the free ones.\<close>

lemma free_run:
  assumes r: "ring_ok base h as" and b: "block base h (ap - 16)" and d: "extent h (ap - 16) \<inter> free_space h as = {}"
    and k: "length as < k"
  obtains h' as' where "free k h ap = Some h'" "ring_ok base h' as'" "free_space h' as' = free_space h as \<union> extent h (ap - 16)"
    "length as' \<le> Suc (length as)" "\<And>a. unat a \<notin> free_space h' as' \<Longrightarrow> h_size h' a = h_size h a"
    "\<exists>a\<in>set as'. h_size h (ap - 16) \<le> h_size h' a" "freep h' \<noteq> 0"
proof -
  let ?bp = "ap - 16"
  have bb: "base < ?bp" using b by (simp add: block_def word_less_nat_alt)
  have "?bp \<notin> set as"
  proof
    assume "?bp \<in> set as"
    then have "extent h ?bp = {}" using d by (auto simp: free_space_def)
    then show False using block_extent [OF b] by (simp add: extent_def)
  qed
  then obtain us p ys where as: "as = us @ p # ys" "p < ?bp" "\<forall>y\<in>set ys. ?bp < y" using slot_exists [OF r bb] by metis
  have f: "fits_at base h ?bp us p ys" using r b d as by (simp add: fits_at_def)
  let ?h = "join ?bp p h" and ?as = "joined h ?bp us p ys"
  note j = join_fields [OF f] and e = join_ends [OF f] and g = fits_gaps [OF f]
  show thesis
  proof
    show "free k h ap = Some ?h" using find_slot_correct [OF r bb as k] by (simp add: free_def Let_def)
    show "ring_ok base ?h ?as" using joined_ring [OF f] .
    show "free_space ?h ?as = free_space h as \<union> extent h ?bp" using joined_space [OF f] as(1) by simp
    show "length ?as \<le> Suc (length as)" by (auto simp: joined_def as(1) rest_of_def)
    show "h_size ?h a = h_size h a" if a: "unat a \<notin> free_space ?h ?as" for a
    proof -
      have "unat a \<notin> extent h ?bp" "unat a \<notin> extent h p" using a joined_space [OF f] by (auto simp: free_space_def)
      moreover have "merge_left h ?bp p \<Longrightarrow> p \<noteq> base" using g(3) by (auto simp: merge_left_def)
      ultimately have "a \<noteq> ?bp" "merge_left h ?bp p \<Longrightarrow> a \<noteq> p"
        using block_extent [OF b] block_extent [OF g(4)] by (auto simp: extent_def)
      then show ?thesis by (auto simp: j)
    qed
    have E: "endof h ?bp \<le> (if merge_right h ?bp ys then endof h (hd ys) else endof h ?bp)"
      by (auto simp: merge_right_def endof_def)
    show "\<exists>a\<in>set ?as. h_size h ?bp \<le> h_size ?h a"
    proof (cases "merge_left h ?bp p")
      case True
      have "endof h ?bp \<le> endof ?h p" using e(1) E True by simp
      then have "h_size h ?bp \<le> h_size ?h p" using as(2) by (simp add: endof_def word_less_nat_alt word_le_nat_alt)
      then show ?thesis by (auto simp: joined_def)
    next
      case False
      have "endof h ?bp \<le> endof ?h ?bp" using e(2) E by simp
      then have "h_size h ?bp \<le> h_size ?h ?bp" by (simp add: endof_def word_le_nat_alt)
      then show ?thesis using False by (auto simp: joined_def)
    qed
    show "freep ?h \<noteq> 0" using g(4) r by (auto simp: j ring_ok_def block_def)
  qed
qed

subsection \<open>Taking a block\<close>

lemma sorted_outside:
  assumes "sorted_wrt (below h) (us @ z # ys)" "a \<in> set us \<union> set ys"
  shows "unat a \<notin> extent h z" "extent h a \<inter> extent h z = {}"
  using assms by (auto simp: sorted_wrt_append below_def extent_def endof_def)

lemma take_exact:
  assumes r: "ring_ok base h (us @ y # z # ys)" and z: "z \<noteq> base"
  defines "h' \<equiv> (set_ptr y (h_ptr h z) h)\<lparr>freep := y\<rparr>"
  shows "ring_ok base h' (us @ y # ys)" "free_space h' (us @ y # ys) = free_space h (us @ y # z # ys) - extent h z"
proof -
  have f: "h_ptr h' = (h_ptr h)(y := h_ptr h z)" "h_size h' = h_size h" "freep h' = y" "endof h' = endof h" "extent h' = extent h"
      "below h' = below h"
    by (auto simp: h'_def endof_def extent_def below_def fun_eq_iff)
  have so: "sorted_wrt (below h) (us @ y # z # ys)" and l: "links h (us @ y # z # ys) base" using r by (auto simp: ring_ok_def)
  have d: "distinct (us @ y # z # ys)" using ring_distinct [OF r] .
  have "links h' us y" "links h' ys base" using l d by (subst links_cong [of _ h' h]; auto simp: f hd_append)+
  then have "links h' (us @ y # ys) base" using l by (auto simp: f)
  moreover have "sorted_wrt (below h') (us @ y # ys)" using so by (auto simp: sorted_wrt_append f)
  moreover have "hd (us @ y # ys) = base" using r by (cases us) (auto simp: ring_ok_def)
  ultimately show "ring_ok base h' (us @ y # ys)" using r by (auto simp: ring_ok_def block_def f)
  have "extent h a \<inter> extent h z = {}" if "a \<in> set (us @ y # ys)" for a
    using sorted_outside(2) [of h "us @ [y]" z ys a] so that by auto
  then show "free_space h' (us @ y # ys) = free_space h (us @ y # z # ys) - extent h z"
    unfolding free_space_def f by auto
qed

lemma take_end:
  assumes r: "ring_ok base h as" and z: "z \<in> set as" "z \<noteq> base" and n: "0 < n" "n < h_size h z" and y: "y \<in> set as"
  defines "p \<equiv> z + units (h_size h z - n)"
  defines "h' \<equiv> (set_size p n (set_size z (h_size h z - n) h))\<lparr>freep := y\<rparr>"
  shows "ring_ok base h' as" "free_space h' as = free_space h as - extent h' p" "extent h' p \<subseteq> extent h z" "block base h' p"
proof -
  obtain us ys where as: "as = us @ z # ys" using z(1) by (auto dest: split_list)
  have so: "sorted_wrt (below h) as" and bz: "block base h z" using r z by (auto simp: ring_ok_def)
  have un: "unat (h_size h z - n) = unat (h_size h z) - unat n" "unat n < unat (h_size h z)" "0 < unat n"
    using n by (auto simp: unat_sub word_less_nat_alt word_le_nat_alt)
  have e: "endof h z < 2 ^ 36" using bz by (simp add: block_def)
  have up: "unat p = unat z + 16 * (unat (h_size h z) - unat n)"
  proof -
    have "unat z + 16 * (unat (h_size h z) - unat n) < 2 ^ 64" using e by (simp add: endof_def)
    then show ?thesis unfolding p_def using unat_add_lem [of z "units (h_size h z - n)"] by (simp add: unat_units un)
  qed
  have pz: "unat z < unat p" "unat p < endof h z" using un by (auto simp: up endof_def)
  have pout: "p \<notin> set as"
  proof
    assume "p \<in> set as"
    then have "p \<in> set us \<union> set ys" using pz(1) as by auto
    then show False using sorted_outside(1) [of h us z ys p] so pz unfolding as by (auto simp: extent_def)
  qed
  have zp: "z \<noteq> p" using pout z by auto
  have f: "h_ptr h' = h_ptr h" "h_size h' p = n" "h_size h' z = h_size h z - n" "freep h' = y"
    "\<And>a. a \<noteq> p \<Longrightarrow> a \<noteq> z \<Longrightarrow> h_size h' a = h_size h a" using zp by (auto simp: h'_def)
  have en: "endof h' p = endof h z" "endof h' z = unat p" "\<And>a. a \<in> set as \<Longrightarrow> a \<noteq> z \<Longrightarrow> endof h' a = endof h a"
  proof -
    show "endof h' p = endof h z" "endof h' z = unat p" using un up f by (auto simp: endof_def)
    fix a assume "a \<in> set as" "a \<noteq> z"
    then have "a \<noteq> p" "a \<noteq> z" using pout by auto
    then show "endof h' a = endof h a" using f(5) by (simp add: endof_def)
  qed
  have le: "endof h' a \<le> endof h a" if "a \<in> set as" for a using en that pz by (cases "a = z") auto
  have "sorted_wrt (below h') as"
    using so le by (intro sorted_wrt_mono_rel [of as "below h" "below h'"]) (auto simp: below_def intro: le_less_trans)
  moreover have "links h' as base" using r links_cong [of as h' h base] by (simp add: f ring_ok_def)
  moreover have "block base h' a" if "a \<in> set as" "a \<noteq> base" for a
  proof (cases "a = z")
    case True
    then show ?thesis using bz en(2) pz e n by (auto simp: block_def f word_gt_0)
  next
    case False
    have "block base h a" using r that by (simp add: ring_ok_def)
    moreover have "a \<noteq> p" using pout that by blast
    ultimately show ?thesis using en(3) [OF that(1) False] f(5) [of a] False by (simp add: block_def)
  qed
  moreover have "base \<in> set as" "h_size h base = 0" using r hd_in_set [of as] by (auto simp: ring_ok_def)
  then have "h_size h' base = 0" using f(5) [of base] pout z by metis
  ultimately show "ring_ok base h' as" using r y by (auto simp: ring_ok_def f)
  show "extent h' p \<subseteq> extent h z" using en pz by (auto simp: extent_def)
  show "block base h' p" using bz en(1) pz n by (auto simp: block_def f)
  have x: "extent h' z \<union> extent h' p = extent h z" "extent h' z \<inter> extent h' p = {}"
    using en pz by (auto simp: extent_def)
  have o: "extent h' a = extent h a" "extent h a \<inter> extent h z = {}" if "a \<in> set us \<union> set ys" for a
  proof -
    have "a \<noteq> z" "a \<in> set as" using that ring_distinct [OF r] as by auto
    then show "extent h' a = extent h a" using en(3) by (simp add: extent_def)
    show "extent h a \<inter> extent h z = {}" using sorted_outside(2) [of h us z ys a] so that unfolding as by blast
  qed
  have "free_space h' as = extent h' z \<union> (\<Union>a\<in>set us \<union> set ys. extent h a)"
    using o(1) unfolding free_space_def as by auto
  also have "\<dots> = (extent h z \<union> (\<Union>a\<in>set us \<union> set ys. extent h a)) - extent h' p" using x o(2) by blast
  also have "extent h z \<union> (\<Union>a\<in>set us \<union> set ys. extent h a) = free_space h as" unfolding free_space_def as by auto
  finally show "free_space h' as = free_space h as - extent h' p" .
qed

text \<open>Both ways of taking a block, at a pair of neighbours in the list.\<close>

lemma take_run:
  assumes r: "ring_ok base h as" and y: "y \<in> set as" and n: "0 < n" "n \<le> h_size h (h_ptr h y)"
  obtains p h' as' where "take_block h y (h_ptr h y) n = (p + 16, h')" "ring_ok base h' as'" "block base h' p" "h_size h' p = n"
    "extent h' p \<subseteq> free_space h as" "free_space h' as' = free_space h as - extent h' p"
    "\<And>a. unat a \<notin> free_space h as \<Longrightarrow> h_size h' a = h_size h a" "freep h' \<noteq> 0"
proof -
  let ?z = "h_ptr h y"
  have zb: "?z \<noteq> base" using n r by (auto simp: ring_ok_def)
  obtain us vs where as0: "as = us @ y # vs" using y by (auto dest: split_list)
  have "?z = hd (vs @ [base])" using r unfolding as0 by (simp add: ring_ok_def)
  then obtain ys where as: "as = us @ y # ?z # ys" using zb as0 by (cases vs) auto
  have bz: "block base h ?z" using r zb as by (auto simp: ring_ok_def)
  have y0: "y \<noteq> 0" using r y by (auto simp: ring_ok_def block_def)
  have ez: "extent h ?z \<subseteq> free_space h as" unfolding free_space_def by (subst as) auto
  have zin: "unat ?z \<in> free_space h as" using ez block_extent [OF bz] by (auto simp: extent_def)
  show thesis
  proof (cases "h_size h ?z = n")
    case True
    let ?h = "(set_ptr y (h_ptr h ?z) h)\<lparr>freep := y\<rparr>"
    have t: "take_block h y ?z n = (?z + 16, ?h)" using True by (simp add: take_block_def)
    note e = take_exact [OF r [unfolded as] zb]
    have x: "extent ?h ?z = extent h ?z" "block base ?h ?z" "h_size ?h ?z = n"
      using bz True by (simp_all add: extent_def endof_def block_def)
    show thesis using that [OF t e(1) x(2,3)] e(2) x(1) ez y0 as by simp
  next
    case False
    then have n': "n < h_size h ?z" using n(2) by simp
    let ?p = "?z + units (h_size h ?z - n)"
    let ?h = "(set_size ?p n (set_size ?z (h_size h ?z - n) h))\<lparr>freep := y\<rparr>"
    have t: "take_block h y ?z n = (?p + 16, ?h)" using False by (simp add: take_block_def Let_def)
    have zm: "?z \<in> set as" by (subst as) simp
    note e = take_end [OF r zm zb n(1) n' y]
    have s: "h_size ?h a = h_size h a" if "unat a \<notin> free_space h as" for a
    proof -
      have "a \<noteq> ?z" using that zin by auto
      moreover have "unat ?p \<in> extent ?h ?p" using block_extent [OF e(4)] by (simp add: extent_def)
      then have "a \<noteq> ?p" using that e(3) ez by auto
      ultimately show ?thesis by simp
    qed
    show thesis using that [OF t e(1) e(4) _ _ e(2) s] e(3) ez y0 by auto
  qed
qed

subsection \<open>Searching a block\<close>

lemma loop_found:
  assumes "links h (y # zs) (freep h)" "freep h \<notin> set zs" "\<exists>z\<in>set (zs @ [freep h]). n \<le> h_size h z" "length zs < k"
  shows "\<exists>x\<in>set (y # zs). n \<le> h_size h (h_ptr h x) \<and> malloc_loop k h n y (h_ptr h y) = uret (take_block h x (h_ptr h x) n)"
  using assms
proof (induction zs arbitrary: y k)
  case Nil
  then show ?case by (cases k) auto
next
  case (Cons x zs)
  then obtain k' where k: "k = Suc k'" by (cases k) auto
  show ?case
  proof (cases "n \<le> h_size h x")
    case False
    then show ?thesis using Cons.IH [of x k'] Cons.prems k by auto
  qed (use Cons.prems k in auto)
qed

lemma loop_none:
  assumes "links h (y # zs) (freep h)" "freep h \<notin> set zs" "\<forall>z\<in>set (zs @ [freep h]). \<not> n \<le> h_size h z"
  shows "malloc_loop (Suc (k + length zs)) h n y (h_ptr h y) =
    ubind (morecore k h n) (\<lambda>(p, h). if p = 0 then uret (0, h) else malloc_loop k h n p (h_ptr h p))"
  using assms
proof (induction zs arbitrary: y)
  case (Cons x zs)
  then show ?case using Cons.IH [of x] by auto
qed simp

text \<open>The list, read from \<^verbatim>\<open>freep\<close> around to \<^verbatim>\<open>freep\<close>.\<close>

lemma ring_around:
  assumes "ring_ok base h as"
  obtains zs where "links h (freep h # zs) (freep h)" "freep h \<notin> set zs" "set (zs @ [freep h]) = set as" "Suc (length zs) = length as"
proof -
  have "freep h \<in> set as" using assms by (simp add: ring_ok_def)
  then obtain us ys where as: "as = us @ freep h # ys" by (auto dest: split_list)
  have l: "links h as base" and d: "distinct as" and hd: "hd (us @ [freep h]) = base"
    using assms ring_distinct [OF assms] as by (auto simp: ring_ok_def hd_append)
  have "links h (freep h # ys @ us) (freep h)"
    using l hd unfolding as by (cases us) (auto simp: hd_append)
  then show thesis using that [of "ys @ us"] d unfolding as by auto
qed

lemma malloc_found:
  assumes r: "ring_ok base h as" and n: "0 < n" "\<exists>z\<in>set as. n \<le> h_size h z" and k: "length as < k"
  obtains x where "x \<in> set as" "n \<le> h_size h (h_ptr h x)"
    "malloc_loop k h n (freep h) (h_ptr h (freep h)) = uret (take_block h x (h_ptr h x) n)"
proof -
  obtain zs where "links h (freep h # zs) (freep h)" "freep h \<notin> set zs" "set (zs @ [freep h]) = set as" "Suc (length zs) = length as"
    using ring_around [OF r] .
  then show thesis using loop_found [of h "freep h" zs n k] n k that by (metis Suc_lessD Un_iff empty_set insert_iff list.simps(15) set_append)
qed

subsection \<open>More memory\<close>

lemma set_size_same:
  assumes "q \<notin> set as"
  shows "ring_ok base (set_size q m h) as \<longleftrightarrow> q \<noteq> base \<and> ring_ok base h as \<or> q = base \<and> ring_ok base (set_size q m h) as"
    "free_space (set_size q m h) as = free_space h as"
proof -
  have e: "endof (set_size q m h) a = endof h a" if "a \<in> set as" for a using that assms by (auto simp: endof_def)
  then show "free_space (set_size q m h) as = free_space h as" by (auto simp: free_space_def extent_def)
  have "links (set_size q m h) as base = links h as base" by (rule links_cong) simp
  moreover have "sorted_wrt (below (set_size q m h)) as = sorted_wrt (below h) as"
    by (rule iffI; erule sorted_wrt_mono_rel [rotated]) (auto simp: below_def e)
  ultimately show "ring_ok base (set_size q m h) as \<longleftrightarrow> q \<noteq> base \<and> ring_ok base h as \<or> q = base \<and> ring_ok base (set_size q m h) as"
    using assms e by (auto simp: ring_ok_def block_def)
qed

definition core_units :: "u32 \<Rightarrow> u32" where
  "core_units n = (if n < 4096 then 4096 else n)"

definition new_block :: "u64 \<Rightarrow> heap \<Rightarrow> u32 \<Rightarrow> u64 \<Rightarrow> bool" where
  "new_block base h n q \<longleftrightarrow> unat base + 16 \<le> unat q \<and> unat q + 16 * unat (core_units n) < 2 ^ 36"

lemma morecore_run:
  assumes r: "ring_ok base h as" and a: "answers w = A_addr q # rest" and q: "new_block base h n q"
    and d: "{unat q..<unat q + 16 * unat (core_units n)} \<inter> free_space h as = {}" and k: "length as < k"
  obtains h' as' where
    "morecore k h n w = Go (freep h', h') \<lparr>answers = rest, calls = calls w @ [C_sbrk (ucast (units (core_units n)))]\<rparr>"
    "ring_ok base h' as'" "free_space h' as' = free_space h as \<union> {unat q..<unat q + 16 * unat (core_units n)}"
    "length as' \<le> Suc (length as)" "\<And>a. unat a \<notin> free_space h' as' \<Longrightarrow> h_size h' a = h_size h a"
    "\<exists>a\<in>set as'. n \<le> h_size h' a" "freep h' \<noteq> 0"
proof -
  let ?n = "core_units n" and ?h = "set_size q (core_units n) h"
  have n0: "0 < ?n" "n \<le> ?n" "0 < unat ?n" by (auto simp: core_units_def word_gt_0 unat_gt_0)
  have x: "extent ?h q = {unat q..<unat q + 16 * unat ?n}" by (simp add: extent_def endof_def)
  have b: "block base ?h q" using q n0 by (simp add: new_block_def block_def endof_def)
  have qb: "q \<noteq> base" using q by (auto simp: new_block_def)
  have "q \<notin> set as"
  proof
    assume m: "q \<in> set as"
    then have "block base h q" using r qb by (simp add: ring_ok_def)
    then have "unat q \<in> free_space h as" using m block_extent by (force simp: free_space_def extent_def)
    moreover have "unat q \<in> {unat q..<unat q + 16 * unat ?n}" using n0 by simp
    ultimately show False using d by blast
  qed
  note same = set_size_same(1) [OF this, of base ?n h] set_size_same(2) [OF this, of ?n h]
  have r': "ring_ok base ?h as" using same(1) r qb by simp
  have d': "extent ?h (q + 16 - 16) \<inter> free_space ?h as = {}" using d by (simp add: same x)
  obtain h' as' where f: "free k ?h (q + 16) = Some h'" "ring_ok base h' as'"
    "free_space h' as' = free_space ?h as \<union> extent ?h (q + 16 - 16)" "length as' \<le> Suc (length as)"
    "\<And>a. unat a \<notin> free_space h' as' \<Longrightarrow> h_size h' a = h_size ?h a" "\<exists>a\<in>set as'. h_size ?h (q + 16 - 16) \<le> h_size h' a" "freep h' \<noteq> 0"
    by (rule free_run [OF r' _ d' k]) (use b in simp_all)
  have nq: "q \<noteq> -1"
  proof
    assume "q = -1"
    then have "unat q = 2 ^ 64 - 1" by (simp add: unsigned_minus_1_eq_mask mask_eq_exp_minus_1)
    then show False using q by (simp add: new_block_def)
  qed
  have m: "morecore k h n w = Go (freep h', h') \<lparr>answers = rest, calls = calls w @ [C_sbrk (ucast (units ?n))]\<rparr>"
    using f(1) nq a by (simp add: morecore_def sbrk_def sys_def ubind_def uret_def Let_def core_units_def [symmetric])
  show thesis
  proof (rule that [OF m f(2)])
    show "free_space h' as' = free_space h as \<union> {unat q..<unat q + 16 * unat ?n}" using f(3) by (simp add: same x)
    show "\<exists>a\<in>set as'. n \<le> h_size h' a" using f(6) n0(2) by (auto intro: order_trans)
    show "h_size h' a = h_size h a" if "unat a \<notin> free_space h' as'" for a
    proof -
      have "unat q \<in> free_space h' as'" using f(3) n0 by (simp add: x)
      then show ?thesis using f(5) [OF that] that by auto
    qed
  qed (use f in auto)
qed

subsection \<open>What malloc does to the free space\<close>

text \<open>A block of \<open>n\<close> units at \<open>p\<close> was taken out of the space \<open>F\<close>.\<close>

definition taken :: "u64 \<Rightarrow> nat set \<Rightarrow> heap \<Rightarrow> u32 \<Rightarrow> u64 \<Rightarrow> heap \<Rightarrow> u64 list \<Rightarrow> bool" where
  "taken base F h n p h' as' \<longleftrightarrow>
     ring_ok base h' as' \<and> block base h' p \<and> h_size h' p = n \<and> extent h' p \<subseteq> F \<and>
     free_space h' as' = F - extent h' p \<and> (\<forall>a. unat a \<notin> F \<longrightarrow> h_size h' a = h_size h a) \<and> freep h' \<noteq> 0"

lemma loop_taken:
  assumes r: "ring_ok base h as" and n: "0 < n" "\<exists>z\<in>set as. n \<le> h_size h z" and k: "length as < k"
  obtains p h' as' where "malloc_loop k h n (freep h) (h_ptr h (freep h)) w = Go (p + 16, h') w" "taken base (free_space h as) h n p h' as'"
proof -
  obtain x where x: "x \<in> set as" "n \<le> h_size h (h_ptr h x)"
    "malloc_loop k h n (freep h) (h_ptr h (freep h)) = uret (take_block h x (h_ptr h x) n)" using malloc_found [OF r n k] .
  obtain p h' as' where "take_block h x (h_ptr h x) n = (p + 16, h')" "ring_ok base h' as'" "block base h' p" "h_size h' p = n"
    "extent h' p \<subseteq> free_space h as" "free_space h' as' = free_space h as - extent h' p"
    "\<And>a. unat a \<notin> free_space h as \<Longrightarrow> h_size h' a = h_size h a" "freep h' \<noteq> 0" by (rule take_run [OF r x(1) n(1) x(2)]) blast
  then show thesis using x(3) that by (auto simp: taken_def uret_def)
qed

lemma loop_more:
  assumes r: "ring_ok base h as" and n: "\<forall>z\<in>set as. \<not> n \<le> h_size h z" and k: "2 * length as + 3 \<le> k"
  obtains k' where "length as + 2 \<le> k'"
    "malloc_loop k h n (freep h) (h_ptr h (freep h)) =
      ubind (morecore k' h n) (\<lambda>(p, h). if p = 0 then uret (0, h) else malloc_loop k' h n p (h_ptr h p))"
proof -
  obtain zs where z: "links h (freep h # zs) (freep h)" "freep h \<notin> set zs" "set (zs @ [freep h]) = set as" "Suc (length zs) = length as"
    using ring_around [OF r] .
  have "Suc (k - length as + length zs) = k" using z(4) k by linarith
  moreover have "\<forall>z\<in>set (zs @ [freep h]). \<not> n \<le> h_size h z" using n z(3) by simp
  moreover have "length as + 2 \<le> k - length as" using k by simp
  ultimately show thesis using that [of "k - length as"] loop_none [OF z(1,2), of n "k - length as"] by simp
qed

text \<open>The whole loop: a block from the list, or one from new memory, or none when the kernel gives no more.\<close>

lemma loop_run:
  assumes r: "ring_ok base h as" and n: "0 < n" and k: "2 * length as + 3 \<le> k" and a: "answers w = a # rest"
    and new: "\<forall>q. a = A_addr q \<and> q \<noteq> -1 \<longrightarrow> new_block base h n q \<and>
      {unat q..<unat q + 16 * unat (core_units n)} \<inter> free_space h as = {}"
  defines "w' \<equiv> \<lparr>answers = rest, calls = calls w @ [C_sbrk (ucast (units (core_units n)))]\<rparr>"
  obtains (list) p h' as' where "malloc_loop k h n (freep h) (h_ptr h (freep h)) w = Go (p + 16, h') w"
      "taken base (free_space h as) h n p h' as'"
  | (more) q p h' as' where "malloc_loop k h n (freep h) (h_ptr h (freep h)) w = Go (p + 16, h') w'" "a = A_addr q" "q \<noteq> -1"
      "taken base (free_space h as \<union> {unat q..<unat q + 16 * unat (core_units n)}) h n p h' as'"
  | (none) "malloc_loop k h n (freep h) (h_ptr h (freep h)) w = Go (0, h) w'" "\<forall>z\<in>set as. h_size h z < n" "\<forall>q. a = A_addr q \<longrightarrow> q = -1"
proof (cases "\<exists>z\<in>set as. n \<le> h_size h z")
  case True
  obtain p h' as' where "malloc_loop k h n (freep h) (h_ptr h (freep h)) w = Go (p + 16, h') w" "taken base (free_space h as) h n p h' as'"
    by (rule loop_taken [OF r n True, of k w]) (use k in auto)
  then show thesis by (rule list)
next
  case False
  then have F: "\<forall>z\<in>set as. \<not> n \<le> h_size h z" by blast
  obtain k' where k': "length as + 2 \<le> k'" "malloc_loop k h n (freep h) (h_ptr h (freep h)) =
      ubind (morecore k' h n) (\<lambda>(p, h). if p = 0 then uret (0, h) else malloc_loop k' h n p (h_ptr h p))"
    using loop_more [OF r F k] .
  show thesis
  proof (cases "\<exists>q. a = A_addr q \<and> q \<noteq> -1")
    case True
    then obtain q where q: "a = A_addr q" "q \<noteq> -1" by blast
    let ?N = "{unat q..<unat q + 16 * unat (core_units n)}"
    obtain h1 as1 where m: "morecore k' h n w = Go (freep h1, h1) w'" "ring_ok base h1 as1" "free_space h1 as1 = free_space h as \<union> ?N"
      "length as1 \<le> Suc (length as)" "\<And>a. unat a \<notin> free_space h1 as1 \<Longrightarrow> h_size h1 a = h_size h a"
      "\<exists>a\<in>set as1. n \<le> h_size h1 a" "freep h1 \<noteq> 0"
      unfolding w'_def by (rule morecore_run [OF r a [unfolded q(1)], of n k']) (use new q k' in auto)
    obtain p h' as' where t: "malloc_loop k' h1 n (freep h1) (h_ptr h1 (freep h1)) w' = Go (p + 16, h') w'"
      "taken base (free_space h1 as1) h1 n p h' as'"
      by (rule loop_taken [OF m(2) n m(6), of k' w']) (use m(4) k'(1) in auto)
    have "taken base (free_space h as \<union> ?N) h n p h' as'" using t(2) m(5) by (auto simp: taken_def m(3))
    then show thesis using more [of p h' q as'] t(1) m(1,7) k'(2) q by (simp add: ubind_def)
  next
    case False
    have "morecore k' h n w = Go (0, h) w'"
      using False a by (cases a) (auto simp: morecore_def sbrk_def sys_def ubind_def uret_def Let_def w'_def core_units_def)
    then show thesis using none k'(2) F False by (auto simp: ubind_def uret_def not_le)
  qed
qed

subsection \<open>Properties\<close>

text \<open>
  The blocks in use, by the addresses of their headers: inside the range of the heap, apart from each other and from
  the free space. Before the first call there are none.
\<close>

definition heap_ok :: "u64 \<Rightarrow> heap \<Rightarrow> u64 list \<Rightarrow> u64 set \<Rightarrow> bool" where
  "heap_ok base h as B \<longleftrightarrow>
     ring_ok base (started base h) as \<and> (freep h = 0 \<longrightarrow> B = {}) \<and>
     (\<forall>b\<in>B. block base h b \<and> extent h b \<inter> free_space (started base h) as = {}) \<and>
     (\<forall>b\<in>B. \<forall>c\<in>B. b \<noteq> c \<longrightarrow> extent h b \<inter> extent h c = {})"

text \<open>What \<^verbatim>\<open>sbrk\<close> of \<open>m\<close> bytes promises: it fails, or the bytes at the address it returns were not in use.\<close>

definition sbrk_ok :: "u64 \<Rightarrow> heap \<Rightarrow> u64 list \<Rightarrow> u64 set \<Rightarrow> int \<Rightarrow> answer \<Rightarrow> bool" where
  "sbrk_ok base h as B m a \<longleftrightarrow>
     (\<forall>q. a = A_addr q \<and> q \<noteq> -1 \<longrightarrow>
        unat base + 16 \<le> unat q \<and> int (unat q) + m < 2 ^ 36 \<and>
        {unat q..<unat q + nat m} \<inter> free_space h as = {} \<and> (\<forall>b\<in>B. {unat q..<unat q + nat m} \<inter> extent h b = {}))"

lemma started_id: "freep h \<noteq> 0 \<Longrightarrow> started base h = h"
  by (simp add: started_def)

lemma heap_ok_taken:
  assumes t: "taken base F h n p h' as'" and B: "\<forall>b\<in>B. block base h b \<and> extent h b \<inter> F = {}"
    and c: "\<forall>b\<in>B. \<forall>c\<in>B. b \<noteq> c \<longrightarrow> extent h b \<inter> extent h c = {}"
  shows "heap_ok base h' as' (insert p B) \<and> p \<notin> B \<and> (\<forall>b\<in>B. h_size h' b = h_size h b)"
proof -
  have T: "ring_ok base h' as'" "block base h' p" "extent h' p \<subseteq> F" "free_space h' as' = F - extent h' p" "freep h' \<noteq> 0"
    "\<And>a. unat a \<notin> F \<Longrightarrow> h_size h' a = h_size h a" using t by (auto simp: taken_def)
  have s: "h_size h' b = h_size h b" if "b \<in> B" for b
  proof -
    have "unat b \<in> extent h b" using B that block_extent by (force simp: extent_def)
    then show ?thesis using T(6) B that by blast
  qed
  then have x: "extent h' b = extent h b" "block base h' b" if "b \<in> B" for b
    using B that by (auto simp: extent_def endof_def block_def)
  have "p \<notin> B"
  proof
    assume "p \<in> B"
    then have "extent h' p = {}" using x B T(3) by blast
    then show False using block_extent [OF T(2)] by (simp add: extent_def)
  qed
  moreover have "heap_ok base h' as' (insert p B)" unfolding heap_ok_def started_id [OF T(5)] using T B c x by blast
  ultimately show ?thesis using s by blast
qed

lemma nunits_bounds:
  assumes "unat nbytes < 2147483600"
  shows "0 < nunits_of nbytes" "unat nbytes + 16 \<le> 16 * unat (nunits_of nbytes)" "unat (nunits_of nbytes) < 134217728"
proof -
  have m: "unat ((ucast nbytes :: u64) + 16 - 1) = unat nbytes + 15"
  proof -
    have "(ucast nbytes :: u64) + 16 - 1 = ucast nbytes + 15" by simp
    also have "unat \<dots> = unat nbytes + 15"
      using unat_add_lem [of "ucast nbytes :: u64" 15] assms by (simp add: unat_up)
    finally show ?thesis .
  qed
  have d: "unat (((ucast nbytes :: u64) + 16 - 1) div 16) = (unat nbytes + 15) div 16" unfolding unat_div m by simp
  have lt: "(unat nbytes + 15) div 16 < 134217727" using assms by linarith
  have "unat (((ucast nbytes :: u64) + 16 - 1) div 16 + 1) = (unat nbytes + 15) div 16 + 1"
    using unat_add_lem [of "((ucast nbytes :: u64) + 16 - 1) div 16" 1] lt unfolding d by simp
  then have u: "unat (nunits_of nbytes) = (unat nbytes + 15) div 16 + 1"
    unfolding nunits_of_def unsigned_ucast_eq using lt by (simp add: take_bit_nat_eq_self)
  then show "0 < nunits_of nbytes" by (auto simp: word_gt_0)
  have "x + 16 \<le> 16 * ((x + 15) div 16 + 1)" for x :: nat by presburger
  then show "unat nbytes + 16 \<le> 16 * unat (nunits_of nbytes)" unfolding u .
  show "unat (nunits_of nbytes) < 134217728" unfolding u using lt by simp
qed

lemma sint_of_nat: "m < 2 ^ 31 \<Longrightarrow> sint (word_of_nat m :: i32) = int m"
  by (simp only: signed_of_nat) (simp add: signed_take_bit_int_eq_self)

lemma sbrk_arg:
  assumes "unat n < 134217728"
  shows "sint (ucast (units (core_units n)) :: i32) = int (16 * unat (core_units n))"
proof -
  have n: "16 * unat (core_units n) < 2 ^ 31" using assms by (auto simp: core_units_def)
  have "(ucast (units (core_units n)) :: i32) = word_of_nat (16 * unat (core_units n))"
    unfolding unat_units [symmetric] by simp
  then show ?thesis using sint_of_nat [OF n] by (simp only:)
qed

lemma sbrk_ok_nat:
  "sbrk_ok base h as B (int m) a \<longleftrightarrow>
     (\<forall>q. a = A_addr q \<and> q \<noteq> -1 \<longrightarrow>
        unat base + 16 \<le> unat q \<and> unat q + m < 2 ^ 36 \<and>
        {unat q..<unat q + m} \<inter> free_space h as = {} \<and> (\<forall>b\<in>B. {unat q..<unat q + m} \<inter> extent h b = {}))"
proof -
  have "(int x + int m < 2 ^ 36) = (x + m < 2 ^ 36)" for x :: nat by (simp, linarith)
  then show ?thesis unfolding sbrk_ok_def nat_int by (simp only:)
qed

text \<open>
  C34: \<^verbatim>\<open>malloc\<close> never hands out memory in use. On every state of the heap, and whatever \<^verbatim>\<open>sbrk\<close> answers, it
  returns; the block it returns is large enough, disjoint from the blocks in use and from what stays free, and the
  sizes recorded in the headers of the blocks in use are unchanged. It returns 0 only if no free block is large
  enough and \<^verbatim>\<open>sbrk\<close> failed, and then nothing has changed. Requests near \<open>2\<^sup>3\<^sup>1\<close> and beyond are excluded.
\<close>

theorem malloc_correct:
  assumes "heap_ok base h as B" "unat nbytes < 2147483600" "2 * length as + 3 \<le> k" "answers w = a # rest"
    "sbrk_ok base (started base h) as B (sint (ucast (units (core_units (nunits_of nbytes))) :: i32)) a"
  shows "\<exists>p h' as' w'. malloc k base h nbytes w = Go (p, h') w' \<and>
    (if p = 0
     then h' = started base h \<and> (\<forall>q. a = A_addr q \<longrightarrow> q = -1) \<and> (\<forall>z\<in>set as. h_size h' z < nunits_of nbytes)
     else heap_ok base h' as' (insert (p - 16) B) \<and> p - 16 \<notin> B \<and> unat nbytes + 16 \<le> 16 * unat (h_size h' (p - 16)) \<and>
          (\<forall>b\<in>B. h_size h' b = h_size h b))"
proof -
  let ?h = "started base h" and ?n = "nunits_of nbytes"
  note n = nunits_bounds [OF assms(2)]
  have r: "ring_ok base ?h as" using assms(1) by (simp add: heap_ok_def)
  have B: "\<forall>b\<in>B. block base ?h b \<and> extent ?h b \<inter> free_space ?h as = {}" "\<forall>b\<in>B. \<forall>c\<in>B. b \<noteq> c \<longrightarrow> extent ?h b \<inter> extent ?h c = {}"
    "\<forall>b\<in>B. h_size ?h b = h_size h b"
    using assms(1) by (cases "freep h = 0"; simp add: heap_ok_def started_def)+
  have m: "malloc k base h nbytes w = malloc_loop k ?h ?n (freep ?h) (h_ptr ?h (freep ?h)) w" by (simp add: malloc_def Let_def)
  have new: "\<forall>q. a = A_addr q \<and> q \<noteq> -1 \<longrightarrow> new_block base ?h ?n q \<and>
      {unat q..<unat q + 16 * unat (core_units ?n)} \<inter> free_space ?h as = {}"
    using assms(5) unfolding sbrk_arg [OF n(3)] sbrk_ok_nat new_block_def by blast
  have big: "unat nbytes + 16 \<le> 16 * unat (h_size h' p)" if "taken base F ?h ?n p h' as'" for F p h' as'
    using that n(2) by (simp add: taken_def)
  have nz: "p + 16 \<noteq> 0" if "taken base F ?h ?n p h' as'" for F p h' as'
  proof
    assume "p + 16 = 0"
    then have "p = - 16" by (simp add: eq_neg_iff_add_eq_0)
    then have "unat p = 2 ^ 64 - 16" by simp
    then show False using that by (simp add: taken_def block_def endof_def)
  qed
  show ?thesis
  proof (rule loop_run [OF r n(1) assms(3,4) new], goal_cases)
    case (1 p h' as')
    then show ?case using heap_ok_taken [OF 1(2) B(1,2)] B(3) big [OF 1(2)] nz [OF 1(2)] m by auto
  next
    case (2 q p h' as')
    have "\<forall>b\<in>B. block base ?h b \<and> extent ?h b \<inter> (free_space ?h as \<union> {unat q..<unat q + 16 * unat (core_units ?n)}) = {}"
      using B(1) assms(5) 2(2,3) unfolding sbrk_arg [OF n(3)] sbrk_ok_nat by blast
    from heap_ok_taken [OF 2(4) this B(2)] show ?case using 2(1) B(3) big [OF 2(4)] nz [OF 2(4)] m by auto
  next
    case 3
    then show ?case using m by auto
  qed
qed

text \<open>A heap before the first call, with the data of the program at \<^verbatim>\<open>0x1000\<close>.\<close>

definition empty_heap :: heap where
  "empty_heap = \<lparr>h_ptr = (\<lambda>_. 0), h_size = (\<lambda>_. 0), freep = 0\<rparr>"

lemma heap_ok_empty: "base \<noteq> 0 \<Longrightarrow> heap_ok base empty_heap [base] {}"
  by (simp add: heap_ok_def ring_ok_def started_def empty_heap_def)

lemma free_space_base: "free_space (started base empty_heap) [base] = {}"
  by (simp add: free_space_def extent_def endof_def started_def empty_heap_def)

theorem malloc_correct_witness:
  "\<exists>p h' as' w'. malloc 5 0x1000 empty_heap 100 \<lparr>answers = [A_addr 0x4000], calls = []\<rparr> = Go (p, h') w' \<and>
    (if p = 0
     then h' = started 0x1000 empty_heap \<and> (\<forall>q. A_addr 0x4000 = A_addr q \<longrightarrow> q = -1) \<and>
       (\<forall>z\<in>set [0x1000]. h_size h' z < nunits_of 100)
     else heap_ok 0x1000 h' as' (insert (p - 16) {}) \<and> p - 16 \<notin> {} \<and> unat (100 :: u32) + 16 \<le> 16 * unat (h_size h' (p - 16)) \<and>
          (\<forall>b\<in>{}. h_size h' b = h_size empty_heap b))"
proof -
  have "nunits_of 100 = 8" by (simp add: nunits_of_def)
  then have c: "core_units (nunits_of 100) = 4096" by (simp add: core_units_def)
  show ?thesis
    by (rule malloc_correct [where as = "[0x1000]" and a = "A_addr 0x4000" and rest = "[]"])
      (auto simp: heap_ok_empty sbrk_ok_def free_space_base c units_def)
qed

text \<open>
  C35: \<^verbatim>\<open>free\<close> of a block in use returns: it adds the block to the free space, joined with its neighbours so that
  free blocks never touch, and leaves every other block in use as it was.
\<close>

theorem free_correct:
  assumes "heap_ok base h as B" "b \<in> B" "length as < k"
  shows "\<exists>h' as'. free k h (b + 16) = Some h' \<and> heap_ok base h' as' (B - {b}) \<and>
    free_space h' as' = free_space h as \<union> extent h b \<and> (\<forall>c\<in>B - {b}. h_size h' c = h_size h c)"
proof -
  have f: "freep h \<noteq> 0" using assms(1,2) by (auto simp: heap_ok_def)
  note ok = assms(1) [unfolded heap_ok_def started_id [OF f]]
  have r: "ring_ok base h as" and b: "block base h (b + 16 - 16)" "extent h (b + 16 - 16) \<inter> free_space h as = {}"
    using ok assms(2) by simp_all
  obtain h' as' where h: "free k h (b + 16) = Some h'" "ring_ok base h' as'"
    "free_space h' as' = free_space h as \<union> extent h (b + 16 - 16)"
    "\<And>a. unat a \<notin> free_space h' as' \<Longrightarrow> h_size h' a = h_size h a" "freep h' \<noteq> 0"
    by (rule free_run [OF r b assms(3)]) blast
  have s: "h_size h' c = h_size h c" and d: "extent h c \<inter> free_space h' as' = {}" if "c \<in> B - {b}" for c
  proof -
    have "extent h c \<inter> extent h b = {}" "extent h c \<inter> free_space h as = {}" using ok that assms(2) by blast+
    then show "extent h c \<inter> free_space h' as' = {}" using h(3) by auto
    moreover have "unat c \<in> extent h c" using ok that block_extent by (force simp: extent_def)
    ultimately show "h_size h' c = h_size h c" using h(4) by blast
  qed
  have x: "extent h' c = extent h c" "block base h' c" if "c \<in> B - {b}" for c
    using s [OF that] ok that by (auto simp: extent_def endof_def block_def)
  have "heap_ok base h' as' (B - {b})"
    unfolding heap_ok_def started_id [OF h(5)] using h(2,5) x d ok by blast
  then show ?thesis using h(1,3) s by auto
qed

text \<open>A heap with one block of 8 units in use.\<close>

definition used_heap :: heap where
  "used_heap = \<lparr>h_ptr = (\<lambda>_. 0x1000), h_size = (\<lambda>_. 0)(0x4000 := 8), freep = 0x1000\<rparr>"

theorem free_correct_witness:
  "\<exists>h' as'. free 2 used_heap (0x4000 + 16) = Some h' \<and> heap_ok 0x1000 h' as' ({0x4000} - {0x4000}) \<and>
    free_space h' as' = free_space used_heap [0x1000] \<union> extent used_heap 0x4000 \<and>
    (\<forall>c\<in>{0x4000} - {0x4000}. h_size h' c = h_size used_heap c)"
  by (rule free_correct)
    (auto simp: heap_ok_def ring_ok_def started_def used_heap_def block_def endof_def extent_def free_space_def)



end
