(* ===== verification/Asm.thy ===== *)
theory Asm
  imports Prelude
begin

text \<open>
  The assembly of the kernel: entry to and return from traps (\<^verbatim>\<open>trampoline.S\<close>, \<^verbatim>\<open>kernelvec.S\<close>), the context
  switch (\<^verbatim>\<open>swtch.S\<close>) and the first instructions of a hart (\<^verbatim>\<open>entry.S\<close>).

  A routine is the list of its instructions. A hart has its general registers, the control and status registers
  the routines use, and memory; a virtual address is translated by a function of \<^verbatim>\<open>satp\<close>, an argument, which the
  machine mode does not use. A routine ends with the jump it makes. \<^verbatim>\<open>sfence.vma\<close> has no effect in a model without
  a cache of translations.
\<close>

subsection \<open>Instructions\<close>

datatype reg = RA | SP | GP | TP | T0 | T1 | T2 | S0 | S1 | A0 | A1 | A2 | A3 | A4 | A5 | A6 | A7
  | S2 | S3 | S4 | S5 | S6 | S7 | S8 | S9 | S10 | S11 | T3 | T4 | T5 | T6

datatype csreg = Sscratch | Satp | Mscratch | Sip | Mhartid

datatype dest = To u64 | To_sepc | To_mepc | To_start

datatype instr =
    Sd reg nat reg
  | Ld reg nat reg
  | Csrrw reg csreg reg
  | Csrr reg csreg
  | Csrw csreg reg
  | Li reg u64
  | Addi reg reg u64
  | Add reg reg reg
  | Mul reg reg reg
  | Sfence
  | Jr reg
  | Sret
  | Mret
  | Call_start

record hart =
  regs :: "reg \<Rightarrow> u64"
  csrs :: "csreg \<Rightarrow> u64"
  mem :: bytes
  pc :: "dest option"

definition set_reg :: "reg \<Rightarrow> u64 \<Rightarrow> hart \<Rightarrow> hart" where
  "set_reg r v m = m\<lparr>regs := (regs m)(r := v)\<rparr>"

definition set_csr :: "csreg \<Rightarrow> u64 \<Rightarrow> hart \<Rightarrow> hart" where
  "set_csr c v m = m\<lparr>csrs := (csrs m)(c := v)\<rparr>"

text \<open>The physical address of an operand.\<close>

definition ea :: "(u64 \<Rightarrow> u64 \<Rightarrow> u64) \<Rightarrow> hart \<Rightarrow> reg \<Rightarrow> nat \<Rightarrow> nat" where
  "ea xl m b off = unat (xl (csrs m Satp) (regs m b + word_of_nat off))"

fun step :: "(u64 \<Rightarrow> u64 \<Rightarrow> u64) \<Rightarrow> instr \<Rightarrow> hart \<Rightarrow> hart" where
  "step xl (Sd r off b) m = m\<lparr>mem := st64 (ea xl m b off) (regs m r) (mem m)\<rparr>"
| "step xl (Ld r off b) m = set_reg r (ld64 (mem m) (ea xl m b off)) m"
| "step xl (Csrrw r c s) m = set_reg r (csrs m c) (set_csr c (regs m s) m)"
| "step xl (Csrr r c) m = set_reg r (csrs m c) m"
| "step xl (Csrw c r) m = set_csr c (regs m r) m"
| "step xl (Li r v) m = set_reg r v m"
| "step xl (Addi r s v) m = set_reg r (regs m s + v) m"
| "step xl (Add r s t) m = set_reg r (regs m s + regs m t) m"
| "step xl (Mul r s t) m = set_reg r (regs m s * regs m t) m"
| "step xl Sfence m = m"
| "step xl (Jr r) m = m\<lparr>pc := Some (To (regs m r))\<rparr>"
| "step xl Sret m = m\<lparr>pc := Some To_sepc\<rparr>"
| "step xl Mret m = m\<lparr>pc := Some To_mepc\<rparr>"
| "step xl Call_start m = m\<lparr>pc := Some To_start\<rparr>"

text \<open>Instructions in sequence, up to a jump.\<close>

fun exec :: "(u64 \<Rightarrow> u64 \<Rightarrow> u64) \<Rightarrow> instr list \<Rightarrow> hart \<Rightarrow> hart" where
  "exec xl [] m = m"
| "exec xl (i # is) m = (let m' = step xl i m in if pc m' = None then exec xl is m' else m')"

subsection \<open>trampoline.S\<close>

definition uservec :: "instr list" where
  "uservec = [Csrrw A0 Sscratch A0, Sd RA 40 A0, Sd SP 48 A0, Sd GP 56 A0, Sd TP 64 A0, Sd T0 72 A0,
     Sd T1 80 A0, Sd T2 88 A0, Sd S0 96 A0, Sd S1 104 A0, Sd A1 120 A0, Sd A2 128 A0,
     Sd A3 136 A0, Sd A4 144 A0, Sd A5 152 A0, Sd A6 160 A0, Sd A7 168 A0, Sd S2 176 A0,
     Sd S3 184 A0, Sd S4 192 A0, Sd S5 200 A0, Sd S6 208 A0, Sd S7 216 A0, Sd S8 224 A0,
     Sd S9 232 A0, Sd S10 240 A0, Sd S11 248 A0, Sd T3 256 A0, Sd T4 264 A0, Sd T5 272 A0,
     Sd T6 280 A0, Csrr T0 Sscratch, Sd T0 112 A0, Ld SP 8 A0, Ld TP 32 A0, Ld T0 16 A0,
     Ld T1 0 A0, Csrw Satp T1, Sfence, Jr T0]"

definition userret :: "instr list" where
  "userret = [Csrw Satp A1, Sfence, Ld T0 112 A0, Csrw Sscratch T0, Ld RA 40 A0, Ld SP 48 A0, Ld GP 56 A0,
     Ld TP 64 A0, Ld T0 72 A0, Ld T1 80 A0, Ld T2 88 A0, Ld S0 96 A0, Ld S1 104 A0,
     Ld A1 120 A0, Ld A2 128 A0, Ld A3 136 A0, Ld A4 144 A0, Ld A5 152 A0, Ld A6 160 A0,
     Ld A7 168 A0, Ld S2 176 A0, Ld S3 184 A0, Ld S4 192 A0, Ld S5 200 A0, Ld S6 208 A0,
     Ld S7 216 A0, Ld S8 224 A0, Ld S9 232 A0, Ld S10 240 A0, Ld S11 248 A0, Ld T3 256 A0,
     Ld T4 264 A0, Ld T5 272 A0, Ld T6 280 A0, Csrrw A0 Sscratch A0, Sret]"

subsection \<open>swtch.S\<close>

definition swtch :: "instr list" where
  "swtch = [Sd RA 0 A0, Sd SP 8 A0, Sd S0 16 A0, Sd S1 24 A0, Sd S2 32 A0, Sd S3 40 A0, Sd S4 48 A0,
     Sd S5 56 A0, Sd S6 64 A0, Sd S7 72 A0, Sd S8 80 A0, Sd S9 88 A0, Sd S10 96 A0,
     Sd S11 104 A0, Ld RA 0 A1, Ld SP 8 A1, Ld S0 16 A1, Ld S1 24 A1, Ld S2 32 A1,
     Ld S3 40 A1, Ld S4 48 A1, Ld S5 56 A1, Ld S6 64 A1, Ld S7 72 A1, Ld S8 80 A1,
     Ld S9 88 A1, Ld S10 96 A1, Ld S11 104 A1, Jr RA]"

subsection \<open>kernelvec.S\<close>

text \<open>\<^verbatim>\<open>kerneltrap\<close>, which the routine calls, is the function \<open>kt\<close> on the state of the hart.\<close>

definition kernelvec_save :: "instr list" where
  "kernelvec_save = [Addi SP SP (-256), Sd RA 0 SP, Sd SP 8 SP, Sd GP 16 SP, Sd TP 24 SP, Sd T0 32 SP, Sd T1 40 SP,
     Sd T2 48 SP, Sd S0 56 SP, Sd S1 64 SP, Sd A0 72 SP, Sd A1 80 SP, Sd A2 88 SP,
     Sd A3 96 SP, Sd A4 104 SP, Sd A5 112 SP, Sd A6 120 SP, Sd A7 128 SP, Sd S2 136 SP,
     Sd S3 144 SP, Sd S4 152 SP, Sd S5 160 SP, Sd S6 168 SP, Sd S7 176 SP, Sd S8 184 SP,
     Sd S9 192 SP, Sd S10 200 SP, Sd S11 208 SP, Sd T3 216 SP, Sd T4 224 SP, Sd T5 232 SP,
     Sd T6 240 SP]"

definition kernelvec_restore :: "instr list" where
  "kernelvec_restore = [Ld RA 0 SP, Ld SP 8 SP, Ld GP 16 SP, Ld T0 32 SP, Ld T1 40 SP, Ld T2 48 SP, Ld S0 56 SP,
     Ld S1 64 SP, Ld A0 72 SP, Ld A1 80 SP, Ld A2 88 SP, Ld A3 96 SP, Ld A4 104 SP,
     Ld A5 112 SP, Ld A6 120 SP, Ld A7 128 SP, Ld S2 136 SP, Ld S3 144 SP, Ld S4 152 SP,
     Ld S5 160 SP, Ld S6 168 SP, Ld S7 176 SP, Ld S8 184 SP, Ld S9 192 SP, Ld S10 200 SP,
     Ld S11 208 SP, Ld T3 216 SP, Ld T4 224 SP, Ld T5 232 SP, Ld T6 240 SP, Addi SP SP 256,
     Sret]"

definition kernelvec :: "(u64 \<Rightarrow> u64 \<Rightarrow> u64) \<Rightarrow> (hart \<Rightarrow> hart) \<Rightarrow> hart \<Rightarrow> hart" where
  "kernelvec xl kt m = exec xl kernelvec_restore (kt (exec xl kernelvec_save m))"

definition timervec :: "instr list" where
  "timervec = [Csrrw A0 Mscratch A0, Sd A1 0 A0, Sd A2 8 A0, Sd A3 16 A0, Ld A1 32 A0, Ld A2 40 A0,
     Ld A3 0 A1, Add A3 A3 A2, Sd A3 0 A1, Li A1 2, Csrw Sip A1, Ld A3 16 A0, Ld A2 8 A0,
     Ld A1 0 A0, Csrrw A0 Mscratch A0, Mret]"

subsection \<open>entry.S\<close>

definition entry :: "u64 \<Rightarrow> instr list" where
  "entry stack0 = [Li SP stack0, Li A0 (1024 * 4), Csrr A1 Mhartid, Addi A1 A1 1, Mul A0 A0 A1, Add SP SP A0, Call_start]"

subsection \<open>Saving and restoring registers\<close>

lemma set_simps [simp]:
  "regs (set_reg r v m) = (regs m)(r := v)" "csrs (set_reg r v m) = csrs m" "mem (set_reg r v m) = mem m" "pc (set_reg r v m) = pc m"
  "regs (set_csr c v m) = regs m" "csrs (set_csr c v m) = (csrs m)(c := v)" "mem (set_csr c v m) = mem m" "pc (set_csr c v m) = pc m"
  by (simp_all add: set_reg_def set_csr_def)

text \<open>A structure of \<open>n\<close> bytes at the virtual address \<open>va\<close> is at the physical address \<open>pa\<close>.\<close>

definition mapped :: "(u64 \<Rightarrow> u64 \<Rightarrow> u64) \<Rightarrow> u64 \<Rightarrow> u64 \<Rightarrow> nat \<Rightarrow> nat \<Rightarrow> bool" where
  "mapped xl satp va pa n \<longleftrightarrow> (\<forall>off<n. unat (xl satp (va + word_of_nat off)) = pa + off)"

definition saved :: "nat \<Rightarrow> (reg \<Rightarrow> nat) \<Rightarrow> (reg \<Rightarrow> u64) \<Rightarrow> reg list \<Rightarrow> bytes \<Rightarrow> bytes" where
  "saved pa f g rs b = fold (\<lambda>r. st64 (pa + f r) (g r)) rs b"

lemma exec_stores:
  assumes "pc m = None" "mapped xl (csrs m Satp) (regs m b) pa n" "\<forall>r\<in>set rs. f r < n"
  shows "exec xl (map (\<lambda>r. Sd r (f r) b) rs @ is) m = exec xl is (m\<lparr>mem := saved pa f (regs m) rs (mem m)\<rparr>)"
  using assms
proof (induction rs arbitrary: m)
  case (Cons r rs)
  have "ea xl m b (f r) = pa + f r" using Cons.prems by (simp add: ea_def mapped_def)
  then show ?case using Cons.IH [of "m\<lparr>mem := st64 (pa + f r) (regs m r) (mem m)\<rparr>"] Cons.prems
    by (simp add: Let_def saved_def)
qed (simp add: saved_def)

lemma exec_loads:
  assumes "pc m = None" "mapped xl (csrs m Satp) (regs m b) pa n" "\<forall>r\<in>set rs. f r < n" "b \<notin> set rs"
  shows "exec xl (map (\<lambda>r. Ld r (f r) b) rs @ is) m =
    exec xl is (m\<lparr>regs := (\<lambda>r. if r \<in> set rs then ld64 (mem m) (pa + f r) else regs m r)\<rparr>)"
  using assms
proof (induction rs arbitrary: m)
  case (Cons r rs)
  have e: "ea xl m b (f r) = pa + f r" using Cons.prems by (simp add: ea_def mapped_def)
  let ?m = "set_reg r (ld64 (mem m) (pa + f r)) m"
  have eq: "?m\<lparr>regs := (\<lambda>x. if x \<in> set rs then ld64 (mem ?m) (pa + f x) else regs ?m x)\<rparr> =
      m\<lparr>regs := (\<lambda>x. if x \<in> set (r # rs) then ld64 (mem m) (pa + f x) else regs m x)\<rparr>"
    by (auto simp: set_reg_def fun_eq_iff)
  show ?case using Cons.IH [of ?m] Cons.prems by (simp add: Let_def e eq [simplified])
qed simp

lemma saved_other:
  "(\<forall>r\<in>set rs. a + 8 \<le> pa + f r \<or> pa + f r + 8 \<le> a) \<Longrightarrow> ld64 (saved pa f g rs b) a = ld64 b a"
  by (induction rs arbitrary: b) (simp_all add: saved_def ld64_st64_disjoint)

lemma saved_ld:
  "sorted_wrt (\<lambda>x y. f x + 8 \<le> f y) rs \<Longrightarrow> r \<in> set rs \<Longrightarrow> ld64 (saved pa f g rs b) (pa + f r) = g r"
proof (induction rs arbitrary: b)
  case (Cons x rs)
  show ?case
  proof (cases "r \<in> set rs")
    case True
    then show ?thesis using Cons by (simp add: saved_def)
  next
    case False
    then have "r = x" using Cons.prems by simp
    then show ?thesis using Cons.prems saved_other [of rs "pa + f x" pa f g "st64 (pa + f x) (g x) b"]
      by (simp add: saved_def ld64_st64)
  qed
qed simp

subsection \<open>The trap frame\<close>

text \<open>The place of a register in \<^verbatim>\<open>struct trapframe\<close>.\<close>

fun tf_off :: "reg \<Rightarrow> nat" where
  "tf_off RA = 40"
| "tf_off SP = 48"
| "tf_off GP = 56"
| "tf_off TP = 64"
| "tf_off T0 = 72"
| "tf_off T1 = 80"
| "tf_off T2 = 88"
| "tf_off S0 = 96"
| "tf_off S1 = 104"
| "tf_off A0 = 112"
| "tf_off A1 = 120"
| "tf_off A2 = 128"
| "tf_off A3 = 136"
| "tf_off A4 = 144"
| "tf_off A5 = 152"
| "tf_off A6 = 160"
| "tf_off A7 = 168"
| "tf_off S2 = 176"
| "tf_off S3 = 184"
| "tf_off S4 = 192"
| "tf_off S5 = 200"
| "tf_off S6 = 208"
| "tf_off S7 = 216"
| "tf_off S8 = 224"
| "tf_off S9 = 232"
| "tf_off S10 = 240"
| "tf_off S11 = 248"
| "tf_off T3 = 256"
| "tf_off T4 = 264"
| "tf_off T5 = 272"
| "tf_off T6 = 280"

abbreviation user_regs :: "reg list" where
  "user_regs \<equiv> [RA, SP, GP, TP, T0, T1, T2, S0, S1, A1, A2, A3, A4, A5, A6, A7, S2, S3, S4, S5, S6, S7, S8, S9, S10, S11, T3, T4, T5, T6]"

lemma uservec_parts:
  "uservec = Csrrw A0 Sscratch A0 # map (\<lambda>r. Sd r (tf_off r) A0) user_regs @
     [Csrr T0 Sscratch, Sd T0 (tf_off A0) A0, Ld SP 8 A0, Ld TP 32 A0, Ld T0 16 A0, Ld T1 0 A0, Csrw Satp T1, Sfence, Jr T0]"
  by (simp add: uservec_def)

lemma userret_parts:
  "userret = [Csrw Satp A1, Sfence, Ld T0 (tf_off A0) A0, Csrw Sscratch T0] @ map (\<lambda>r. Ld r (tf_off r) A0) user_regs @
     [Csrrw A0 Sscratch A0, Sret]"
  by (simp add: userret_def)

lemma user_regs_all: "r \<noteq> A0 \<Longrightarrow> r \<in> set user_regs"
  by (cases r) auto

lemma tf_off_bounds: "40 \<le> tf_off r" "tf_off r < 288" "r \<noteq> A0 \<Longrightarrow> tf_off r + 8 \<le> 112 \<or> 120 \<le> tf_off r"
  by (cases r; simp)+

lemma user_regs_sorted: "sorted_wrt (\<lambda>x y. tf_off x + 8 \<le> tf_off y) user_regs"
  by simp

lemma mapped_ea: "mapped xl (csrs m Satp) (regs m b) pa n \<Longrightarrow> off < n \<Longrightarrow> ea xl m b off = pa + off"
  by (simp add: mapped_def ea_def)

lemma exec_Cons: "pc (step xl i m) = None \<Longrightarrow> exec xl (i # is) m = exec xl is (step xl i m)"
  by (simp add: Let_def)

text \<open>The registers as they are when \<^verbatim>\<open>a0\<close> and \<^verbatim>\<open>sscratch\<close> have been swapped.\<close>

definition swapped :: "hart \<Rightarrow> hart" where
  "swapped m = set_reg A0 (csrs m Sscratch) (set_csr Sscratch (regs m A0) m)"

definition frame_of :: "hart \<Rightarrow> nat \<Rightarrow> bytes" where
  "frame_of m pa = st64 (pa + 112) (regs m A0) (saved pa tf_off (regs (swapped m)) user_regs (mem m))"

lemma uservec_run:
  assumes "pc m = None" "mapped xl (csrs m Satp) (csrs m Sscratch) pa 288"
  shows "mem (exec xl uservec m) = frame_of m pa" "regs (exec xl uservec m) SP = ld64 (frame_of m pa) (pa + 8)"
    "regs (exec xl uservec m) TP = ld64 (frame_of m pa) (pa + 32)" "csrs (exec xl uservec m) Satp = ld64 (frame_of m pa) pa"
    "pc (exec xl uservec m) = Some (To (ld64 (frame_of m pa) (pa + 16)))"
proof -
  let ?m = "swapped m" and ?b = "saved pa tf_off (regs (swapped m)) user_regs (mem m)"
  let ?is = "[Csrr T0 Sscratch, Sd T0 (tf_off A0) A0, Ld SP 8 A0, Ld TP 32 A0, Ld T0 16 A0, Ld T1 0 A0, Csrw Satp T1, Sfence, Jr T0]"
  have f: "csrs ?m Satp = csrs m Satp" "regs ?m A0 = csrs m Sscratch" "csrs ?m Sscratch = regs m A0" "pc ?m = None" "mem ?m = mem m"
    using assms(1) by (simp_all add: swapped_def)
  have st: "step xl (Csrrw A0 Sscratch A0) m = ?m" by (simp add: swapped_def)
  have mp: "mapped xl (csrs ?m Satp) (regs ?m A0) pa 288" using assms(2) f by simp
  have b: "\<forall>r\<in>set user_regs. tf_off r < 288" using tf_off_bounds(2) by blast
  have "exec xl uservec m = exec xl (map (\<lambda>r. Sd r (tf_off r) A0) user_regs @ ?is) ?m"
    unfolding uservec_parts using exec_Cons [of xl "Csrrw A0 Sscratch A0" m] f(4) unfolding st by blast
  also have "\<dots> = exec xl ?is (?m\<lparr>mem := ?b\<rparr>)" using exec_stores [OF f(4) mp b] unfolding f(5) .
  finally have ex: "exec xl uservec m = exec xl ?is (?m\<lparr>mem := ?b\<rparr>)" .
  have ea: "ea xl k A0 off = pa + off" if "csrs k Satp = csrs m Satp" "regs k A0 = csrs m Sscratch" "off < 288" for k off
    using that assms(2) by (simp add: mapped_def ea_def)
  have e: "ea xl k A0 112 = pa + 112" "ea xl k A0 8 = pa + 8" "ea xl k A0 32 = pa + 32" "ea xl k A0 16 = pa + 16" "ea xl k A0 0 = pa"
    if "csrs k Satp = csrs m Satp" "regs k A0 = csrs m Sscratch" for k
    using ea [OF that, of 112] ea [OF that, of 8] ea [OF that, of 32] ea [OF that, of 16] ea [OF that, of 0] by simp_all
  show "mem (exec xl uservec m) = frame_of m pa" "regs (exec xl uservec m) SP = ld64 (frame_of m pa) (pa + 8)"
    "regs (exec xl uservec m) TP = ld64 (frame_of m pa) (pa + 32)" "csrs (exec xl uservec m) Satp = ld64 (frame_of m pa) pa"
    "pc (exec xl uservec m) = Some (To (ld64 (frame_of m pa) (pa + 16)))"
    unfolding ex frame_of_def by (simp_all add: Let_def e f)
qed

lemma uservec_frame:
  assumes "pc m = None" "mapped xl (csrs m Satp) (csrs m Sscratch) pa 288"
  shows "ld64 (mem (exec xl uservec m)) (pa + tf_off r) = regs m r"
proof (cases "r = A0")
  case False
  then show ?thesis
    unfolding uservec_run(1) [OF assms] frame_of_def
    using tf_off_bounds(3) [OF False] saved_ld [OF user_regs_sorted user_regs_all [OF False], of pa "regs (swapped m)"]
    by (subst ld64_st64_disjoint) (auto simp: swapped_def)
qed (simp add: uservec_run [OF assms] frame_of_def ld64_st64)

lemma uservec_kernel: "off + 8 \<le> 40 \<Longrightarrow> ld64 (frame_of m pa) (pa + off) = ld64 (mem m) (pa + off)"
proof -
  assume off: "off + 8 \<le> 40"
  have "\<forall>r\<in>set user_regs. pa + off + 8 \<le> pa + tf_off r" using tf_off_bounds(1) off by (fastforce intro: le_trans)
  then show ?thesis unfolding frame_of_def using off by (subst ld64_st64_disjoint) (auto intro!: saved_other)
qed

lemma userret_run:
  assumes "pc m = None" "mapped xl (regs m A1) (regs m A0) pa 288"
  shows "regs (exec xl userret m) r = ld64 (mem m) (pa + tf_off r)" "csrs (exec xl userret m) Satp = regs m A1"
    "csrs (exec xl userret m) Sscratch = regs m A0" "pc (exec xl userret m) = Some To_sepc"
proof -
  let ?v = "ld64 (mem m) (pa + tf_off A0)" and ?is = "[Csrrw A0 Sscratch A0, Sret]"
  define k where "k = set_csr Sscratch ?v (set_reg T0 ?v (set_csr Satp (regs m A1) m))"
  have f: "csrs k Satp = regs m A1" "regs k A0 = regs m A0" "csrs k Sscratch = ?v" "pc k = None" "mem k = mem m"
    using assms(1) by (simp_all add: k_def)
  have ea: "ea xl (set_csr Satp (regs m A1) m) A0 112 = pa + 112"
    using mapped_ea [of xl "set_csr Satp (regs m A1) m" A0 pa 288 112] assms(2) by simp
  have mp: "mapped xl (csrs k Satp) (regs k A0) pa 288" using assms(2) f by simp
  have b: "\<forall>r\<in>set user_regs. tf_off r < 288" "A0 \<notin> set user_regs" using tf_off_bounds(2) by auto
  have "exec xl userret m = exec xl (map (\<lambda>r. Ld r (tf_off r) A0) user_regs @ ?is) k"
    unfolding userret_parts append_Cons append_Nil using assms(1)
    by (simp only: exec_Cons step.simps set_simps ea tf_off.simps k_def fun_upd_same)
  also have "\<dots> = exec xl ?is (k\<lparr>regs := (\<lambda>r. if r \<in> set user_regs then ld64 (mem k) (pa + tf_off r) else regs k r)\<rparr>)"
    by (rule exec_loads [OF f(4) mp b])
  finally have ex: "exec xl userret m =
      exec xl ?is (k\<lparr>regs := (\<lambda>r. if r \<in> set user_regs then ld64 (mem k) (pa + tf_off r) else regs k r)\<rparr>)" .
  show "csrs (exec xl userret m) Satp = regs m A1" "csrs (exec xl userret m) Sscratch = regs m A0" "pc (exec xl userret m) = Some To_sepc"
    unfolding ex by (simp_all add: Let_def f)
  show "regs (exec xl userret m) r = ld64 (mem m) (pa + tf_off r)"
    unfolding ex using user_regs_all [of r] by (simp add: Let_def f)
qed

subsection \<open>The context switch\<close>

text \<open>The registers of \<^verbatim>\<open>struct context\<close> and their places in it.\<close>

abbreviation callee_saved :: "reg list" where
  "callee_saved \<equiv> [RA, SP, S0, S1, S2, S3, S4, S5, S6, S7, S8, S9, S10, S11]"

fun ctx_off :: "reg \<Rightarrow> nat" where
  "ctx_off SP = 8"
| "ctx_off S0 = 16"
| "ctx_off S1 = 24"
| "ctx_off S2 = 32"
| "ctx_off S3 = 40"
| "ctx_off S4 = 48"
| "ctx_off S5 = 56"
| "ctx_off S6 = 64"
| "ctx_off S7 = 72"
| "ctx_off S8 = 80"
| "ctx_off S9 = 88"
| "ctx_off S10 = 96"
| "ctx_off S11 = 104"
| "ctx_off _ = 0"

lemma ctx_off_bound: "ctx_off r \<le> 104"
  by (cases r) auto

lemma swtch_parts:
  "swtch = map (\<lambda>r. Sd r (ctx_off r) A0) callee_saved @ map (\<lambda>r. Ld r (ctx_off r) A1) callee_saved @ [Jr RA]"
  by (simp add: swtch_def)

lemma swtch_run:
  assumes "pc m = None" "mapped xl (csrs m Satp) (regs m A0) old 112" "mapped xl (csrs m Satp) (regs m A1) new 112"
  defines "b \<equiv> saved old ctx_off (regs m) callee_saved (mem m)"
  shows "mem (exec xl swtch m) = b" "r \<in> set callee_saved \<Longrightarrow> regs (exec xl swtch m) r = ld64 b (new + ctx_off r)"
    "pc (exec xl swtch m) = Some (To (ld64 b new))"
proof -
  let ?k = "m\<lparr>mem := b\<rparr>"
  have o: "\<forall>r\<in>set callee_saved. ctx_off r < 112" "A1 \<notin> set callee_saved" by simp_all
  have mp: "mapped xl (csrs ?k Satp) (regs ?k A1) new 112" using assms(3) by simp
  have "exec xl swtch m = exec xl (map (\<lambda>r. Ld r (ctx_off r) A1) callee_saved @ [Jr RA]) ?k"
    unfolding swtch_parts b_def by (rule exec_stores [OF assms(1,2) o(1)])
  also have "\<dots> = exec xl [Jr RA] (?k\<lparr>regs := (\<lambda>r. if r \<in> set callee_saved then ld64 (mem ?k) (new + ctx_off r) else regs ?k r)\<rparr>)"
    by (rule exec_loads [OF _ mp o]) (simp add: assms(1))
  finally have ex: "exec xl swtch m =
      exec xl [Jr RA] (?k\<lparr>regs := (\<lambda>r. if r \<in> set callee_saved then ld64 (mem ?k) (new + ctx_off r) else regs ?k r)\<rparr>)" .
  show "mem (exec xl swtch m) = b" "pc (exec xl swtch m) = Some (To (ld64 b new))" unfolding ex by (simp_all add: Let_def)
  show "r \<in> set callee_saved \<Longrightarrow> regs (exec xl swtch m) r = ld64 b (new + ctx_off r)" unfolding ex by (simp add: Let_def)
qed

subsection \<open>Interrupts of the kernel\<close>

text \<open>\<^verbatim>\<open>kernelvec\<close> saves the registers on the stack in the order of the trap frame.\<close>

abbreviation all_regs :: "reg list" where
  "all_regs \<equiv> [RA, SP, GP, TP, T0, T1, T2, S0, S1, A0, A1, A2, A3, A4, A5, A6, A7, S2, S3, S4, S5, S6, S7, S8, S9, S10, S11, T3, T4, T5, T6]"

abbreviation back_regs :: "reg list" where
  "back_regs \<equiv> [GP, T0, T1, T2, S0, S1, A0, A1, A2, A3, A4, A5, A6, A7, S2, S3, S4, S5, S6, S7, S8, S9, S10, S11, T3, T4, T5, T6]"

definition kv_off :: "reg \<Rightarrow> nat" where
  "kv_off r = tf_off r - 40"

lemma kernelvec_parts:
  "kernelvec_save = Addi SP SP (-256) # map (\<lambda>r. Sd r (kv_off r) SP) all_regs @ []"
  "kernelvec_restore = [Ld RA (kv_off RA) SP, Ld SP (kv_off SP) SP] @ map (\<lambda>r. Ld r (kv_off r) SP) back_regs @ [Addi SP SP 256, Sret]"
  by (simp_all add: kernelvec_save_def kernelvec_restore_def kv_off_def)

lemma kv_off_bounds: "kv_off r < 248" "sorted_wrt (\<lambda>x y. kv_off x + 8 \<le> kv_off y) all_regs" "r \<in> set all_regs"
  "r \<noteq> RA \<Longrightarrow> r \<noteq> SP \<Longrightarrow> r \<noteq> TP \<Longrightarrow> r \<in> set back_regs"
  by ((cases r; simp add: kv_off_def), simp add: kv_off_def, (cases r; simp), (cases r; simp))

lemma kernelvec_saves:
  assumes "pc m = None" "mapped xl (csrs m Satp) (regs m SP - 256) pa 248"
  defines "k \<equiv> exec xl kernelvec_save m"
  shows "regs k = (regs m)(SP := regs m SP - 256)" "csrs k = csrs m" "pc k = None" "ld64 (mem k) (pa + kv_off r) = regs k r"
proof -
  let ?m = "set_reg SP (regs m SP + - 256) m"
  have mp: "mapped xl (csrs ?m Satp) (regs ?m SP) pa 248" using assms(2) by simp
  have "k = exec xl (map (\<lambda>r. Sd r (kv_off r) SP) all_regs @ []) ?m"
    unfolding k_def kernelvec_parts(1) using exec_Cons [of xl "Addi SP SP (-256)" m] assms(1) by (simp only: step.simps set_simps)
  also have "\<dots> = exec xl [] (?m\<lparr>mem := saved pa kv_off (regs ?m) all_regs (mem ?m)\<rparr>)"
    by (rule exec_stores [OF _ mp]) (use assms(1) kv_off_bounds(1) in auto)
  finally have k: "k = ?m\<lparr>mem := saved pa kv_off (regs ?m) all_regs (mem m)\<rparr>" by simp
  show "regs k = (regs m)(SP := regs m SP - 256)" "csrs k = csrs m" "pc k = None" unfolding k using assms(1) by simp_all
  show "ld64 (mem k) (pa + kv_off r) = regs k r"
    unfolding k using saved_ld [OF kv_off_bounds(2) kv_off_bounds(3), of pa "regs ?m" "mem m" r] by simp
qed

lemma kernelvec_restores:
  assumes "pc k = None" "mapped xl (csrs k Satp) (regs k SP) pa 248" "ld64 (mem k) (pa + kv_off SP) = regs k SP"
  defines "e \<equiv> exec xl kernelvec_restore k"
  shows "r \<noteq> SP \<Longrightarrow> r \<noteq> TP \<Longrightarrow> regs e r = ld64 (mem k) (pa + kv_off r)" "regs e TP = regs k TP" "regs e SP = regs k SP + 256"
    "pc e = Some To_sepc"
proof -
  let ?is = "[Addi SP SP 256, Sret]"
  define k1 where "k1 = set_reg RA (ld64 (mem k) (pa + kv_off RA)) k"
  have e1: "ea xl k SP (kv_off RA) = pa + kv_off RA" using mapped_ea [OF assms(2) kv_off_bounds(1)] .
  have e2: "ea xl k1 SP (kv_off SP) = pa + kv_off SP"
    using mapped_ea [of xl k1 SP pa 248] assms(2) kv_off_bounds(1) by (simp add: k1_def)
  have same: "set_reg SP (ld64 (mem k1) (pa + kv_off SP)) k1 = k1"
    using assms(3) by (simp add: k1_def set_reg_def fun_upd_twist)
  have f: "pc k1 = None" "mem k1 = mem k" "regs k1 SP = regs k SP" "csrs k1 = csrs k" "regs k1 TP = regs k TP"
    using assms(1) by (simp_all add: k1_def)
  have mp: "mapped xl (csrs k1 Satp) (regs k1 SP) pa 248" using assms(2) f by simp
  have b: "\<forall>r\<in>set back_regs. kv_off r < 248" "SP \<notin> set back_regs" using kv_off_bounds(1) by auto
  have s1: "step xl (Ld RA (kv_off RA) SP) k = k1" by (simp add: e1 k1_def)
  have s2: "step xl (Ld SP (kv_off SP) SP) k1 = k1" by (simp add: e2 same)
  have "e = exec xl (map (\<lambda>r. Ld r (kv_off r) SP) back_regs @ ?is) k1"
    unfolding e_def kernelvec_parts(2) append_Cons append_Nil
    using exec_Cons [of xl "Ld RA (kv_off RA) SP" k] exec_Cons [of xl "Ld SP (kv_off SP) SP" k1] unfolding s1 s2 by (simp only: f(1))
  also have "\<dots> = exec xl ?is (k1\<lparr>regs := (\<lambda>r. if r \<in> set back_regs then ld64 (mem k1) (pa + kv_off r) else regs k1 r)\<rparr>)"
    by (rule exec_loads [OF f(1) mp b])
  finally have ex: "e = exec xl ?is (k1\<lparr>regs := (\<lambda>r. if r \<in> set back_regs then ld64 (mem k1) (pa + kv_off r) else regs k1 r)\<rparr>)" .
  show "pc e = Some To_sepc" "regs e SP = regs k SP + 256" "regs e TP = regs k TP" unfolding ex by (simp_all add: Let_def f)
  show "regs e r = ld64 (mem k) (pa + kv_off r)" if "r \<noteq> SP" "r \<noteq> TP"
  proof (cases "r = RA")
    case True
    then show ?thesis unfolding ex by (simp add: Let_def f) (simp add: k1_def)
  next
    case False
    then show ?thesis unfolding ex using kv_off_bounds(4) [OF False that] that by (simp add: Let_def f)
  qed
qed

subsection \<open>Properties\<close>

text \<open>
  C37: A trap is transparent to the user program. \<^verbatim>\<open>uservec\<close> saves every register of the user in the trap frame, at the
  offset that \<^verbatim>\<open>struct trapframe\<close> gives it, and enters \<^verbatim>\<open>usertrap\<close> with the stack, hart number and page table
  that the kernel left there. When \<^verbatim>\<open>userret\<close> runs later, on any hart, with the saved registers as they were, every
  register has its value again, the page table is the one of the user, and \<^verbatim>\<open>sscratch\<close> is ready for the next trap.
\<close>

theorem trap_transparent:
  assumes "pc m = None" "mapped xl (csrs m Satp) (csrs m Sscratch) pa 288"
    and "pc m2 = None" "regs m2 A0 = csrs m Sscratch" "regs m2 A1 = csrs m Satp"
    and "\<forall>i. pa + 40 \<le> i \<and> i < pa + 288 \<longrightarrow> mem m2 i = mem (exec xl uservec m) i"
  shows "regs (exec xl userret m2) = regs m \<and> csrs (exec xl userret m2) Satp = csrs m Satp \<and>
    csrs (exec xl userret m2) Sscratch = csrs m Sscratch \<and> pc (exec xl userret m2) = Some To_sepc \<and>
    regs (exec xl uservec m) SP = ld64 (mem m) (pa + 8) \<and> regs (exec xl uservec m) TP = ld64 (mem m) (pa + 32) \<and>
    csrs (exec xl uservec m) Satp = ld64 (mem m) pa \<and> pc (exec xl uservec m) = Some (To (ld64 (mem m) (pa + 16)))"
proof -
  have mp: "mapped xl (regs m2 A1) (regs m2 A0) pa 288" using assms by simp
  have "regs (exec xl userret m2) r = regs m r" for r
  proof -
    have "ld64 (mem m2) (pa + tf_off r) = ld64 (mem (exec xl uservec m)) (pa + tf_off r)"
      using assms(6) tf_off_bounds(1,2) [of r] by (intro ld64_cong) (cases r; simp)
    then show ?thesis using userret_run(1) [OF assms(3) mp] uservec_frame [OF assms(1,2)] by simp
  qed
  then have "regs (exec xl userret m2) = regs m" by blast
  then show ?thesis
    using userret_run(2-4) [OF assms(3) mp] assms(4,5) uservec_kernel [of 0 m pa] uservec_kernel [of 8 m pa] uservec_kernel [of 16 m pa]
      uservec_kernel [of 32 m pa] by (simp add: uservec_run [OF assms(1,2)])
qed

text \<open>A hart that runs a user program with 7 in every register, and the return to it.\<close>

definition user_hart :: hart where
  "user_hart = \<lparr>regs = (\<lambda>_. 7), csrs = (\<lambda>_. 0x1000), mem = (\<lambda>_. 0), pc = None\<rparr>"

lemma mapped_id: "unat va + n \<le> 2 ^ 64 \<Longrightarrow> mapped (\<lambda>_ a. a) satp va (unat va) n"
  unfolding mapped_def
proof (intro allI impI)
  fix off assume "unat va + n \<le> 2 ^ 64" "off < n"
  then have "unat va + off < 2 ^ LENGTH(64)" by simp
  then show "unat (va + word_of_nat off) = unat va + off"
    using unat_add_lem [of va "word_of_nat off"] by (simp add: unat_of_nat)
qed

theorem trap_transparent_witness:
  "let m2 = user_hart\<lparr>regs := (\<lambda>_. 0x1000), mem := mem (exec (\<lambda>_ a. a) uservec user_hart)\<rparr>
   in regs (exec (\<lambda>_ a. a) userret m2) = regs user_hart"
proof -
  have "mapped (\<lambda>_ a. a) (csrs user_hart Satp) (csrs user_hart Sscratch) 0x1000 288"
    using mapped_id [of "0x1000" 288] by (simp add: user_hart_def)
  then show ?thesis
    using trap_transparent [where m = user_hart and xl = "\<lambda>_ a. a" and pa = "0x1000" and ?m2.0 =
        "user_hart\<lparr>regs := (\<lambda>_. 0x1000), mem := mem (exec (\<lambda>_ a. a) uservec user_hart)\<rparr>"]
    by (simp add: Let_def user_hart_def)
qed

text \<open>
  C38: A thread that gave up its hart with \<^verbatim>\<open>swtch\<close> continues where it was: when some later \<^verbatim>\<open>swtch\<close>, on any hart, has its
  context as the new one, with the memory of the context unchanged, it returns to the instruction behind the first call
  with the stack pointer and every callee-saved register as they were.
\<close>

theorem swtch_resumes:
  assumes "pc m = None" "mapped xl (csrs m Satp) (regs m A0) old 112" "mapped xl (csrs m Satp) (regs m A1) new 112"
    and "pc m2 = None" "mapped xl (csrs m2 Satp) (regs m2 A0) other 112" "mapped xl (csrs m2 Satp) (regs m2 A1) old 112"
    and "other + 112 \<le> old \<or> old + 112 \<le> other"
    and "\<forall>i. old \<le> i \<and> i < old + 112 \<longrightarrow> mem m2 i = mem (exec xl swtch m) i"
  shows "(\<forall>r\<in>set callee_saved. regs (exec xl swtch m2) r = regs m r) \<and> pc (exec xl swtch m2) = Some (To (regs m RA))"
proof -
  let ?b = "saved other ctx_off (regs m2) callee_saved (mem m2)"
  have so: "sorted_wrt (\<lambda>x y. ctx_off x + 8 \<le> ctx_off y) callee_saved" by simp
  have v: "ld64 ?b (old + ctx_off r) = regs m r" if r: "r \<in> set callee_saved" for r
  proof -
    have "ld64 ?b (old + ctx_off r) = ld64 (mem m2) (old + ctx_off r)"
    proof (intro saved_other ballI)
      fix x
      show "old + ctx_off r + 8 \<le> other + ctx_off x \<or> other + ctx_off x + 8 \<le> old + ctx_off r"
        using assms(7) ctx_off_bound [of r] ctx_off_bound [of x] by linarith
    qed
    also have "\<dots> = ld64 (mem (exec xl swtch m)) (old + ctx_off r)"
      using assms(8) ctx_off_bound [of r] by (intro ld64_cong) auto
    also have "\<dots> = regs m r" unfolding swtch_run(1) [OF assms(1-3)] by (rule saved_ld [OF so r])
    finally show ?thesis .
  qed
  have "regs (exec xl swtch m2) r = regs m r" if "r \<in> set callee_saved" for r
    using swtch_run(2) [OF assms(4-6) that] v [OF that] by simp
  then show ?thesis using swtch_run(3) [OF assms(4-6)] v [of RA] by simp
qed

text \<open>A kernel thread, and the switch back to it.\<close>

theorem swtch_resumes_witness:
  "let m = user_hart\<lparr>regs := (\<lambda>_. 7)(A0 := 0x1000, A1 := 0x2000)\<rparr>;
       m2 = user_hart\<lparr>regs := (\<lambda>_. 9)(A0 := 0x2000, A1 := 0x1000), mem := mem (exec (\<lambda>_ a. a) swtch m)\<rparr>
   in regs (exec (\<lambda>_ a. a) swtch m2) SP = 7 \<and> pc (exec (\<lambda>_ a. a) swtch m2) = Some (To 7)"
proof -
  let ?m = "user_hart\<lparr>regs := (\<lambda>_. 7)(A0 := 0x1000, A1 := 0x2000)\<rparr>"
  let ?m2 = "user_hart\<lparr>regs := (\<lambda>_. 9)(A0 := 0x2000, A1 := 0x1000), mem := mem (exec (\<lambda>_ a. a) swtch ?m)\<rparr>"
  have "mapped (\<lambda>_ a. a) s 0x1000 0x1000 112" "mapped (\<lambda>_ a. a) s 0x2000 0x2000 112" for s
    using mapped_id [of "0x1000" 112 s] mapped_id [of "0x2000" 112 s] by simp_all
  then show ?thesis
    using swtch_resumes [where m = ?m and ?m2.0 = ?m2 and xl = "\<lambda>_ a. a" and old = "0x1000" and new = "0x2000" and other = "0x2000"]
    by (simp add: Let_def user_hart_def)
qed

text \<open>
  C39: An interrupt is transparent to the kernel code it interrupts: whatever \<^verbatim>\<open>kerneltrap\<close> does to the registers, as
  long as it returns with the stack pointer and the saved registers on the stack as they were, \<^verbatim>\<open>kernelvec\<close> returns with
  every register restored, but for \<^verbatim>\<open>tp\<close>, which keeps the number of the hart it now runs on.
\<close>

theorem kernelvec_transparent:
  assumes "pc m = None" "mapped xl (csrs m Satp) (regs m SP - 256) pa 248"
    and "pc (kt (exec xl kernelvec_save m)) = None" "regs (kt (exec xl kernelvec_save m)) SP = regs m SP - 256"
    and "csrs (kt (exec xl kernelvec_save m)) Satp = csrs m Satp"
    and "\<forall>i. pa \<le> i \<and> i < pa + 248 \<longrightarrow> mem (kt (exec xl kernelvec_save m)) i = mem (exec xl kernelvec_save m) i"
  shows "regs (kernelvec xl kt m) = (regs m)(TP := regs (kt (exec xl kernelvec_save m)) TP) \<and> pc (kernelvec xl kt m) = Some To_sepc"
proof -
  let ?k = "kt (exec xl kernelvec_save m)"
  note s = kernelvec_saves [OF assms(1,2)]
  have v: "ld64 (mem ?k) (pa + kv_off r) = regs (exec xl kernelvec_save m) r" for r
  proof -
    have "kv_off r + 8 \<le> 248" by (cases r) (simp_all add: kv_off_def)
    then have "ld64 (mem ?k) (pa + kv_off r) = ld64 (mem (exec xl kernelvec_save m)) (pa + kv_off r)"
      using assms(6) by (intro ld64_cong) auto
    then show ?thesis using s(4) by simp
  qed
  have mp: "mapped xl (csrs ?k Satp) (regs ?k SP) pa 248" using assms(2,4,5) by simp
  have sp: "ld64 (mem ?k) (pa + kv_off SP) = regs ?k SP" using v [of SP] s(1) assms(4) by simp
  note r = kernelvec_restores [OF assms(3) mp sp]
  have "regs (kernelvec xl kt m) x = ((regs m)(TP := regs ?k TP)) x" for x
  proof (cases "x = SP \<or> x = TP")
    case True
    then show ?thesis using r(2,3) assms(4) by (auto simp: kernelvec_def)
  next
    case False
    then show ?thesis using r(1) [of x] v [of x] s(1) by (simp add: kernelvec_def)
  qed
  then show ?thesis using r(4) by (auto simp: kernelvec_def)
qed

theorem kernelvec_transparent_witness:
  "let kt = (\<lambda>h. h\<lparr>regs := (\<lambda>_. 1)(SP := regs h SP, TP := 2)\<rparr>); m = user_hart\<lparr>regs := (\<lambda>_. 0x2000)\<rparr>
   in regs (kernelvec (\<lambda>_ a. a) kt m) = (\<lambda>_. 0x2000)(TP := 2)"
proof -
  let ?kt = "\<lambda>h. h\<lparr>regs := (\<lambda>_. 1)(SP := regs h SP, TP := 2)\<rparr>" and ?m = "user_hart\<lparr>regs := (\<lambda>_. 0x2000)\<rparr>"
  have mp: "mapped (\<lambda>_ a. a) (csrs ?m Satp) (regs ?m SP - 256) 0x1F00 248"
    using mapped_id [of "0x1F00" 248] by (simp add: user_hart_def)
  have p: "pc ?m = None" by (simp add: user_hart_def)
  note s = kernelvec_saves [OF p mp]
  have "regs (kernelvec (\<lambda>_ a. a) ?kt ?m) = (regs ?m)(TP := regs (?kt (exec (\<lambda>_ a. a) kernelvec_save ?m)) TP) \<and>
      pc (kernelvec (\<lambda>_ a. a) ?kt ?m) = Some To_sepc"
    by (rule kernelvec_transparent [OF p mp]) (simp_all add: s)
  then show ?thesis by (simp add: Let_def)
qed

end
