(* ===== verification/FileView.thy ===== *)
theory FileView
  imports LogView Fs
begin

text \<open>
  Files over the block store: what \<^verbatim>\<open>bmap\<close>, \<^verbatim>\<open>readi\<close>, \<^verbatim>\<open>iget\<close> and \<^verbatim>\<open>dirlookup\<close> of
  \<^verbatim>\<open>kernel/fs.c\<close> return, in terms of the contents of blocks only, and that reading leaves the store as
  it was.
\<close>

subsection \<open>Reading a block and giving it back\<close>

text \<open>State \<open>t\<close> was reached from \<open>s\<close> by reading: the cache stands for the same store.\<close>

abbreviation still :: "nat \<Rightarrow> u32 \<Rightarrow> lockid set \<Rightarrow> 'z kbio_scheme \<Rightarrow> 'z kbio_scheme \<Rightarrow> bool" where
  "still p d L s \<equiv> reached p d L s (view_of d s)"

definition readable :: "nat \<Rightarrow> u32 \<Rightarrow> lockid set \<Rightarrow> 'z kbio_scheme \<Rightarrow> bool" where
  "readable p d L s \<longleftrightarrow> binv p d L s \<and> idle (view_of d s) \<and> room 1 (view_of d s)"

lemma readableD:
  assumes "readable p d L s"
  shows "binv p d L s" "idle (view_of d s)" "room 1 (view_of d s)" "still p d L s s"
  using assms by (simp_all add: readable_def reached_refl)

lemma unreferenced_clean:
  assumes "readable p d L s" "v_ref (view_of d s) n = 0"
  shows "v_content (view_of d s) n = v_disk (view_of d s) n"
proof (cases "home (bufs s) d n")
  case (Some b)
  note b = home_Some [OF Some]
  have "held_of (bufs s) (slocks s) b = None"
    using fun_cong [OF readableD(2) [OF assms(1), unfolded idle_def], of b] by (simp add: view_of_def)
  then have "slk_locked (slocks s (SL_buf b)) = 0" using b by (simp add: held_of_def split: if_splits)
  moreover have "b_refcnt (bufs s b) = 0" using assms(2) Some by (simp add: view_of_def ref_of_def)
  moreover have "buf_ok d (mypid p s) (disk s) (bufs s b) (slocks s (SL_buf b))"
    using readableD(1) [OF assms(1)] b by (simp add: binv_def)
  ultimately show ?thesis using b Some by (auto simp: view_of_def content_of_def buf_ok_def)
qed (simp add: view_of_def content_of_def)

lemma fs_kept: "bkeeps s t \<Longrightarrow> inodes t = inodes s" "bkeeps s t \<Longrightarrow> sblk t = sblk s"
proof -
  assume "bkeeps s t"
  then have e: "t = s\<lparr>cpus := cpus t, procs := procs t, slocks := slocks t, bufs := bufs t, disk := disk t, dtrace := dtrace t\<rparr>"
    by (simp add: bkeeps_def)
  from arg_cong [OF e, of inodes] show "inodes t = inodes s" by simp
  from arg_cong [OF e, of sblk] show "sblk t = sblk s" by simp
qed

lemma still_fs: "reached p d L s v t \<Longrightarrow> inodes t = inodes s" "reached p d L s v t \<Longrightarrow> sblk t = sblk s"
  by (simp_all add: reached_def fs_kept)

lemma read_block:
  assumes r: "readable p d L s" and t: "still p d L s t"
    and k: "\<And>b u. reached p d L s (got b n (view_of d s)) u \<Longrightarrow> b_data (bufs u b) = v_content (view_of d s) n \<Longrightarrow> runs (m b) u Q"
  shows "runs (bnd (bread d n) m) t Q"
proof (rule bc.one_block)
  show "binv p d L t" "idle (view_of d t)" "v_ref (view_of d t) n \<noteq> 0 \<or> room 1 (view_of d t)"
    using readableD [OF r] t by (simp_all add: reached_def)
  fix b u assume u: "binv p d L u" "bkeeps t u" "view_of d u = got b n (view_of d t)"
  then have "reached p d L s (got b n (view_of d s)) u" using t bkeeps_trans [of s t u] by (simp add: reached_def)
  moreover from reached_data [OF this, of b n] have "b_data (bufs u b) = v_content (view_of d s) n" by (simp add: got_def)
  ultimately show "runs (m b) u Q" by (rule k)
qed

lemma give_back:
  assumes r: "readable p d L s" and u: "reached p d L s (got b n (view_of d s)) u"
  shows "runs (sq (brelse b) (ret x)) u (\<lambda>y t. y = x \<and> still p d L s t)"
proof (rule runs_sq)
  let ?v = "view_of d s"
  have "given_back b n (got b n ?v) = ?v"
    using readableD(2) [OF r] by (auto simp: view_defs idle_def fun_eq_iff)
  moreover have "v_ref (got b n ?v) n = 1 \<Longrightarrow> v_content (got b n ?v) n = v_disk (got b n ?v) n"
    using unreferenced_clean [OF r, of n] by (simp add: got_def)
  ultimately show "runs (brelse b) u (\<lambda>_. still p d L s)"
    using reached_brelse [OF u, of b n] by (simp add: got_def)
qed simp

subsection \<open>The blocks of a file\<close>

text \<open>
  The block of a file that holds its bytes from \<open>1024 * bn\<close>, 0 where there is none, and the bytes of
  a file as one array.
\<close>

definition file_block :: "(u32 \<Rightarrow> bytes) \<Rightarrow> inode \<Rightarrow> nat \<Rightarrow> u32" where
  "file_block c i bn =
     (if bn < NDIRECT then i_addrs i bn
      else if i_addrs i NDIRECT \<noteq> 0 \<and> bn < MAXFILE then ld32 (c (i_addrs i NDIRECT)) (4 * (bn - NDIRECT))
      else 0)"

definition file_byte :: "(u32 \<Rightarrow> bytes) \<Rightarrow> inode \<Rightarrow> bytes" where
  "file_byte c i j = c (file_block c i (j div BSIZE)) (j mod BSIZE)"

lemma runs_bnd_Ret: "(\<And>es. m es s = Ret a es t) \<Longrightarrow> runs (bnd m f) s Q = runs (f a) t Q"
  by (simp add: runs_def bnd_def)

lemma bmap_law:
  assumes r: "readable p d L s" and t: "still p d L s t" and d: "i_dev (inodes s ip) = d"
    and bn: "file_block (v_content (view_of d s)) (inodes s ip) (unat bn) \<noteq> 0"
  shows "runs (bmap ip bn) t (\<lambda>a u. a = file_block (v_content (view_of d s)) (inodes s ip) (unat bn) \<and> still p d L s u)"
proof -
  let ?i = "inodes s ip"
  note it = still_fs(1) [OF t]
  show ?thesis
  proof (cases "unat bn < NDIRECT")
    case True
    then show ?thesis using bn t by (simp add: bmap_def bmap_direct_def it file_block_def)
  next
    case False
    then have a: "i_addrs ?i NDIRECT \<noteq> 0" "unat bn < MAXFILE"
        "ld32 (v_content (view_of d s) (i_addrs ?i NDIRECT)) (4 * (unat bn - NDIRECT)) = file_block (v_content (view_of d s)) ?i (unat bn)"
      using bn by (auto simp: file_block_def split: if_splits)
    have bd: "bmap_direct ip NDIRECT es t = Ret (i_addrs ?i NDIRECT) es t" for es
      using a(1) by (simp add: bmap_direct_def km_simps it)
    have "runs (bnd (bread d (i_addrs ?i NDIRECT)) (\<lambda>b. bnd (gets (\<lambda>s. ld32 (b_data (bufs s b)) (4 * (unat bn - 12)))) (\<lambda>a.
              if a \<noteq> 0 then sq (brelse b) (ret a)
              else bnd (balloc (i_dev (inodes t ip))) (\<lambda>a. sq (modify (upd_buf b (\<lambda>x. x\<lparr>b_data := st32 (4 * (unat bn - 12)) a (b_data x)\<rparr>)))
                (sq (log_write b) (sq (brelse b) (ret a))))))) t
         (\<lambda>a u. a = file_block (v_content (view_of d s)) ?i (unat bn) \<and> still p d L s u)"
      using a(3) bn by (intro read_block [OF r t]) (simp add: give_back [OF r])
    moreover have "unat bn - 12 < 256" using a(2) False by linarith
    ultimately show ?thesis using False by (simp add: bmap_def Let_def runs_bnd_Ret [where m = "bmap_direct ip 12", OF bd] it d)
  qed
qed

subsection \<open>Reading a file\<close>

lemma reached_touch: "reached p d L s v t \<Longrightarrow> reached p d L s v (touch t)"
proof -
  assume t: "reached p d L s v t"
  have "binv p d L (touch t)" "view_of d (touch t) = view_of d t"
    using t by (auto simp: reached_def binv_def quiet_def view_of_def)
  moreover have "bkeeps t (touch t)" by (simp add: bkeeps_def touch_def upd_mycpu_def)
  ultimately show ?thesis using t bkeeps_trans [of s t "touch t"] by (simp add: reached_def)
qed

lemma copyout_law:
  assumes "reached p d L s v t"
  shows "runs (either_copyout (Kbuf a) x so n k) t (\<lambda>r u. r = (0, copy a x so (unat n) k) \<and> u = touch t)"
  using assms quietD(5) [of p L t] by (auto simp: reached_def binv_def runs_def km_simps myproc_run)

lemma copy_join: "copy (a + m) f (o1 + m) l (copy a f o1 m k) = copy a f o1 (m + l) k"
  by (auto simp: copy_def fun_eq_iff)

lemma copy_transfer:
  assumes "\<And>j. j < n \<Longrightarrow> f (a + j) = g (b + j)"
  shows "copy d f a n m = copy d g b n m"
proof
  fix i
  show "copy d f a n m i = copy d g b n m i"
  proof (cases "d \<le> i \<and> i < d + n")
    case True
    then have "i - d < n" by linarith
    then show ?thesis using assms [of "i - d"] by (simp only: copy_def)
  qed (auto simp: copy_def)
qed

lemma same_block:
  assumes "o1 mod BSIZE + j < BSIZE"
  shows "(o1 + j) div BSIZE = o1 div BSIZE" "(o1 + j) mod BSIZE = o1 mod BSIZE + j"
proof -
  have "o1 + j = o1 div BSIZE * BSIZE + (o1 mod BSIZE + j)" by simp
  then show "(o1 + j) div BSIZE = o1 div BSIZE" "(o1 + j) mod BSIZE = o1 mod BSIZE + j"
    using assms by (metis div_mult_self3 div_less add_0_right zero_neq_numeral, metis mod_mult_self3 mod_less)
qed

lemma copy_block:
  assumes "o1 mod BSIZE + m \<le> BSIZE"
  shows "copy a (c (file_block c i (o1 div BSIZE))) (o1 mod BSIZE) m k = copy a (file_byte c i) o1 m k"
  by (rule copy_transfer) (use assms in \<open>simp add: file_byte_def same_block\<close>)

lemma piece_fits:
  fixes n tot off :: u32
  assumes "tot \<le> n"
  shows "tot + piece off (n - tot) \<le> n" "unat (n - (tot + piece off (n - tot))) = unat (n - tot) - unat (piece off (n - tot))"
proof -
  have m: "piece off (n - tot) \<le> n - tot" by (simp add: word_le_nat_alt unat_piece)
  have "unat tot + unat (piece off (n - tot)) \<le> unat n"
    using m assms by (simp add: word_le_nat_alt unat_sub)
  moreover from this have "unat (tot + piece off (n - tot)) = unat tot + unat (piece off (n - tot))"
    using unat_u32 [of n] by (intro iffD1 [OF unat_add_lem]) simp
  ultimately show "tot + piece off (n - tot) \<le> n" by (simp add: word_le_nat_alt)
  show "unat (n - (tot + piece off (n - tot))) = unat (n - tot) - unat (piece off (n - tot))"
    using m by (metis diff_diff_eq unat_sub)
qed

abbreviation readi_step :: "nat \<Rightarrow> kaddr \<Rightarrow> u32 \<Rightarrow> u32 \<Rightarrow> bytes \<Rightarrow> ('z kfs_scheme, int \<times> bytes) km" where
  "readi_step ip dst off m k \<equiv>
     bnd (bmap ip (off div 1024)) (\<lambda>a.
     bnd (gets (\<lambda>s. i_dev (inodes s ip))) (\<lambda>dev.
     bnd (bread dev a) (\<lambda>bp.
     bnd (gets (\<lambda>s. b_data (bufs s bp))) (\<lambda>d.
     bnd (either_copyout dst d (unat (off mod 1024)) (ucast m) k) (\<lambda>r.
     sq (brelse bp) (ret r))))))"

lemma read_piece:
  fixes m :: u32
  assumes r: "readable p d L s" and d: "i_dev (inodes s ip) = d" and c: "c = v_content (view_of d s)" and t: "still p d L s t"
    and bl: "file_block c (inodes s ip) (unat off div BSIZE) \<noteq> 0" and m: "unat off mod BSIZE + unat m \<le> BSIZE"
  shows "runs (readi_step ip (Kbuf a) off m k) t
    (\<lambda>x u. x = (0, copy a (file_byte c (inodes s ip)) (unat off) (unat m) k) \<and> still p d L s u)"
proof -
  let ?i = "inodes s ip"
  let ?b = "file_block c ?i (unat off div BSIZE)"
  have "unat (off div 1024) = unat off div BSIZE" by (simp add: unat_div)
  then have bm: "runs (bmap ip (off div 1024)) t (\<lambda>x u. x = ?b \<and> still p d L s u)"
    using bmap_law [OF r t d, of "off div 1024"] bl by (simp add: c)
  have "unat (ucast m :: u64) = unat m" using unat_u32 [of m] by (simp add: unsigned_ucast_eq take_bit_nat_eq_self)
  then have cp: "copy a (c ?b) (unat (off mod 1024)) (unat (ucast m :: u64)) k = copy a (file_byte c ?i) (unat off) (unat m) k"
    using m by (subst copy_block [symmetric]) (simp_all add: unat_mod)
  show ?thesis
  proof (rule runs_bnd [OF bm], elim conjE)
    fix x u assume u: "x = ?b" "still p d L s u"
    show "runs (bnd (gets (\<lambda>s. i_dev (inodes s ip))) (\<lambda>dev.
           bnd (bread dev x) (\<lambda>bp.
           bnd (gets (\<lambda>s. b_data (bufs s bp))) (\<lambda>x.
           bnd (either_copyout (Kbuf a) x (unat (off mod 1024)) (ucast m) k) (\<lambda>r.
           sq (brelse bp) (ret r)))))) u
      (\<lambda>x u. x = (0, copy a (file_byte c ?i) (unat off) (unat m) k) \<and> still p d L s u)"
      unfolding runs_bnd_gets still_fs(1) [OF u(2)] d
    proof (rule read_block [OF r u(2)], unfold runs_bnd_gets)
      fix b w
      assume w: "reached p d L s (got b x (view_of d s)) w" "b_data (bufs w b) = v_content (view_of d s) x"
      show "runs (bnd (either_copyout (Kbuf a) (b_data (bufs w b)) (unat (off mod 1024)) (ucast m) k) (\<lambda>r. sq (brelse b) (ret r))) w
          (\<lambda>x u. x = (0, copy a (file_byte c ?i) (unat off) (unat m) k) \<and> still p d L s u)"
        using give_back [OF r reached_touch [OF w(1)]]
        by (intro runs_bnd [OF copyout_law [OF w(1)]]) (simp add: w(2) u(1) c [symmetric] cp)
    qed
  qed
qed

lemma readi_loop_law:
  assumes r: "readable p d L s" and d: "i_dev (inodes s ip) = d" and c: "c = v_content (view_of d s)"
    and t: "still p d L s t" and le: "tot \<le> n" and small: "unat off + unat (n - tot) < 2 ^ 32"
    and blocks: "\<And>j. unat off \<le> j \<Longrightarrow> j < unat off + unat (n - tot) \<Longrightarrow> file_block c (inodes s ip) (j div BSIZE) \<noteq> 0"
  shows "runs (readi_loop ip (Kbuf a) off n tot k) t
    (\<lambda>x u. x = (n, copy a (file_byte c (inodes s ip)) (unat off) (unat (n - tot)) k) \<and> still p d L s u)"
  using t le small blocks
proof (induction "unat (n - tot)" arbitrary: a off tot k t rule: less_induct)
  case less
  let ?i = "inodes s ip"
  show ?case
  proof (cases "tot < n")
    case False
    then have "tot = n" using less.prems(2) by simp
    then show ?thesis using less.prems(1) by (simp add: runs_def readi_loop.simps)
  next
    case True
    let ?m = "piece off (n - tot)"
    let ?b = "file_block c ?i (unat off div BSIZE)"
    have m: "unat ?m = min (unat (n - tot)) (BSIZE - unat off mod BSIZE)" by (rule unat_piece)
    have om: "unat (off + ?m) = unat off + unat ?m"
      using less.prems(3) by (intro iffD1 [OF unat_add_lem]) (simp add: m)
    then have tn: "tot + ?m \<le> n" "unat (n - (tot + ?m)) = unat (n - tot) - unat ?m" "unat (off + ?m) = unat off + unat ?m"
      using piece_fits [OF less.prems(2), of off] less.prems(3) by simp_all
    have pos: "0 < unat (n - tot)" using True by (simp add: unat_gt_0)
    have mp: "unat off mod BSIZE + unat ?m \<le> BSIZE" using mod_less_divisor [of BSIZE "unat off"] m by (auto simp: min_def)
    have "?b \<noteq> 0" using less.prems(4) [of "unat off"] pos by simp
    note step = read_piece [OF r d c less.prems(1) this mp, of a k]
    have split: "unat ?m + (unat (n - tot) - unat ?m) = unat (n - tot)" using m by simp
    have bl: "file_block c ?i (j div BSIZE) \<noteq> 0" if "unat off + unat ?m \<le> j" "j < unat off + unat (n - tot)" for j
      using that by (intro less.prems(4)) simp_all
    have "runs (readi_loop ip (Kbuf (a + unat ?m)) (off + ?m) n (tot + ?m) (copy a (file_byte c ?i) (unat off) (unat ?m) k)) u
      (\<lambda>x u. x = (n, copy (a + unat ?m) (file_byte c ?i) (unat (off + ?m)) (unat (n - (tot + ?m)))
         (copy a (file_byte c ?i) (unat off) (unat ?m) k)) \<and> still p d L s u)" if "still p d L s u" for u
      by (rule less.hyps [OF piece_decreases [OF True] that tn(1)]) (use less.prems(3) bl in \<open>simp_all add: tn(2,3) split add.assoc\<close>)
    then have rest: "runs (readi_loop ip (kaddr_add (Kbuf a) (unat ?m)) (off + ?m) n (tot + ?m) (copy a (file_byte c ?i) (unat off) (unat ?m) k)) u
      (\<lambda>x u. x = (n, copy a (file_byte c ?i) (unat off) (unat (n - tot)) k) \<and> still p d L s u)" if "still p d L s u" for u
      using that by (simp only: tn copy_join kaddr_add.simps split)
    define W :: "('a kfs_scheme, u32 \<times> bytes) km" where "W = bnd (readi_step ip (Kbuf a) off ?m k)
          (\<lambda>r es s.
             if fst r = -1 then Ret (tot, snd r) es s
             else readi_loop ip (kaddr_add (Kbuf a) (unat ?m)) (off + ?m) n (tot + ?m) (snd r) es s)"
    have eq: "readi_loop ip (Kbuf a) off n tot k es t = W es t" for es
      unfolding W_def using True by (subst readi_loop.simps) simp
    have "runs W t (\<lambda>x u. x = (n, copy a (file_byte c ?i) (unat off) (unat (n - tot)) k) \<and> still p d L s u)"
      unfolding W_def by (rule runs_bnd [OF step]) (use rest in \<open>auto simp: runs_def\<close>)
    then show ?thesis by (simp only: runs_def eq simp_thms)
  qed
qed

lemma readi_law:
  assumes r: "readable p d L s" and d: "i_dev (inodes s ip) = d" and c: "c = v_content (view_of d s)"
    and t: "still p d L s t" and off: "unat off \<le> unat (i_size (inodes s ip))" "unat off + unat n < 2 ^ 32"
    and m: "m = min (unat n) (unat (i_size (inodes s ip)) - unat off)"
    and blocks: "\<And>j. unat off \<le> j \<Longrightarrow> j < unat off + m \<Longrightarrow> file_block c (inodes s ip) (j div BSIZE) \<noteq> 0"
  shows "runs (readi ip (Kbuf a) off n k) t
    (\<lambda>x u. x = (word_of_nat m, copy a (file_byte c (inodes s ip)) (unat off) m k) \<and> still p d L s u)"
proof -
  let ?size = "i_size (inodes s ip)"
  define l where "l = (if ?size < off + n then ?size - off else n)"
  have sum: "unat (off + n) = unat off + unat n" using off(2) by (intro iffD1 [OF unat_add_lem]) simp
  have n: "unat l = m"
    using off(1) by (auto simp: l_def m word_less_nat_alt sum unat_sub word_le_nat_alt)
  then have lw: "l = word_of_nat m" by auto
  have "unat off + unat (l - 0) < 2 ^ 32" using n off(2) m by simp
  moreover have "file_block c (inodes s ip) (j div BSIZE) \<noteq> 0" if "unat off \<le> j" "j < unat off + unat (l - 0)" for j
    using that n by (intro blocks) simp_all
  ultimately have "runs (readi_loop ip (Kbuf a) off l 0 k) t
    (\<lambda>x u. x = (l, copy a (file_byte c (inodes s ip)) (unat off) (unat (l - 0)) k) \<and> still p d L s u)"
    by (intro readi_loop_law [OF r d c t]) simp_all
  moreover have "\<not> ?size < off" "\<not> off + n < off" using off by (simp_all add: word_less_nat_alt sum)
  ultimately show ?thesis using n unfolding lw [symmetric] by (cases "?size < off + n") (simp_all add: readi_def still_fs(1) [OF t] l_def)
qed

subsection \<open>The inode cache\<close>

text \<open>At most one referenced entry for an inode, and references are not negative.\<close>

definition icache_ok :: "(nat \<Rightarrow> inode) \<Rightarrow> bool" where
  "icache_ok f \<longleftrightarrow> (\<forall>a < NINODE. 0 \<le> i_ref (f a)) \<and>
     (\<forall>a < NINODE. \<forall>b < NINODE. 0 < i_ref (f a) \<and> 0 < i_ref (f b) \<and> i_dev (f a) = i_dev (f b) \<and> i_inum (f a) = i_inum (f b) \<longrightarrow> a = b)"

text \<open>The entry \<^verbatim>\<open>iget\<close> uses: that of the inode, or the first one without references.\<close>

definition slot_for :: "u32 \<Rightarrow> u32 \<Rightarrow> (nat \<Rightarrow> inode) \<Rightarrow> nat option" where
  "slot_for d n f = (case find (\<lambda>a. 0 < i_ref (f a) \<and> i_dev (f a) = d \<and> i_inum (f a) = n) [0..<NINODE] of
     Some a \<Rightarrow> Some a | None \<Rightarrow> find (\<lambda>a. i_ref (f a) = 0) [0..<NINODE])"

definition entered :: "u32 \<Rightarrow> u32 \<Rightarrow> inode \<Rightarrow> inode" where
  "entered d n i = (if 0 < i_ref i then i\<lparr>i_ref := i_ref i + 1\<rparr> else i\<lparr>i_dev := d, i_inum := n, i_ref := 1, i_valid := False\<rparr>)"

lemma iget_scan_find:
  "iget_scan as e d n f = (find (\<lambda>a. 0 < i_ref (f a) \<and> i_dev (f a) = d \<and> i_inum (f a) = n) as,
     if e \<noteq> None then e else find (\<lambda>a. i_ref (f a) = 0) (takeWhile (\<lambda>a. \<not> (0 < i_ref (f a) \<and> i_dev (f a) = d \<and> i_inum (f a) = n)) as))"
  by (induction as e d n f rule: iget_scan.induct) auto

lemma slot_for_scan:
  "slot_for d n f = (case iget_scan [0..<NINODE] None d n f of (Some a, _) \<Rightarrow> Some a | (None, e) \<Rightarrow> e)"
proof (cases "find (\<lambda>a. 0 < i_ref (f a) \<and> i_dev (f a) = d \<and> i_inum (f a) = n) [0..<NINODE]")
  case None
  then have tw: "takeWhile (\<lambda>a. \<not> (0 < i_ref (f a) \<and> i_dev (f a) = d \<and> i_inum (f a) = n)) [0..<NINODE] = [0..<NINODE]"
    unfolding takeWhile_eq_all_conv by (simp add: find_None_iff)
  show ?thesis unfolding slot_for_def iget_scan_find None tw by simp
qed (simp add: slot_for_def iget_scan_find)

lemma slot_forD:
  assumes "slot_for d n f = Some a"
  shows "a < NINODE" "i_ref (f a) = 0 \<or> 0 < i_ref (f a) \<and> i_dev (f a) = d \<and> i_inum (f a) = n"
  using assms by (auto simp: slot_for_def find_Some_iff split: option.splits)

lemma slot_for_new:
  assumes "slot_for d n f = Some a" "i_ref (f a) = 0" "b < NINODE" "0 < i_ref (f b)"
  shows "i_dev (f b) \<noteq> d \<or> i_inum (f b) \<noteq> n"
  using assms by (auto simp: slot_for_def find_None_iff find_Some_iff split: option.splits)

lemma entered_ok:
  assumes "icache_ok f" "slot_for d n f = Some a"
  shows "icache_ok (f(a := entered d n (f a)))"
  unfolding icache_ok_def
proof (intro conjI allI impI)
  fix b c assume b: "b < NINODE" and c: "c < NINODE"
  show "0 \<le> i_ref ((f(a := entered d n (f a))) b)" using assms(1) b by (auto simp: icache_ok_def entered_def)
  assume h: "0 < i_ref ((f(a := entered d n (f a))) b) \<and> 0 < i_ref ((f(a := entered d n (f a))) c) \<and>
    i_dev ((f(a := entered d n (f a))) b) = i_dev ((f(a := entered d n (f a))) c) \<and>
    i_inum ((f(a := entered d n (f a))) b) = i_inum ((f(a := entered d n (f a))) c)"
  have u: "b = c" if "0 < i_ref (f b)" "0 < i_ref (f c)" "i_dev (f b) = i_dev (f c)" "i_inum (f b) = i_inum (f c)"
    using assms(1) b c that by (simp add: icache_ok_def)
  show "b = c"
  proof (cases "0 < i_ref (f a)")
    case True
    then have "i_dev ((f(a := entered d n (f a))) x) = i_dev (f x)" "i_inum ((f(a := entered d n (f a))) x) = i_inum (f x)"
      "0 < i_ref ((f(a := entered d n (f a))) x) \<longleftrightarrow> 0 < i_ref (f x)" for x by (simp_all add: entered_def)
    with h show ?thesis by (intro u) (simp_all only:)
  next
    case False
    then have "i_ref (f a) = 0" using slot_forD(2) [OF assms(2)] by blast
    with False show ?thesis using h u slot_for_new [OF assms(2) _ b] slot_for_new [OF assms(2) _ c]
      by (cases "b = a"; cases "c = a") (auto simp: entered_def)
  qed
qed

lemma iget_law:
  assumes q: "lock_ready L_icache s" and a: "slot_for d n (inodes s) = Some a"
  shows "iget d n es s = Ret a es (upd_inode a (entered d n) (touch s))"
proof -
  have up: "upper (upd_inode a g)" for g by (simp add: upper_defs upd_inode_def)
  obtain x y where sc: "iget_scan [0..<NINODE] None d n (inodes s) = (x, y)" "x = Some a \<or> x = None \<and> y = Some a"
    using a by (auto simp: slot_for_scan split: prod.splits option.splits)
  have z: "x = None \<Longrightarrow> i_ref (inodes s a) = 0" "x = Some a \<Longrightarrow> 0 < i_ref (inodes s a)"
    using sc by (auto simp: iget_scan_find dest!: find_SomeD)
  show ?thesis
    using sc z by (auto simp: iget_def km_simps acquire_ready [OF q] release_upper [OF q up]; simp add: upd_inode_def entered_def)
qed

lemma iget_full:
  assumes q: "lock_ready L_icache s" and a: "slot_for d n (inodes s) = None"
  shows "iget d n es s = Panic ''iget: no inodes''"
  using a by (auto simp: slot_for_scan iget_def km_simps acquire_ready [OF q] split: prod.splits option.splits)

lemma slot_for_free: "a < NINODE \<Longrightarrow> i_ref (f a) = 0 \<Longrightarrow> \<exists>b. slot_for d n f = Some b"
  by (cases "find (\<lambda>a. i_ref (f a) = 0) [0..<NINODE]") (auto simp: slot_for_def find_None_iff split: option.split)

subsection \<open>Directories\<close>

text \<open>A directory as its file has it: entry \<open>j\<close> is the inode number and the name in the bytes from \<open>16 * j\<close>.\<close>

definition dirent_inum :: "bytes \<Rightarrow> nat \<Rightarrow> u16" where
  "dirent_inum f j = ld16 f (16 * j)"

definition dirent_name :: "bytes \<Rightarrow> nat \<Rightarrow> byte list" where
  "dirent_name f j = cstr DIRSIZ f (16 * j + 2)"

definition dir_find :: "bytes \<Rightarrow> nat \<Rightarrow> nat \<Rightarrow> byte list \<Rightarrow> nat option" where
  "dir_find f j n name = find (\<lambda>j. dirent_inum f j \<noteq> 0 \<and> dirent_name f j = take DIRSIZ name) [j..<n]"

lemma cstr_shift: "(\<And>i. i < n \<Longrightarrow> g (a + i) = f (b + i)) \<Longrightarrow> cstr n g a = cstr n f b"
  unfolding cstr_def by (rule arg_cong [of _ _ "takeWhile _"]) (auto intro: nth_equalityI)

lemma dirent_copy:
  "ld16 (copy 0 f (16 * j) 16 k) 0 = dirent_inum f j" "cstr DIRSIZ (copy 0 f (16 * j) 16 k) 2 = dirent_name f j"
proof -
  show "ld16 (copy 0 f (16 * j) 16 k) 0 = dirent_inum f j"
    by (simp add: dirent_inum_def ld16_def ld_copy_inside)
  show "cstr DIRSIZ (copy 0 f (16 * j) 16 k) 2 = dirent_name f j"
    unfolding dirent_name_def by (rule cstr_shift) (simp add: copy_def)
qed

lemma cstr_str_bytes:
  assumes "0 \<notin> set xs"
  shows "cstr n (str_bytes xs) 0 = take n xs"
proof -
  have "map (str_bytes xs) [0..<n] = take n xs @ replicate (n - length xs) 0"
    by (rule nth_equalityI) (auto simp: str_bytes_def nth_append)
  moreover have "takeWhile (\<lambda>c. c \<noteq> 0) (take n xs @ replicate k 0) = take n xs" for k
    using assms by (subst takeWhile_append2) (auto dest: in_set_takeD)
  ultimately show ?thesis by (simp add: cstr_def)
qed

lemma namecmp_entry:
  "0 \<notin> set name \<Longrightarrow> namecmp (str_bytes name) 0 (copy 0 f (16 * j) 16 k) 2 = 0 \<longleftrightarrow> dirent_name f j = take DIRSIZ name"
  unfolding namecmp_def strncmp_eq_0 dirent_copy(2) cstr_str_bytes by auto

abbreviation dirlookup_step :: "nat \<Rightarrow> byte list \<Rightarrow> u32 \<Rightarrow> ('z kfs_scheme, (nat \<times> u32) option option) km" where
  "dirlookup_step dp name off \<equiv>
       bnd (gets (\<lambda>s. i_size (inodes s dp))) (\<lambda>size.
       if \<not> off < size then ret (Some None)
       else
         bnd (readi dp (Kbuf 0) off 16 (\<lambda>_. 0)) (\<lambda>(r, de).
         if r \<noteq> 16 then panic ''dirlookup read''
         else if ld16 de 0 = 0 then ret None
         else if namecmp (str_bytes name) 0 de 2 = 0 then
           bnd (gets (\<lambda>s. i_dev (inodes s dp))) (\<lambda>dev.
           bnd (iget dev (ucast (ld16 de 0))) (\<lambda>ip. ret (Some (Some (ip, off)))))
         else ret None))"

text \<open>The inode of entry \<open>j\<close> has been entered into the cache, nothing else has changed.\<close>

definition looked_up :: "nat \<Rightarrow> u32 \<Rightarrow> lockid set \<Rightarrow> 'z kfs_scheme \<Rightarrow> bytes \<Rightarrow> nat option \<Rightarrow> (nat \<times> u32) option \<Rightarrow> 'z kfs_scheme \<Rightarrow> bool" where
  "looked_up p d L s f r x t \<longleftrightarrow> (case r of
     None \<Rightarrow> x = None \<and> still p d L s t
   | Some j \<Rightarrow> (\<exists>ip u. x = Some (ip, word_of_nat (16 * j)) \<and> slot_for d (ucast (dirent_inum f j)) (inodes s) = Some ip \<and>
       still p d L s u \<and> t = upd_inode ip (entered d (ucast (dirent_inum f j))) u))"

text \<open>A directory whose file has whole entries in allocated blocks.\<close>

definition dir_ok :: "(u32 \<Rightarrow> bytes) \<Rightarrow> inode \<Rightarrow> bool" where
  "dir_ok c i \<longleftrightarrow> i_type i = T_DIR \<and> 16 dvd unat (i_size i) \<and> unat (i_size i) \<le> MAXFILE * BSIZE \<and>
     (\<forall>bn. bn * BSIZE < unat (i_size i) \<longrightarrow> file_block c i bn \<noteq> 0)"

lemma dir_ok_blocks: "dir_ok c i \<Longrightarrow> j < unat (i_size i) \<Longrightarrow> file_block c i (j div BSIZE) \<noteq> 0"
  using div_times_less_eq_dividend [of j BSIZE] by (auto simp: dir_ok_def)

lemma unat_of_small: "n < 2 ^ 32 \<Longrightarrow> unat (word_of_nat n :: u32) = n"
  by (simp add: unsigned_of_nat take_bit_nat_eq_self)

lemma dirlookup_step_law:
  assumes r: "readable p d L s" and ok: "dir_ok (v_content (view_of d s)) (inodes s dp)" and d: "i_dev (inodes s dp) = d"
    and L: "L_icache \<notin> L" and free: "a < NINODE" "i_ref (inodes s a) = 0" and name: "0 \<notin> set name"
    and t: "still p d L s t" and f: "f = file_byte (v_content (view_of d s)) (inodes s dp)" and j: "16 * j < unat (i_size (inodes s dp))"
  shows "runs (dirlookup_step dp name (word_of_nat (16 * j))) t (\<lambda>x u.
    if dirent_inum f j \<noteq> 0 \<and> dirent_name f j = take DIRSIZ name
    then \<exists>y. x = Some y \<and> looked_up p d L s f (Some j) y u else x = None \<and> still p d L s u)"
proof -
  let ?i = "inodes s dp"
  let ?o = "word_of_nat (16 * j) :: u32"
  have o: "unat ?o = 16 * j"
    using j unat_u32 [of "i_size ?i"] by (intro unat_of_small) simp
  have e: "16 * j + 16 \<le> unat (i_size ?i)" using j ok by (auto simp: dir_ok_def)
  have "runs (readi dp (Kbuf 0) ?o 16 (\<lambda>_. 0)) t (\<lambda>x u. x = (word_of_nat 16, copy 0 f (unat ?o) 16 (\<lambda>_. 0)) \<and> still p d L s u)"
    unfolding f
  proof (rule readi_law [OF r d refl t])
    show "unat ?o \<le> unat (i_size ?i)" "16 = min (unat (16 :: u32)) (unat (i_size ?i) - unat ?o)" using j e by (simp_all add: o del: of_nat_mult)
    show "unat ?o + unat (16 :: u32) < 2 ^ 32" using e unat_u32 [of "i_size ?i"] by (simp add: o del: of_nat_mult)
    show "file_block (v_content (view_of d s)) ?i (k div BSIZE) \<noteq> 0" if "unat ?o \<le> k" "k < unat ?o + 16" for k
      using that e by (intro dir_ok_blocks [OF ok]) (simp add: o del: of_nat_mult)
  qed
  then have rd: "runs (readi dp (Kbuf 0) ?o 16 (\<lambda>_. 0)) t (\<lambda>x u. x = (16, copy 0 f (16 * j) 16 (\<lambda>_. 0)) \<and> still p d L s u)"
    by (simp add: o del: of_nat_mult)
  have nlt: "\<not> \<not> ?o < i_size (inodes t dp)" using j by (simp add: word_less_nat_alt o still_fs(1) [OF t] del: of_nat_mult)
  have get: "runs (bnd (iget d (ucast (dirent_inum f j))) (\<lambda>ip. ret (Some (Some (ip, ?o))))) u
      (\<lambda>x w. \<exists>y. x = Some y \<and> looked_up p d L s f (Some j) y w)" if u: "still p d L s u" for u
  proof -
    obtain ip where ip: "slot_for d (ucast (dirent_inum f j)) (inodes s) = Some ip" using slot_for_free [where f = "inodes s", OF free] by blast
    have "lock_ready L_icache u" using u L by (simp add: reached_def binv_def quiet_def free_except_def)
    then have "iget d (ucast (dirent_inum f j)) es u = Ret ip es (upd_inode ip (entered d (ucast (dirent_inum f j))) (touch u))" for es
      using ip by (intro iget_law) (simp_all add: still_fs(1) [OF u])
    then show ?thesis using ip reached_touch [OF u] by (auto simp: runs_def bnd_def ret_def looked_up_def)
  qed
  show ?thesis
    unfolding runs_bnd_gets if_not_P [OF nlt]
  proof (rule runs_bnd [OF rd], elim conjE)
    fix x u assume u: "x = (16, copy 0 f (16 * j) 16 (\<lambda>_. 0))" "still p d L s u"
    show "runs (case x of (r, de) \<Rightarrow>
         if r \<noteq> 16 then panic ''dirlookup read''
         else if ld16 de 0 = 0 then ret None
         else if namecmp (str_bytes name) 0 de 2 = 0 then
           bnd (gets (\<lambda>s. i_dev (inodes s dp))) (\<lambda>dev.
           bnd (iget dev (ucast (ld16 de 0))) (\<lambda>ip. ret (Some (Some (ip, ?o)))))
         else ret None) u
      (\<lambda>x u. if dirent_inum f j \<noteq> 0 \<and> dirent_name f j = take DIRSIZ name
        then \<exists>y. x = Some y \<and> looked_up p d L s f (Some j) y u else x = None \<and> still p d L s u)"
      using get [OF u(2)] u(2) by (simp add: u(1) dirent_copy(1) namecmp_entry [OF name] still_fs(1) [OF u(2)] d del: of_nat_mult)
  qed
qed

lemma dirlookup_loop:
  assumes r: "readable p d L s" and ok: "dir_ok (v_content (view_of d s)) (inodes s dp)" and d: "i_dev (inodes s dp) = d"
    and L: "L_icache \<notin> L" and free: "a < NINODE" "i_ref (inodes s a) = 0" and name: "0 \<notin> set name"
    and t: "still p d L s t" and f: "f = file_byte (v_content (view_of d s)) (inodes s dp)"
    and j: "16 * j \<le> unat (i_size (inodes s dp))" and n: "n = unat (i_size (inodes s dp)) div 16"
  shows "runs (for32 (word_of_nat (16 * j)) 16 (dirlookup_step dp name)) t (looked_up p d L s f (dir_find f j n name))"
  using t j
proof (induction "n - j" arbitrary: j t)
  case 0
  have "\<not> 16 * j < unat (i_size (inodes s dp))" using 0 ok by (auto simp: n dir_ok_def)
  then have "16 * j = unat (i_size (inodes s dp))" using 0 by simp
  then have "\<not> (word_of_nat (16 * j) :: u32) < i_size (inodes t dp)"
    by (simp add: still_fs(1) [OF 0(2)] del: of_nat_mult)
  then show ?case using 0 by (simp add: runs_def for32.simps km_simps dir_find_def looked_up_def del: of_nat_mult)
next
  case (Suc k)
  have lt: "16 * j < unat (i_size (inodes s dp))" using Suc(2) by (simp add: n)
  have le: "16 * Suc j \<le> unat (i_size (inodes s dp))" using lt ok by (auto simp: dir_ok_def)
  have cons: "dir_find f j n name = (if dirent_inum f j \<noteq> 0 \<and> dirent_name f j = take DIRSIZ name then Some j else dir_find f (Suc j) n name)"
    using Suc(2) by (simp add: dir_find_def upt_conv_Cons)
  have nx: "(word_of_nat (16 * j) :: u32) + 16 = word_of_nat (16 * Suc j)" by simp
  have w: "unat (word_of_nat (16 * Suc j) :: u32) = 16 * Suc j" "unat (word_of_nat (16 * j) :: u32) = 16 * j"
    using le unat_u32 [of "i_size (inodes s dp)"] by (intro unat_of_small; simp)+
  have up: "(word_of_nat (16 * j) :: u32) < word_of_nat (16 * j) + 16"
    unfolding nx word_less_nat_alt w by simp
  define W where "W = bnd (dirlookup_step dp name (word_of_nat (16 * j))) (\<lambda>r es s. case r of
        Some v \<Rightarrow> Ret v es s
      | None \<Rightarrow> for32 (word_of_nat (16 * Suc j)) 16 (dirlookup_step dp name) es (s :: 'a kfs_scheme))"
  have eq: "for32 (word_of_nat (16 * j)) 16 (dirlookup_step dp name) es t = W es t" for es
    unfolding W_def using up by (subst for32.simps) (simp only: nx if_True)
  have "runs W t (looked_up p d L s f (dir_find f j n name))"
    unfolding W_def
  proof (rule runs_bnd [OF dirlookup_step_law [OF r ok d L free name Suc.prems(1) f lt]])
    fix x u
    assume x: "if dirent_inum f j \<noteq> 0 \<and> dirent_name f j = take DIRSIZ name
      then \<exists>y. x = Some y \<and> looked_up p d L s f (Some j) y u else x = None \<and> still p d L s u"
    have "runs (for32 (word_of_nat (16 * Suc j)) 16 (dirlookup_step dp name)) u (looked_up p d L s f (dir_find f (Suc j) n name))"
      if "still p d L s u" using Suc(2) le that by (intro Suc.hyps) simp_all
    with x show "runs (\<lambda>es s. case x of Some v \<Rightarrow> Ret v es s
      | None \<Rightarrow> for32 (word_of_nat (16 * Suc j)) 16 (dirlookup_step dp name) es s) u (looked_up p d L s f (dir_find f j n name))"
      unfolding cons by (cases x) (auto simp: runs_def split: if_splits)
  qed
  then show ?case by (simp only: runs_def eq simp_thms)
qed

lemma dirlookup_law:
  assumes r: "readable p d L s" and ok: "dir_ok (v_content (view_of d s)) (inodes s dp)" and d: "i_dev (inodes s dp) = d"
    and L: "L_icache \<notin> L" and free: "a < NINODE" "i_ref (inodes s a) = 0" and name: "0 \<notin> set name"
    and f: "f = file_byte (v_content (view_of d s)) (inodes s dp)"
  shows "runs (dirlookup dp name) s (looked_up p d L s f (dir_find f 0 (unat (i_size (inodes s dp)) div 16) name))"
  using dirlookup_loop [OF r ok d L free name readableD(4) [OF r] f, of 0] ok by (simp add: dirlookup_def dir_ok_def)

subsection \<open>An example file system\<close>

lemma fs_fields_above [simp]:
  "binv p d L (inodes_update g s) = binv p d L s" "view_of d (inodes_update g s) = view_of d s" "lg (inodes_update g s) = lg s"
  "binv p d L (sblk_update h s) = binv p d L s" "view_of d (sblk_update h s) = view_of d s" "lg (sblk_update h s) = lg s"
  by (simp_all add: binv_def quiet_upper [OF upper_fs(1)] quiet_upper [OF upper_fs(2)] view_of_def)

lemma file_state:
  "\<exists>s :: kfs. readable 0 1 {} s \<and> inodes s = F \<and> sblk s = B \<and> lg s = l \<and> v_content (view_of 1 s) = D \<and> v_ref (view_of 1 s) = (\<lambda>_. 0)"
proof -
  obtain t :: kfs where t: "binv 0 1 {} t" "idle (view_of 1 t)" "v_ref (view_of 1 t) = (\<lambda>_. 0)" "v_content (view_of 1 t) = D"
    using bio_state_init [of D "klog_ext l (kfs_ext B F ())"] unfolding runs_def by (elim allE [of _ "[]"]) blast
  then show ?thesis
    by (intro exI [of _ "(upd_log (\<lambda>_. l) t)\<lparr>inodes := F, sblk := B\<rparr>"]) (simp add: readable_def room_def)
qed

definition blank_inode :: inode where
  "blank_inode = \<lparr>i_dev = 0, i_inum = 0, i_ref = 0, i_valid = False, i_type = 0, i_major = 0, i_minor = 0, i_nlink = 0,
     i_size = 0, i_addrs = (\<lambda>_. 0)\<rparr>"

definition blank_sb :: superblock where
  "blank_sb = \<lparr>sb_magic = FSMAGIC, sb_size = 1000, sb_nblocks = 954, sb_ninodes = 200, sb_nlog = 30, sb_logstart = 2,
     sb_inodestart = 32, sb_bmapstart = 45\<rparr>"

text \<open>A root directory in block 100 with the entries \<^verbatim>\<open>.\<close> and \<^verbatim>\<open>a\<close>.\<close>

definition root_inode :: inode where
  "root_inode = blank_inode\<lparr>i_dev := 1, i_inum := 1, i_ref := 1, i_valid := True, i_type := T_DIR, i_size := 32,
     i_addrs := (\<lambda>_. 0)(0 := 100)\<rparr>"

definition root_disk :: "u32 \<Rightarrow> bytes" where
  "root_disk = (\<lambda>_ _. 0)(100 := (\<lambda>_. 0)(0 := 1, 2 := 46, 16 := 5, 18 := 97))"

subsection \<open>Properties\<close>

text \<open>
  C24: \<^verbatim>\<open>dirlookup\<close> finds the first used entry of the directory that has the name, compared as \<^verbatim>\<open>DIRSIZ\<close> bytes.
  It returns the offset of the entry and the cache entry of its inode, with one reference more: the entry that the inode
  already had, or one without references. Without such an entry it returns 0. It changes no block, no other inode,
  and keeps the cache free of a second entry for an inode.
\<close>

theorem dirlookup_correct:
  assumes "readable p d L s" "dir_ok c (inodes s dp)" "c = v_content (view_of d s)" "i_dev (inodes s dp) = d"
    and "L_icache \<notin> L" "icache_ok (inodes s)" "a < NINODE" "i_ref (inodes s a) = 0" "0 \<notin> set name"
    and "f = file_byte c (inodes s dp)" "n = unat (i_size (inodes s dp)) div 16"
  shows "runs (dirlookup dp name) s (\<lambda>x t. view_of d t = view_of d s \<and>
    (case find (\<lambda>j. dirent_inum f j \<noteq> 0 \<and> dirent_name f j = take DIRSIZ name) [0..<n] of
       None \<Rightarrow> x = None \<and> inodes t = inodes s
     | Some j \<Rightarrow> \<exists>ip < NINODE. x = Some (ip, word_of_nat (16 * j)) \<and>
         i_dev (inodes t ip) = d \<and> i_inum (inodes t ip) = ucast (dirent_inum f j) \<and> i_ref (inodes t ip) = i_ref (inodes s ip) + 1 \<and>
         (\<forall>q. q \<noteq> ip \<longrightarrow> inodes t q = inodes s q) \<and> icache_ok (inodes t)))"
proof -
  have "runs (dirlookup dp name) s (looked_up p d L s f (dir_find f 0 n name))"
    unfolding assms(11) using assms by (intro dirlookup_law) simp_all
  then show ?thesis unfolding dir_find_def
  proof (rule runs_mono)
    fix x t
    let ?r = "find (\<lambda>j. dirent_inum f j \<noteq> 0 \<and> dirent_name f j = take DIRSIZ name) [0..<n]"
    assume x: "looked_up p d L s f ?r x t"
    show "view_of d t = view_of d s \<and> (case ?r of
       None \<Rightarrow> x = None \<and> inodes t = inodes s
     | Some j \<Rightarrow> \<exists>ip < NINODE. x = Some (ip, word_of_nat (16 * j)) \<and>
         i_dev (inodes t ip) = d \<and> i_inum (inodes t ip) = ucast (dirent_inum f j) \<and> i_ref (inodes t ip) = i_ref (inodes s ip) + 1 \<and>
         (\<forall>q. q \<noteq> ip \<longrightarrow> inodes t q = inodes s q) \<and> icache_ok (inodes t))"
    proof (cases ?r)
      case None
      then show ?thesis using x by (auto simp: looked_up_def reached_def fs_kept)
    next
      case (Some j)
      then obtain ip u where u: "x = Some (ip, word_of_nat (16 * j))" "slot_for d (ucast (dirent_inum f j)) (inodes s) = Some ip"
          "still p d L s u" "t = upd_inode ip (entered d (ucast (dirent_inum f j))) u"
        using x unfolding looked_up_def Some by auto
      note sl = slot_forD [OF u(2)]
      have it: "inodes t = (inodes s)(ip := entered d (ucast (dirent_inum f j)) (inodes s ip))"
        using still_fs(1) [OF u(3)] by (simp add: u(4) upd_inode_def)
      have "icache_ok (inodes t)" unfolding it by (rule entered_ok [OF assms(6) u(2)])
      moreover have "view_of d t = view_of d s" using u(3) by (simp add: u(4) upd_inode_def reached_def)
      moreover have "i_dev (inodes t ip) = d \<and> i_inum (inodes t ip) = ucast (dirent_inum f j) \<and> i_ref (inodes t ip) = i_ref (inodes s ip) + 1"
        using sl(2) by (auto simp: it entered_def)
      ultimately show ?thesis using Some sl(1) u(1) it by auto
    qed
  qed
qed

lemma root_example:
  "dir_ok root_disk root_inode"
  "find (\<lambda>j. dirent_inum (file_byte root_disk root_inode) j \<noteq> 0 \<and> dirent_name (file_byte root_disk root_inode) j = take DIRSIZ [97])
     [0..<unat (i_size root_inode) div 16] = Some 1"
  "dirent_inum (file_byte root_disk root_inode) 1 = 5"
proof -
  have b: "file_block root_disk root_inode bn = (if bn = 0 then 100 else 0)" for bn
    by (simp add: file_block_def root_inode_def)
  then have y: "file_byte root_disk root_inode j = (if j = 0 then 1 else if j = 2 then 46 else if j = 16 then 5 else if j = 18 then 97 else 0)"
      if "j < BSIZE" for j using that by (simp add: file_byte_def root_disk_def)
  show "dir_ok root_disk root_inode" by (auto simp: dir_ok_def b) (auto simp: root_inode_def)
  have ld2: "ld16 m q = word_of_nat (unat (m q) + 256 * unat (m (Suc q)))" for m q by (simp add: ld16_def numeral_2_eq_2)
  have i: "dirent_inum (file_byte root_disk root_inode) 0 = 1" "dirent_inum (file_byte root_disk root_inode) 1 = 5"
    unfolding dirent_inum_def ld2 by (simp_all add: y)
  have n: "dirent_name (file_byte root_disk root_inode) 0 = [46]" "dirent_name (file_byte root_disk root_inode) 1 = [97]"
    unfolding dirent_name_def by (rule cstr_eqI; simp add: y)+
  show "dirent_inum (file_byte root_disk root_inode) 1 = 5" by (rule i)
  have "[0..<unat (i_size root_inode) div 16] = [0, 1]" by (simp add: root_inode_def upt_rec)
  then show "find (\<lambda>j. dirent_inum (file_byte root_disk root_inode) j \<noteq> 0 \<and> dirent_name (file_byte root_disk root_inode) j = take DIRSIZ [97])
     [0..<unat (i_size root_inode) div 16] = Some 1" using i n by simp
qed

theorem dirlookup_correct_witness:
  "\<exists>(s :: kfs) t ip. dirlookup 0 [97] [] s = Ret (Some (ip, 16)) [] t \<and> i_inum (inodes t ip) = 5"
proof -
  let ?F = "(\<lambda>_. blank_inode)(0 := root_inode)"
  obtain s :: kfs where s: "readable 0 1 {} s" "inodes s = ?F" "v_content (view_of 1 s) = root_disk"
    using file_state [of ?F blank_sb new_log root_disk] by blast
  have "icache_ok (inodes s)" by (simp add: s(2) icache_ok_def root_inode_def blank_inode_def)
  then have "runs (dirlookup 0 [97]) s (\<lambda>x t. view_of 1 t = view_of 1 s \<and>
    (case find (\<lambda>j. dirent_inum (file_byte root_disk root_inode) j \<noteq> 0 \<and> dirent_name (file_byte root_disk root_inode) j = take DIRSIZ [97])
        [0..<unat (i_size root_inode) div 16] of
       None \<Rightarrow> x = None \<and> inodes t = inodes s
     | Some j \<Rightarrow> \<exists>ip < NINODE. x = Some (ip, word_of_nat (16 * j)) \<and>
         i_dev (inodes t ip) = 1 \<and> i_inum (inodes t ip) = ucast (dirent_inum (file_byte root_disk root_inode) j) \<and>
         i_ref (inodes t ip) = i_ref (inodes s ip) + 1 \<and>
         (\<forall>q. q \<noteq> ip \<longrightarrow> inodes t q = inodes s q) \<and> icache_ok (inodes t)))"
    using root_example(1) by (intro dirlookup_correct [where a = 1 and L = "{}" and c = root_disk]) (use s in \<open>simp_all add: blank_inode_def, simp_all add: root_inode_def\<close>)
  then obtain t ip where "dirlookup 0 [97] [] s = Ret (Some (ip, word_of_nat (16 * 1))) [] t"
      "i_inum (inodes t ip) = ucast (dirent_inum (file_byte root_disk root_inode) 1)"
    unfolding root_example(2) runs_def by (elim allE [of _ "[]"]) auto
  then show ?thesis unfolding root_example(3) by (intro exI [of _ s] exI [of _ t] exI [of _ ip]) simp
qed

end
