(* ===== verification/FileWrite.thy ===== *)
theory FileWrite
  imports FileView
begin

text \<open>
  Writing files in a transaction: the effect of \<^verbatim>\<open>writei\<close> and \<^verbatim>\<open>iupdate\<close> of
  \<^verbatim>\<open>kernel/fs.c\<close> on the contents of blocks and on the log.
\<close>

subsection \<open>Changing a block in a transaction\<close>

text \<open>
  In a transaction that may still log \<open>k\<close> blocks, between operations of the process: the logged
  blocks are pinned, no other block is in use.
\<close>

definition txn :: "nat \<Rightarrow> u32 \<Rightarrow> lockid set \<Rightarrow> nat \<Rightarrow> 'z klog_scheme \<Rightarrow> bool" where
  "txn p d L k s \<longleftrightarrow> binv p d L s \<and> idle (view_of d s) \<and> L_log \<notin> L \<and> 1 \<le> log_outstanding (lg s) \<and>
     0 \<le> sint (lh_n (log_lh (lg s))) \<and> count (lg s) + k < LOGSIZE \<and> int (count (lg s) + k) < sint (log_size (lg s)) \<and>
     v_ref (view_of d s) = (\<lambda>n. if in_log (lg s) n then 1 else 0)"

lemma txn_readable:
  assumes "txn p d L k s"
  shows "readable p d L s"
proof -
  have "{n. v_ref (view_of d s) n \<noteq> 0} = home_addr (lg s) ` {..<count (lg s)}"
    using assms by (auto simp: txn_def in_log_def)
  then have "card {n. v_ref (view_of d s) n \<noteq> 0} \<le> count (lg s)"
    using card_image_le [of "{..<count (lg s)}" "home_addr (lg s)"] by simp
  then show ?thesis using assms by (simp add: txn_def readable_def room_def)
qed

lemma log_add_simps:
  "log_outstanding (log_add l n) = log_outstanding l" "log_size (log_add l n) = log_size l"
  by (simp_all add: log_add_def)

lemma log_add_count:
  assumes "0 \<le> sint (lh_n (log_lh l))" "count l < LOGSIZE"
  shows "count (log_add l n) \<le> Suc (count l)" "0 \<le> sint (lh_n (log_lh (log_add l n)))"
    "in_log (log_add l n) m \<longleftrightarrow> m = n \<or> in_log l m"
proof -
  have "sint (lh_n (log_lh l)) = int (count l)" using assms(1) by (simp add: count_def)
  moreover have "word_of_int (sint (lh_n (log_lh l))) = lh_n (log_lh l)" by simp
  ultimately have "lh_n (log_lh l) = word_of_nat (count l)" by (simp del: of_int_sint)
  then have "lh_n (log_lh l) + 1 = word_of_nat (Suc (count l))" by simp
  then have s: "sint (lh_n (log_lh l) + 1) = int (count l) + 1"
    using assms(2) by (simp only: signed_of_nat) (simp add: signed_take_bit_int_eq_self)
  have "\<not> in_log l n \<Longrightarrow> lh_n (log_lh (log_add l n)) = lh_n (log_lh l) + 1" by (simp add: log_add_def)
  then have c: "\<not> in_log l n \<Longrightarrow> count (log_add l n) = Suc (count l)" using s by (simp add: count_def [of "log_add l n"])
  then show "count (log_add l n) \<le> Suc (count l)" by (cases "in_log l n") (simp_all add: log_add_def)
  show "0 \<le> sint (lh_n (log_lh (log_add l n)))" using assms(1) s by (simp add: log_add_def)
  show "in_log (log_add l n) m \<longleftrightarrow> m = n \<or> in_log l m"
  proof (cases "in_log l n")
    case False
    then have "home_addr (log_add l n) j = (if j = count l then n else home_addr l j)" for j
      by (simp add: log_add_def home_addr_def)
    then have "(\<exists>j < Suc (count l). home_addr (log_add l n) j = m) \<longleftrightarrow> n = m \<or> (\<exists>j < count l. home_addr l j = m)"
      unfolding less_Suc_eq by (metis less_irrefl)
    then show ?thesis using c [OF False] by (auto simp: in_log_def)
  qed (auto simp: log_add_def)
qed

lemma log_kept_fs: "log_kept s t \<Longrightarrow> inodes t = inodes s \<and> sblk t = sblk s"
proof -
  assume "log_kept s t"
  then have e: "t = s\<lparr>cpus := cpus t, bufs := bufs t, lg := lg t\<rparr>" by (simp add: log_kept_def)
  from arg_cong [OF e, of inodes] arg_cong [OF e, of sblk] show ?thesis by simp
qed

text \<open>Block \<open>n\<close> has been changed to \<open>y\<close> and logged.\<close>

definition wrote :: "nat \<Rightarrow> u32 \<Rightarrow> lockid set \<Rightarrow> nat \<Rightarrow> 'z kfs_scheme \<Rightarrow> u32 \<Rightarrow> bytes \<Rightarrow> 'z kfs_scheme \<Rightarrow> bool" where
  "wrote p d L k s n y t \<longleftrightarrow> txn p d L k t \<and> v_content (view_of d t) = (v_content (view_of d s))(n := y) \<and>
     v_disk (view_of d t) = v_disk (view_of d s) \<and> lg t = log_add (lg s) n \<and> inodes t = inodes s \<and> sblk t = sblk s"

lemma write_back:
  assumes s: "txn p d L (Suc k) s" and u: "reached p d L s (got b n (view_of d s)) u"
  shows "runs (sq (modify (upd_buf b (\<lambda>x. x\<lparr>b_data := y\<rparr>))) (sq (log_write b) (sq (brelse b) (ret r)))) u
    (\<lambda>x t. x = r \<and> wrote p d L k s n y t)"
proof -
  let ?v = "view_of d s"
  let ?u = "upd_buf b (\<lambda>x. x\<lparr>b_data := y\<rparr>) u"
  have x: "reached p d L s (changed n y (got b n ?v)) ?u" by (rule reached_put [OF u]) (simp add: got_def)
  have lu: "lg ?u = lg s" by (rule reached_lg [OF x])
  note st = s [unfolded txn_def]
  have sl: "sint (lh_n (log_lh (lg s))) = int (count (lg s))" using st by (simp add: count_def)
  have lw: "runs (log_write b) ?u (\<lambda>_ t. binv p d L t \<and> lg t = log_add (lg ?u) n \<and>
    view_of d t = (if in_log (lg ?u) n then changed n y (got b n ?v)
      else (changed n y (got b n ?v))\<lparr>v_ref := (v_ref (changed n y (got b n ?v)))(n := v_ref (changed n y (got b n ?v)) n + 1)\<rparr>) \<and>
    log_kept ?u t)"
    by (rule log_write_frame) (use st sl x in \<open>simp_all add: reached_def lu view_defs\<close>)
  have fin: "runs (sq (brelse b) (ret r)) t (\<lambda>x t. x = r \<and> wrote p d L k s n y t)"
    if t: "binv p d L t" "lg t = log_add (lg s) n" "log_kept ?u t"
      "view_of d t = (if in_log (lg s) n then changed n y (got b n ?v)
      else (changed n y (got b n ?v))\<lparr>v_ref := (v_ref (changed n y (got b n ?v)))(n := v_ref (changed n y (got b n ?v)) n + 1)\<rparr>)" for t
  proof -
    have vr: "v_ref (view_of d t) = (\<lambda>m. if m = n then 2 else if in_log (lg s) m then 1 else 0)" "v_held (view_of d t) b = Some n"
      "v_content (view_of d t) = (v_content ?v)(n := y)" "v_disk (view_of d t) = v_disk ?v" "v_held (view_of d t) = (v_held ?v)(b \<mapsto> n)"
      using st by (auto simp: t(4) view_defs fun_eq_iff)
    have rt: "reached p d L t (view_of d t) t" by (rule reached_refl [OF t(1)])
    have "runs (brelse b) t (\<lambda>_. reached p d L t (given_back b n (view_of d t)))"
      by (rule reached_brelse [OF rt vr(2)]) (simp add: vr(1))
    moreover have "wrote p d L k s n y w" if w: "reached p d L t (given_back b n (view_of d t)) w" for w
    proof -
      have vw: "view_of d w = given_back b n (view_of d t)" "binv p d L w" using w by (simp_all add: reached_def)
      have lw: "lg w = log_add (lg s) n" using reached_lg [OF w] t(2) by simp
      have la: "0 \<le> sint (lh_n (log_lh (lg s)))" "count (lg s) < LOGSIZE" using st by simp_all
      have "inodes w = inodes s \<and> sblk w = sblk s"
        using still_fs [OF w] log_kept_fs [OF t(3)] still_fs [OF x] by simp
      moreover have "txn p d L k w"
        using st vw vr log_add_count [OF la, of n] by (auto simp: txn_def lw log_add_simps idle_def given_back_def fun_eq_iff)
      ultimately show ?thesis using vw vr lw by (simp add: wrote_def given_back_def)
    qed
    ultimately have "runs (brelse b) t (\<lambda>_. wrote p d L k s n y)" by (rule runs_mono)
    then show ?thesis by (rule runs_sq) simp
  qed
  show ?thesis unfolding runs_sq_modify
    by (rule runs_sq [OF lw [unfolded lu]], elim conjE, rule fin)
qed

subsection \<open>Writing a file\<close>

text \<open>The blocks of the file are distinct, and distinct from the block that lists them.\<close>

definition file_ok :: "(u32 \<Rightarrow> bytes) \<Rightarrow> inode \<Rightarrow> bool" where
  "file_ok c i \<longleftrightarrow> (\<forall>a b. file_block c i a \<noteq> 0 \<and> file_block c i a = file_block c i b \<longrightarrow> a = b) \<and>
     (\<forall>a. file_block c i a \<noteq> 0 \<longrightarrow> file_block c i a \<noteq> i_addrs i NDIRECT)"

text \<open>The blocks of the bytes from \<open>off\<close> to \<open>off + m\<close>, and the contents after a write of these bytes.\<close>

definition file_range :: "(u32 \<Rightarrow> bytes) \<Rightarrow> inode \<Rightarrow> nat \<Rightarrow> nat \<Rightarrow> u32 set" where
  "file_range c i off m = (\<lambda>j. file_block c i (j div BSIZE)) ` {off..<off + m}"

definition file_written :: "(u32 \<Rightarrow> bytes) \<Rightarrow> inode \<Rightarrow> nat \<Rightarrow> nat \<Rightarrow> bytes \<Rightarrow> nat \<Rightarrow> (u32 \<Rightarrow> bytes) \<Rightarrow> bool" where
  "file_written c i off m src a c' \<longleftrightarrow> (\<forall>n. n \<notin> file_range c i off m \<longrightarrow> c' n = c n) \<and>
     file_block c' i = file_block c i \<and> file_byte c' i = copy off src a m (file_byte c i)"

lemma file_written_0: "file_written c i off 0 src a c"
  by (simp add: file_written_def)

lemma file_range_0: "(\<And>j. off \<le> j \<Longrightarrow> j < off + m \<Longrightarrow> file_block c i (j div BSIZE) \<noteq> 0) \<Longrightarrow> 0 \<notin> file_range c i off m"
  by (auto simp: file_range_def)

lemma file_written_trans:
  assumes "file_written c i off m src a c1" "file_written c1 i (off + m) l src (a + m) c2"
  shows "file_written c i off (m + l) src a c2"
proof -
  have "file_range c i off (m + l) = file_range c i off m \<union> file_range c i (off + m) l"
    unfolding file_range_def image_Un [symmetric] by (simp add: ivl_disj_un_two(3) add.assoc)
  moreover have "file_range c1 i = file_range c i" using assms(1) by (auto simp: file_written_def file_range_def fun_eq_iff)
  ultimately show ?thesis using assms by (simp add: file_written_def copy_join)
qed

text \<open>One iteration: bytes of one block.\<close>

lemma file_written_block:
  assumes ok: "file_ok c i" and b: "b = file_block c i (off div BSIZE)" "b \<noteq> 0" and m: "0 < m" "off mod BSIZE + m \<le> BSIZE"
  shows "file_written c i off m src a (c(b := copy (off mod BSIZE) src a m (c b)))"
  unfolding file_written_def
proof (intro conjI allI impI)
  let ?c = "c(b := copy (off mod BSIZE) src a m (c b))"
  show "?c n = c n" if "n \<notin> file_range c i off m" for n
    using that m(1) b by (auto simp: file_range_def)
  have "i_addrs i NDIRECT \<noteq> b" using ok b by (auto simp: file_ok_def)
  then show fb: "file_block ?c i = file_block c i" by (simp add: file_block_def fun_eq_iff)
  show "file_byte ?c i = copy off src a m (file_byte c i)"
  proof
    fix j
    show "file_byte ?c i j = copy off src a m (file_byte c i) j"
    proof (cases "j div BSIZE = off div BSIZE")
      case True
      have "off div BSIZE * BSIZE + j mod BSIZE = j" "off div BSIZE * BSIZE + off mod BSIZE = off"
        using div_mult_mod_eq [of j BSIZE] True by simp_all
      then have "off mod BSIZE \<le> j mod BSIZE \<longleftrightarrow> off \<le> j" "j mod BSIZE < off mod BSIZE + m \<longleftrightarrow> j < off + m"
        "j mod BSIZE - off mod BSIZE = j - off" by linarith+
      then show ?thesis unfolding file_byte_def fb True b(1) [symmetric] by (simp add: copy_def True b(1))
    next
      case False
      have "\<not> (off \<le> j \<and> j < off + m)"
      proof
        assume "off \<le> j \<and> j < off + m"
        then have "off mod BSIZE + (j - off) < BSIZE" "off + (j - off) = j" using m(2) by linarith+
        with same_block(1) [of off "j - off"] False show False by simp
      qed
      moreover have "file_block c i (j div BSIZE) \<noteq> b" using ok b False by (auto simp: file_ok_def)
      ultimately show ?thesis unfolding file_byte_def fb by (auto simp: copy_def)
    qed
  qed
qed

lemma file_ok_written: "file_written c i off m src a c' \<Longrightarrow> file_ok c i \<Longrightarrow> file_ok c' i"
  unfolding file_written_def file_ok_def by auto

lemma copyin_law:
  assumes "reached p d L s v t"
  shows "runs (either_copyin x so (Kbuf a) n k) t (\<lambda>r u. r = (0, copy so k a (unat n) x) \<and> u = touch t)"
  using assms quietD(5) [of p L t] by (auto simp: reached_def binv_def runs_def km_simps myproc_run)

text \<open>The bytes \<open>off\<close> to \<open>off + m\<close> of the file of inode \<open>ip\<close> have been written.\<close>

definition file_put :: "nat \<Rightarrow> u32 \<Rightarrow> lockid set \<Rightarrow> nat \<Rightarrow> 'z kfs_scheme \<Rightarrow> nat \<Rightarrow> nat \<Rightarrow> nat \<Rightarrow> bytes \<Rightarrow> nat \<Rightarrow> 'z kfs_scheme \<Rightarrow> bool" where
  "file_put p d L k s ip off m src a t \<longleftrightarrow> txn p d L k t \<and>
     file_written (v_content (view_of d s)) (inodes s ip) off m src a (v_content (view_of d t)) \<and>
     v_disk (view_of d t) = v_disk (view_of d s) \<and> inodes t = inodes s \<and> sblk t = sblk s"

lemma file_put_trans:
  "file_put p d L j s ip off m src a t \<Longrightarrow> file_put p d L k t ip (off + m) l src (a + m) u \<Longrightarrow> file_put p d L k s ip off (m + l) src a u"
  unfolding file_put_def by (auto elim: file_written_trans)

abbreviation writei_step :: "nat \<Rightarrow> kaddr \<Rightarrow> u32 \<Rightarrow> u32 \<Rightarrow> bytes \<Rightarrow> ('z kfs_scheme, int) km" where
  "writei_step ip src off m k \<equiv>
     bnd (bmap ip (off div 1024)) (\<lambda>a.
     bnd (gets (\<lambda>s. i_dev (inodes s ip))) (\<lambda>dev.
     bnd (bread dev a) (\<lambda>bp.
     bnd (gets (\<lambda>s. b_data (bufs s bp))) (\<lambda>d.
     bnd (either_copyin d (unat (off mod 1024)) src (ucast m) k) (\<lambda>r.
     sq (modify (upd_buf bp (\<lambda>x. x\<lparr>b_data := snd r\<rparr>)))
     (sq (whenk (fst r \<noteq> -1) (log_write bp))
     (sq (brelse bp) (ret (fst r)))))))))"

lemma write_piece:
  fixes m :: u32
  assumes s: "txn p d L (Suc k) s" and d: "i_dev (inodes s ip) = d" and c: "c = v_content (view_of d s)" and ok: "file_ok c (inodes s ip)"
    and bl: "file_block c (inodes s ip) (unat off div BSIZE) \<noteq> 0" and m: "0 < unat m" "unat off mod BSIZE + unat m \<le> BSIZE"
  shows "runs (writei_step ip (Kbuf a) off m src) s
    (\<lambda>x t. x = 0 \<and> file_put p d L k s ip (unat off) (unat m) src a t)"
proof -
  let ?i = "inodes s ip"
  let ?b = "file_block c ?i (unat off div BSIZE)"
  let ?y = "copy (unat off mod BSIZE) src a (unat m) (c ?b)"
  note r = txn_readable [OF s]
  have "unat (off div 1024) = unat off div BSIZE" by (simp add: unat_div)
  then have bm: "runs (bmap ip (off div 1024)) s (\<lambda>x u. x = ?b \<and> still p d L s u)"
    using bmap_law [OF r readableD(4) [OF r] d, of "off div 1024"] bl by (simp add: c)
  have cu: "unat (ucast m :: u64) = unat m"
    using unat_u32 [of m] by (simp add: unsigned_ucast_eq take_bit_nat_eq_self)
  have fin: "x = 0 \<and> file_put p d L k s ip (unat off) (unat m) src a t"
    if "x = (0 :: int) \<and> wrote p d L k s ?b ?y t" for x t
    using that file_written_block [OF ok refl bl m, of src a] by (simp add: wrote_def file_put_def c)
  show ?thesis
  proof (rule runs_bnd [OF bm], elim conjE)
    fix x u assume u: "x = ?b" "still p d L s u"
    show "runs (bnd (gets (\<lambda>s. i_dev (inodes s ip))) (\<lambda>dev. bnd (bread dev x) (\<lambda>bp.
             bnd (gets (\<lambda>s. b_data (bufs s bp))) (\<lambda>d.
             bnd (either_copyin d (unat (off mod 1024)) (Kbuf a) (ucast m) src) (\<lambda>r.
             sq (modify (upd_buf bp (\<lambda>x. x\<lparr>b_data := snd r\<rparr>)))
             (sq (whenk (fst r \<noteq> -1) (log_write bp))
             (sq (brelse bp) (ret (fst r))))))))) u
       (\<lambda>x t. x = 0 \<and> file_put p d L k s ip (unat off) (unat m) src a t)"
      unfolding runs_bnd_gets still_fs(1) [OF u(2)] d
    proof (rule read_block [OF r u(2)], unfold runs_bnd_gets)
      fix b w
      assume w: "reached p d L s (got b x (view_of d s)) w" "b_data (bufs w b) = v_content (view_of d s) x"
      have y: "copy (unat (off mod 1024)) src a (unat (ucast m :: u64)) (b_data (bufs w b)) = ?y"
        by (simp only: cu w(2) u(1) c unat_mod) simp
      show "runs (bnd (either_copyin (b_data (bufs w b)) (unat (off mod 1024)) (Kbuf a) (ucast m) src) (\<lambda>r.
             sq (modify (upd_buf b (\<lambda>x. x\<lparr>b_data := snd r\<rparr>)))
             (sq (whenk (fst r \<noteq> -1) (log_write b))
             (sq (brelse b) (ret (fst r)))))) w
        (\<lambda>x t. x = 0 \<and> file_put p d L k s ip (unat off) (unat m) src a t)"
      proof (rule runs_bnd [OF copyin_law [OF w(1)]], elim conjE)
        fix r :: "int \<times> bytes" and t
        assume t: "r = (0, copy (unat (off mod 1024)) src a (unat (ucast m :: u64)) (b_data (bufs w b)))" "t = touch w"
        have w0: "whenk ((0 :: int) \<noteq> -1) (log_write b) = log_write b" by (simp add: whenk_def)
        show "runs (sq (modify (upd_buf b (\<lambda>x. x\<lparr>b_data := snd r\<rparr>))) (sq (whenk (fst r \<noteq> -1) (log_write b)) (sq (brelse b) (ret (fst r))))) t
          (\<lambda>x t. x = 0 \<and> file_put p d L k s ip (unat off) (unat m) src a t)"
          unfolding t fst_conv snd_conv w0 y
          by (rule runs_mono [OF write_back [OF s reached_touch [OF w(1) [unfolded u(1)]]]], rule fin)
      qed
    qed
  qed
qed

lemma txn_mono: "txn p d L (k + r) s \<Longrightarrow> txn p d L r s"
  by (auto simp: txn_def)

lemma piece_budget:
  assumes "0 < n" "off mod BSIZE + n \<le> Suc k * BSIZE" "m = min n (BSIZE - off mod BSIZE)"
  shows "n - m = 0 \<or> (off + m) mod BSIZE + (n - m) \<le> k * BSIZE"
proof (cases "n \<le> BSIZE - off mod BSIZE")
  case False
  then have m: "m = BSIZE - off mod BSIZE" using assms(3) by simp
  have "off mod BSIZE < BSIZE" by simp
  then have "off + m = off div BSIZE * BSIZE + BSIZE" using m div_mult_mod_eq [of off BSIZE] by linarith
  then have "(off + m) mod BSIZE = 0" by simp
  moreover have "n - m \<le> k * BSIZE" using assms(2) m False \<open>off mod BSIZE < BSIZE\<close> by simp
  ultimately show ?thesis by simp
qed (use assms(3) in simp)

lemma writei_loop_law:
  assumes t: "txn p d L (k + r) t" and d: "i_dev (inodes t ip) = d" and ok: "file_ok (v_content (view_of d t)) (inodes t ip)"
    and le: "tot \<le> n" and small: "unat off + unat (n - tot) < 2 ^ 32"
    and blocks: "\<And>j. unat off \<le> j \<Longrightarrow> j < unat off + unat (n - tot) \<Longrightarrow> file_block (v_content (view_of d t)) (inodes t ip) (j div BSIZE) \<noteq> 0"
    and bound: "unat (n - tot) = 0 \<or> unat off mod BSIZE + unat (n - tot) \<le> k * BSIZE"
  shows "runs (writei_loop ip (Kbuf a) off n tot src) t
    (\<lambda>x u. unat x = unat off + unat (n - tot) \<and> file_put p d L r t ip (unat off) (unat (n - tot)) src a u)"
  using assms
proof (induction "unat (n - tot)" arbitrary: a off tot t k rule: less_induct)
  case less
  let ?i = "inodes t ip"
  let ?c = "v_content (view_of d t)"
  show ?case
  proof (cases "tot < n")
    case False
    then have "tot = n" using less.prems(4) by simp
    then show ?thesis using txn_mono [OF less.prems(1)] by (simp add: runs_def writei_loop.simps file_put_def file_written_0)
  next
    case True
    let ?m = "piece off (n - tot)"
    have m: "unat ?m = min (unat (n - tot)) (BSIZE - unat off mod BSIZE)" by (rule unat_piece)
    have om: "unat (off + ?m) = unat off + unat ?m"
      using less.prems(5) by (intro iffD1 [OF unat_add_lem]) (simp add: m)
    note tn = piece_fits [OF less.prems(4), of off]
    have pos: "0 < unat (n - tot)" using True by (simp add: unat_gt_0)
    then obtain k' where k: "k = Suc k'" using less.prems(7) by (cases k) simp_all
    have mp: "0 < unat ?m" "unat off mod BSIZE + unat ?m \<le> BSIZE"
      using pos mod_less_divisor [of BSIZE "unat off"] m by (auto simp: min_def)
    have split: "unat ?m + (unat (n - tot) - unat ?m) = unat (n - tot)" using m by simp
    have bud: "unat (n - (tot + ?m)) = 0 \<or> unat (off + ?m) mod BSIZE + unat (n - (tot + ?m)) \<le> k' * BSIZE"
      unfolding tn(2) om using less.prems(7) pos k m by (intro piece_budget) simp_all
    have bl: "file_block ?c ?i (j div BSIZE) \<noteq> 0" if "unat off + unat ?m \<le> j" "j < unat off + unat (n - tot)" for j
      using that by (intro less.prems(6)) simp_all
    have sm: "unat (off + ?m) + unat (n - (tot + ?m)) < 2 ^ 32" using less.prems(5) by (simp add: tn(2) om split add.assoc)
    have rest: "runs (writei_loop ip (kaddr_add (Kbuf a) (unat ?m)) (off + ?m) n (tot + ?m) src) u
        (\<lambda>x w. unat x = unat off + unat (n - tot) \<and> file_put p d L r t ip (unat off) (unat (n - tot)) src a w)"
      if u: "file_put p d L (k' + r) t ip (unat off) (unat ?m) src a u" for u
    proof -
      note fu = u [unfolded file_put_def]
      have fb: "file_block (v_content (view_of d u)) ?i = file_block ?c ?i" using fu by (simp add: file_written_def)
      have "runs (writei_loop ip (Kbuf (a + unat ?m)) (off + ?m) n (tot + ?m) src) u
        (\<lambda>x w. unat x = unat (off + ?m) + unat (n - (tot + ?m)) \<and>
          file_put p d L r u ip (unat (off + ?m)) (unat (n - (tot + ?m))) src (a + unat ?m) w)"
      proof (rule less.hyps [OF piece_decreases [OF True] _ _ _ tn(1) sm _ bud])
        show "txn p d L (k' + r) u" "i_dev (inodes u ip) = d" using fu less.prems(2) by simp_all
        show "file_ok (v_content (view_of d u)) (inodes u ip)" using file_ok_written [of ?c ?i "unat off" "unat ?m" src a] fu less.prems(3) by simp
        show "file_block (v_content (view_of d u)) (inodes u ip) (j div BSIZE) \<noteq> 0"
          if "unat (off + ?m) \<le> j" "j < unat (off + ?m) + unat (n - (tot + ?m))" for j
          using that bl [of j] fu fb by (simp add: om tn(2) split add.assoc)
      qed
      then show ?thesis unfolding kaddr_add.simps
        by (rule runs_mono) (use file_put_trans [OF u, where l = "unat (n - tot) - unat ?m"] in \<open>simp add: om tn(2) split add.assoc\<close>)
    qed
    define W :: "('a kfs_scheme, u32) km" where "W = bnd (writei_step ip (Kbuf a) off ?m src)
          (\<lambda>r es s.
             if r = -1 then Ret off es s
             else writei_loop ip (kaddr_add (Kbuf a) (unat ?m)) (off + ?m) n (tot + ?m) src es s)"
    have eq: "writei_loop ip (Kbuf a) off n tot src es t = W es t" for es
      unfolding W_def using True by (subst writei_loop.simps) simp
    have "file_block ?c ?i (unat off div BSIZE) \<noteq> 0" using less.prems(6) [of "unat off"] pos by simp
    then have step: "runs (writei_step ip (Kbuf a) off ?m src) t (\<lambda>x u. x = 0 \<and> file_put p d L (k' + r) t ip (unat off) (unat ?m) src a u)"
      using less.prems(1) k by (intro write_piece [OF _ less.prems(2) refl less.prems(3) _ mp]) simp_all
    have "runs W t (\<lambda>x u. unat x = unat off + unat (n - tot) \<and> file_put p d L r t ip (unat off) (unat (n - tot)) src a u)"
      unfolding W_def by (rule runs_bnd [OF step]) (use rest in \<open>auto simp: runs_def\<close>)
    then show ?thesis by (simp only: runs_def eq simp_thms)
  qed
qed

subsection \<open>The inode on disk\<close>

lemma inode_above [simp]:
  "binv p d L (upd_inode ip f s) = binv p d L s" "view_of d (upd_inode ip f s) = view_of d s" "lg (upd_inode ip f s) = lg s"
  "sblk (upd_inode ip f s) = sblk s" "txn p d L k (upd_inode ip f s) = txn p d L k s"
  "inodes (upd_inode ip f s) = (inodes s)(ip := f (inodes s ip))"
proof -
  have up: "upper (upd_inode ip f)" for f by (simp add: upper_defs upd_inode_def)
  show b: "binv p d L (upd_inode ip f s) = binv p d L s" "view_of d (upd_inode ip f s) = view_of d s"
    by (simp_all add: binv_def quiet_def free_except_def upper_simps [OF up] view_of_def) (simp_all add: upd_inode_def)
  show "lg (upd_inode ip f s) = lg s" "sblk (upd_inode ip f s) = sblk s" "inodes (upd_inode ip f s) = (inodes s)(ip := f (inodes s ip))"
    by (simp_all add: upd_inode_def)
  then show "txn p d L k (upd_inode ip f s) = txn p d L k s" by (simp add: txn_def b)
qed

lemma iupdate_law:
  assumes s: "txn p d L (Suc k) s" and d: "i_dev (inodes s ip) = d" and ib: "ib = IBLOCK (i_inum (inodes s ip)) (sblk s)"
  shows "runs (iupdate ip) s (\<lambda>_. wrote p d L k s ib
    (st_dinode (inode_off (i_inum (inodes s ip))) (dinode_of (inodes s ip)) (v_content (view_of d s) ib)))"
proof -
  let ?i = "inodes s ip"
  let ?y = "st_dinode (inode_off (i_inum ?i)) (dinode_of ?i) (v_content (view_of d s) ib)"
  note r = txn_readable [OF s]
  have "runs (bnd (bread d ib) (\<lambda>bp.
     seqs [modify (\<lambda>s. upd_buf bp (\<lambda>x. x\<lparr>b_data := st_dinode (inode_off (i_inum ?i)) (dinode_of (inodes s ip)) (b_data x)\<rparr>) s),
           log_write bp, brelse bp])) s (\<lambda>_. wrote p d L k s ib ?y)"
  proof (rule read_block [OF r readableD(4) [OF r]])
    fix b u assume u: "reached p d L s (got b ib (view_of d s)) u" "b_data (bufs u b) = v_content (view_of d s) ib"
    have e: "upd_buf b (\<lambda>x. x\<lparr>b_data := st_dinode (inode_off (i_inum ?i)) (dinode_of (inodes u ip)) (b_data x)\<rparr>) u = upd_buf b (\<lambda>x. x\<lparr>b_data := ?y\<rparr>) u"
      by (simp add: upd_buf_def u(2) still_fs(1) [OF u(1)])
    show "runs (seqs [modify (\<lambda>s. upd_buf b (\<lambda>x. x\<lparr>b_data := st_dinode (inode_off (i_inum ?i)) (dinode_of (inodes s ip)) (b_data x)\<rparr>) s),
           log_write b, brelse b]) u (\<lambda>_. wrote p d L k s ib ?y)"
      using write_back [OF s u(1), of ?y "()"] unfolding seqs.simps sq_ret runs_sq_modify e by simp
  qed
  then show ?thesis by (simp add: iupdate_def d ib)
qed

definition grown :: "u32 \<Rightarrow> inode \<Rightarrow> inode" where
  "grown off i = (if i_size i < off then i\<lparr>i_size := off\<rparr> else i)"

lemma grown_block [simp]: "file_block c (grown off i) = file_block c i" "file_byte c (grown off i) = file_byte c i"
  "i_dev (grown off i) = i_dev i" "i_inum (grown off i) = i_inum i" "i_addrs (grown off i) = i_addrs i"
  by (auto simp: grown_def file_block_def file_byte_def fun_eq_iff)

text \<open>A write within blocks that are allocated.\<close>

lemma writei_law:
  assumes s: "txn p d L (k + Suc r) s" and d: "i_dev (inodes s ip) = d" and c: "c = v_content (view_of d s)"
    and ok: "file_ok c (inodes s ip)" and ib: "ib = IBLOCK (i_inum (inodes s ip)) (sblk s)"
    and off: "unat off \<le> unat (i_size (inodes s ip))" and n: "0 < unat n" "unat off + unat n \<le> MAXFILE * BSIZE"
    and blocks: "\<And>j. unat off \<le> j \<Longrightarrow> j < unat off + unat n \<Longrightarrow> file_block c (inodes s ip) (j div BSIZE) \<noteq> 0"
    and bound: "unat off mod BSIZE + unat n \<le> k * BSIZE"
  shows "runs (writei ip (Kbuf a) off n src) s (\<lambda>x t. x = int (unat n) \<and> txn p d L r t \<and>
    (\<exists>c1. file_written c (inodes s ip) (unat off) (unat n) src a c1 \<and>
      v_content (view_of d t) = c1(ib := st_dinode (inode_off (i_inum (inodes s ip))) (dinode_of (grown (off + n) (inodes s ip))) (c1 ib))) \<and>
    v_disk (view_of d t) = v_disk (view_of d s) \<and> inodes t = (inodes s)(ip := grown (off + n) (inodes s ip)) \<and> sblk t = sblk s)"
proof -
  let ?i = "inodes s ip"
  have sum: "unat (off + n) = unat off + unat n" using n(2) by (intro iffD1 [OF unat_add_lem]) simp
  have guards: "\<not> i_size ?i < off" "\<not> off + n < off" "\<not> word_of_nat (MAXFILE * BSIZE) < off + n" "0 < n"
    using off n sum by (simp_all add: word_less_nat_alt)
  have sn: "sint n = int (unat n)"
  proof -
    have "int (unat n) < 2147483648" using n(2) by linarith
    then have "uint n < 2147483648" "- 2147483648 \<le> uint n" using unsigned_greater_eq [of n, where 'a = int] by (simp, linarith)
    then show ?thesis using signed_take_bit_int_eq_self [of 31 "uint n"] by (simp add: sint_uint)
  qed
  have loop: "runs (writei_loop ip (Kbuf a) off n 0 src) s
    (\<lambda>x u. unat x = unat off + unat (n - 0) \<and> file_put p d L (Suc r) s ip (unat off) (unat (n - 0)) src a u)"
    by (rule writei_loop_law [OF s d]) (use ok blocks bound n in \<open>simp_all add: c\<close>)
  have fin: "runs (sq (modify (upd_inode ip (\<lambda>i. if i_size i < x then i\<lparr>i_size := x\<rparr> else i))) (iupdate ip)) u
    (\<lambda>_ t. txn p d L r t \<and>
    (\<exists>c1. file_written c ?i (unat off) (unat n) src a c1 \<and>
      v_content (view_of d t) = c1(ib := st_dinode (inode_off (i_inum ?i)) (dinode_of (grown (off + n) ?i)) (c1 ib))) \<and>
    v_disk (view_of d t) = v_disk (view_of d s) \<and> inodes t = (inodes s)(ip := grown (off + n) ?i) \<and> sblk t = sblk s)"
    if x: "unat x = unat off + unat n" and u: "file_put p d L (Suc r) s ip (unat off) (unat n) src a u" for x u
  proof -
    have xe: "x = off + n" using x sum by (metis unsigned_word_eqI)
    let ?u = "upd_inode ip (grown (off + n)) u"
    note fu = u [unfolded file_put_def]
    have iu: "inodes ?u = (inodes s)(ip := grown (off + n) ?i)" using fu by simp
    have "runs (iupdate ip) ?u (\<lambda>_. wrote p d L r ?u ib
      (st_dinode (inode_off (i_inum (inodes ?u ip))) (dinode_of (inodes ?u ip)) (v_content (view_of d ?u) ib)))"
      by (rule iupdate_law) (use fu d ib in simp_all)
    then have "runs (iupdate ip) ?u (\<lambda>_ t. txn p d L r t \<and>
      (\<exists>c1. file_written c ?i (unat off) (unat n) src a c1 \<and>
        v_content (view_of d t) = c1(ib := st_dinode (inode_off (i_inum ?i)) (dinode_of (grown (off + n) ?i)) (c1 ib))) \<and>
      v_disk (view_of d t) = v_disk (view_of d s) \<and> inodes t = (inodes s)(ip := grown (off + n) ?i) \<and> sblk t = sblk s)"
      by (rule runs_mono) (use fu in \<open>auto simp: wrote_def c\<close>)
    then show ?thesis unfolding runs_sq_modify xe grown_def [symmetric, abs_def] .
  qed
  have "runs (bnd (writei_loop ip (Kbuf a) off n 0 src) (\<lambda>x. sq (sq (modify (upd_inode ip (\<lambda>i. if i_size i < x then i\<lparr>i_size := x\<rparr> else i))) (iupdate ip)) (ret (sint n)))) s
    (\<lambda>x t. x = int (unat n) \<and> txn p d L r t \<and>
    (\<exists>c1. file_written c ?i (unat off) (unat n) src a c1 \<and>
      v_content (view_of d t) = c1(ib := st_dinode (inode_off (i_inum ?i)) (dinode_of (grown (off + n) ?i)) (c1 ib))) \<and>
    v_disk (view_of d t) = v_disk (view_of d s) \<and> inodes t = (inodes s)(ip := grown (off + n) ?i) \<and> sblk t = sblk s)"
    by (rule runs_bnd [OF loop], rule runs_sq, rule fin) (simp_all add: sn)
  then show ?thesis using guards by (simp add: writei_def whenk_def)
qed

lemma ld32_st_addrs: "a + 4 \<le> b \<Longrightarrow> ld32 (st_addrs n b f m) a = ld32 m a"
  by (induction n) (simp_all add: bytes_simps)

lemma st_dinode_size: "d_size (ld_dinode (st_dinode q x m) q) = d_size x"
  by (simp add: ld_dinode_def st_dinode_def ld32_st_addrs bytes_simps del: st_addrs.simps)

subsection \<open>Properties\<close>


text \<open>A file of 2000 bytes in blocks 100 and 101, written across the border of the blocks.\<close>

definition file_inode :: inode where
  "file_inode = blank_inode\<lparr>i_dev := 1, i_inum := 7, i_ref := 1, i_valid := True, i_type := T_FILE, i_nlink := 1, i_size := 2000,
     i_addrs := (\<lambda>_. 0)(0 := 100, 1 := 101)\<rparr>"


end
