(* ===== verification/Spec2Isabelle.thy ===== *)
theory Spec2Isabelle
  imports Boot SleepWakeup PipeQueue Grep ProgsRun Ulib ShellRun Malloc Asm FileWrite
begin

text \<open>
  A verification library for an xv6 kernel for RISC-V and its user programs.

  \<^bold>\<open>The program.\<close> \<^verbatim>\<open>src/kernel\<close> is a small Unix kernel in C: physical page allocation, page
  tables, processes and scheduling, spin and sleep locks, a disk driver, a buffer cache, a
  write-ahead log, a file system with inodes, directories, pipes and devices, system calls,
  traps and the console. \<^verbatim>\<open>src/user\<close> has the C library and the programs, which reach the kernel
  through system calls only. The layers call downwards: system calls use files, pipes and processes,
  files use the inodes, these the log, the log the buffer cache, the cache the disk driver; all of them
  use locks, \<^verbatim>\<open>sleep\<close> and \<^verbatim>\<open>wakeup\<close>.

  \<^bold>\<open>How kernel code is represented.\<close> A routine of type \<open>('s, 'a) km\<close> (\<open>Kmonad\<close>) maps a schedule and a
  state to an outcome: it returns, panics with a message, spins for ever on a lock, is switched away
  and never resumed, or loops for ever. The schedule is the list of what the rest of the system does each time the
  thread gives up the hart in \<^verbatim>\<open>swtch\<close>; the theorems hold for every schedule. The state is a record that every
  component extends in the order of the call graph (\<open>machine\<close>, \<open>kmem\<close>, \<open>vm\<close>, \<open>kproc\<close>, \<open>kuart\<close>, \<open>kcons\<close>,
  \<open>ksleep\<close>, \<open>kbio\<close>, \<open>klog\<close>, \<open>kfs\<close>, \<open>kfile\<close>, \<open>kvirtio\<close>, \<open>ktrap\<close>); a routine is polymorphic in the extensions
  above it. Memory and disk blocks are byte arrays (\<open>Prelude\<close>), C integers are words of their width, a pointer
  into a static table is its index, a pointer to a page a 64-bit address. Device registers are a stream of the values
  they will read as and a trace of the writes.

  \<^bold>\<open>How user code is represented.\<close> A program (\<open>User\<close>) is a function of the answers it gets to its system calls
  and yields the trace of its calls with its end: it returns, exits, waits in a call without an answer, or does
  something C leaves undefined.

  \<^bold>\<open>Which theory models what.\<close>
  \<^item> \<open>Riscv\<close>, \<open>Spinlock\<close>: \<^verbatim>\<open>riscv.h\<close>, \<^verbatim>\<open>memlayout.h\<close>, \<^verbatim>\<open>spinlock.c\<close>; \<open>Section\<close> has the reasoning about
    critical sections that every later component uses, and total correctness \<open>runs m s P\<close>.
  \<^item> \<open>KString\<close>, \<open>Kalloc\<close>: \<^verbatim>\<open>string.c\<close>, \<^verbatim>\<open>kalloc.c\<close>.
  \<^item> \<open>Vm\<close>: \<^verbatim>\<open>vm.c\<close>. \<open>PageTable\<close>, \<open>VmWalk\<close>, \<open>VmMap\<close>, \<open>AddrSpace\<close>, \<open>UserMem\<close> and \<open>CopyUser\<close> have its proofs.
  \<^item> \<open>Proc\<close>, \<open>Process\<close>, \<open>SleepWakeup\<close>: \<^verbatim>\<open>proc.c\<close>, below and above the file system, and the protocol of \<^verbatim>\<open>sleep\<close>.
  \<^item> \<open>Uart\<close>, \<open>Console\<close>, \<open>Sleeplock\<close>: \<^verbatim>\<open>uart.c\<close>, \<^verbatim>\<open>printf.c\<close>, \<^verbatim>\<open>console.c\<close>, \<^verbatim>\<open>sleeplock.c\<close>.
  \<^item> \<open>Bio\<close>, \<open>Log\<close>, \<open>Fs\<close>: \<^verbatim>\<open>bio.c\<close>, \<^verbatim>\<open>log.c\<close>, \<^verbatim>\<open>fs.c\<close>, with the proofs in \<open>BioView\<close>, \<open>LogView\<close>, \<open>FileView\<close>
    and \<open>FileWrite\<close>. \<open>Virtio\<close> is the disk driver \<^verbatim>\<open>virtio_disk.c\<close>; the cache uses its effect on the disk, \<open>disk_rw\<close>.
  \<^item> \<open>Pipe\<close>, \<open>PipeQueue\<close>, \<open>File\<close>: \<^verbatim>\<open>pipe.c\<close> and \<^verbatim>\<open>file.c\<close>; \<open>Ring\<close> is the interface of a bounded queue.
  \<^item> \<open>Sysarg\<close>, \<open>Exec\<close>, \<open>Sysfile\<close>, \<open>Syscall\<close>, \<open>Trap\<close>, \<open>Boot\<close>: \<^verbatim>\<open>syscall.c\<close>, \<^verbatim>\<open>exec.c\<close>, \<^verbatim>\<open>sysfile.c\<close>,
    \<^verbatim>\<open>sysproc.c\<close>, \<^verbatim>\<open>trap.c\<close>, \<^verbatim>\<open>plic.c\<close>, \<^verbatim>\<open>start.c\<close>, \<^verbatim>\<open>main.c\<close>.
  \<^item> \<open>Asm\<close>: the instructions of \<^verbatim>\<open>trampoline.S\<close>, \<^verbatim>\<open>kernelvec.S\<close>, \<^verbatim>\<open>swtch.S\<close> and \<^verbatim>\<open>entry.S\<close> on a hart of registers and
    memory behind a translation.
  \<^item> \<open>User\<close>, \<open>Ulib\<close>, \<open>Malloc\<close>: \<^verbatim>\<open>ulib.c\<close>, \<^verbatim>\<open>printf.c\<close>, \<^verbatim>\<open>usys.pl\<close>, \<^verbatim>\<open>umalloc.c\<close> of \<^verbatim>\<open>src/user\<close>.
  \<^item> \<open>Progs\<close>, \<open>ProgsRun\<close>, \<open>Grep\<close>, \<open>Shell\<close>, \<open>ShellRun\<close>: the programs, \<^verbatim>\<open>grep.c\<close> and \<^verbatim>\<open>sh.c\<close>.

  \<^bold>\<open>What is proved.\<close>
  \<^item> Locks: \<^verbatim>\<open>acquire\<close> and \<^verbatim>\<open>release\<close> restore the machine, interrupts nest, and under every interleaving of single memory
    accesses at most one hart is in a critical section. No wakeup is lost by \<^verbatim>\<open>sleep\<close>.
  \<^item> Memory: the free list is exactly the unused pages (locale \<open>page_pool\<close>), an address space grows and shrinks page by page
    and conserves pages also when it fails half way, and copies to and from user memory respect the user bit of every page.
  \<^item> Disk: the cache refines a store of blocks (locale \<open>block_store\<close>), a commit interrupted after any prefix of its disk writes
    is recovered entirely or not at all, what \<^verbatim>\<open>writei\<close> wrote is what \<^verbatim>\<open>readi\<close> reads, and \<^verbatim>\<open>dirlookup\<close> finds the first
    entry with a name. The clients of a lower layer use its laws only.
  \<^item> Pipes refine a bounded queue of bytes (locale \<open>bounded_queue\<close>) across the wrap-around of their counters.
  \<^item> Traps and context switches give back the registers of what they interrupted.
  \<^item> User programs: the matcher of \<^verbatim>\<open>grep\<close> decides the language of its pattern, the parser of the shell terminates and inverts
    printing of commands, \<^verbatim>\<open>malloc\<close> returns disjoint blocks, \<^verbatim>\<open>itoa\<close> and \<^verbatim>\<open>atoi\<close> are inverse.

  \<^bold>\<open>Bounds.\<close> A loop over a 32-bit counter is a recursion on what is left of it; one that would wrap is \<open>Diverge\<close>. A loop that waits
  (\<open>wait_loop\<close>) consumes a schedule entry per turn; one that polls a device consumes a register value. The scans of \<^verbatim>\<open>bget\<close> take one
  step more than there are buffers, which suffices on every list the invariant allows. \<^verbatim>\<open>freewalk\<close> has the three
  levels of a page table. The parser of the shell has a depth of \<open>4 * length + 4\<close>, shown to be enough for every line; the walks of
  \<^verbatim>\<open>malloc\<close> and \<^verbatim>\<open>free\<close> have a bound on their steps, shown to be enough for every well-formed list; \<^verbatim>\<open>find\<close> descends at most
  512 levels, which its buffer for a path of 512 bytes does not reach.

  \<^bold>\<open>Not modelled.\<close> \<^verbatim>\<open>user/usertests.c\<close>, \<^verbatim>\<open>user/grind.c\<close> and \<^verbatim>\<open>user/xargstest.sh\<close> are test drivers: sequences of system calls
  whose point is the behaviour of the kernel that runs them. \<^verbatim>\<open>kernel/ramdisk.c\<close> is not part of the build and refers to names
  that no longer exist. \<^verbatim>\<open>mkfs/mkfs.c\<close> runs on the build host. Headers with prototypes and types only, and the linker script,
  have no behaviour of their own: symbols the linker defines are constant fields of the state. The hardware is modelled as
  far as the kernel can see it: no translation look-aside buffer, no memory reordering; the device side of the
  disk and of the serial port is arbitrary.
\<close>

end
